(* ===== verification/CBase.thy ===== *)
theory CBase
  imports Main "HOL-Library.Word"
begin

text \<open>
  Prelude of the development: the C integer types the drivers use, a byte-addressed
  memory with the little-endian accessors \<open>READ_WORD\<close>, \<open>WRITE_WORD\<close>,
  \<open>READ_DWORD\<close> and \<open>WRITE_DWORD\<close> of \<open>kernel/platform.h\<close>, the alignment
  expression used by the message queues, and the generic lemmas the components share.

  Addresses and lengths are \<open>nat\<close>; a value stored into a C \<open>word\<close> is reduced
  modulo \<open>2^16\<close> where the code can overflow it. Flag bytes are machine words.
\<close>

unbundle bit_operations_syntax

named_theorems mem_simps \<open>reads after writes\<close>
named_theorems rep_intros \<open>representation predicates are kept\<close>

type_synonym byte = "8 word"
type_synonym dword = "32 word"
type_synonym mem = "nat \<Rightarrow> byte"

section \<open>Byte memory\<close>

definition rd16 :: "mem \<Rightarrow> nat \<Rightarrow> nat" where
  "rd16 m p = unat (m p) + 256 * unat (m (p + 1))"

definition rd32 :: "mem \<Rightarrow> nat \<Rightarrow> nat" where
  "rd32 m p = rd16 m p + 65536 * rd16 m (p + 2)"

definition wr16 :: "mem \<Rightarrow> nat \<Rightarrow> nat \<Rightarrow> mem" where
  "wr16 m p v = m(p := word_of_nat v, p + 1 := word_of_nat (v div 256))"

definition wr32 :: "mem \<Rightarrow> nat \<Rightarrow> nat \<Rightarrow> mem" where
  "wr32 m p v = wr16 (wr16 m p v) (p + 2) (v div 65536)"

definition wr_bytes :: "mem \<Rightarrow> nat \<Rightarrow> byte list \<Rightarrow> mem" where
  "wr_bytes m p xs = (\<lambda>i. if p \<le> i \<and> i < p + length xs then xs ! (i - p) else m i)"

definition rd_bytes :: "mem \<Rightarrow> nat \<Rightarrow> nat \<Rightarrow> byte list" where
  "rd_bytes m p n = map (\<lambda>i. m (p + i)) [0..<n]"

lemma unat_byte_of_nat [simp]: "unat (word_of_nat n :: byte) = n mod 256"
  by (simp add: unat_of_nat)

lemma rd16_wr16 [mem_simps]: "rd16 (wr16 m p v) p = v mod 65536"
proof -
  have "v mod 256 + 256 * (v div 256 mod 256) = v mod (256 * 256)"
    using mod_mult2_eq [of v 256 256] by linarith
  then show ?thesis by (simp add: rd16_def wr16_def)
qed

lemma rd16_wr16_other [mem_simps]: "p + 2 \<le> q \<or> q + 2 \<le> p \<Longrightarrow> rd16 (wr16 m q v) p = rd16 m p"
  by (auto simp: rd16_def wr16_def)

lemma rd32_wr32 [mem_simps]: "rd32 (wr32 m p v) p = v mod 4294967296"
proof -
  have "v mod 65536 + 65536 * (v div 65536 mod 65536) = v mod (65536 * 65536)"
    using mod_mult2_eq [of v 65536 65536] by linarith
  then show ?thesis by (simp add: rd32_def wr32_def mem_simps)
qed

lemma rd32_wr32_other [mem_simps]: "p + 4 \<le> q \<or> q + 4 \<le> p \<Longrightarrow> rd32 (wr32 m q v) p = rd32 m p"
  by (auto simp: rd32_def wr32_def mem_simps)

lemma rd16_bound: "rd16 m p < 65536"
proof -
  have "unat (m p) < 256" "unat (m (p + 1)) < 256"
    using unsigned_less [of "m p"] unsigned_less [of "m (p + 1)"] by simp_all
  then show ?thesis by (simp add: rd16_def)
qed

lemma rd32_bound: "rd32 m p < 4294967296"
  using rd16_bound [of m p] rd16_bound [of m "p + 2"] by (simp add: rd32_def)

lemma wr16_other: "i < p \<or> p + 2 \<le> i \<Longrightarrow> wr16 m p v i = m i"
  by (auto simp: wr16_def)

lemma wr32_other: "i < p \<or> p + 4 \<le> i \<Longrightarrow> wr32 m p v i = m i"
  by (auto simp: wr32_def wr16_other)

lemma rd16_cong: "m p = m' p \<Longrightarrow> m (p + 1) = m' (p + 1) \<Longrightarrow> rd16 m p = rd16 m' p"
  by (simp add: rd16_def)

lemma rd32_cong: "(\<And>i. p \<le> i \<Longrightarrow> i < p + 4 \<Longrightarrow> m i = m' i) \<Longrightarrow> rd32 m p = rd32 m' p"
  unfolding rd32_def by (intro arg_cong2 [where f = "(+)"] arg_cong [where f = "(*) 65536"] rd16_cong) auto

lemma length_rd_bytes [simp]: "length (rd_bytes m p n) = n"
  by (simp add: rd_bytes_def)

lemma rd_bytes_cong: "(\<And>i. p \<le> i \<Longrightarrow> i < p + n \<Longrightarrow> m i = m' i) \<Longrightarrow> rd_bytes m p n = rd_bytes m' p n"
  by (simp add: rd_bytes_def)

lemma rd_wr_bytes [mem_simps]: "rd_bytes (wr_bytes m p xs) p (length xs) = xs"
  by (rule nth_equalityI) (simp_all add: rd_bytes_def wr_bytes_def)

lemma rd_bytes_append: "rd_bytes m p (a + b) = rd_bytes m p a @ rd_bytes m (p + a) b"
  by (rule nth_equalityI) (auto simp: rd_bytes_def nth_append)

lemma rd_bytes_nth: "rd_bytes m p n = xs \<Longrightarrow> i < n \<Longrightarrow> m (p + i) = xs ! i"
  by (auto simp: rd_bytes_def)

lemma wr_bytes_other: "i < p \<or> p + length xs \<le> i \<Longrightarrow> wr_bytes m p xs i = m i"
  by (auto simp: wr_bytes_def)

section \<open>Alignment\<close>

text \<open>The C expression \<open>(n + (a - 1)) & ~(a - 1)\<close> for a power of two \<open>a\<close>.\<close>

definition align_up :: "nat \<Rightarrow> nat \<Rightarrow> nat" where
  "align_up a n = (n + (a - 1)) div a * a"

lemma align_up_mask: "(int n + mask k) AND NOT (mask k) = int (align_up (2 ^ k) n)"
proof -
  have "(int n + mask k) AND NOT (mask k) = (int n + mask k) div 2 ^ k * 2 ^ k"
    by (simp flip: push_bit_eq_mult drop_bit_eq_div) (auto simp: bit_eq_iff bit_simps not_less)
  moreover have "int n + mask k = int (n + (2 ^ k - 1))"
  proof -
    have "(1::nat) \<le> 2 ^ k" by simp
    then show ?thesis by (simp only: mask_eq_exp_minus_1 of_nat_add of_nat_diff) simp
  qed
  ultimately show ?thesis
    by (simp add: align_up_def zdiv_int)
qed

lemma align_up_ge: "0 < a \<Longrightarrow> n \<le> align_up a n"
proof -
  assume a: "0 < a"
  have "n + (a - 1) = (n + (a - 1)) div a * a + (n + (a - 1)) mod a" by simp
  moreover have "(n + (a - 1)) mod a \<le> a - 1" using a by (simp add: less_Suc_eq_le [symmetric])
  ultimately show ?thesis unfolding align_up_def by linarith
qed

lemma align_up_le: "align_up a n \<le> n + (a - 1)"
  unfolding align_up_def by (simp add: div_times_less_eq_dividend)

lemma align_up_dvd [simp]: "a dvd align_up a n"
  by (simp add: align_up_def)

section \<open>Scanning loops\<close>

text \<open>The loop \<open>while (i < hi && !stop (i)) i++\<close>.\<close>

function scan_up :: "(nat \<Rightarrow> bool) \<Rightarrow> nat \<Rightarrow> nat \<Rightarrow> nat" where
  "scan_up stop hi i = (if i < hi \<and> \<not> stop i then scan_up stop hi (i + 1) else i)"
  by pat_completeness auto

termination
  by (relation "measure (\<lambda>(stop, hi, i). hi - i)") auto

declare scan_up.simps [simp del]

lemma scan_up_props:
  "i \<le> scan_up stop hi i" "i \<le> hi \<Longrightarrow> scan_up stop hi i \<le> hi"
  "i \<le> j \<Longrightarrow> j < scan_up stop hi i \<Longrightarrow> \<not> stop j"
  "scan_up stop hi i < hi \<Longrightarrow> stop (scan_up stop hi i)"
proof -
  have "i \<le> scan_up stop hi i \<and> (i \<le> hi \<longrightarrow> scan_up stop hi i \<le> hi) \<and>
     (\<forall>j. i \<le> j \<longrightarrow> j < scan_up stop hi i \<longrightarrow> \<not> stop j) \<and>
     (scan_up stop hi i < hi \<longrightarrow> stop (scan_up stop hi i))"
  proof (induction stop hi i rule: scan_up.induct)
    case (1 stop hi i)
    show ?case
    proof (cases "i < hi \<and> \<not> stop i")
      case True
      then have "scan_up stop hi i = scan_up stop hi (i + 1)" by (subst scan_up.simps) simp
      with 1 [OF True] True show ?thesis
        by simp (metis Suc_leD Suc_leI le_neq_implies_less)
    next
      case False
      then have "scan_up stop hi i = i" by (subst scan_up.simps) auto
      with False show ?thesis by auto
    qed
  qed
  then show "i \<le> scan_up stop hi i" "i \<le> hi \<Longrightarrow> scan_up stop hi i \<le> hi"
    "i \<le> j \<Longrightarrow> j < scan_up stop hi i \<Longrightarrow> \<not> stop j"
    "scan_up stop hi i < hi \<Longrightarrow> stop (scan_up stop hi i)" by blast+
qed

lemma scan_up_found: "i \<le> j \<Longrightarrow> j < hi \<Longrightarrow> stop j \<Longrightarrow> scan_up stop hi i \<le> j"
  using scan_up_props(3) [of i j stop hi] by (meson not_le)

end
