(* ===== verification/XBuffer.thy ===== *)
theory XBuffer
  imports CBase
begin

text \<open>
  The transmit buffer table of \<open>kernel/capifunc.c\<close>: every application has a table whose
  entries are linked into one of two rings, the used and the free buffers; entries 0 and 1
  are the anchors of the rings and buffer \<open>e\<close> is entry \<open>e + 2\<close>. The indices are C
  \<open>word\<close>s; \<open>XBufferAlloc\<close> reduces its argument modulo \<open>2^16\<close> as the cast in
  \<open>TransmitBufferSet\<close> does. The table is a pair of maps from indices to indices.
\<close>

record xbuffer_table =
  next_i :: "nat \<Rightarrow> nat"
  prev_i :: "nat \<Rightarrow> nat"

abbreviation (input) XBUFFER_USED_ANCHOR :: nat where "XBUFFER_USED_ANCHOR \<equiv> 0"
abbreviation (input) XBUFFER_FREE_ANCHOR :: nat where "XBUFFER_FREE_ANCHOR \<equiv> 1"
abbreviation (input) XBUFFER_ANCHOR_COUNT :: nat where "XBUFFER_ANCHOR_COUNT \<equiv> 2"

definition set_nx :: "nat \<Rightarrow> nat \<Rightarrow> xbuffer_table \<Rightarrow> xbuffer_table" where
  "set_nx i v t = t\<lparr>next_i := (next_i t)(i := v)\<rparr>"

definition set_pv :: "nat \<Rightarrow> nat \<Rightarrow> xbuffer_table \<Rightarrow> xbuffer_table" where
  "set_pv i v t = t\<lparr>prev_i := (prev_i t)(i := v)\<rparr>"

lemma set_nx_simps [simp]:
  "next_i (set_nx i v t) = (next_i t)(i := v)" "prev_i (set_nx i v t) = prev_i t"
  by (simp_all add: set_nx_def)

lemma set_pv_simps [simp]:
  "next_i (set_pv i v t) = next_i t" "prev_i (set_pv i v t) = (prev_i t)(i := v)"
  by (simp_all add: set_pv_def)

section \<open>Operations\<close>

definition XBufferNext :: "xbuffer_table \<Rightarrow> int" where
  "XBufferNext t = int (next_i t XBUFFER_FREE_ANCHOR) - int XBUFFER_ANCHOR_COUNT"

definition XBufferInitStep :: "xbuffer_table \<Rightarrow> nat \<Rightarrow> xbuffer_table" where
  "XBufferInitStep t i =
     (let t1 = set_pv (XBUFFER_ANCHOR_COUNT + i) (prev_i t XBUFFER_FREE_ANCHOR) t;
          t2 = set_nx (XBUFFER_ANCHOR_COUNT + i) XBUFFER_FREE_ANCHOR t1;
          t3 = set_nx (prev_i t2 XBUFFER_FREE_ANCHOR) (XBUFFER_ANCHOR_COUNT + i) t2
      in set_pv XBUFFER_FREE_ANCHOR (XBUFFER_ANCHOR_COUNT + i) t3)"

definition XBufferInit :: "xbuffer_table \<Rightarrow> nat \<Rightarrow> xbuffer_table" where
  "XBufferInit t n =
     foldl XBufferInitStep
       (set_nx XBUFFER_FREE_ANCHOR XBUFFER_FREE_ANCHOR
         (set_pv XBUFFER_FREE_ANCHOR XBUFFER_FREE_ANCHOR
           (set_nx XBUFFER_USED_ANCHOR XBUFFER_USED_ANCHOR
             (set_pv XBUFFER_USED_ANCHOR XBUFFER_USED_ANCHOR t))))
       [0..<n]"

text \<open>The two assignments that take an entry out of its ring, then the four that link it
  behind an anchor.\<close>

definition XBufferMove :: "nat \<Rightarrow> xbuffer_table \<Rightarrow> nat \<Rightarrow> xbuffer_table" where
  "XBufferMove anchor t i =
     (let t1 = set_nx (prev_i t i) (next_i t i) t;
          t2 = set_pv (next_i t1 i) (prev_i t1 i) t1;
          t3 = set_nx i (next_i t2 anchor) t2;
          t4 = set_pv i anchor t3;
          t5 = set_pv (next_i t4 anchor) i t4
      in set_nx anchor i t5)"

definition XBufferAlloc :: "xbuffer_table \<Rightarrow> nat \<Rightarrow> xbuffer_table" where
  "XBufferAlloc t e =
     XBufferMove XBUFFER_USED_ANCHOR t ((e mod 65536 + XBUFFER_ANCHOR_COUNT) mod 65536)"

definition XBufferFree :: "xbuffer_table \<Rightarrow> nat \<Rightarrow> xbuffer_table" where
  "XBufferFree t e =
     XBufferMove XBUFFER_FREE_ANCHOR t ((e mod 65536 + XBUFFER_ANCHOR_COUNT) mod 65536)"

definition TransmitBufferSet :: "xbuffer_table \<Rightarrow> nat \<Rightarrow> nat \<times> xbuffer_table" where
  "TransmitBufferSet t ref = (ref, XBufferAlloc t (ref mod 65536))"

definition TransmitBufferFree :: "xbuffer_table \<Rightarrow> nat \<Rightarrow> xbuffer_table" where
  "TransmitBufferFree t p = XBufferFree t (p mod 65536)"

section \<open>Rings\<close>

text \<open>\<open>chain t a xs b\<close>: from \<open>a\<close> through \<open>xs\<close> to \<open>b\<close> the links agree in both
  directions.\<close>

fun chain :: "xbuffer_table \<Rightarrow> nat \<Rightarrow> nat list \<Rightarrow> nat \<Rightarrow> bool" where
  "chain t a [] b \<longleftrightarrow> next_i t a = b \<and> prev_i t b = a"
| "chain t a (x # xs) b \<longleftrightarrow> next_i t a = x \<and> prev_i t x = a \<and> chain t x xs b"

lemma chain_append: "chain t a (xs @ y # ys) b \<longleftrightarrow> chain t a xs y \<and> chain t y ys b"
  by (induction xs arbitrary: a) auto

lemma chain_cong:
  assumes "\<And>x. x \<in> set (a # xs) \<Longrightarrow> next_i t' x = next_i t x"
    and "\<And>x. x \<in> set (b # xs) \<Longrightarrow> prev_i t' x = prev_i t x"
  shows "chain t' a xs b = chain t a xs b"
  using assms by (induction xs arbitrary: a) auto

lemma chain_ends:
  "chain t a xs b \<Longrightarrow>
     next_i t a = (if xs = [] then b else hd xs) \<and> prev_i t b = (if xs = [] then a else last xs)"
  by (induction xs arbitrary: a) auto

definition ring :: "xbuffer_table \<Rightarrow> nat \<Rightarrow> nat list \<Rightarrow> bool" where
  "ring t a xs \<longleftrightarrow> distinct (a # xs) \<and> chain t a xs a"

definition unlinked :: "nat \<Rightarrow> xbuffer_table \<Rightarrow> xbuffer_table" where
  "unlinked i t = set_pv (next_i t i) (prev_i t i) (set_nx (prev_i t i) (next_i t i) t)"

definition linked :: "nat \<Rightarrow> nat \<Rightarrow> xbuffer_table \<Rightarrow> xbuffer_table" where
  "linked a i t = set_nx a i (set_pv (next_i t a) i (set_pv i a (set_nx i (next_i t a) t)))"

lemma chain_keep:
  "chain t a xs b \<Longrightarrow> (\<And>x. x \<in> set (a # xs) \<Longrightarrow> next_i t' x = next_i t x) \<Longrightarrow>
     (\<And>x. x \<in> set (b # xs) \<Longrightarrow> prev_i t' x = prev_i t x) \<Longrightarrow> chain t' a xs b"
  using chain_cong by blast

lemma chain_unlinked:
  assumes c: "chain t a (xs @ i # ys) b" and d: "distinct (xs @ i # ys)"
    and ab: "a \<notin> set (xs @ i # ys)" "b \<notin> set (xs @ i # ys)"
  shows "chain (unlinked i t) a (xs @ ys) b"
proof -
  from c have l: "chain t a xs i" and r: "chain t i ys b" by (simp_all add: chain_append)
  show ?thesis
  proof (cases xs rule: rev_cases)
    case Nil
    then show ?thesis
      using l r d ab by (cases ys) (auto simp: unlinked_def intro: chain_keep)
  next
    case (snoc xs' p)
    with l have l': "chain t a xs' p" "next_i t p = i" "prev_i t i = p" by (simp_all add: chain_append)
    show ?thesis
    proof (cases ys)
      case Nil
      have "chain (unlinked i t) a xs' p"
        using l'(1) by (rule chain_keep) (use l' r d ab snoc Nil in \<open>auto simp: unlinked_def\<close>)
      then show ?thesis using l' r Nil snoc by (simp add: chain_append unlinked_def)
    next
      case (Cons n ys')
      have 1: "chain (unlinked i t) a xs' p"
        using l'(1) by (rule chain_keep) (use l' r d ab snoc Cons in \<open>auto simp: unlinked_def\<close>)
      from r Cons have r': "chain t n ys' b" "next_i t i = n" by simp_all
      have "chain (unlinked i t) n ys' b"
        using r'(1) by (rule chain_keep) (use l' r' d ab snoc Cons in \<open>auto simp: unlinked_def\<close>)
      then show ?thesis using 1 l' r' snoc Cons by (simp add: chain_append unlinked_def)
    qed
  qed
qed

lemma ring_unlinked: "ring t a (xs @ i # ys) \<Longrightarrow> ring (unlinked i t) a (xs @ ys)"
  by (auto simp: ring_def chain_unlinked)

lemma ring_linked:
  assumes r: "ring t a xs" and i: "i \<notin> set (a # xs)"
  shows "ring (linked a i t) a (i # xs)"
proof -
  from r have c: "chain t a xs a" and d: "distinct (a # xs)" by (simp_all add: ring_def)
  show ?thesis
  proof (cases xs)
    case Nil
    with c d i show ?thesis by (auto simp: ring_def linked_def)
  next
    case (Cons x ys)
    with c have x: "chain t x ys a" "next_i t a = x" by simp_all
    have "chain (linked a i t) x ys a"
      using x(1) by (rule chain_keep) (use x d i Cons in \<open>auto simp: linked_def\<close>)
    with x d i Cons show ?thesis by (auto simp: ring_def linked_def)
  qed
qed

text \<open>Another ring is not touched.\<close>

lemma chain_ends_in:
  "ring t a (xs @ i # ys) \<Longrightarrow> prev_i t i \<in> set (a # xs) \<and> next_i t i \<in> set (a # ys)"
  by (auto simp: ring_def chain_append dest!: chain_ends split: if_splits)

lemma unlinked_other [simp]:
  "x \<noteq> prev_i t i \<Longrightarrow> next_i (unlinked i t) x = next_i t x"
  "x \<noteq> next_i t i \<Longrightarrow> prev_i (unlinked i t) x = prev_i t x"
  by (simp_all add: unlinked_def)

lemma linked_other [simp]:
  "x \<noteq> i \<Longrightarrow> x \<noteq> a \<Longrightarrow> next_i (linked a i t) x = next_i t x"
  "x \<noteq> i \<Longrightarrow> x \<noteq> next_i t a \<Longrightarrow> prev_i (linked a i t) x = prev_i t x"
  by (auto simp: linked_def)

lemma ring_keep:
  "ring t b zs \<Longrightarrow> (\<And>x. x \<in> set (b # zs) \<Longrightarrow> next_i t' x = next_i t x \<and> prev_i t' x = prev_i t x) \<Longrightarrow>
     ring t' b zs"
  unfolding ring_def using chain_keep [of t b zs b t'] by simp

lemma ring_unlinked_other:
  assumes "ring t a (xs @ i # ys)" "ring t b zs" "set (a # xs @ i # ys) \<inter> set (b # zs) = {}"
  shows "ring (unlinked i t) b zs"
proof (rule ring_keep [OF assms(2)])
  fix x
  assume x: "x \<in> set (b # zs)"
  have "prev_i t i \<in> set (a # xs @ i # ys)" "next_i t i \<in> set (a # xs @ i # ys)"
    using chain_ends_in [OF assms(1)] by auto
  with x assms(3) have "x \<noteq> prev_i t i" "x \<noteq> next_i t i" by blast+
  then show "next_i (unlinked i t) x = next_i t x \<and> prev_i (unlinked i t) x = prev_i t x" by simp
qed

lemma ring_linked_other:
  assumes "ring t a xs" "ring t b zs" "set (a # xs) \<inter> set (b # zs) = {}" "i \<notin> set (b # zs)"
  shows "ring (linked a i t) b zs"
proof (rule ring_keep [OF assms(2)])
  fix x
  assume x: "x \<in> set (b # zs)"
  have "chain t a xs a" using assms(1) by (simp add: ring_def)
  then have "next_i t a \<in> set (a # xs)" by (cases xs) auto
  with x assms(3,4) have "x \<noteq> next_i t a" "x \<noteq> i" "x \<noteq> a" by (metis disjoint_iff list.set_intros(1))+
  then show "next_i (linked a i t) x = next_i t x \<and> prev_i (linked a i t) x = prev_i t x" by simp
qed

lemma XBufferMove_eq:
  assumes "prev_i t i \<noteq> i"
  shows "XBufferMove a t i = linked a i (unlinked i t)"
  using assms unfolding XBufferMove_def linked_def unlinked_def Let_def by simp

section \<open>The two rings partition the buffers\<close>

definition xb_rep :: "xbuffer_table \<Rightarrow> nat list \<Rightarrow> nat list \<Rightarrow> bool" where
  "xb_rep t used free \<longleftrightarrow>
     ring t XBUFFER_USED_ANCHOR used \<and> ring t XBUFFER_FREE_ANCHOR free \<and>
     set (XBUFFER_USED_ANCHOR # used) \<inter> set (XBUFFER_FREE_ANCHOR # free) = {}"

lemma move_within:
  assumes r: "ring t a (xs @ i # ys)" "ring t b zs"
    and dj: "set (a # xs @ i # ys) \<inter> set (b # zs) = {}"
  shows "ring (XBufferMove a t i) a (i # xs @ ys)" "ring (XBufferMove a t i) b zs"
proof -
  have d: "distinct (a # xs @ i # ys)" using r(1) by (simp add: ring_def)
  then have n: "prev_i t i \<noteq> i" using chain_ends_in [OF r(1)] by auto
  show "ring (XBufferMove a t i) a (i # xs @ ys)"
    unfolding XBufferMove_eq [OF n]
    by (rule ring_linked [OF ring_unlinked [OF r(1)]]) (use d in auto)
  show "ring (XBufferMove a t i) b zs"
    unfolding XBufferMove_eq [OF n]
    by (rule ring_linked_other [OF ring_unlinked [OF r(1)] ring_unlinked_other [OF r dj]])
      (use dj in auto)
qed

lemma move_across:
  assumes r: "ring t b (xs @ i # ys)" "ring t a zs"
    and dj: "set (b # xs @ i # ys) \<inter> set (a # zs) = {}"
  shows "ring (XBufferMove a t i) a (i # zs)" "ring (XBufferMove a t i) b (xs @ ys)"
proof -
  have d: "distinct (b # xs @ i # ys)" using r(1) by (simp add: ring_def)
  then have n: "prev_i t i \<noteq> i" using chain_ends_in [OF r(1)] by auto
  show "ring (XBufferMove a t i) a (i # zs)"
    unfolding XBufferMove_eq [OF n]
    by (rule ring_linked [OF ring_unlinked_other [OF r dj]]) (use dj in auto)
  show "ring (XBufferMove a t i) b (xs @ ys)"
    unfolding XBufferMove_eq [OF n]
    by (rule ring_linked_other [OF ring_unlinked_other [OF r dj] ring_unlinked [OF r(1)]])
      (use dj d in auto)
qed

lemma xb_rep_alloc:
  assumes r: "xb_rep t us fs" and e: "e + 2 < 65536" "e + 2 \<in> set us \<union> set fs"
  shows "xb_rep (XBufferAlloc t e) ((e + 2) # remove1 (e + 2) us) (remove1 (e + 2) fs)"
proof -
  have m: "XBufferAlloc t e = XBufferMove 0 t (e + 2)" using e by (simp add: XBufferAlloc_def)
  from r have R: "ring t 0 us" "ring t 1 fs" and dj: "set (0 # us) \<inter> set (1 # fs) = {}"
    by (simp_all add: xb_rep_def)
  from e(2) show ?thesis
  proof
    assume "e + 2 \<in> set us"
    then obtain xs ys where u: "us = xs @ (e + 2) # ys" "e + 2 \<notin> set xs" by (meson split_list_first)
    have "e + 2 \<notin> set fs" using u dj by auto
    then show ?thesis
      using move_within [OF R [unfolded u] dj [unfolded u]] dj u
      by (auto simp: m xb_rep_def remove1_append remove1_idem)
  next
    assume "e + 2 \<in> set fs"
    then obtain xs ys where u: "fs = xs @ (e + 2) # ys" "e + 2 \<notin> set xs" by (meson split_list_first)
    have dj': "set (1 # xs @ (e + 2) # ys) \<inter> set (0 # us) = {}" using dj u by auto
    have "e + 2 \<notin> set us" "e + 2 \<notin> set ys" using u dj R(2) by (auto simp: ring_def)
    then show ?thesis
      using move_across [OF R(2) [unfolded u] R(1) dj'] dj u
      by (auto simp: m xb_rep_def remove1_append remove1_idem)
  qed
qed

lemma xb_rep_free:
  assumes r: "xb_rep t us fs" and e: "e + 2 < 65536" "e + 2 \<in> set us \<union> set fs"
  shows "xb_rep (XBufferFree t e) (remove1 (e + 2) us) ((e + 2) # remove1 (e + 2) fs)"
proof -
  have m: "XBufferFree t e = XBufferMove 1 t (e + 2)" using e by (simp add: XBufferFree_def)
  from r have R: "ring t 0 us" "ring t 1 fs" and dj: "set (0 # us) \<inter> set (1 # fs) = {}"
    by (simp_all add: xb_rep_def)
  have dj1: "set (1 # fs) \<inter> set (0 # us) = {}" using dj by auto
  from e(2) show ?thesis
  proof
    assume "e + 2 \<in> set fs"
    then obtain xs ys where u: "fs = xs @ (e + 2) # ys" "e + 2 \<notin> set xs" by (meson split_list_first)
    have "e + 2 \<notin> set us" using u dj by auto
    then show ?thesis
      using move_within [OF R(2) [unfolded u] R(1) dj1 [unfolded u]] dj u
      by (auto simp: m xb_rep_def remove1_append remove1_idem)
  next
    assume "e + 2 \<in> set us"
    then obtain xs ys where u: "us = xs @ (e + 2) # ys" "e + 2 \<notin> set xs" by (meson split_list_first)
    have "e + 2 \<notin> set fs" "e + 2 \<notin> set ys" using u dj R(1) by (auto simp: ring_def)
    then show ?thesis
      using move_across [OF R(1) [unfolded u] R(2) dj [unfolded u]] dj u
      by (auto simp: m xb_rep_def remove1_append remove1_idem)
  qed
qed

lemma xb_rep_sets:
  assumes "xb_rep t us fs"
  shows "distinct us" "distinct fs" "set us \<inter> set fs = {}" "0 \<notin> set us" "1 \<notin> set us" "0 \<notin> set fs" "1 \<notin> set fs"
  using assms by (auto simp: xb_rep_def ring_def)

lemma XBufferNext_rep:
  "xb_rep t us fs \<Longrightarrow> XBufferNext t = (if fs = [] then - 1 else int (hd fs) - 2)"
  by (cases fs) (auto simp: xb_rep_def ring_def XBufferNext_def)

lemma XBufferInitStep_rep:
  assumes r: "xb_rep t [] fs" and i: "i + 2 \<notin> set fs"
  shows "xb_rep (XBufferInitStep t i) [] (fs @ [i + 2])"
proof -
  from r have c: "chain t 1 fs 1" and d: "distinct (1 # fs)" "0 \<notin> set fs"
    by (auto simp: xb_rep_def ring_def)
  show ?thesis
  proof (cases fs rule: rev_cases)
    case Nil
    with r show ?thesis by (auto simp: xb_rep_def ring_def XBufferInitStep_def Let_def)
  next
    case (snoc gs l)
    with c have l: "chain t 1 gs l" "next_i t l = 1" "prev_i t 1 = l" by (simp_all add: chain_append)
    have "chain (XBufferInitStep t i) 1 gs l"
      using l(1) by (rule chain_keep) (use l d i snoc in \<open>auto simp: XBufferInitStep_def Let_def\<close>)
    then have "chain (XBufferInitStep t i) 1 (gs @ l # [i + 2]) 1"
      using l d i snoc by (subst chain_append) (auto simp: XBufferInitStep_def Let_def)
    moreover have "next_i (XBufferInitStep t i) 0 = 0 \<and> prev_i (XBufferInitStep t i) 0 = 0"
      using r l d i snoc by (auto simp: xb_rep_def ring_def XBufferInitStep_def Let_def)
    ultimately show ?thesis using d i snoc by (auto simp: xb_rep_def ring_def)
  qed
qed

lemma XBufferInit_rep: "xb_rep (XBufferInit t n) [] (map (\<lambda>i. i + 2) [0..<n])"
proof (induction n)
  case 0
  show ?case by (simp add: XBufferInit_def xb_rep_def ring_def)
next
  case (Suc n)
  then show ?case
    by (simp add: XBufferInit_def) (rule XBufferInitStep_rep [simplified], auto)
qed

section \<open>Runs\<close>

datatype xb_op = XAlloc nat | XFree nat

fun xb_step :: "xbuffer_table \<Rightarrow> xb_op \<Rightarrow> xbuffer_table" where
  "xb_step t (XAlloc e) = snd (TransmitBufferSet t e)"
| "xb_step t (XFree e) = TransmitBufferFree t e"

fun xb_spec :: "nat set \<Rightarrow> xb_op \<Rightarrow> nat set" where
  "xb_spec U (XAlloc e) = insert e U"
| "xb_spec U (XFree e) = U - {e}"

fun xb_arg :: "xb_op \<Rightarrow> nat" where
  "xb_arg (XAlloc e) = e"
| "xb_arg (XFree e) = e"

lemma xb_run_rep:
  assumes "n + 2 < 65536" "\<forall>x \<in> set ops. xb_arg x < n"
  shows "\<exists>us fs. xb_rep (foldl xb_step (XBufferInit t n) ops) us fs \<and> set us \<union> set fs = {2..<n + 2} \<and>
     set us = (\<lambda>e. e + 2) ` foldl xb_spec {} ops"
  using assms(2)
proof (induction ops rule: rev_induct)
  case Nil
  have "set (map (\<lambda>i. i + 2) [0..<n]) = {2..<n + 2}"
    using image_add_atLeastLessThan' [of 2 0 n] by (simp only: set_map set_upt add_0)
  then show ?case using XBufferInit_rep [of t n] by auto
next
  case (snoc op ops)
  let ?t = "foldl xb_step (XBufferInit t n) ops"
  from snoc obtain us fs where IH: "xb_rep ?t us fs" "set us \<union> set fs = {2..<n + 2}"
    "set us = (\<lambda>e. e + 2) ` foldl xb_spec {} ops" by auto
  have e: "xb_arg op < n" "xb_arg op + 2 < 65536" "xb_arg op + 2 \<in> set us \<union> set fs"
    using snoc.prems assms(1) IH(2) by auto
  note s = xb_rep_sets [OF IH(1)]
  show ?case
  proof (cases op)
    case (XAlloc a)
    then have "xb_rep (xb_step ?t op) ((a + 2) # remove1 (a + 2) us) (remove1 (a + 2) fs)"
      using xb_rep_alloc [OF IH(1)] e by (simp add: TransmitBufferSet_def)
    moreover have "set ((a + 2) # remove1 (a + 2) us) \<union> set (remove1 (a + 2) fs) = {2..<n + 2}"
      using IH(2) e s XAlloc by auto
    moreover have "set ((a + 2) # remove1 (a + 2) us) = (\<lambda>e. e + 2) ` xb_spec (foldl xb_spec {} ops) op"
      using IH(3) s XAlloc by auto
    ultimately show ?thesis by (metis foldl_append foldl_Cons foldl_Nil)
  next
    case (XFree a)
    then have "xb_rep (xb_step ?t op) (remove1 (a + 2) us) ((a + 2) # remove1 (a + 2) fs)"
      using xb_rep_free [OF IH(1)] e by (simp add: TransmitBufferFree_def)
    moreover have "set (remove1 (a + 2) us) \<union> set ((a + 2) # remove1 (a + 2) fs) = {2..<n + 2}"
      using IH(2) e s XFree by auto
    moreover have "set (remove1 (a + 2) us) = (\<lambda>e. e + 2) ` xb_spec (foldl xb_spec {} ops) op"
      using IH(3) s XFree by auto
    ultimately show ?thesis by (metis foldl_append foldl_Cons foldl_Nil)
  qed
qed

text \<open>The transmit buffer table of an application with \<open>n\<close> buffers, started by
  \<open>XBufferInit\<close> and driven by any sequence of \<open>TransmitBufferSet\<close> and
  \<open>TransmitBufferFree\<close> calls on its buffers (double allocations and double frees
  included), always consists of two well-linked disjoint rings; together they hold every
  buffer exactly once, the used ring holds exactly the buffers whose last call was
  \<open>TransmitBufferSet\<close>, and \<open>XBufferNext\<close> returns a buffer not in use, or \<open>-1\<close> when
  all buffers are in use.\<close>

theorem xbuffer_partition:
  assumes "n + 2 < 65536" and "\<forall>x \<in> set ops. xb_arg x < n"
  shows "let t = foldl xb_step (XBufferInit t0 n) ops; U = foldl xb_spec {} ops in
         \<exists>us fs. xb_rep t us fs \<and> distinct (us @ fs) \<and> set us = (\<lambda>e. e + 2) ` U \<and>
           set us \<union> set fs = {2..<n + 2} \<and>
           (if U = {0..<n} then XBufferNext t = -1
            else 0 \<le> XBufferNext t \<and> nat (XBufferNext t) < n \<and> nat (XBufferNext t) \<notin> U)"
proof -
  define t and U where "t = foldl xb_step (XBufferInit t0 n) ops" and "U = foldl xb_spec {} ops"
  note tU = t_def U_def
  obtain us fs where r: "xb_rep t us fs" "set us \<union> set fs = {2..<n + 2}" "set us = (\<lambda>e. e + 2) ` U"
    using xb_run_rep [OF assms(1,2)] unfolding t_def U_def by blast
  note s = xb_rep_sets [OF r(1)]
  have img: "(\<lambda>e. e + 2) ` {0..<n} = {2..<n + 2}" using image_add_atLeastLessThan' [of 2 0 n] by (simp only: add_0)
  have U: "U = {0..<n} \<longleftrightarrow> fs = []"
  proof
    assume "U = {0..<n}"
    then have "set us = {2..<n + 2}" using r(3) img by simp
    then show "fs = []" using r(2) s(3) by (cases fs) auto
  next
    assume "fs = []"
    then have "(\<lambda>e. e + 2) ` U = (\<lambda>e. e + 2) ` {0..<n}" using r(2,3) img by simp
    then show "U = {0..<n}" by (rule inj_image_eq_iff [THEN iffD1, rotated]) (simp add: inj_def)
  qed
  have "XBufferNext t \<ge> 0 \<and> nat (XBufferNext t) < n \<and> nat (XBufferNext t) \<notin> U" if ne: "fs \<noteq> []"
  proof -
    have h: "hd fs \<in> {2..<n + 2}" "hd fs \<notin> set us" using ne r(2) s(3) by (cases fs; auto)+
    then have "nat (XBufferNext t) = hd fs - 2" "hd fs - 2 + 2 = hd fs"
      using XBufferNext_rep [OF r(1)] ne by auto
    then show ?thesis using h XBufferNext_rep [OF r(1)] ne r(3) by (auto simp: image_iff)
  qed
  then have "if U = {0..<n} then XBufferNext t = -1
     else 0 \<le> XBufferNext t \<and> nat (XBufferNext t) < n \<and> nat (XBufferNext t) \<notin> U"
    using U XBufferNext_rep [OF r(1)] by simp
  moreover have "distinct (us @ fs)" using s by simp
  ultimately show ?thesis using r unfolding Let_def tU [symmetric] by blast
qed

theorem xbuffer_partition_witness:
  "\<exists>us fs. xb_rep (foldl xb_step (XBufferInit \<lparr>next_i = (\<lambda>_. 0), prev_i = (\<lambda>_. 0)\<rparr> 3)
       [XAlloc 0, XAlloc 2, XFree 0, XAlloc 1]) us fs \<and> set us = {3, 4}"
  using xbuffer_partition [of 3 "[XAlloc 0, XAlloc 2, XFree 0, XAlloc 1]"
      "\<lparr>next_i = (\<lambda>_. 0), prev_i = (\<lambda>_. 0)\<rparr>"]
  by (auto simp: Let_def insert_commute)

end
