(* ===== verification/Fifo.thy ===== *)
theory Fifo
  imports CBase
begin

text \<open>
  The interface all message queues of the drivers offer to their clients: store a message
  (which may be refused), look at the oldest message, drop it. The locale states the three
  laws a provider promises over the list of stored messages and derives what every client
  relies on: whatever the sequence of calls, the messages come out in the order in which they
  were accepted, none is lost and none is invented.
\<close>

datatype 'a fifo_op = Put 'a | Get

fun fifo_run :: "('s \<Rightarrow> 'a \<Rightarrow> bool \<times> 's) \<Rightarrow> ('s \<Rightarrow> 'a option) \<Rightarrow> ('s \<Rightarrow> 's) \<Rightarrow> 's \<Rightarrow> 'a fifo_op list \<Rightarrow>
    'a list \<times> 'a list \<times> 's" where
  "fifo_run put peek pop s [] = ([], [], s)"
| "fifo_run put peek pop s (Put x # ops) =
     (case put s x of (ok, s') \<Rightarrow>
        case fifo_run put peek pop s' ops of (acc, got, t) \<Rightarrow> (if ok then x # acc else acc, got, t))"
| "fifo_run put peek pop s (Get # ops) =
     (case peek s of
        None \<Rightarrow> fifo_run put peek pop s ops
      | Some x \<Rightarrow> (case fifo_run put peek pop (pop s) ops of (acc, got, t) \<Rightarrow> (acc, x # got, t)))"

lemma fifo_run_puts:
  "\<exists>k t. fifo_run put peek pop s (replicate n (Put d)) = (replicate k d, [], t) \<and> k \<le> n"
proof (induction n arbitrary: s)
  case (Suc n)
  obtain ok s' where p: "put s d = (ok, s')" by (cases "put s d")
  obtain k t where "fifo_run put peek pop s' (replicate n (Put d)) = (replicate k d, [], t)" "k \<le> n"
    using Suc.IH by blast
  with p have "fifo_run put peek pop s (replicate (Suc n) (Put d)) =
      (replicate (if ok then Suc k else k) d, [], t)" "(if ok then Suc k else k) \<le> Suc n" by auto
  then show ?case by blast
qed simp

lemma fifo_run_inv:
  assumes "\<And>s d. P s \<Longrightarrow> P (snd (put s d))" "\<And>s. P s \<Longrightarrow> P (pop s)" "P s"
    "fifo_run put peek pop s ops = (acc, got, t)"
  shows "P t"
  using assms(3,4)
proof (induction ops arbitrary: s acc got)
  case (Cons c ops)
  show ?case
  proof (cases c)
    case (Put x)
    obtain ok s' where p: "put s x = (ok, s')" by (cases "put s x")
    then have "P s'" using assms(1) [of s x] Cons.prems(1) by simp
    moreover obtain acc' got' where "fifo_run put peek pop s' ops = (acc', got', t)"
      using Cons.prems(2) Put p by (auto split: prod.splits)
    ultimately show ?thesis by (rule Cons.IH)
  next
    case Get
    show ?thesis
    proof (cases "peek s")
      case None
      then show ?thesis using Cons.IH [OF Cons.prems(1)] Cons.prems(2) Get by simp
    next
      case (Some x)
      obtain acc' got' where "fifo_run put peek pop (pop s) ops = (acc', got', t)"
        using Cons.prems(2) Get Some by (auto split: prod.splits)
      with assms(2) [OF Cons.prems(1)] show ?thesis by (rule Cons.IH)
    qed
  qed
qed simp

locale fifo =
  fixes rep :: "'s \<Rightarrow> 'a list \<Rightarrow> bool"
    and put :: "'s \<Rightarrow> 'a \<Rightarrow> bool \<times> 's"
    and peek :: "'s \<Rightarrow> 'a option"
    and pop :: "'s \<Rightarrow> 's"
    and valid :: "'a \<Rightarrow> bool"
  assumes put_rep: "rep s xs \<Longrightarrow> valid x \<Longrightarrow> put s x = (ok, s') \<Longrightarrow> rep s' (if ok then xs @ [x] else xs)"
    and peek_rep: "rep s xs \<Longrightarrow> peek s = (if xs = [] then None else Some (hd xs))"
    and pop_rep: "rep s xs \<Longrightarrow> xs \<noteq> [] \<Longrightarrow> rep (pop s) (tl xs)"
begin

lemma run_rep:
  assumes "rep s xs" "\<forall>x. Put x \<in> set ops \<longrightarrow> valid x"
    "fifo_run put peek pop s ops = (acc, got, s')"
  shows "\<exists>ys. rep s' ys \<and> xs @ acc = got @ ys"
  using assms
proof (induction ops arbitrary: s xs acc got)
  case (Cons c ops)
  show ?case
  proof (cases c)
    case (Put x)
    obtain ok t where p: "put s x = (ok, t)" by (cases "put s x")
    obtain acc' where r: "fifo_run put peek pop t ops = (acc', got, s')" "acc = (if ok then x # acc' else acc')"
      using Cons.prems(3) Put p by (auto split: prod.splits)
    have "rep t (if ok then xs @ [x] else xs)" using put_rep [OF Cons.prems(1) _ p] Cons.prems(2) Put by simp
    from Cons.IH [OF this _ r(1)] Cons.prems(2) r(2) show ?thesis by (auto split: if_splits)
  next
    case Get
    show ?thesis
    proof (cases xs)
      case Nil
      then show ?thesis using Cons.IH [OF Cons.prems(1)] Cons.prems Get peek_rep [OF Cons.prems(1)] by simp
    next
      case xs: (Cons y ys)
      then obtain got' where r: "fifo_run put peek pop (pop s) ops = (acc, got', s')" "got = y # got'"
        using Cons.prems(3) Get peek_rep [OF Cons.prems(1)] by (auto split: prod.splits)
      from Cons.IH [OF pop_rep [OF Cons.prems(1)] _ r(1)] Cons.prems(2) r(2) xs show ?thesis by auto
    qed
  qed
qed simp

lemma drain: "rep s xs \<Longrightarrow> \<exists>t. fifo_run put peek pop s (replicate (length xs) Get) = ([], xs, t) \<and> rep t []"
proof (induction xs arbitrary: s)
  case (Cons x xs)
  have "rep (pop s) xs" using pop_rep [OF Cons.prems] by simp
  from Cons.IH [OF this] show ?case using peek_rep [OF Cons.prems] by auto
qed simp

lemma run_append:
  "fifo_run put peek pop s (a @ b) =
     (case fifo_run put peek pop s a of (acc, got, t) \<Rightarrow>
        case fifo_run put peek pop t b of (acc', got', u) \<Rightarrow> (acc @ acc', got @ got', u))"
  by (induction put peek pop s a rule: fifo_run.induct) (auto split: prod.splits option.splits)

text \<open>Every accepted message is delivered: after any calls from an empty queue, taking out as
  many messages as are still inside yields exactly the accepted ones, in order.\<close>

lemma all_delivered:
  assumes "rep s []" "\<forall>x. Put x \<in> set ops \<longrightarrow> valid x"
  shows "\<exists>n acc t. fifo_run put peek pop s (ops @ replicate n Get) = (acc, acc, t) \<and> rep t [] \<and>
     acc = fst (fifo_run put peek pop s ops)"
proof -
  obtain acc got u where r: "fifo_run put peek pop s ops = (acc, got, u)" by (metis prod_cases3)
  obtain ys where ys: "rep u ys" "acc = got @ ys" using run_rep [OF assms r] by auto
  obtain t where t: "fifo_run put peek pop u (replicate (length ys) Get) = ([], ys, t)" "rep t []"
    using drain [OF ys(1)] by blast
  have "fifo_run put peek pop s (ops @ replicate (length ys) Get) = (acc, acc, t)"
    using r t ys by (simp add: run_append)
  with r t show ?thesis by auto
qed

end

end
