(* ===== verification/MsgQueue.thy ===== *)
theory MsgQueue
  imports Fifo
begin

text \<open>
  The ring buffers for variable length messages: \<open>tty_module/queue.c\<close> and its older
  sibling in \<open>kernel/dqueue.c\<close>. Both have the same code over a different header: in
  \<open>queue.c\<close> the header is a union with a pointer and messages are aligned to
  \<open>sizeof(void*)\<close>; in \<open>dqueue.c\<close> it is a \<open>dword\<close> and messages are aligned to
  \<open>sizeof(dword)\<close>. The parameter \<open>ps\<close> is that size (8 and 4).

  Pointers are addresses, \<open>0\<close> is the null pointer; the buffer lives in a byte memory, a
  message is a \<open>dword\<close> header followed by its bytes. \<open>MSG_INCOMPLETE\<close> (0x8000) is bit 15
  of the header: \<open>set_bit 15\<close> is \<open>|= MSG_INCOMPLETE\<close> and \<open>unset_bit 15\<close> is
  \<open>&= ~MSG_INCOMPLETE\<close>. Values stored in a C \<open>word\<close> or \<open>dword\<close> are reduced.
\<close>

record msg_queue =
  Size :: nat
  Base :: nat
  High :: nat
  Head :: nat
  Tail :: nat
  Wrap :: nat
  Count :: nat

abbreviation w16 :: "nat \<Rightarrow> nat" where "w16 n \<equiv> n mod 65536"
abbreviation w32 :: "nat \<Rightarrow> nat" where "w32 n \<equiv> n mod 4294967296"

definition MSG_NEED :: "nat \<Rightarrow> nat \<Rightarrow> nat" where
  "MSG_NEED ps sz = align_up ps (ps + sz)"

section \<open>Operations of \<open>queue.c\<close>\<close>

definition queueInit :: "nat \<Rightarrow> nat \<Rightarrow> msg_queue" where
  "queueInit Buffer sizeBuffer =
     \<lparr>Size = sizeBuffer, Base = Buffer, High = Buffer + sizeBuffer, Head = Buffer, Tail = Buffer,
      Wrap = 0, Count = 0\<rparr>"

definition queueReset :: "msg_queue \<Rightarrow> msg_queue" where
  "queueReset Q = queueInit (Base Q) (Size Q)"

text \<open>\<open>SplitSize = 0\<close> asks for the largest single message; otherwise the number of messages
  of that size is returned as well.\<close>

definition queueGetFree :: "nat \<Rightarrow> msg_queue \<Rightarrow> nat \<Rightarrow> nat \<times> nat option" where
  "queueGetFree ps Q SplitSize =
     (let n =
        (if Tail Q = Head Q then (if Wrap Q \<noteq> 0 then 0 else Size Q div ps * ps)
         else if Head Q > Tail Q then Head Q - Tail Q
         else
           let n = (High Q - Tail Q) div ps * ps
           in if SplitSize = 0 then (if Head Q - Base Q > n then Head Q - Base Q else n)
              else
                let i = n mod w32 (MSG_NEED ps SplitSize)
                in if Head Q - Base Q > i then n - i + (Head Q - Base Q) else n);
          r = (if SplitSize \<noteq> 0 then n mod w32 (MSG_NEED ps SplitSize) else n)
      in (if r > ps then r - ps else 0,
          if SplitSize \<noteq> 0 then Some (n div w32 (MSG_NEED ps SplitSize)) else None))"

definition queueSpace :: "nat \<Rightarrow> msg_queue \<Rightarrow> nat \<Rightarrow> bool" where
  "queueSpace ps Q sz =
     (let need = w16 (MSG_NEED ps sz)
      in if Tail Q = Head Q then Wrap Q = 0 \<and> need \<le> Size Q
         else if Tail Q > Head Q then Tail Q + need \<le> High Q \<or> Base Q + need \<le> Head Q
         else Tail Q + need \<le> Head Q)"

definition queue_alloc_at_tail :: "nat \<Rightarrow> nat \<Rightarrow> nat \<Rightarrow> msg_queue \<Rightarrow> mem \<Rightarrow> nat \<times> msg_queue \<times> mem" where
  "queue_alloc_at_tail ps need sz Q m =
     (Tail Q + ps, Q\<lparr>Tail := Tail Q + need, Count := w32 (Count Q + sz)\<rparr>,
      wr32 m (Tail Q) (set_bit 15 sz))"

definition queueAllocMsg :: "nat \<Rightarrow> msg_queue \<Rightarrow> mem \<Rightarrow> nat \<Rightarrow> nat \<times> msg_queue \<times> mem" where
  "queueAllocMsg ps Q m sz =
     (let need = w16 (MSG_NEED ps sz)
      in if Tail Q = Head Q then
           (if Wrap Q \<noteq> 0 \<or> need > Size Q then (0, Q, m)
            else queue_alloc_at_tail ps need sz Q m)
         else if Tail Q > Head Q then
           (if Tail Q + need \<le> High Q then queue_alloc_at_tail ps need sz Q m
            else if Base Q + need > Head Q then (0, Q, m)
            else queue_alloc_at_tail ps need sz (Q\<lparr>Wrap := Tail Q, Tail := Base Q\<rparr>) m)
         else if Tail Q + need > Head Q then (0, Q, m)
         else queue_alloc_at_tail ps need sz Q m)"

definition queueCompleteMsg :: "nat \<Rightarrow> mem \<Rightarrow> nat \<Rightarrow> mem" where
  "queueCompleteMsg ps m p = wr32 m (p - ps) (unset_bit 15 (rd32 m (p - ps)))"

definition queueWriteMsg :: "nat \<Rightarrow> msg_queue \<Rightarrow> mem \<Rightarrow> byte list \<Rightarrow> bool \<times> msg_queue \<times> mem" where
  "queueWriteMsg ps Q m data =
     (case queueAllocMsg ps Q m (length data) of (place, Q', m') \<Rightarrow>
        if place \<noteq> 0 then (True, Q', queueCompleteMsg ps (wr_bytes m' place data) place)
        else (False, Q', m'))"

definition queueFreeMsg :: "nat \<Rightarrow> msg_queue \<Rightarrow> mem \<Rightarrow> msg_queue" where
  "queueFreeMsg ps Q m =
     (let sz = w16 (unset_bit 15 (rd32 m (Head Q)));
          Q1 = Q\<lparr>Head := Head Q + MSG_NEED ps sz,
                 Count := w32 (Count Q + (4294967296 - sz))\<rparr>
      in if Wrap Q1 \<noteq> 0 then
           (if Head Q1 \<ge> Wrap Q1 then Q1\<lparr>Head := Base Q1, Wrap := 0\<rparr> else Q1)
         else if Head Q1 \<ge> Tail Q1 then Q1\<lparr>Head := Base Q1, Tail := Base Q1\<rparr>
         else Q1)"

definition queueFreeTail :: "nat \<Rightarrow> msg_queue \<Rightarrow> mem \<Rightarrow> (nat \<times> nat option) \<times> msg_queue" where
  "queueFreeTail ps Q m =
     (if Head Q = Tail Q \<and> Wrap Q = 0 then ((0, None), Q)
      else
        let sz = w16 (unset_bit 15 (rd32 m (Head Q)))
        in ((Head Q + ps, Some sz),
            Q\<lparr>Tail := Head Q + MSG_NEED ps sz, Wrap := 0, Count := sz\<rparr>))"

definition queuePeekMsg :: "nat \<Rightarrow> msg_queue \<Rightarrow> mem \<Rightarrow> nat \<times> nat option" where
  "queuePeekMsg ps Q m =
     (if (Head Q = Tail Q \<and> Wrap Q = 0) \<or> bit (rd32 m (Head Q)) 15 then (0, None)
      else (Head Q + ps, Some (w16 (rd32 m (Head Q)))))"

section \<open>The queue as a list of messages\<close>

text \<open>A message is a flag (complete or not) and its bytes; \<open>laid ps m p ms e\<close>: the messages
  \<open>ms\<close> fill the memory from \<open>p\<close> to \<open>e\<close>.\<close>

type_synonym msg = "bool \<times> byte list"

fun laid :: "nat \<Rightarrow> mem \<Rightarrow> nat \<Rightarrow> msg list \<Rightarrow> nat \<Rightarrow> bool" where
  "laid ps m p [] e \<longleftrightarrow> p = e"
| "laid ps m p ((c, d) # ms) e \<longleftrightarrow>
     length d < 32768 \<and> rd32 m p = (if c then length d else set_bit 15 (length d)) \<and>
     rd_bytes m (p + ps) (length d) = d \<and> laid ps m (p + MSG_NEED ps (length d)) ms e"

definition mq_rep :: "nat \<Rightarrow> msg_queue \<Rightarrow> mem \<Rightarrow> msg list \<Rightarrow> bool" where
  "mq_rep ps Q m ms \<longleftrightarrow>
     4 \<le> ps \<and> 0 < Base Q \<and> High Q = Base Q + Size Q \<and>
     Count Q = w32 (\<Sum>x\<leftarrow>ms. length (snd x)) \<and>
     (if Wrap Q = 0 then
        Base Q \<le> Head Q \<and> Tail Q \<le> High Q \<and> laid ps m (Head Q) ms (Tail Q) \<and>
        (ms = [] \<longrightarrow> Head Q = Base Q)
      else
        \<exists>as bs. ms = as @ bs \<and> as \<noteq> [] \<and> bs \<noteq> [] \<and> Wrap Q \<le> High Q \<and> Tail Q \<le> Head Q \<and>
          laid ps m (Head Q) as (Wrap Q) \<and> laid ps m (Base Q) bs (Tail Q))"

lemma mq_rep_wrapI:
  "4 \<le> ps \<Longrightarrow> 0 < Base Q \<Longrightarrow> High Q = Base Q + Size Q \<Longrightarrow> Count Q = w32 (\<Sum>x\<leftarrow>ms. length (snd x)) \<Longrightarrow>
     0 < Wrap Q \<Longrightarrow> ms = as @ bs \<Longrightarrow> as \<noteq> [] \<Longrightarrow> bs \<noteq> [] \<Longrightarrow> Wrap Q \<le> High Q \<Longrightarrow> Tail Q \<le> Head Q \<Longrightarrow>
     laid ps m (Head Q) as (Wrap Q) \<Longrightarrow> laid ps m (Base Q) bs (Tail Q) \<Longrightarrow> mq_rep ps Q m ms"
  unfolding mq_rep_def by auto

lemma mq_rep_flatI:
  "4 \<le> ps \<Longrightarrow> 0 < Base Q \<Longrightarrow> High Q = Base Q + Size Q \<Longrightarrow> Count Q = w32 (\<Sum>x\<leftarrow>ms. length (snd x)) \<Longrightarrow>
     Wrap Q = 0 \<Longrightarrow> Base Q \<le> Head Q \<Longrightarrow> Tail Q \<le> High Q \<Longrightarrow> laid ps m (Head Q) ms (Tail Q) \<Longrightarrow>
     (ms = [] \<Longrightarrow> Head Q = Base Q) \<Longrightarrow> mq_rep ps Q m ms"
  unfolding mq_rep_def by auto

section \<open>Layout lemmas\<close>

lemma MSG_NEED_ge: "0 < ps \<Longrightarrow> ps + n \<le> MSG_NEED ps n"
  by (simp add: MSG_NEED_def align_up_ge)

lemma MSG_NEED_small: "ps \<le> 8 \<Longrightarrow> n < 32768 \<Longrightarrow> w16 (MSG_NEED ps n) = MSG_NEED ps n"
  using align_up_le [of ps "ps + n"] by (simp add: MSG_NEED_def)

lemma set_bit_15:
  assumes "n < (32768::nat)"
  shows "\<not> bit n 15" "bit (set_bit 15 n) 15" "unset_bit 15 (set_bit 15 n) = n" "unset_bit 15 n = n"
    "set_bit 15 n = n + 32768"
proof -
  show b: "\<not> bit n 15" using assms by (simp add: bit_iff_odd)
  show "set_bit 15 n = n + 32768" using b by (simp add: set_bit_eq)
  show "bit (set_bit 15 n) 15" by (simp add: bit_set_bit_iff)
  show "unset_bit 15 n = n" by (rule bit_eqI) (use b in \<open>auto simp: bit_unset_bit_iff\<close>)
  show "unset_bit 15 (set_bit 15 n) = n"
    by (rule bit_eqI) (use b in \<open>auto simp: bit_unset_bit_iff bit_set_bit_iff\<close>)
qed

lemma laid_le: "0 < ps \<Longrightarrow> laid ps m p ms e \<Longrightarrow> p + length ms * ps \<le> e"
proof (induction ms arbitrary: p)
  case (Cons x ms)
  obtain c d where x: "x = (c, d)" by (cases x)
  with Cons have "p + MSG_NEED ps (length d) + length ms * ps \<le> e" by simp
  then show ?case using MSG_NEED_ge [OF Cons.prems(1), of "length d"] by simp
qed simp

lemma laid_cong:
  assumes "4 \<le> ps" "\<And>i. p \<le> i \<Longrightarrow> i < e \<Longrightarrow> m' i = m i" "laid ps m p ms e"
  shows "laid ps m' p ms e"
  using assms(2,3)
proof (induction ms arbitrary: p)
  case (Cons x ms)
  obtain c d where x: "x = (c, d)" by (cases x)
  with Cons.prems(2) have r: "laid ps m (p + MSG_NEED ps (length d)) ms e" by simp
  have need: "ps + length d \<le> MSG_NEED ps (length d)" using assms(1) by (intro MSG_NEED_ge) simp
  have le: "p + MSG_NEED ps (length d) \<le> e" using laid_le [OF _ r] assms(1) by simp
  have 1: "rd32 m' p = rd32 m p"
    using Cons.prems(1) need le assms(1) by (intro rd32_cong) auto
  have 2: "rd_bytes m' (p + ps) (length d) = rd_bytes m (p + ps) (length d)"
    using Cons.prems(1) need le by (intro rd_bytes_cong) auto
  have "laid ps m' (p + MSG_NEED ps (length d)) ms e"
    using Cons.prems(1) r by (intro Cons.IH) auto
  with 1 2 x Cons.prems(2) show ?case by simp
qed simp

lemma laid_snoc:
  "laid ps m p (ms @ [(c, d)]) e \<longleftrightarrow>
     (\<exists>t. laid ps m p ms t \<and> laid ps m t [(c, d)] e)"
  by (induction ps m p ms e rule: laid.induct) auto

lemma laid_hd:
  "laid ps m p ms e \<Longrightarrow> ms \<noteq> [] \<Longrightarrow>
     length (snd (hd ms)) < 32768 \<and> bit (rd32 m p) 15 = (\<not> fst (hd ms)) \<and>
     unset_bit 15 (rd32 m p) = length (snd (hd ms)) \<and>
     (fst (hd ms) \<longrightarrow> rd32 m p = length (snd (hd ms))) \<and>
     rd_bytes m (p + ps) (length (snd (hd ms))) = snd (hd ms) \<and>
     laid ps m (p + MSG_NEED ps (length (snd (hd ms)))) (tl ms) e"
  by (cases ms; cases "hd ms") (auto simp: set_bit_15(1-4))

lemma bit_15_simps [simp]:
  "n < (32768::nat) \<Longrightarrow> bit (set_bit 15 n) 15" "n < (32768::nat) \<Longrightarrow> \<not> bit n 15"
  "n < (32768::nat) \<Longrightarrow> unset_bit 15 (set_bit 15 n) = n" "n < (32768::nat) \<Longrightarrow> unset_bit 15 n = n"
  by (rule set_bit_15; assumption)+

section \<open>Peek and free\<close>

lemma mq_rep_head:
  assumes "mq_rep ps Q m ms"
  shows "(Head Q = Tail Q \<and> Wrap Q = 0) = (ms = [])"
    "ms \<noteq> [] \<Longrightarrow> \<exists>e ls. ls \<noteq> [] \<and> laid ps m (Head Q) ls e \<and> hd ls = hd ms \<and> e \<le> High Q"
proof -
  from assms have ps: "0 < ps" by (simp add: mq_rep_def)
  show "(Head Q = Tail Q \<and> Wrap Q = 0) = (ms = [])"
  proof (cases "Wrap Q = 0")
    case True
    with assms have "laid ps m (Head Q) ms (Tail Q)" by (simp add: mq_rep_def)
    with laid_le [OF ps this] ps True show ?thesis by (cases ms) auto
  qed (use assms in \<open>auto simp: mq_rep_def\<close>)
  assume "ms \<noteq> []"
  then show "\<exists>e ls. ls \<noteq> [] \<and> laid ps m (Head Q) ls e \<and> hd ls = hd ms \<and> e \<le> High Q"
    using assms by (fastforce simp: mq_rep_def split: if_splits)
qed

lemma mq_rep_bounds:
  assumes "mq_rep ps Q m ms"
  shows "Base Q \<le> Head Q" "Base Q \<le> Tail Q" "Head Q \<le> High Q" "Tail Q \<le> High Q"
proof -
  have ps: "0 < ps" using assms by (simp add: mq_rep_def)
  have "Base Q \<le> Head Q \<and> Base Q \<le> Tail Q \<and> Head Q \<le> High Q \<and> Tail Q \<le> High Q"
  proof (cases "Wrap Q = 0")
    case True
    then show ?thesis using assms laid_le [OF ps, of m "Head Q" ms "Tail Q"] by (simp add: mq_rep_def)
  next
    case False
    then obtain xs bs where "Wrap Q \<le> High Q" "Tail Q \<le> Head Q"
      "laid ps m (Head Q) xs (Wrap Q)" "laid ps m (Base Q) bs (Tail Q)" using assms by (auto simp: mq_rep_def)
    with laid_le [OF ps this(3)] laid_le [OF ps this(4)] show ?thesis by simp
  qed
  then show "Base Q \<le> Head Q" "Base Q \<le> Tail Q" "Head Q \<le> High Q" "Tail Q \<le> High Q" by simp_all
qed

lemma queuePeekMsg_rep:
  assumes r: "mq_rep ps Q m ms"
  shows "queuePeekMsg ps Q m =
     (if ms = [] \<or> \<not> fst (hd ms) then (0, None) else (Head Q + ps, Some (length (snd (hd ms)))))"
    "ms \<noteq> [] \<Longrightarrow> rd_bytes m (Head Q + ps) (length (snd (hd ms))) = snd (hd ms)"
proof -
  have "queuePeekMsg ps Q m = (if \<not> fst (hd ms) then (0, None) else (Head Q + ps, Some (length (snd (hd ms))))) \<and>
    rd_bytes m (Head Q + ps) (length (snd (hd ms))) = snd (hd ms)" if ne: "ms \<noteq> []"
  proof -
    obtain e ls where l: "ls \<noteq> []" "laid ps m (Head Q) ls e" "hd ls = hd ms"
      using mq_rep_head(2) [OF r ne] by blast
    show ?thesis
      using laid_hd [OF l(2,1)] l(3) mq_rep_head(1) [OF r] ne
      by (auto simp: queuePeekMsg_def)
  qed
  then show "queuePeekMsg ps Q m =
     (if ms = [] \<or> \<not> fst (hd ms) then (0, None) else (Head Q + ps, Some (length (snd (hd ms)))))"
    "ms \<noteq> [] \<Longrightarrow> rd_bytes m (Head Q + ps) (length (snd (hd ms))) = snd (hd ms)"
    using mq_rep_head(1) [OF r] by (auto simp: queuePeekMsg_def)
qed

lemma count_sub:
  assumes "c = w32 (n + s)" "n < (32768::nat)"
  shows "w32 (c + (4294967296 - n)) = w32 s"
proof -
  have "w32 (c + (4294967296 - n)) = w32 (n + s + (4294967296 - n))" unfolding assms(1) by (rule mod_add_left_eq)
  also have "n + s + (4294967296 - n) = s + 4294967296" using assms(2) by simp
  finally show ?thesis by simp
qed

lemma queueFreeMsg_rep:
  assumes r: "mq_rep ps Q m ms" and ne: "ms \<noteq> []"
  shows "mq_rep ps (queueFreeMsg ps Q m) m (tl ms)"
proof -
  obtain c d ms' where ms: "ms = (c, d) # ms'" using ne by (cases ms) auto
  from r have ps: "0 < ps" "4 \<le> ps" by (simp_all add: mq_rep_def)
  obtain e ls where l: "ls \<noteq> []" "laid ps m (Head Q) ls e" "hd ls = (c, d)"
    using mq_rep_head(2) [OF r ne] ms by auto
  from laid_hd [OF l(2,1)] l(3) have d: "length d < 32768" "unset_bit 15 (rd32 m (Head Q)) = length d" by auto
  let ?H = "Head Q + MSG_NEED ps (length d)" and ?C = "w32 (Count Q + (4294967296 - length d))"
  have cnt: "?C = w32 (\<Sum>x\<leftarrow>ms'. length (snd x))"
    using r ms d(1) by (intro count_sub) (simp_all add: mq_rep_def)
  have eq: "queueFreeMsg ps Q m = (let Q1 = Q\<lparr>Head := ?H, Count := ?C\<rparr> in
     if Wrap Q1 \<noteq> 0 then (if Head Q1 \<ge> Wrap Q1 then Q1\<lparr>Head := Base Q1, Wrap := 0\<rparr> else Q1)
     else if Head Q1 \<ge> Tail Q1 then Q1\<lparr>Head := Base Q1, Tail := Base Q1\<rparr> else Q1)"
    unfolding queueFreeMsg_def Let_def using d by simp
  show ?thesis
  proof (cases "Wrap Q = 0")
    case True
    with r ms have lay: "laid ps m ?H ms' (Tail Q)" "Base Q \<le> Head Q" "Tail Q \<le> High Q" by (auto simp: mq_rep_def)
    from laid_le [OF ps(1) lay(1)] have ge: "?H + length ms' * ps \<le> Tail Q" .
    show ?thesis
    proof (cases "ms' = []")
      case True
      with lay have "?H = Tail Q" by simp
      then show ?thesis using eq r ms True \<open>Wrap Q = 0\<close> cnt by (auto simp: mq_rep_def)
    next
      case False
      with ge ps have "?H < Tail Q" by (cases ms') auto
      then show ?thesis using eq r ms False \<open>Wrap Q = 0\<close> cnt lay by (auto simp: mq_rep_def)
    qed
  next
    case False
    with r obtain xs bs where w: "ms = xs @ bs" "xs \<noteq> []" "bs \<noteq> []" "Wrap Q \<le> High Q" "Tail Q \<le> Head Q"
      "laid ps m (Head Q) xs (Wrap Q)" "laid ps m (Base Q) bs (Tail Q)" by (auto simp: mq_rep_def)
    obtain xs' where xs: "xs = (c, d) # xs'" using w(1,2) ms by (cases xs) auto
    with w have lay: "laid ps m ?H xs' (Wrap Q)" by simp
    from laid_le [OF ps(1) lay] have ge: "?H + length xs' * ps \<le> Wrap Q" .
    show ?thesis
    proof (cases "xs' = []")
      case True
      with lay have "?H = Wrap Q" by simp
      moreover have "Tail Q \<le> High Q" using w(4,5) ge True by simp
      moreover have "ms' = bs" using ms w(1) xs True by simp
      ultimately show ?thesis using eq r ms True False cnt w xs
        by (intro mq_rep_flatI) (simp_all add: mq_rep_def)
    next
      case ne': False
      with ge ps have lt: "?H < Wrap Q" by (cases xs') auto
      have "ms' = xs' @ bs" using ms w(1) xs by simp
      then show ?thesis using eq r ms ne' False cnt w lay lt
        by (intro mq_rep_wrapI [of _ _ _ xs' bs]) (simp_all add: mq_rep_def)
    qed
  qed
qed

section \<open>Allocate, write and complete\<close>

lemma queueAllocMsg_full:
  "0 < ps \<Longrightarrow> fst (queueAllocMsg ps Q m sz) = 0 \<Longrightarrow> queueAllocMsg ps Q m sz = (0, Q, m)"
  by (auto simp: queueAllocMsg_def queue_alloc_at_tail_def Let_def split: if_splits)

lemma queueAllocMsg_space: "0 < ps \<Longrightarrow> (fst (queueAllocMsg ps Q m sz) \<noteq> 0) = queueSpace ps Q sz"
  by (auto simp: queueAllocMsg_def queue_alloc_at_tail_def queueSpace_def Let_def)

text \<open>The new message occupies the \<open>MSG_NEED\<close> bytes in front of the new tail; the memory
  may change there in any way as long as the header and the bytes are those of the message.\<close>

lemma count_add: "c = w32 s \<Longrightarrow> w32 (c + n) = w32 (s + n)"
  by (simp add: mod_add_left_eq)

lemma queueAllocMsg_rep:
  assumes r: "mq_rep ps Q m ms" and ps: "ps \<le> 8" and n: "length d < 32768"
    and al: "queueAllocMsg ps Q m (length d) = (p, Q', m')" "p \<noteq> 0"
    and out: "\<And>i. i < p - ps \<or> p - ps + MSG_NEED ps (length d) \<le> i \<Longrightarrow> M i = m i"
    and hdr: "rd32 M (p - ps) = (if c then length d else set_bit 15 (length d))"
    and dat: "rd_bytes M p (length d) = d"
  shows "mq_rep ps Q' M (ms @ [(c, d)])"
proof -
  let ?need = "MSG_NEED ps (length d)"
  from r have ps0: "0 < ps" "4 \<le> ps" and C: "Count Q = w32 (\<Sum>x\<leftarrow>ms. length (snd x))"
    and B: "0 < Base Q" "High Q = Base Q + Size Q" by (simp_all add: mq_rep_def)
  have need: "w16 ?need = ?need" "ps + length d \<le> ?need"
    using MSG_NEED_small [OF ps n] MSG_NEED_ge [OF ps0(1)] by simp_all
  have C': "w32 (Count Q + length d) = w32 (\<Sum>x\<leftarrow>ms @ [(c, d)]. length (snd x))"
    using count_add [OF C, of "length d"] by simp
  have new: "laid ps M t [(c, d)] (t + ?need)" if "p = t + ps" for t
    using that n hdr dat by simp
  have keep: "laid ps M a xs b" if "laid ps m a xs b" "b \<le> p - ps \<or> p - ps + ?need \<le> a" for a xs b
    using laid_cong [OF ps0(2) _ that(1)] out that(2) by auto
  show ?thesis
  proof (cases "Tail Q > Head Q")
    case True
    then have W: "Wrap Q = 0" "laid ps m (Head Q) ms (Tail Q)" "Base Q \<le> Head Q" "Tail Q \<le> High Q"
      using r by (auto simp: mq_rep_def split: if_splits)
    have ne: "ms \<noteq> []" using True W(2) by (cases ms) auto
    show ?thesis
    proof (cases "Tail Q + ?need \<le> High Q")
      case app: True
      then have eq: "p = Tail Q + ps" "Q' = Q\<lparr>Tail := Tail Q + ?need, Count := w32 (Count Q + length d)\<rparr>"
        using al True need by (auto simp: queueAllocMsg_def queue_alloc_at_tail_def Let_def)
      have "laid ps M (Head Q) ms (Tail Q)" using keep [OF W(2)] eq by simp
      then have "laid ps M (Head Q) (ms @ [(c, d)]) (Tail Q + ?need)"
        using new [OF eq(1)] laid_snoc by blast
      with eq app W B C' ps0 show ?thesis by (simp add: mq_rep_def)
    next
      case False
      then have eq: "p = Base Q + ps" "Base Q + ?need \<le> Head Q"
        "Q' = Q\<lparr>Wrap := Tail Q, Tail := Base Q + ?need, Count := w32 (Count Q + length d)\<rparr>"
        using al True need by (auto simp: queueAllocMsg_def queue_alloc_at_tail_def Let_def split: if_splits)
      have "laid ps M (Head Q) ms (Tail Q)" using keep [OF W(2)] eq by simp
      with new [OF eq(1)] eq W B C' ps0 ne True show ?thesis
        by (intro mq_rep_wrapI [of _ _ _ ms "[(c, d)]"]) simp_all
    qed
  next
    case False
    show ?thesis
    proof (cases "Tail Q = Head Q")
      case True
      then have W: "Wrap Q = 0" "?need \<le> Size Q" and eq: "p = Tail Q + ps"
        "Q' = Q\<lparr>Tail := Tail Q + ?need, Count := w32 (Count Q + length d)\<rparr>"
        using al need by (auto simp: queueAllocMsg_def queue_alloc_at_tail_def Let_def split: if_splits)
      have ms: "ms = []" using mq_rep_head(1) [OF r] W True by simp
      then have "Head Q = Base Q" using r W by (simp add: mq_rep_def)
      with new [OF eq(1)] eq W B C' ps0 ms True show ?thesis by (simp add: mq_rep_def)
    next
      case lt: False
      with False have lt': "Tail Q < Head Q" by simp
      then have eq: "p = Tail Q + ps" "Tail Q + ?need \<le> Head Q"
        "Q' = Q\<lparr>Tail := Tail Q + ?need, Count := w32 (Count Q + length d)\<rparr>"
        using al need by (auto simp: queueAllocMsg_def queue_alloc_at_tail_def Let_def split: if_splits)
      have W: "Wrap Q \<noteq> 0"
      proof
        assume "Wrap Q = 0"
        then have "laid ps m (Head Q) ms (Tail Q)" using r by (simp add: mq_rep_def)
        from laid_le [OF ps0(1) this] lt' show False by simp
      qed
      then obtain xs bs where w: "ms = xs @ bs" "xs \<noteq> []" "bs \<noteq> []" "Wrap Q \<le> High Q"
        "laid ps m (Head Q) xs (Wrap Q)" "laid ps m (Base Q) bs (Tail Q)" using r by (auto simp: mq_rep_def)
      have "laid ps M (Base Q) bs (Tail Q)" "laid ps M (Head Q) xs (Wrap Q)"
        using keep [OF w(5)] keep [OF w(6)] eq by simp_all
      then have "laid ps M (Base Q) (bs @ [(c, d)]) (Tail Q + ?need)" "laid ps M (Head Q) xs (Wrap Q)"
        using new [OF eq(1)] laid_snoc by blast+
      with eq W w B C' ps0 show ?thesis
        by (intro mq_rep_wrapI [of _ _ _ xs "bs @ [(c, d)]"]) simp_all
    qed
  qed
qed

text \<open>What the caller does with the allocated place: fill it, then complete it.\<close>

lemma queueAllocMsg_mem:
  assumes "queueAllocMsg ps Q m sz = (p, Q', m')" "p \<noteq> 0"
  shows "m' = wr32 m (p - ps) (set_bit 15 sz)" "ps \<le> p"
  using assms by (auto simp: queueAllocMsg_def queue_alloc_at_tail_def Let_def split: if_splits)

lemma set_bit_15_bound: "n < 32768 \<Longrightarrow> set_bit 15 n < (4294967296::nat)"
  by (simp add: set_bit_15(5))

lemma rd_wr_bytes_prefix: "rd32 (wr_bytes m q xs) p = rd32 m p" if "p + 4 \<le> q"
  using that by (intro rd32_cong) (auto simp: wr_bytes_def)

lemma fill_rep:
  assumes r: "mq_rep ps Q m ms" and ps: "ps \<le> 8" and n: "length d < 32768"
    and al: "queueAllocMsg ps Q m (length d) = (p, Q', m')" "p \<noteq> 0"
  shows "mq_rep ps Q' m' (ms @ [(False, rd_bytes m' p (length d))])"
    and "mq_rep ps Q' (wr_bytes m' p d) (ms @ [(False, d)])"
    and "mq_rep ps Q' (queueCompleteMsg ps (wr_bytes m' p d) p) (ms @ [(True, d)])"
proof -
  let ?need = "MSG_NEED ps (length d)" and ?t = "p - ps"
  from r have ps0: "0 < ps" "4 \<le> ps" by (simp_all add: mq_rep_def)
  note m' = queueAllocMsg_mem [OF al]
  have need: "ps + length d \<le> ?need" by (rule MSG_NEED_ge [OF ps0(1)])
  have t: "?t + ps = p" using m'(2) by simp
  have h: "rd32 m' ?t = set_bit 15 (length d)"
    using set_bit_15_bound [OF n] by (simp add: m' mem_simps)
  have h2: "rd32 (wr_bytes m' p d) ?t = set_bit 15 (length d)"
    using h t ps0 by (simp add: rd_wr_bytes_prefix)
  let ?M = "queueCompleteMsg ps (wr_bytes m' p d) p"
  have h3: "rd32 ?M ?t = length d"
    using n by (simp add: queueCompleteMsg_def h2 mem_simps)
  have d3: "rd_bytes ?M p (length d) = d"
  proof -
    have "rd_bytes ?M p (length d) = rd_bytes (wr_bytes m' p d) p (length d)"
      using t ps0 by (intro rd_bytes_cong) (auto simp: queueCompleteMsg_def wr32_other)
    then show ?thesis by (simp add: mem_simps)
  qed
  have out: "m' i = m i" "wr_bytes m' p d i = m i" "?M i = m i" if "i < ?t \<or> ?t + ?need \<le> i" for i
  proof -
    obtain t where "p = t + ps" using t by metis
    with that need ps0 show "m' i = m i" "wr_bytes m' p d i = m i" "?M i = m i"
      by (auto simp: m'(1) queueCompleteMsg_def wr32_other wr_bytes_other)
  qed
  show "mq_rep ps Q' m' (ms @ [(False, rd_bytes m' p (length d))])"
    using queueAllocMsg_rep [OF r ps, of "rd_bytes m' p (length d)" p Q' m' m' False] al n h out by simp
  show "mq_rep ps Q' (wr_bytes m' p d) (ms @ [(False, d)])"
    using queueAllocMsg_rep [OF r ps n al, of "wr_bytes m' p d" False] h2 out by (simp add: mem_simps)
  show "mq_rep ps Q' ?M (ms @ [(True, d)])"
    using queueAllocMsg_rep [OF r ps n al, of ?M True] h3 d3 out by simp
qed

lemma queueWriteMsg_rep:
  assumes "mq_rep ps Q m ms" "ps \<le> 8" "length d < 32768"
  shows "case queueWriteMsg ps Q m d of (ok, Q', m') \<Rightarrow>
     ok = queueSpace ps Q (length d) \<and> mq_rep ps Q' m' (if ok then ms @ [(True, d)] else ms)"
proof -
  from assms(1) have ps: "0 < ps" by (simp add: mq_rep_def)
  obtain p Q' m' where al: "queueAllocMsg ps Q m (length d) = (p, Q', m')"
    by (cases "queueAllocMsg ps Q m (length d)")
  show ?thesis
    using fill_rep(3) [OF assms al] queueAllocMsg_space [OF ps, of Q m "length d"] al
      queueAllocMsg_full [OF ps, of Q m "length d"] assms(1)
    by (auto simp: queueWriteMsg_def)
qed

lemma queueInit_rep: "4 \<le> ps \<Longrightarrow> 0 < b \<Longrightarrow> mq_rep ps (queueInit b n) m []"
  by (simp add: queueInit_def mq_rep_def)

lemma laid_total: "0 < ps \<Longrightarrow> laid ps m p ms e \<Longrightarrow> p + (\<Sum>x\<leftarrow>ms. ps + length (snd x)) \<le> e"
proof (induction ms arbitrary: p)
  case (Cons x ms)
  obtain c d where x: "x = (c, d)" by (cases x)
  with Cons have "p + MSG_NEED ps (length d) + (\<Sum>x\<leftarrow>ms. ps + length (snd x)) \<le> e" by simp
  then show ?case using x MSG_NEED_ge [OF Cons.prems(1), of "length d"] by simp
qed simp

text \<open>The stored messages and their headers fit into the buffer.\<close>

lemma mq_rep_total:
  assumes r: "mq_rep ps Q m ms"
  shows "(\<Sum>x\<leftarrow>ms. ps + length (snd x)) \<le> Size Q"
proof -
  from r have ps: "0 < ps" "High Q = Base Q + Size Q" by (simp_all add: mq_rep_def)
  show ?thesis
  proof (cases "Wrap Q = 0")
    case True
    then have "laid ps m (Head Q) ms (Tail Q)" using r by (simp add: mq_rep_def)
    from laid_total [OF ps(1) this] ps(2) mq_rep_bounds [OF r] show ?thesis by linarith
  next
    case False
    then obtain xs bs where w: "ms = xs @ bs" "Wrap Q \<le> High Q" "Tail Q \<le> Head Q"
      "laid ps m (Head Q) xs (Wrap Q)" "laid ps m (Base Q) bs (Tail Q)" using r by (auto simp: mq_rep_def)
    from laid_total [OF ps(1) w(4)] laid_total [OF ps(1) w(5)] w(1-3) ps(2) show ?thesis by simp
  qed
qed

lemma queueAllocMsg_place:
  assumes r: "mq_rep ps Q m ms" and ps: "ps \<le> 8" and n: "length d < 32768"
    and al: "queueAllocMsg ps Q m (length d) = (p, Q', m')" "p \<noteq> 0"
  shows "Base Q + ps \<le> p \<and> p + length d \<le> High Q \<and> (ms = [] \<longrightarrow> p = Head Q' + ps)"
proof -
  let ?need = "MSG_NEED ps (length d)"
  have bnd: "Base Q \<le> Tail Q" "Head Q \<le> High Q" "Base Q \<le> Head Q" "High Q = Base Q + Size Q"
    using mq_rep_bounds [OF r] r by (simp_all add: mq_rep_def)
  have e: "ms = [] \<Longrightarrow> Head Q = Tail Q" using mq_rep_head(1) [OF r] by simp
  have "0 < ps" using r by (simp add: mq_rep_def)
  then have need: "w16 ?need = ?need" "ps + length d \<le> ?need"
    using MSG_NEED_small [OF ps n] MSG_NEED_ge by simp_all
  have emp: "Wrap Q = 0 \<Longrightarrow> Head Q = Tail Q \<Longrightarrow> Head Q = Base Q"
    using r mq_rep_head(1) [OF r] by (simp add: mq_rep_def)
  show ?thesis
    using al bnd e need emp unfolding queueAllocMsg_def queue_alloc_at_tail_def Let_def need
    by (auto split: if_splits)
qed

lemma queueFreeTail_rep:
  assumes r: "mq_rep ps Q m ms" and ne: "ms \<noteq> []"
  shows "mq_rep ps (snd (queueFreeTail ps Q m)) m [hd ms]"
    "fst (queueFreeTail ps Q m) = (Head Q + ps, Some (length (snd (hd ms))))"
    "rd_bytes m (Head Q + ps) (length (snd (hd ms))) = snd (hd ms)"
proof -
  obtain c d ms' where ms: "ms = (c, d) # ms'" using ne by (cases ms) auto
  obtain e ls where l: "ls \<noteq> []" "laid ps m (Head Q) ls e" "hd ls = (c, d)" "e \<le> High Q"
    using mq_rep_head(2) [OF r ne] ms by auto
  then obtain ls' where ls: "ls = (c, d) # ls'" by (cases ls) auto
  note h = laid_hd [OF l(2,1)]
  have ps: "0 < ps" using r by (simp add: mq_rep_def)
  have "Head Q + MSG_NEED ps (length d) \<le> High Q" using laid_le [OF ps] l(2,4) ls by fastforce
  moreover have b: "Base Q \<le> Head Q" "High Q = Base Q + Size Q" using mq_rep_bounds [OF r] r by (auto simp: mq_rep_def)
  moreover have "laid ps m (Head Q) [(c, d)] (Head Q + MSG_NEED ps (length d))" using l(2) ls by simp
  ultimately show "mq_rep ps (snd (queueFreeTail ps Q m)) m [hd ms]"
    using r h l(3) ms mq_rep_head(1) [OF r]
    by (intro mq_rep_flatI) (auto simp: queueFreeTail_def mq_rep_def Let_def)
  show "fst (queueFreeTail ps Q m) = (Head Q + ps, Some (length (snd (hd ms))))"
    "rd_bytes m (Head Q + ps) (length (snd (hd ms))) = snd (hd ms)"
    using h l(3) ms mq_rep_head(1) [OF r] by (auto simp: queueFreeTail_def Let_def)
qed

section \<open>The queue behind its interface\<close>

type_synonym mq_state = "msg_queue \<times> mem"

definition mq_put :: "mq_state \<Rightarrow> byte list \<Rightarrow> bool \<times> mq_state" where
  "mq_put s d = queueWriteMsg 8 (fst s) (snd s) d"

definition mq_peek :: "mq_state \<Rightarrow> byte list option" where
  "mq_peek s = (case queuePeekMsg 8 (fst s) (snd s) of
     (p, n) \<Rightarrow> if p = 0 then None else map_option (rd_bytes (snd s) p) n)"

definition mq_pop :: "mq_state \<Rightarrow> mq_state" where
  "mq_pop s = (queueFreeMsg 8 (fst s) (snd s), snd s)"

definition mq_abs :: "nat \<Rightarrow> mq_state \<Rightarrow> byte list list \<Rightarrow> bool" where
  "mq_abs ps s ds = mq_rep ps (fst s) (snd s) (map (Pair True) ds)"

lemma Count_rep: "mq_abs ps s ds \<Longrightarrow> Count (fst s) = w32 (sum_list (map length ds))"
  by (simp add: mq_abs_def mq_rep_def comp_def)

lemma mq_abs_put:
  assumes "mq_abs 8 s ds" "length d < 32768" "mq_put s d = (ok, s')"
  shows "mq_abs 8 s' (if ok then ds @ [d] else ds)"
  using queueWriteMsg_rep [of 8 "fst s" "snd s" "map (Pair True) ds" d] assms
  by (cases s') (auto simp: mq_abs_def mq_put_def split: if_splits)

lemma mq_abs_peek:
  assumes "mq_abs 8 s ds"
  shows "mq_peek s = (if ds = [] then None else Some (hd ds))"
proof -
  note r = assms [unfolded mq_abs_def]
  show ?thesis
    using queuePeekMsg_rep [OF r] by (cases ds) (auto simp: mq_peek_def)
qed

lemma mq_abs_pop: "mq_abs 8 s ds \<Longrightarrow> ds \<noteq> [] \<Longrightarrow> mq_abs 8 (mq_pop s) (tl ds)"
  using queueFreeMsg_rep [of 8 "fst s" "snd s" "map (Pair True) ds"]
  by (simp add: mq_abs_def mq_pop_def map_tl)

interpretation mq: fifo "mq_abs 8" mq_put mq_peek mq_pop "\<lambda>d. length d < 32768"
  by unfold_locales (rule mq_abs_put mq_abs_pop mq_abs_peek; assumption)+

lemma queueInit_abs: "4 \<le> ps \<Longrightarrow> 0 < b \<Longrightarrow> mq_abs ps (queueInit b n, m) []"
  by (simp add: mq_abs_def queueInit_rep)

section \<open>Properties\<close>

text \<open>C15: A queue of \<open>tty_module/queue.c\<close> started by \<open>queueInit\<close> on any buffer and driven by
  any sequence of \<open>queueWriteMsg\<close> calls (messages below 32768 bytes) and
  \<open>queuePeekMsg\<close>/\<open>queueFreeMsg\<close> pairs is a first-in first-out queue across all
  wraparounds: the messages taken out are exactly those for which \<open>queueWriteMsg\<close>
  returned 1, in the same order and with the same bytes, and \<open>Count\<close> is the number of bytes
  that are still inside.\<close>

theorem queue_fifo:
  assumes "0 < b" and "\<forall>d. Put d \<in> set ops \<longrightarrow> length d < 32768"
  shows "\<exists>acc got s rest. fifo_run mq_put mq_peek mq_pop (queueInit b n, m) ops = (acc, got, s) \<and>
     acc = got @ rest \<and> Count (fst s) = w32 (sum_list (map length rest)) \<and>
     (\<exists>t. fifo_run mq_put mq_peek mq_pop s (replicate (length rest) Get) = ([], rest, t) \<and>
       mq_peek t = None)"
proof -
  obtain acc got s where r: "fifo_run mq_put mq_peek mq_pop (queueInit b n, m) ops = (acc, got, s)"
    by (metis prod_cases3)
  obtain rest where rest: "mq_abs 8 s rest" "acc = got @ rest"
    using mq.run_rep [OF queueInit_abs [OF _ assms(1)] assms(2) r] by auto
  obtain t where t: "fifo_run mq_put mq_peek mq_pop s (replicate (length rest) Get) = ([], rest, t)" "mq_abs 8 t []"
    using mq.drain [OF rest(1)] by blast
  show ?thesis
    by (intro exI [of _ acc] exI [of _ got] exI [of _ s] exI [of _ rest] exI [of _ t] conjI)
      (simp_all add: r rest(2) t(1) Count_rep [OF rest(1)] mq.peek_rep [OF t(2)])
qed

theorem queue_fifo_witness:
  "\<exists>acc got s rest. fifo_run mq_put mq_peek mq_pop (queueInit 64 48, \<lambda>_. 0)
       [Put [1, 2, 3], Put [4], Get, Put [5, 6], Put [7], Get] = (acc, got, s) \<and> acc = got @ rest"
  using queue_fifo [of 64 "[Put [1, 2, 3], Put [4], Get, Put [5, 6], Put [7], Get]" 48 "\<lambda>_. 0"]
  by auto

text \<open>\<open>queueAllocMsg\<close> returns a place exactly when \<open>queueSpace\<close> says the message
  fits; when it does not, neither the queue nor the memory changes; when it does, the place
  and the following \<open>size\<close> bytes lie inside the buffer, the messages already stored stay
  as they are, the new one is invisible to \<open>queuePeekMsg\<close> as long as it is the first and
  incomplete, and \<open>queueCompleteMsg\<close> on the filled place appends the message.\<close>

theorem queue_alloc_complete:
  assumes "mq_rep ps Q m ms" and "ps \<le> 8" and "length d < 32768"
  shows "case queueAllocMsg ps Q m (length d) of (p, Q', m') \<Rightarrow>
     (p \<noteq> 0) = queueSpace ps Q (length d) \<and>
     (p = 0 \<longrightarrow> Q' = Q \<and> m' = m) \<and>
     (p \<noteq> 0 \<longrightarrow>
        Base Q + ps \<le> p \<and> p + length d \<le> High Q \<and>
        mq_rep ps Q' (wr_bytes m' p d) (ms @ [(False, d)]) \<and>
        mq_rep ps Q' (queueCompleteMsg ps (wr_bytes m' p d) p) (ms @ [(True, d)]) \<and>
        (ms = [] \<longrightarrow> queuePeekMsg ps Q' (wr_bytes m' p d) = (0, None) \<and>
          queuePeekMsg ps Q' (queueCompleteMsg ps (wr_bytes m' p d) p) = (p, Some (length d))))"
proof -
  from assms(1) have ps: "0 < ps" by (simp add: mq_rep_def)
  obtain p Q' m' where al: "queueAllocMsg ps Q m (length d) = (p, Q', m')"
    by (metis prod_cases3)
  have p: "Base Q + ps \<le> p \<and> p + length d \<le> High Q \<and> (ms = [] \<longrightarrow> p = Head Q' + ps)" if "p \<noteq> 0"
    by (rule queueAllocMsg_place [OF assms al that])
  show ?thesis
    using p fill_rep [OF assms al] queueAllocMsg_space [OF ps, of Q m "length d"]
      queueAllocMsg_full [OF ps, of Q m "length d"] al
      queuePeekMsg_rep(1) [of ps Q' _ "ms @ [(_, d)]"]
    by auto
qed

text \<open>\<open>queueFreeTail\<close> drops every message but the one at the head of the queue, complete
  or not, and returns where it is; on an empty queue it returns the null pointer.\<close>

theorem queueFreeTail_keeps_head:
  assumes "mq_rep ps Q m ms"
  shows "case queueFreeTail ps Q m of (r, Q') \<Rightarrow>
     if ms = [] then r = (0, None) \<and> Q' = Q
     else r = (Head Q + ps, Some (length (snd (hd ms)))) \<and>
       rd_bytes m (fst r) (length (snd (hd ms))) = snd (hd ms) \<and> mq_rep ps Q' m [hd ms]"
  using queueFreeTail_rep [OF assms] mq_rep_head(1) [OF assms] by (auto simp: queueFreeTail_def)

theorem queue_alloc_complete_witness:
  "case queueAllocMsg 8 (queueInit 64 48) (\<lambda>_. 0) 2 of (p, Q', m') \<Rightarrow>
     p \<noteq> 0 \<and> queuePeekMsg 8 Q' (queueCompleteMsg 8 (wr_bytes m' p [1, 2]) p) = (p, Some 2)"
proof -
  have "queueSpace 8 (queueInit 64 48) 2"
    by (simp add: queueSpace_def queueInit_def MSG_NEED_def align_up_def)
  then show ?thesis
    using queue_alloc_complete [OF queueInit_rep [of 8 64 48 "\<lambda>_. 0"], of "[1, 2]"]
    by (auto simp: numeral_2_eq_2 split: prod.splits)
qed

theorem queueFreeTail_keeps_head_witness:
  "case queueFreeTail 8 \<lparr>Size = 48, Base = 64, High = 112, Head = 64, Tail = 96, Wrap = 0, Count = 3\<rparr>
       ((\<lambda>_. 0)(64 := 2, 72 := 7, 73 := 8, 80 := 1, 88 := 5)) of (r, Q') \<Rightarrow>
     r = (72, Some 2) \<and>
     mq_rep 8 Q' ((\<lambda>_. 0)(64 := 2, 72 := 7, 73 := 8, 80 := 1, 88 := 5)) [(True, [7, 8])]"
proof -
  have "mq_rep 8 \<lparr>Size = 48, Base = 64, High = 112, Head = 64, Tail = 96, Wrap = 0, Count = 3\<rparr>
     ((\<lambda>_. 0)(64 := 2, 72 := 7, 73 := 8, 80 := 1, 88 := 5)) [(True, [7, 8]), (True, [5])]"
    by (simp add: mq_rep_def rd32_def rd16_def rd_bytes_def MSG_NEED_def align_up_def upt_rec)
  from queueFreeTail_keeps_head [OF this] show ?thesis by (simp split: prod.splits)
qed

end
