(* ===== verification/DataQueue.thy ===== *)
theory DataQueue
  imports MsgQueue
begin

text \<open>
  The segment queues of \<open>kernel/dqueue.c\<close> that carry the return codes and indications of
  the user mode IDI interface: the ring buffer of \<open>MsgQueue\<close> with a four byte header
  (\<open>ps = 4\<close>), behind the \<open>diva_data_q_*\<close> functions. The result of
  \<open>diva_os_malloc\<close> is an argument of \<open>diva_data_q_init\<close>; the queue header occupies the
  first 56 bytes of the allocation. \<open>pQ\<close> is \<open>None\<close> for the null pointer.
\<close>

record data_queue =
  pQ :: "msg_queue option"
  max_length :: nat

abbreviation sizeof_MSG_QUEUE :: nat where "sizeof_MSG_QUEUE \<equiv> 56"
abbreviation sizeof_MSG_HEAD :: nat where "sizeof_MSG_HEAD \<equiv> 4"

section \<open>Operations\<close>

definition data_q_alloc_size :: "nat \<Rightarrow> nat \<Rightarrow> nat" where
  "data_q_alloc_size maxlen segs = w32 (maxlen * segs + sizeof_MSG_QUEUE + segs * sizeof_MSG_HEAD)"

definition diva_data_q_init :: "(nat \<Rightarrow> nat) \<Rightarrow> data_queue \<Rightarrow> nat \<Rightarrow> nat \<Rightarrow> int \<times> data_queue" where
  "diva_data_q_init os_malloc q maxlen segs =
     (let p = os_malloc (data_q_alloc_size maxlen segs + 64)
      in if p \<noteq> 0 then (0, q\<lparr>pQ := Some (queueInit (p + sizeof_MSG_QUEUE) (maxlen * segs)), max_length := maxlen\<rparr>)
         else (- 1, q\<lparr>pQ := None\<rparr>))"

definition diva_data_q_finit :: "data_queue \<Rightarrow> data_queue" where
  "diva_data_q_finit q = (if pQ q \<noteq> None then q\<lparr>pQ := None\<rparr> else q)"

definition diva_data_q_get_max_length :: "data_queue \<Rightarrow> nat" where
  "diva_data_q_get_max_length q = max_length q"

text \<open>The queue is only used after a successful \<open>diva_data_q_init\<close>, so the functions below
  work on \<open>the (pQ q)\<close>.\<close>

definition diva_data_q_get_segment4write :: "data_queue \<Rightarrow> mem \<Rightarrow> nat \<Rightarrow> nat \<times> data_queue \<times> mem" where
  "diva_data_q_get_segment4write q m n =
     (case queueAllocMsg 4 (the (pQ q)) m (w16 n) of (p, Q', m') \<Rightarrow> (p, q\<lparr>pQ := Some Q'\<rparr>, m'))"

definition diva_data_q_ack_segment4write :: "mem \<Rightarrow> nat \<Rightarrow> mem" where
  "diva_data_q_ack_segment4write m msg = queueCompleteMsg 4 m msg"

definition diva_data_q_get_segment4read :: "data_queue \<Rightarrow> mem \<Rightarrow> nat" where
  "diva_data_q_get_segment4read q m = fst (queuePeekMsg 4 (the (pQ q)) m)"

definition diva_data_q_get_segment_length :: "data_queue \<Rightarrow> mem \<Rightarrow> nat" where
  "diva_data_q_get_segment_length q m =
     (case snd (queuePeekMsg 4 (the (pQ q)) m) of None \<Rightarrow> 0 | Some n \<Rightarrow> n)"

definition diva_data_q_ack_segment4read :: "data_queue \<Rightarrow> mem \<Rightarrow> data_queue" where
  "diva_data_q_ack_segment4read q m = q\<lparr>pQ := Some (queueFreeMsg 4 (the (pQ q)) m)\<rparr>"

section \<open>The clients' protocol\<close>

text \<open>How \<open>um_idi.c\<close> uses the queue: a writer takes a segment, fills it and acknowledges it;
  a reader looks at the segment and its length, copies it and acknowledges it.\<close>

type_synonym dq_state = "data_queue \<times> mem"

definition dq_put :: "dq_state \<Rightarrow> byte list \<Rightarrow> bool \<times> dq_state" where
  "dq_put s d =
     (case diva_data_q_get_segment4write (fst s) (snd s) (length d) of (p, q', m') \<Rightarrow>
        if p = 0 then (False, q', m')
        else (True, q', diva_data_q_ack_segment4write (wr_bytes m' p d) p))"

definition dq_peek :: "dq_state \<Rightarrow> byte list option" where
  "dq_peek s =
     (let p = diva_data_q_get_segment4read (fst s) (snd s)
      in if p = 0 then None
         else Some (rd_bytes (snd s) p (diva_data_q_get_segment_length (fst s) (snd s))))"

definition dq_pop :: "dq_state \<Rightarrow> dq_state" where
  "dq_pop s = (diva_data_q_ack_segment4read (fst s) (snd s), snd s)"

definition dq_abs :: "dq_state \<Rightarrow> byte list list \<Rightarrow> bool" where
  "dq_abs s ds \<longleftrightarrow> (\<exists>Q. pQ (fst s) = Some Q \<and> mq_abs 4 (Q, snd s) ds)"

lemma dq_abs_put:
  assumes "dq_abs s ds" "length d < 32768" "dq_put s d = (ok, s')"
  shows "dq_abs s' (if ok then ds @ [d] else ds)"
proof -
  obtain Q where Q: "pQ (fst s) = Some Q" "mq_rep 4 Q (snd s) (map (Pair True) ds)"
    using assms(1) by (auto simp: dq_abs_def mq_abs_def)
  obtain p Q' m' where al: "queueAllocMsg 4 Q (snd s) (length d) = (p, Q', m')" by (metis prod_cases3)
  show ?thesis
  proof (cases "p = 0")
    case True
    then have "Q' = Q" "m' = snd s" using queueAllocMsg_full [of 4 Q "snd s" "length d"] al by auto
    with True al Q assms(2,3) show ?thesis
      by (auto simp: dq_put_def diva_data_q_get_segment4write_def dq_abs_def mq_abs_def)
  next
    case False
    from fill_rep(3) [OF Q(2) _ assms(2) al this] False al Q(1) assms(2,3) show ?thesis
      by (auto simp: dq_put_def diva_data_q_get_segment4write_def diva_data_q_ack_segment4write_def
          dq_abs_def mq_abs_def)
  qed
qed

lemma dq_abs_peek:
  assumes "dq_abs s ds"
  shows "dq_peek s = (if ds = [] then None else Some (hd ds))"
proof -
  obtain Q where Q: "pQ (fst s) = Some Q" "mq_rep 4 Q (snd s) (map (Pair True) ds)"
    using assms by (auto simp: dq_abs_def mq_abs_def)
  show ?thesis
    using queuePeekMsg_rep [OF Q(2)] Q(1)
    by (cases ds)
      (auto simp: dq_peek_def diva_data_q_get_segment4read_def diva_data_q_get_segment_length_def)
qed

lemma dq_abs_pop: "dq_abs s ds \<Longrightarrow> ds \<noteq> [] \<Longrightarrow> dq_abs (dq_pop s) (tl ds)"
  using queueFreeMsg_rep [of 4 _ "snd s" "map (Pair True) ds"]
  by (auto simp: dq_abs_def mq_abs_def dq_pop_def diva_data_q_ack_segment4read_def map_tl)

interpretation dq: fifo dq_abs dq_put dq_peek dq_pop "\<lambda>d. length d < 32768"
  by unfold_locales (rule dq_abs_put dq_abs_pop dq_abs_peek; assumption)+

lemma dq_put_Size: "map_option Size (pQ (fst s)) = Some n \<Longrightarrow>
    map_option Size (pQ (fst (snd (dq_put s d)))) = Some n"
  by (cases s) (auto simp: dq_put_def diva_data_q_get_segment4write_def queueAllocMsg_def
      queue_alloc_at_tail_def Let_def split: prod.splits if_splits)

lemma dq_pop_Size: "map_option Size (pQ (fst s)) = Some n \<Longrightarrow>
    map_option Size (pQ (fst (dq_pop s))) = Some n"
  by (auto simp: dq_pop_def diva_data_q_ack_segment4read_def queueFreeMsg_def Let_def)

section \<open>Properties\<close>

text \<open>When \<open>diva_data_q_init\<close> succeeds, the segment queue delivers every segment that a
  writer got, filled and acknowledged, unchanged and in order: after any interleaving of
  writers (segments below 32768 bytes) and readers, reading on empties the queue and the
  segments read are exactly the segments written.\<close>

theorem data_q_delivers:
  assumes "os_malloc (data_q_alloc_size maxlen segs + 64) \<noteq> 0"
    and "\<forall>d. Put d \<in> set ops \<longrightarrow> length d < 32768"
  shows "fst (diva_data_q_init os_malloc q maxlen segs) = 0 \<and>
     (let s = (snd (diva_data_q_init os_malloc q maxlen segs), m)
      in \<exists>n acc t. fifo_run dq_put dq_peek dq_pop s (ops @ replicate n Get) = (acc, acc, t) \<and>
           acc = fst (fifo_run dq_put dq_peek dq_pop s ops) \<and> dq_peek t = None)"
proof -
  let ?s = "(snd (diva_data_q_init os_malloc q maxlen segs), m)"
  have "dq_abs ?s []"
    using assms(1) by (simp add: diva_data_q_init_def dq_abs_def Let_def queueInit_abs)
  from dq.all_delivered [OF this assms(2)] obtain n acc t where
    "fifo_run dq_put dq_peek dq_pop ?s (ops @ replicate n Get) = (acc, acc, t)" "dq_abs t []"
    "acc = fst (fifo_run dq_put dq_peek dq_pop ?s ops)" by blast
  moreover from dq.peek_rep [OF this(2)] have "dq_peek t = None" by simp
  moreover have "fst (diva_data_q_init os_malloc q maxlen segs) = 0"
    using assms(1) by (simp add: diva_data_q_init_def Let_def)
  ultimately show ?thesis unfolding Let_def by blast
qed

theorem data_q_delivers_witness:
  "\<exists>n acc t. fifo_run dq_put dq_peek dq_pop
       (snd (diva_data_q_init (\<lambda>_. 4096) \<lparr>pQ = None, max_length = 0\<rparr> 16 2), \<lambda>_. 0)
       ([Put [1], Put [2, 3], Get, Put [4]] @ replicate n Get) = (acc, acc, t)"
  using data_q_delivers [of "\<lambda>_. 4096" 16 2 "[Put [1], Put [2, 3], Get, Put [4]]"
      "\<lparr>pQ = None, max_length = 0\<rparr>" "\<lambda>_. 0"]
  by (auto simp: Let_def)

text \<open>The buffer that \<open>diva_data_q_init\<close> hands to \<open>queueInit\<close> has
  \<open>max_length * max_segments\<close> bytes, without the room for the segment headers that the
  allocation size includes: a queue initialised for segments of \<open>max_length\<close> bytes
  accepts, one after the other, fewer than \<open>max_segments\<close> segments of that length. In
  particular a queue for one segment never accepts a segment of its maximal length.\<close>

theorem data_q_short_of_segments:
  assumes "os_malloc (data_q_alloc_size maxlen segs + 64) \<noteq> 0"
    and "0 < maxlen" and "maxlen < 32768" and "0 < segs" and "length d = maxlen"
  shows "\<exists>k < segs. fst (fifo_run dq_put dq_peek dq_pop
       (snd (diva_data_q_init os_malloc q maxlen segs), m) (replicate segs (Put d))) = replicate k d"
proof -
  let ?s = "(snd (diva_data_q_init os_malloc q maxlen segs), m)"
  let ?b = "os_malloc (data_q_alloc_size maxlen segs + 64) + sizeof_MSG_QUEUE"
  obtain Q where Q: "pQ (fst ?s) = Some Q" "Size Q = maxlen * segs" "mq_rep 4 Q m []"
    using assms(1) queueInit_rep [of 4 ?b "maxlen * segs" m]
    by (simp add: diva_data_q_init_def Let_def) (simp add: queueInit_def)
  then have init: "dq_abs ?s []" by (simp add: dq_abs_def mq_abs_def)
  obtain k t where k: "fifo_run dq_put dq_peek dq_pop ?s (replicate segs (Put d)) = (replicate k d, [], t)"
    "k \<le> segs" using fifo_run_puts [of dq_put dq_peek dq_pop ?s segs d] by auto
  have "\<exists>ys. dq_abs t ys \<and> [] @ replicate k d = [] @ ys"
    using assms(3,5) by (intro dq.run_rep [OF init _ k(1)]) auto
  then have "dq_abs t (replicate k d)" by simp
  moreover have "map_option Size (pQ (fst t)) = Some (maxlen * segs)"
    using fifo_run_inv [of "\<lambda>s. map_option Size (pQ (fst s)) = Some (maxlen * segs)" dq_put dq_pop ?s]
      dq_put_Size dq_pop_Size Q k(1) by blast
  ultimately obtain R where R: "mq_rep 4 R (snd t) (map (Pair True) (replicate k d))" "Size R = maxlen * segs"
    by (auto simp: dq_abs_def mq_abs_def)
  have "k * (4 + maxlen) \<le> maxlen * segs"
    using mq_rep_total [OF R(1)] R(2) assms(5) by (simp add: sum_list_replicate)
  then have "k * maxlen + 4 * k \<le> segs * maxlen" by (simp add: algebra_simps)
  moreover have "segs * maxlen + 4 * segs \<le> k * maxlen + 4 * k" if "segs \<le> k"
    using that by (intro add_mono mult_le_mono1 mult_le_mono2)
  ultimately have "k < segs" using assms(4) by (cases "k < segs") auto
  with k show ?thesis by auto
qed

theorem data_q_short_of_segments_witness:
  "\<exists>k < 1. fst (fifo_run dq_put dq_peek dq_pop
       (snd (diva_data_q_init (\<lambda>_. 4096) \<lparr>pQ = None, max_length = 0\<rparr> 16 1), \<lambda>_. 0)
       (replicate 1 (Put (replicate 16 7)))) = replicate k (replicate 16 7)"
  by (rule data_q_short_of_segments) simp_all

end
