(* ===== verification/DList.thy ===== *)
theory DList
  imports CBase
begin

text \<open>
  The doubly linked list of \<open>kernel/dlist.c\<close>. A link is an address (\<open>0\<close> is the null
  pointer); the two maps of \<open>dl_heap\<close> are the \<open>next\<close> and \<open>prev\<close> fields of all
  links, shared by all queues; a \<open>dl_queue\<close> is a \<open>diva_entity_queue_t\<close>. The loops
  over the list are \<open>partial_function (option)\<close>: \<open>None\<close> is a loop that does not
  end, which the representation predicate \<open>q_rep\<close> excludes.
\<close>

record dl_heap =
  lnext :: "nat \<Rightarrow> nat"
  lprev :: "nat \<Rightarrow> nat"

record dl_queue =
  qhead :: nat
  qtail :: nat

abbreviation set_next :: "nat \<Rightarrow> nat \<Rightarrow> dl_heap \<Rightarrow> dl_heap" where
  "set_next a v h \<equiv> h\<lparr>lnext := (lnext h)(a := v)\<rparr>"

abbreviation set_prev :: "nat \<Rightarrow> nat \<Rightarrow> dl_heap \<Rightarrow> dl_heap" where
  "set_prev a v h \<equiv> h\<lparr>lprev := (lprev h)(a := v)\<rparr>"

section \<open>Operations\<close>

definition diva_q_init :: "dl_queue" where
  "diva_q_init = \<lparr>qhead = 0, qtail = 0\<rparr>"

definition diva_q_remove :: "dl_queue \<times> dl_heap \<Rightarrow> nat \<Rightarrow> dl_queue \<times> dl_heap" where
  "diva_q_remove s what =
     (let q = fst s; h = snd s; p = lprev h what; n = lnext h what;
          (q', h') =
            (if p = 0 then
               (if n \<noteq> 0 then (q\<lparr>qhead := n\<rparr>, set_prev n 0 h)
                else (q\<lparr>qhead := n, qtail := 0\<rparr>, h))
             else if n = 0 then (q\<lparr>qtail := p\<rparr>, set_next p 0 h)
             else (q, set_prev n p (set_next p n h)))
      in (q', set_prev what 0 (set_next what 0 h')))"

definition diva_q_add_tail :: "dl_queue \<times> dl_heap \<Rightarrow> nat \<Rightarrow> dl_queue \<times> dl_heap" where
  "diva_q_add_tail s what =
     (let q = fst s; h = set_next what 0 (snd s)
      in if qhead q = 0 then (q\<lparr>qhead := what, qtail := what\<rparr>, set_prev what 0 h)
         else (q\<lparr>qtail := what\<rparr>, set_next (qtail q) what (set_prev what (qtail q) h)))"

definition diva_q_get_head :: "dl_queue \<Rightarrow> nat" where
  "diva_q_get_head q = qhead q"

definition diva_q_get_tail :: "dl_queue \<Rightarrow> nat" where
  "diva_q_get_tail q = qtail q"

definition diva_q_get_next :: "dl_heap \<Rightarrow> nat \<Rightarrow> nat" where
  "diva_q_get_next h what = (if what \<noteq> 0 then lnext h what else 0)"

definition diva_q_get_prev :: "dl_heap \<Rightarrow> nat \<Rightarrow> nat" where
  "diva_q_get_prev h what = (if what \<noteq> 0 then lprev h what else 0)"

definition diva_q_insert_after :: "dl_queue \<times> dl_heap \<Rightarrow> nat \<Rightarrow> nat \<Rightarrow> dl_queue \<times> dl_heap" where
  "diva_q_insert_after s prv what =
     (let n = diva_q_get_next (snd s) prv
      in if prv = 0 \<or> n = 0 then diva_q_add_tail s what
         else (fst s,
               set_prev n what (set_next prv what
                 (set_next what n (set_prev what prv (snd s))))))"

definition diva_q_insert_before :: "dl_queue \<times> dl_heap \<Rightarrow> nat \<Rightarrow> nat \<Rightarrow> dl_queue \<times> dl_heap" where
  "diva_q_insert_before s nxt what =
     (if nxt = 0 then diva_q_add_tail s what
      else
        let p = diva_q_get_prev (snd s) nxt
        in if p = 0 then
             ((fst s)\<lparr>qhead := what\<rparr>,
              set_prev nxt what (set_next what nxt (set_prev what 0 (snd s))))
           else
             (fst s,
              set_prev nxt what (set_next p what
                (set_next what nxt (set_prev what p (snd s))))))"

text \<open>The comparison callback returns \<open>0\<close> on a match, as in the code.\<close>

partial_function (option) q_find_from :: "dl_heap \<Rightarrow> (nat \<Rightarrow> int) \<Rightarrow> nat \<Rightarrow> nat option" where
  "q_find_from h cmp cur =
     (if cur = 0 then Some 0
      else if cmp cur = 0 then Some cur
      else q_find_from h cmp (lnext h cur))"

definition diva_q_find :: "dl_queue \<Rightarrow> dl_heap \<Rightarrow> (nat \<Rightarrow> int) \<Rightarrow> nat option" where
  "diva_q_find q h cmp = q_find_from h cmp (qhead q)"

partial_function (option) q_count_from :: "dl_heap \<Rightarrow> nat \<Rightarrow> nat \<Rightarrow> nat option" where
  "q_count_from h i cur =
     (if cur = 0 then Some i else q_count_from h (Suc i) (lnext h cur))"

definition diva_q_get_nr_of_entries :: "dl_queue \<Rightarrow> dl_heap \<Rightarrow> nat option" where
  "diva_q_get_nr_of_entries q h = q_count_from h 0 (qhead q)"

section \<open>Representation\<close>

text \<open>
  \<open>dl_seg h p c xs l n\<close>: starting at \<open>c\<close>, whose predecessor is \<open>p\<close>, the links \<open>xs\<close>
  follow each other in both directions; \<open>l\<close> is the last one (\<open>p\<close> if there is none) and
  \<open>n\<close> its successor.
\<close>

fun dl_seg :: "dl_heap \<Rightarrow> nat \<Rightarrow> nat \<Rightarrow> nat list \<Rightarrow> nat \<Rightarrow> nat \<Rightarrow> bool" where
  "dl_seg h p c [] l n \<longleftrightarrow> l = p \<and> n = c"
| "dl_seg h p c (x # xs) l n \<longleftrightarrow>
     c = x \<and> x \<noteq> 0 \<and> lprev h x = p \<and> dl_seg h x (lnext h x) xs l n"

definition q_rep :: "dl_queue \<times> dl_heap \<Rightarrow> nat list \<Rightarrow> bool" where
  "q_rep s xs \<longleftrightarrow> distinct xs \<and> dl_seg (snd s) 0 (qhead (fst s)) xs (qtail (fst s)) 0"

lemma dl_seg_append:
  "dl_seg h p c (xs @ ys) l n \<longleftrightarrow> (\<exists>l' c'. dl_seg h p c xs l' c' \<and> dl_seg h l' c' ys l n)"
  by (induction xs arbitrary: p c) auto

lemma dl_seg_cong:
  assumes "\<And>x. x \<in> set xs \<Longrightarrow> lnext h' x = lnext h x \<and> lprev h' x = lprev h x"
  shows "dl_seg h' p c xs l n = dl_seg h p c xs l n"
  using assms by (induction xs arbitrary: p c) auto

lemma dl_seg_last: "dl_seg h p c xs l n \<Longrightarrow> xs \<noteq> [] \<Longrightarrow> l = last xs \<and> lnext h l = n \<and> l \<noteq> 0"
proof (induction xs arbitrary: p c)
  case (Cons x xs)
  then show ?case by (cases "xs = []") auto
qed simp

lemma dl_seg_first: "dl_seg h p c xs l n \<Longrightarrow> xs \<noteq> [] \<Longrightarrow> c = hd xs \<and> lprev h c = p \<and> c \<noteq> 0"
  by (cases xs) auto

lemma dl_seg_nonzero: "dl_seg h p c xs l n \<Longrightarrow> 0 \<notin> set xs"
  by (induction xs arbitrary: p c) auto

text \<open>Redirecting the link that leaves a segment, or the one that enters it.\<close>

lemma dl_seg_redirect_next:
  "dl_seg h p c xs l n \<Longrightarrow> distinct xs \<Longrightarrow> xs \<noteq> [] \<Longrightarrow> dl_seg (set_next l n' h) p c xs l n'"
proof (induction xs arbitrary: p c)
  case (Cons x xs)
  show ?case
  proof (cases "xs = []")
    case False
    with Cons.prems have "l = last xs" by (auto dest: dl_seg_last)
    with Cons False show ?thesis by auto
  qed (use Cons.prems in auto)
qed simp

lemma dl_seg_redirect_prev:
  "dl_seg h p c xs l n \<Longrightarrow> distinct xs \<Longrightarrow> xs \<noteq> [] \<Longrightarrow> dl_seg (set_prev c p' h) p' c xs l n"
proof (cases xs)
  case (Cons y ys)
  assume *: "dl_seg h p c xs l n" "distinct xs"
  with Cons have "dl_seg (set_prev c p' h) y (lnext h y) ys l n = dl_seg h y (lnext h y) ys l n"
    by (intro dl_seg_cong) auto
  with * Cons show ?thesis by simp
qed simp

lemma q_rep_Nil [simp]: "q_rep s [] \<longleftrightarrow> qhead (fst s) = 0 \<and> qtail (fst s) = 0"
  by (auto simp: q_rep_def)

lemma q_rep_init: "q_rep (diva_q_init, h) []"
  by (simp add: diva_q_init_def)

lemma q_rep_head: "q_rep s xs \<Longrightarrow> diva_q_get_head (fst s) = (if xs = [] then 0 else hd xs)"
  by (cases xs) (auto simp: q_rep_def diva_q_get_head_def)

lemma q_rep_tail: "q_rep s xs \<Longrightarrow> diva_q_get_tail (fst s) = (if xs = [] then 0 else last xs)"
  by (auto simp: q_rep_def diva_q_get_tail_def dest: dl_seg_last)

lemma q_rep_nonzero: "q_rep s xs \<Longrightarrow> 0 \<notin> set xs"
  by (auto simp: q_rep_def dest: dl_seg_nonzero)

lemma q_rep_distinct: "q_rep s xs \<Longrightarrow> distinct xs"
  by (simp add: q_rep_def)

section \<open>Each operation implements the list operation\<close>

definition dl_frame :: "nat set \<Rightarrow> dl_heap \<Rightarrow> dl_heap \<Rightarrow> bool" where
  "dl_frame A h h' \<longleftrightarrow> (\<forall>x. x \<notin> A \<longrightarrow> lnext h' x = lnext h x \<and> lprev h' x = lprev h x)"

lemma q_rep_frame:
  assumes "q_rep (q, h) zs" "dl_frame A h h'" "set zs \<inter> A = {}"
  shows "q_rep (q, h') zs"
proof -
  have "dl_seg h' 0 (qhead q) zs (qtail q) 0 = dl_seg h 0 (qhead q) zs (qtail q) 0"
    using assms(2,3) by (intro dl_seg_cong) (auto simp: dl_frame_def)
  with assms(1) show ?thesis by (simp add: q_rep_def)
qed

lemma q_rep_add_tail:
  assumes r: "q_rep s xs" and w: "what \<notin> set xs" "what \<noteq> 0"
  shows "q_rep (diva_q_add_tail s what) (xs @ [what])"
proof (cases "xs = []")
  case True
  with assms show ?thesis by (auto simp: q_rep_def diva_q_add_tail_def Let_def)
next
  case False
  let ?q = "fst s" and ?t = "qtail (fst s)"
  let ?h1 = "set_prev what ?t (set_next what 0 (snd s))"
  from r have seg: "dl_seg (snd s) 0 (qhead ?q) xs ?t 0" and d: "distinct xs"
    by (simp_all add: q_rep_def)
  from seg False have t: "?t = last xs" "qhead ?q \<noteq> 0" by (auto dest: dl_seg_last dl_seg_first)
  then have tw: "?t \<noteq> what" using w False by auto
  have "dl_seg ?h1 0 (qhead ?q) xs ?t 0"
    using seg w by (subst dl_seg_cong [where h = "snd s"]) auto
  then have "dl_seg (set_next ?t what ?h1) 0 (qhead ?q) xs ?t what"
    using d False by (rule dl_seg_redirect_next)
  then show ?thesis
    using t tw w d by (auto simp: q_rep_def diva_q_add_tail_def Let_def dl_seg_append)
qed

lemma frame_add_tail:
  "q_rep s xs \<Longrightarrow> dl_frame (insert what (set xs)) (snd s) (snd (diva_q_add_tail s what))"
  by (cases "xs = []") (auto simp: dl_frame_def diva_q_add_tail_def Let_def q_rep_def dest!: dl_seg_last)

text \<open>
  A queue cut at a link \<open>x\<close>: what precedes it ends in \<open>prev x\<close>, what follows begins with
  \<open>next x\<close>.
\<close>

lemma q_rep_cut:
  assumes "q_rep (q, h) (xs @ x # ys)"
  shows "dl_seg h 0 (qhead q) xs (lprev h x) x" "dl_seg h x (lnext h x) ys (qtail q) 0"
    "x \<noteq> 0" "distinct xs" "distinct ys" "x \<notin> set xs" "x \<notin> set ys" "set xs \<inter> set ys = {}"
    "lprev h x = (if xs = [] then 0 else last xs)" "lnext h x = (if ys = [] then 0 else hd ys)"
    "xs \<noteq> [] \<Longrightarrow> lprev h x \<noteq> 0" "ys \<noteq> [] \<Longrightarrow> lnext h x \<noteq> 0"
    "lprev h x \<noteq> 0 \<Longrightarrow> lprev h x \<in> set xs" "lnext h x \<noteq> 0 \<Longrightarrow> lnext h x \<in> set ys"
  using assms by (cases "xs = []"; cases "ys = []";
    auto simp: q_rep_def dl_seg_append dest: dl_seg_last dl_seg_first)+

lemma q_rep_remove:
  assumes r: "q_rep s (xs @ what # ys)"
  shows "q_rep (diva_q_remove s what) (xs @ ys)"
proof -
  obtain q h where s: "s = (q, h)" by (cases s)
  note c = q_rep_cut [OF r [unfolded s]]
  let ?p = "lprev h what" and ?n = "lnext h what"
  let ?fin = "\<lambda>g. set_prev what 0 (set_next what 0 g)"
  have fin: "dl_seg (?fin g) a b zs l m = dl_seg g a b zs l m" if "what \<notin> set zs" for g a b zs l m
    using that by (intro dl_seg_cong) auto
  consider "xs = []" "ys = []" | "xs = []" "ys \<noteq> []" | "xs \<noteq> []" "ys = []" | "xs \<noteq> []" "ys \<noteq> []"
    by blast
  then show ?thesis
  proof cases
    case 1
    with c show ?thesis by (auto simp: s diva_q_remove_def Let_def)
  next
    case 2
    then have "dl_seg (?fin (set_prev ?n 0 h)) 0 ?n ys (qtail q) 0"
      using c by (subst fin) (auto intro: dl_seg_redirect_prev)
    with 2 c show ?thesis by (simp add: s diva_q_remove_def Let_def q_rep_def)
  next
    case 3
    then have "dl_seg (?fin (set_next ?p 0 h)) 0 (qhead q) xs ?p 0"
      using c by (subst fin) (auto intro: dl_seg_redirect_next)
    with 3 c show ?thesis by (simp add: s diva_q_remove_def Let_def q_rep_def)
  next
    case 4
    let ?h = "set_prev ?n ?p (set_next ?p ?n h)"
    have pn: "?p \<in> set xs" "?n \<in> set ys" using 4 c(9,10) by auto
    have "dl_seg (set_next ?p ?n h) 0 (qhead q) xs ?p ?n"
      using c 4 by (intro dl_seg_redirect_next) auto
    then have 1: "dl_seg ?h 0 (qhead q) xs ?p ?n"
      using pn c(8) by (subst dl_seg_cong [where h = "set_next ?p ?n h"]) auto
    have "dl_seg (set_next ?p ?n h) what ?n ys (qtail q) 0"
      using pn c by (subst dl_seg_cong [where h = h]) auto
    then have "dl_seg ?h ?p ?n ys (qtail q) 0"
      using c 4 by (intro dl_seg_redirect_prev) auto
    with 1 c have "dl_seg (?fin ?h) 0 (qhead q) (xs @ ys) (qtail q) 0"
      by (subst fin) (auto simp: dl_seg_append)
    with 4 c show ?thesis
      by (simp add: s diva_q_remove_def Let_def q_rep_def)
  qed
qed

lemma frame_remove:
  "q_rep s (xs @ what # ys) \<Longrightarrow>
     dl_frame (set (xs @ what # ys)) (snd s) (snd (diva_q_remove s what))"
  by (cases s) (auto simp: dl_frame_def diva_q_remove_def Let_def split: if_splits dest: q_rep_cut(13,14))

lemma q_rep_insert_before:
  assumes r: "q_rep s (xs @ nxt # ys)" and w: "what \<notin> set (xs @ nxt # ys)" "what \<noteq> 0"
  shows "q_rep (diva_q_insert_before s nxt what) (xs @ what # nxt # ys)"
proof -
  obtain q h where s: "s = (q, h)" by (cases s)
  note c = q_rep_cut [OF r [unfolded s]]
  let ?p = "lprev h nxt"
  let ?g = "set_prev nxt what (set_next what nxt (set_prev what ?p h))"
  have ys: "dl_seg ?g nxt (lnext h nxt) ys (qtail q) 0"
    using c w by (subst dl_seg_cong [where h = h]) auto
  show ?thesis
  proof (cases "xs = []")
    case True
    with c w ys show ?thesis
      by (auto simp: s diva_q_insert_before_def diva_q_get_prev_def Let_def q_rep_def)
  next
    case False
    let ?h = "set_prev nxt what (set_next ?p what (set_next what nxt (set_prev what ?p h)))"
    have p: "?p \<in> set xs" using False c(9) by auto
    have xs: "dl_seg ?h 0 (qhead q) xs ?p what"
    proof -
      have "dl_seg (set_next ?p what h) 0 (qhead q) xs ?p what"
        using c False by (intro dl_seg_redirect_next) auto
      then show ?thesis using c w p by (subst dl_seg_cong [where h = "set_next ?p what h"]) auto
    qed
    have "dl_seg ?h nxt (lnext h nxt) ys (qtail q) 0"
      using ys p c(8) by (subst dl_seg_cong [where h = ?g]) auto
    with xs c w p False show ?thesis
      by (auto simp: s diva_q_insert_before_def diva_q_get_prev_def Let_def q_rep_def dl_seg_append)
  qed
qed

lemma q_rep_insert_before_null:
  "q_rep s xs \<Longrightarrow> what \<notin> set xs \<Longrightarrow> what \<noteq> 0 \<Longrightarrow> q_rep (diva_q_insert_before s 0 what) (xs @ [what])"
  by (simp add: diva_q_insert_before_def q_rep_add_tail)

lemma frame_insert_before:
  "q_rep s (xs @ nxt # ys) \<Longrightarrow>
     dl_frame (insert what (set (xs @ nxt # ys))) (snd s) (snd (diva_q_insert_before s nxt what))"
  by (cases s) (auto simp: dl_frame_def diva_q_insert_before_def diva_q_get_prev_def Let_def
      split: if_splits dest: q_rep_cut(3,13))

lemma q_rep_insert_after:
  assumes r: "q_rep s (xs @ prv # ys)" and w: "what \<notin> set (xs @ prv # ys)" "what \<noteq> 0"
  shows "q_rep (diva_q_insert_after s prv what) (xs @ prv # what # ys)"
proof -
  obtain q h where s: "s = (q, h)" by (cases s)
  note c = q_rep_cut [OF r [unfolded s]]
  let ?n = "lnext h prv"
  show ?thesis
  proof (cases "ys = []")
    case True
    with c have "diva_q_insert_after s prv what = diva_q_add_tail s what"
      by (simp add: s diva_q_insert_after_def diva_q_get_next_def Let_def)
    then show ?thesis using q_rep_add_tail [OF r] w True by simp
  next
    case False
    let ?h = "set_prev ?n what (set_next prv what (set_next what ?n (set_prev what prv h)))"
    have n: "?n \<in> set ys" "?n = hd ys" using False c(10) by auto
    have 1: "dl_seg ?h 0 (qhead q) xs (lprev h prv) prv"
      using c w n by (subst dl_seg_cong [where h = h]) auto
    have "dl_seg (set_prev ?n what h) what ?n ys (qtail q) 0"
      using c False by (intro dl_seg_redirect_prev) auto
    then have "dl_seg ?h what ?n ys (qtail q) 0"
      using c w by (subst dl_seg_cong [where h = "set_prev ?n what h"]) auto
    with 1 c w n False show ?thesis
      by (auto simp: s diva_q_insert_after_def diva_q_get_next_def Let_def q_rep_def dl_seg_append)
  qed
qed

section \<open>The loops end on a well-formed queue\<close>

lemma q_find_from_rep:
  "dl_seg h p c xs l 0 \<Longrightarrow>
     q_find_from h cmp c = Some (case filter (\<lambda>x. cmp x = 0) xs of [] \<Rightarrow> 0 | x # _ \<Rightarrow> x)"
proof (induction xs arbitrary: p c)
  case Nil
  then show ?case by (subst q_find_from.simps) simp
next
  case (Cons x xs)
  then show ?case by (subst q_find_from.simps) auto
qed

lemma q_find_rep:
  "q_rep s xs \<Longrightarrow>
     diva_q_find (fst s) (snd s) cmp = Some (case filter (\<lambda>x. cmp x = 0) xs of [] \<Rightarrow> 0 | x # _ \<Rightarrow> x)"
  by (auto simp: q_rep_def diva_q_find_def dest: q_find_from_rep)

lemma q_count_from_rep: "dl_seg h p c xs l 0 \<Longrightarrow> q_count_from h i c = Some (i + length xs)"
proof (induction xs arbitrary: p c i)
  case Nil
  then show ?case by (subst q_count_from.simps) simp
next
  case (Cons x xs)
  then show ?case by (subst q_count_from.simps) auto
qed

lemma q_count_rep:
  "q_rep s xs \<Longrightarrow> diva_q_get_nr_of_entries (fst s) (snd s) = Some (length xs)"
  by (auto simp: q_rep_def diva_q_get_nr_of_entries_def dest: q_count_from_rep [where i = 0])

section \<open>The interface the clients use\<close>

text \<open>
  A client of the list sees queues over one heap of links: a representation predicate,
  and for each operation the list it produces and the links it may touch. The lemmas a
  client needs (rotating a queue, moving a link from one queue to another) follow from
  these laws alone.
\<close>

locale link_queue =
  fixes rep :: "'q \<times> 'h \<Rightarrow> nat list \<Rightarrow> bool"
    and add_tail :: "'q \<times> 'h \<Rightarrow> nat \<Rightarrow> 'q \<times> 'h"
    and remove :: "'q \<times> 'h \<Rightarrow> nat \<Rightarrow> 'q \<times> 'h"
    and frame :: "nat set \<Rightarrow> 'h \<Rightarrow> 'h \<Rightarrow> bool"
  assumes rep_distinct: "rep s xs \<Longrightarrow> distinct xs"
    and rep_nonzero: "rep s xs \<Longrightarrow> 0 \<notin> set xs"
    and rep_add_tail: "rep s xs \<Longrightarrow> w \<notin> set xs \<Longrightarrow> w \<noteq> 0 \<Longrightarrow> rep (add_tail s w) (xs @ [w])"
    and frame_add: "rep s xs \<Longrightarrow> frame (insert w (set xs)) (snd s) (snd (add_tail s w))"
    and rep_remove: "rep s (xs @ w # ys) \<Longrightarrow> rep (remove s w) (xs @ ys)"
    and frame_rem: "rep s (xs @ w # ys) \<Longrightarrow> frame (set (xs @ w # ys)) (snd s) (snd (remove s w))"
    and rep_frame: "rep (q, h) zs \<Longrightarrow> frame A h h' \<Longrightarrow> set zs \<inter> A = {} \<Longrightarrow> rep (q, h') zs"
begin

lemma rotate: "rep s (xs @ w # ys) \<Longrightarrow> rep (add_tail (remove s w) w) (xs @ ys @ [w])"
  using rep_add_tail [OF rep_remove, of s xs w ys] rep_distinct [of s "xs @ w # ys"]
    rep_nonzero [of s "xs @ w # ys"] by (auto intro: gr0I)

lemma remove_other:
  "rep (q1, h) (xs @ w # ys) \<Longrightarrow> rep (q2, h) zs \<Longrightarrow> set (xs @ w # ys) \<inter> set zs = {} \<Longrightarrow>
     rep (q2, snd (remove (q1, h) w)) zs"
  using frame_rem [of "(q1, h)" xs w ys] by (auto intro: rep_frame)

lemma add_other:
  "rep (q1, h) xs \<Longrightarrow> rep (q2, h) zs \<Longrightarrow> set xs \<inter> set zs = {} \<Longrightarrow> w \<notin> set zs \<Longrightarrow>
     rep (q2, snd (add_tail (q1, h) w)) zs"
  using frame_add [of "(q1, h)" xs w] by (auto intro: rep_frame)

text \<open>A link taken out of one queue and appended to another one over the same heap.\<close>

lemma move:
  assumes "rep (q1, h) (xs @ w # ys)" "rep (q2, h) zs" "set (xs @ w # ys) \<inter> set zs = {}"
  defines "r \<equiv> remove (q1, h) w"
  shows "rep (add_tail (q2, snd r) w) (zs @ [w])"
    "rep (fst r, snd (add_tail (q2, snd r) w)) (xs @ ys)"
proof -
  have 1: "rep (fst r, snd r) (xs @ ys)" unfolding r_def using rep_remove [OF assms(1)] by simp
  have 2: "rep (q2, snd r) zs" unfolding r_def using assms(1-3) by (rule remove_other)
  have w: "w \<notin> set zs" "w \<noteq> 0" "w \<notin> set (xs @ ys)"
    using rep_distinct [OF assms(1)] rep_nonzero [OF assms(1)] assms(3) by auto
  show "rep (add_tail (q2, snd r) w) (zs @ [w])" using 2 w(1,2) by (rule rep_add_tail)
  show "rep (fst r, snd (add_tail (q2, snd r) w)) (xs @ ys)"
    using 2 1 _ w(3) by (rule add_other) (use assms(3) in auto)
qed

end

interpretation dlq: link_queue q_rep diva_q_add_tail diva_q_remove dl_frame
  by unfold_locales
    (auto intro: q_rep_distinct q_rep_add_tail frame_add_tail q_rep_remove q_rep_frame
      dest: q_rep_nonzero frame_remove)

text \<open>Clients that also put links in front of a queue.\<close>

locale link_deque = link_queue +
  fixes push :: "'a \<times> 'b \<Rightarrow> nat \<Rightarrow> 'a \<times> 'b"
  assumes rep_push: "rep s xs \<Longrightarrow> w \<notin> set xs \<Longrightarrow> w \<noteq> 0 \<Longrightarrow> rep (push s w) (w # xs)"
    and frame_push: "rep s xs \<Longrightarrow> frame (insert w (set xs)) (snd s) (snd (push s w))"
begin

lemma to_front: "rep s (xs @ w # ys) \<Longrightarrow> rep (push (remove s w) w) (w # xs @ ys)"
  using rep_push [OF rep_remove, of s xs w ys] rep_distinct [of s "xs @ w # ys"]
    rep_nonzero [of s "xs @ w # ys"] by auto

lemma push_other:
  "rep (q1, h) xs \<Longrightarrow> rep (q2, h) zs \<Longrightarrow> set xs \<inter> set zs = {} \<Longrightarrow> w \<notin> set zs \<Longrightarrow>
     rep (q2, snd (push (q1, h) w)) zs"
  using frame_push [of "(q1, h)" xs w] by (auto intro: rep_frame)

lemma move_front:
  assumes "rep (q1, h) (xs @ w # ys)" "rep (q2, h) zs" "set (xs @ w # ys) \<inter> set zs = {}"
  defines "r \<equiv> remove (q1, h) w"
  shows "rep (push (q2, snd r) w) (w # zs)"
    "rep (fst r, snd (push (q2, snd r) w)) (xs @ ys)"
proof -
  have 1: "rep (fst r, snd r) (xs @ ys)" unfolding r_def using rep_remove [OF assms(1)] by simp
  have 2: "rep (q2, snd r) zs" unfolding r_def using assms(1-3) by (rule remove_other)
  have w: "w \<notin> set zs" "w \<noteq> 0" "w \<notin> set (xs @ ys)"
    using rep_distinct [OF assms(1)] rep_nonzero [OF assms(1)] assms(3) by auto
  show "rep (push (q2, snd r) w) (w # zs)" using 2 w(1,2) by (rule rep_push)
  show "rep (fst r, snd (push (q2, snd r) w)) (xs @ ys)"
    using 2 1 _ w(3) by (rule push_other) (use assms(3) in auto)
qed

lemma rotate_other:
  assumes "rep (q1, h) (xs @ w # ys)" "rep (q2, h) zs" "set (xs @ w # ys) \<inter> set zs = {}"
  shows "rep (q2, snd (add_tail (remove (q1, h) w) w)) zs"
proof -
  have "rep (fst (remove (q1, h) w), snd (remove (q1, h) w)) (xs @ ys)" using rep_remove [OF assms(1)] by simp
  from add_other [OF this remove_other [OF assms], of w] assms(3) show ?thesis by auto
qed

lemma to_front_other:
  assumes "rep (q1, h) (xs @ w # ys)" "rep (q2, h) zs" "set (xs @ w # ys) \<inter> set zs = {}"
  shows "rep (q2, snd (push (remove (q1, h) w) w)) zs"
proof -
  have "rep (fst (remove (q1, h) w), snd (remove (q1, h) w)) (xs @ ys)" using rep_remove [OF assms(1)] by simp
  from push_other [OF this remove_other [OF assms], of w] assms(3) show ?thesis by auto
qed

end

text \<open>Putting a link in front is \<open>diva_q_insert_before\<close> at the head of the queue.\<close>

abbreviation q_push :: "dl_queue \<times> dl_heap \<Rightarrow> nat \<Rightarrow> dl_queue \<times> dl_heap" where
  "q_push s w \<equiv> diva_q_insert_before s (diva_q_get_head (fst s)) w"

lemma q_rep_push: "q_rep s xs \<Longrightarrow> w \<notin> set xs \<Longrightarrow> w \<noteq> 0 \<Longrightarrow> q_rep (q_push s w) (w # xs)"
  using q_rep_insert_before [of s "[]" "hd xs" "tl xs" w] q_rep_insert_before_null [of s xs w]
  by (cases xs) (simp_all add: q_rep_head, simp add: diva_q_get_head_def)

lemma frame_q_push:
  "q_rep s xs \<Longrightarrow> dl_frame (insert w (set xs)) (snd s) (snd (q_push s w))"
  using frame_insert_before [of s "[]" "hd xs" "tl xs" w] frame_add_tail [of s xs w]
  by (cases xs) (simp_all add: q_rep_head, simp add: diva_q_get_head_def diva_q_insert_before_def)

interpretation dlq: link_deque q_rep diva_q_add_tail diva_q_remove dl_frame
  "\<lambda>s w. diva_q_insert_before s (diva_q_get_head (fst s)) w"
  by unfold_locales (auto intro: q_rep_push frame_q_push)

section \<open>Properties\<close>

text \<open>C37: On a well-formed queue every operation of \<open>dlist.c\<close> is the operation on the list of
  its links: \<open>diva_q_remove\<close> takes out the link, \<open>diva_q_insert_before\<close> and
  \<open>diva_q_insert_after\<close> put a new one on either side of it, \<open>diva_q_add_tail\<close> appends,
  \<open>diva_q_get_head\<close>, \<open>diva_q_get_tail\<close>, \<open>diva_q_get_next\<close> and \<open>diva_q_get_prev\<close> walk
  the list, \<open>diva_q_find\<close> and \<open>diva_q_get_nr_of_entries\<close> end and return the first match
  and the length. The removed link is left with null pointers on both sides.\<close>

theorem dlist_refines_list:
  assumes r: "q_rep s (xs @ x # ys)" and w: "w \<noteq> 0" "w \<notin> set (xs @ x # ys)"
  shows "q_rep (diva_q_remove s x) (xs @ ys) \<and>
     lnext (snd (diva_q_remove s x)) x = 0 \<and> lprev (snd (diva_q_remove s x)) x = 0 \<and>
     q_rep (diva_q_insert_before s x w) (xs @ w # x # ys) \<and>
     q_rep (diva_q_insert_after s x w) (xs @ x # w # ys) \<and>
     q_rep (diva_q_add_tail s w) (xs @ x # ys @ [w]) \<and>
     diva_q_get_head (fst s) = hd (xs @ [x]) \<and> diva_q_get_tail (fst s) = last (x # ys) \<and>
     diva_q_get_next (snd s) x = (if ys = [] then 0 else hd ys) \<and>
     diva_q_get_prev (snd s) x = (if xs = [] then 0 else last xs) \<and>
     diva_q_find (fst s) (snd s) cmp =
       Some (case filter (\<lambda>y. cmp y = 0) (xs @ x # ys) of [] \<Rightarrow> 0 | y # _ \<Rightarrow> y) \<and>
     diva_q_get_nr_of_entries (fst s) (snd s) = Some (Suc (length xs + length ys))"
proof -
  obtain q h where s: "s = (q, h)" by (cases s)
  note c = q_rep_cut [OF r [unfolded s]]
  have "lnext (snd (diva_q_remove s x)) x = 0 \<and> lprev (snd (diva_q_remove s x)) x = 0"
    by (simp add: diva_q_remove_def Let_def split: prod.splits)
  moreover have "diva_q_get_head (fst s) = hd (xs @ [x])" "diva_q_get_tail (fst s) = last (x # ys)"
    using q_rep_head [OF r] q_rep_tail [OF r] by (cases xs; simp)+
  moreover have "diva_q_get_next (snd s) x = (if ys = [] then 0 else hd ys)"
    "diva_q_get_prev (snd s) x = (if xs = [] then 0 else last xs)"
    using c(3,9,10) by (simp_all add: s diva_q_get_next_def diva_q_get_prev_def)
  moreover have "q_rep (diva_q_add_tail s w) (xs @ x # ys @ [w])" using q_rep_add_tail [OF r w(2,1)] by simp
  ultimately show ?thesis
    using q_rep_remove [OF r] q_rep_insert_before [OF r w(2,1)] q_rep_insert_after [OF r w(2,1)]
      q_find_rep [OF r, of cmp] q_count_rep [OF r] by (intro conjI) simp_all
qed

theorem dlist_refines_list_witness:
  "let s = (\<lparr>qhead = 1, qtail = 3\<rparr>, \<lparr>lnext = (\<lambda>_. 0)(1 := 2, 2 := 3), lprev = (\<lambda>_. 0)(2 := 1, 3 := 2)\<rparr>)
   in q_rep (diva_q_remove s 2) [1, 3] \<and> q_rep (diva_q_insert_after s 2 7) [1, 2, 7, 3]"
proof -
  let ?s = "(\<lparr>qhead = 1, qtail = 3\<rparr>, \<lparr>lnext = (\<lambda>_. 0)(1 := 2, 2 := 3), lprev = (\<lambda>_. 0)(2 := 1, 3 := 2)\<rparr>)"
  have "q_rep ?s ([1] @ 2 # [3])" by (simp add: q_rep_def)
  from dlist_refines_list [OF this, of 7] show ?thesis by (simp add: Let_def)
qed

end
