(* ===== verification/DmaMap.thy ===== *)
theory DmaMap
  imports CBase
begin

text \<open>
  The DMA mapping table of \<open>kernel/diva_dma.c\<close>: an array of page descriptors that ends at
  the first entry without a local address. The null map is \<open>None\<close>; the loops over the
  table are \<open>partial_function (option)\<close> because they run until that entry. Addresses and
  handles are natural numbers, \<open>0\<close> is the null pointer.
\<close>

record dma_entry =
  busy :: nat
  phys_bus_addr :: nat
  phys_bus_addr_hi :: nat
  local_ram_addr :: nat
  addr_handle :: nat

type_synonym dma_map = "nat \<Rightarrow> dma_entry"

section \<open>Operations\<close>

definition diva_alloc_dma_map :: "bool \<Rightarrow> dma_map option" where
  "diva_alloc_dma_map malloc_ok =
     (if \<not> malloc_ok then None
      else Some (\<lambda>_. \<lparr>busy = 0, phys_bus_addr = 0, phys_bus_addr_hi = 0, local_ram_addr = 0, addr_handle = 0\<rparr>))"

definition diva_init_dma_map_entry :: "dma_map \<Rightarrow> nat \<Rightarrow> nat \<Rightarrow> nat \<Rightarrow> nat \<Rightarrow> dma_map" where
  "diva_init_dma_map_entry pmap nr virt phys h =
     pmap(nr := (pmap nr)\<lparr>phys_bus_addr := phys, local_ram_addr := virt, addr_handle := h\<rparr>)"

definition diva_init_dma_map_entry_hi :: "dma_map \<Rightarrow> nat \<Rightarrow> nat \<Rightarrow> dma_map" where
  "diva_init_dma_map_entry_hi pmap nr phys_hi = pmap(nr := (pmap nr)\<lparr>phys_bus_addr_hi := phys_hi\<rparr>)"

definition diva_free_dma_map_entry :: "dma_map \<Rightarrow> nat \<Rightarrow> dma_map" where
  "diva_free_dma_map_entry pmap nr = pmap(nr := (pmap nr)\<lparr>busy := 0\<rparr>)"

partial_function (option) dma_alloc_from :: "dma_map \<Rightarrow> nat \<Rightarrow> (int \<times> dma_map) option" where
  "dma_alloc_from pmap i =
     (if local_ram_addr (pmap i) = 0 then Some (- 1, pmap)
      else if busy (pmap i) = 0 then Some (int i, pmap(i := (pmap i)\<lparr>busy := 1\<rparr>))
      else dma_alloc_from pmap (Suc i))"

text \<open>The map exists: a null pointer, for which the code returns -1 at once, is the caller's \<open>None\<close>.\<close>

definition diva_alloc_dma_map_entry :: "dma_map \<Rightarrow> (int \<times> dma_map) option" where
  "diva_alloc_dma_map_entry pmap = dma_alloc_from pmap 0"

partial_function (option) dma_reset_from :: "dma_map \<Rightarrow> nat \<Rightarrow> dma_map option" where
  "dma_reset_from pmap i =
     (if local_ram_addr (pmap i) = 0 then Some pmap
      else dma_reset_from (diva_free_dma_map_entry pmap i) (Suc i))"

definition diva_reset_dma_mapping :: "dma_map option \<Rightarrow> dma_map option option" where
  "diva_reset_dma_mapping pmap =
     (case pmap of None \<Rightarrow> Some None | Some m \<Rightarrow> map_option Some (dma_reset_from m 0))"

partial_function (option) dma_nr_free_from :: "dma_map \<Rightarrow> nat \<Rightarrow> nat \<Rightarrow> nat option" where
  "dma_nr_free_from pmap i nr_free =
     (if local_ram_addr (pmap i) = 0 then Some nr_free
      else dma_nr_free_from pmap (Suc i) (if busy (pmap i) = 0 then nr_free + 1 else nr_free))"

definition diva_nr_free_dma_entries :: "dma_map option \<Rightarrow> nat option" where
  "diva_nr_free_dma_entries pmap =
     (case pmap of None \<Rightarrow> Some 0 | Some m \<Rightarrow> dma_nr_free_from m 0 0)"

definition diva_get_dma_map_entry :: "dma_map \<Rightarrow> nat \<Rightarrow> nat \<times> nat" where
  "diva_get_dma_map_entry pmap nr = (local_ram_addr (pmap nr), phys_bus_addr (pmap nr))"

definition diva_get_dma_map_entry_hi :: "dma_map \<Rightarrow> nat \<Rightarrow> nat" where
  "diva_get_dma_map_entry_hi pmap nr = phys_bus_addr_hi (pmap nr)"

definition diva_get_entry_handle :: "dma_map \<Rightarrow> nat \<Rightarrow> nat" where
  "diva_get_entry_handle pmap nr = addr_handle (pmap nr)"

section \<open>Tables of a given length\<close>

definition dma_len :: "dma_map \<Rightarrow> nat \<Rightarrow> bool" where
  "dma_len pmap N \<longleftrightarrow> (\<forall>i < N. local_ram_addr (pmap i) \<noteq> 0) \<and> local_ram_addr (pmap N) = 0"

lemma dma_len_busy [simp]: "dma_len (pmap(i := (pmap i)\<lparr>busy := v\<rparr>)) N = dma_len pmap N"
  by (auto simp: dma_len_def)

lemma dma_len_free [simp]: "dma_len (diva_free_dma_map_entry pmap i) N = dma_len pmap N"
  by (simp add: diva_free_dma_map_entry_def)

lemma dma_len_ram: "dma_len pmap N \<Longrightarrow> i < N \<Longrightarrow> local_ram_addr (pmap i) \<noteq> 0"
  by (simp add: dma_len_def)

lemma dma_alloc_from_len:
  assumes "dma_len pmap N" "i \<le> N"
  shows "dma_alloc_from pmap i = Some (case [j \<leftarrow> [i..<N]. busy (pmap j) = 0] of
     [] \<Rightarrow> (- 1, pmap) | j # _ \<Rightarrow> (int j, pmap(j := (pmap j)\<lparr>busy := 1\<rparr>)))"
  using assms(2)
proof (induction rule: inc_induct)
  case base
  show ?case using assms(1) by (subst dma_alloc_from.simps) (simp add: dma_len_def)
next
  case (step i)
  then show ?case
    using dma_len_ram [OF assms(1) step.hyps(2)] by (subst dma_alloc_from.simps) (simp add: upt_conv_Cons)
qed

lemma diva_alloc_dma_map_entry_len:
  assumes "dma_len pmap N"
  obtains "diva_alloc_dma_map_entry pmap = Some (- 1, pmap)" "\<forall>j < N. busy (pmap j) \<noteq> 0"
  | j where "j < N" "busy (pmap j) = 0" "\<forall>i < j. busy (pmap i) \<noteq> 0"
    "diva_alloc_dma_map_entry pmap = Some (int j, pmap(j := (pmap j)\<lparr>busy := 1\<rparr>))"
proof (cases "[j \<leftarrow> [0..<N]. busy (pmap j) = 0]")
  case Nil
  then show ?thesis
    using that(1) dma_alloc_from_len [OF assms, of 0]
    by (auto simp: diva_alloc_dma_map_entry_def filter_empty_conv)
next
  case (Cons j js)
  then obtain us vs where *: "[0..<N] = us @ j # vs" "\<forall>u \<in> set us. busy (pmap u) \<noteq> 0" "busy (pmap j) = 0"
    by (auto simp: filter_eq_Cons_iff)
  then have "length us < N" "[0..<N] ! length us = j" by (metis add_Suc_right length_Cons length_append
        length_upt less_add_Suc1 minus_nat.diff_0) (metis * nth_append_length)
  then have l: "length us = j" "j < N" by simp_all
  have "us = [0..<j]" using arg_cong [OF *(1), of "take j"] l by simp
  then have "\<forall>i < j. busy (pmap i) \<noteq> 0" using *(2) by auto
  with that(2) l *(3) Cons show ?thesis
    using dma_alloc_from_len [OF assms, of 0] by (simp add: diva_alloc_dma_map_entry_def)
qed

lemma dma_reset_from_len:
  assumes "dma_len pmap N" "i \<le> N"
  shows "dma_reset_from pmap i =
     Some (\<lambda>j. if i \<le> j \<and> j < N then (pmap j)\<lparr>busy := 0\<rparr> else pmap j)"
  using assms(2,1)
proof (induction arbitrary: pmap rule: inc_induct)
  case base
  then show ?case by (subst dma_reset_from.simps) (auto simp: dma_len_def fun_eq_iff)
next
  case (step i)
  have "local_ram_addr (pmap i) \<noteq> 0" using step by (simp add: dma_len_def)
  then have "dma_reset_from pmap i = dma_reset_from (diva_free_dma_map_entry pmap i) (Suc i)"
    by (subst dma_reset_from.simps) simp
  moreover have "dma_reset_from (diva_free_dma_map_entry pmap i) (Suc i) =
      Some (\<lambda>j. if Suc i \<le> j \<and> j < N then (diva_free_dma_map_entry pmap i j)\<lparr>busy := 0\<rparr>
        else diva_free_dma_map_entry pmap i j)"
    using step.prems by (intro step.IH) simp
  ultimately show ?case using step.hyps(2) by (auto simp: diva_free_dma_map_entry_def fun_eq_iff)
qed

lemma dma_nr_free_from_len:
  assumes "dma_len pmap N" "i \<le> N"
  shows "dma_nr_free_from pmap i c = Some (c + length [j \<leftarrow> [i..<N]. busy (pmap j) = 0])"
  using assms(2)
proof (induction arbitrary: c rule: inc_induct)
  case base
  show ?case using assms(1) by (subst dma_nr_free_from.simps) (simp add: dma_len_def)
next
  case (step i)
  then show ?case
    using dma_len_ram [OF assms(1) step.hyps(2)] by (subst dma_nr_free_from.simps) (simp add: upt_conv_Cons)
qed

section \<open>Properties\<close>

text \<open>On a table of \<open>N\<close> entries the scans end; \<open>diva_alloc_dma_map_entry\<close> returns the
  first free entry and marks only that one as busy, or \<open>-1\<close> with the table unchanged when all
  are busy; the number \<open>diva_nr_free_dma_entries\<close> reports decides which, drops by one with
  each allocation, and is \<open>N\<close> after \<open>diva_reset_dma_mapping\<close>.\<close>

theorem dma_map_alloc_free_count:
  assumes "dma_len pmap N"
  shows "\<exists>n. diva_nr_free_dma_entries (Some pmap) = Some n \<and> n \<le> N \<and>
     (if n = 0 then diva_alloc_dma_map_entry pmap = Some (- 1, pmap)
      else \<exists>j < N. busy (pmap j) = 0 \<and> (\<forall>i < j. busy (pmap i) \<noteq> 0) \<and>
        (\<exists>pmap'. diva_alloc_dma_map_entry pmap = Some (int j, pmap') \<and>
           pmap' = pmap(j := (pmap j)\<lparr>busy := 1\<rparr>) \<and>
           diva_nr_free_dma_entries (Some pmap') = Some (n - 1) \<and>
           diva_nr_free_dma_entries (Some (diva_free_dma_map_entry pmap' j)) = Some n)) \<and>
     (\<exists>r. diva_reset_dma_mapping (Some pmap) = Some (Some r) \<and> diva_nr_free_dma_entries (Some r) = Some N)"
proof -
  let ?n = "\<lambda>m. card {j. j < N \<and> busy (m j) = 0}"
  have cnt: "diva_nr_free_dma_entries (Some m) = Some (?n m)" if "dma_len m N" for m
  proof -
    have "length [j \<leftarrow> [0..<N]. busy (m j) = 0] = card (set [j \<leftarrow> [0..<N]. busy (m j) = 0])"
      by (rule distinct_card [symmetric]) simp
    also have "set [j \<leftarrow> [0..<N]. busy (m j) = 0] = {j. j < N \<and> busy (m j) = 0}" by auto
    finally show ?thesis using dma_nr_free_from_len [OF that, of 0 0] by (simp add: diva_nr_free_dma_entries_def)
  qed
  have le: "?n m \<le> N" for m using card_mono [of "{..<N}" "{j. j < N \<and> busy (m j) = 0}"] by auto
  have reset: "\<exists>r. diva_reset_dma_mapping (Some pmap) = Some (Some r) \<and> diva_nr_free_dma_entries (Some r) = Some N"
  proof -
    let ?r = "\<lambda>j. if j < N then (pmap j)\<lparr>busy := 0\<rparr> else pmap j"
    have "dma_len ?r N" using assms by (auto simp: dma_len_def)
    moreover have "{j. j < N \<and> busy (?r j) = 0} = {..<N}" by auto
    ultimately have "diva_nr_free_dma_entries (Some ?r) = Some N" using cnt [of ?r] by simp
    then show ?thesis using dma_reset_from_len [OF assms, of 0] by (simp add: diva_reset_dma_mapping_def)
  qed
  from assms show ?thesis
  proof (cases rule: diva_alloc_dma_map_entry_len)
    case 1
    then have "{j. j < N \<and> busy (pmap j) = 0} = {}" by auto
    then have "?n pmap = 0" by simp
    with 1 cnt [OF assms] reset show ?thesis by auto
  next
    case (2 j)
    let ?m = "pmap(j := (pmap j)\<lparr>busy := 1\<rparr>)"
    have s: "{i. i < N \<and> busy (?m i) = 0} = {i. i < N \<and> busy (pmap i) = 0} - {j}"
      "{i. i < N \<and> busy (diva_free_dma_map_entry ?m j i) = 0} = {i. i < N \<and> busy (pmap i) = 0}"
      using 2(2) by (auto simp: diva_free_dma_map_entry_def)
    have j: "j \<in> {i. i < N \<and> busy (pmap i) = 0}" using 2 by simp
    have "?n ?m = ?n pmap - 1" "?n pmap \<noteq> 0" unfolding s using j by auto
    moreover have "diva_nr_free_dma_entries (Some (diva_free_dma_map_entry ?m j)) = Some (?n pmap)"
      using cnt [of "diva_free_dma_map_entry ?m j"] assms unfolding s(2) by simp
    ultimately show ?thesis
      using 2 cnt [OF assms] cnt [of ?m] assms le [of pmap] reset by auto
  qed
qed

theorem dma_map_alloc_free_count_witness:
  "let pmap = (\<lambda>i. \<lparr>busy = (if i = 0 then 1 else 0), phys_bus_addr = 4096 * i, phys_bus_addr_hi = 0,
       local_ram_addr = (if i < 3 then 4096 * (i + 1) else 0), addr_handle = 0\<rparr>)
   in \<exists>n r. diva_nr_free_dma_entries (Some pmap) = Some n \<and> diva_reset_dma_mapping (Some pmap) = Some (Some r) \<and>
        diva_nr_free_dma_entries (Some r) = Some 3"
proof -
  let ?m = "\<lambda>i. \<lparr>busy = (if i = 0 then 1 else 0), phys_bus_addr = 4096 * i, phys_bus_addr_hi = 0,
       local_ram_addr = (if i < 3 then 4096 * (i + 1) else 0), addr_handle = 0\<rparr>"
  have "dma_len ?m 3" by (simp add: dma_len_def)
  from dma_map_alloc_free_count [OF this] show ?thesis by (auto simp: Let_def)
qed

end
