(* ===== verification/DmaFragment.thy ===== *)
theory DmaFragment
  imports DList DmaMap
begin

text \<open>
  The fragment map of \<open>kernel/diva_dma_fragment.c\<close>: DMA pages are split into eight
  fragments of 512 bytes. Entry \<open>i\<close> of the fragment map has the list link \<open>Suc i\<close>; the
  entries are on \<open>free_q\<close> (no page) or on \<open>available_q\<close> (a page with some fragments in
  use). A handle is a DMA map index, or \<open>i | b << 8 | 1 << 15\<close> for fragment \<open>b\<close> of entry
  \<open>i\<close>. The pointer \<open>fragment_map->dma_map\<close> and the argument \<open>dma_map\<close> denote the same
  table in the callers and are one parameter here; the spin locks around the table are not
  modelled. The null fragment map is \<open>None\<close>.
\<close>

record frag_map =
  dma_map_entry :: "nat \<Rightarrow> nat"
  dma_map_entry_fragments :: "nat \<Rightarrow> byte"
  free_q :: dl_queue
  available_q :: dl_queue
  links :: dl_heap

abbreviation DIVA_DMA_FRAGMENT_SIZE :: nat where "DIVA_DMA_FRAGMENT_SIZE \<equiv> 512"

section \<open>Operations\<close>

definition frag_init_entry :: "frag_map \<Rightarrow> nat \<Rightarrow> frag_map" where
  "frag_init_entry f i =
     (let (q, h) = diva_q_add_tail (free_q f, links f) (Suc i)
      in f\<lparr>free_q := q, links := h,
           dma_map_entry := (dma_map_entry f)(i := 0xffff),
           dma_map_entry_fragments := (dma_map_entry_fragments f)(i := 0)\<rparr>)"

definition diva_init_dma_fragment_map :: "bool \<Rightarrow> frag_map \<Rightarrow> bool \<Rightarrow> int \<Rightarrow> frag_map option" where
  "diva_init_dma_fragment_map malloc_ok memory dma_map_null nr_entries =
     (if dma_map_null \<or> nr_entries < 1 \<or> nr_entries > 30 then None
      else if \<not> malloc_ok then None
      else Some (foldl frag_init_entry (memory\<lparr>free_q := diva_q_init, available_q := diva_q_init\<rparr>)
                   [0..<nat nr_entries]))"

definition frag_handle :: "nat \<Rightarrow> nat \<Rightarrow> nat" where
  "frag_handle i b = i OR push_bit 8 b OR push_bit 15 1"

text \<open>Taking fragment \<open>b\<close> of the first available entry \<open>i\<close>.\<close>

definition frag_take :: "frag_map \<Rightarrow> nat \<Rightarrow> nat \<Rightarrow> frag_map" where
  "frag_take f i b =
     (let fr = set_bit b (dma_map_entry_fragments f i);
          f1 = f\<lparr>dma_map_entry_fragments := (dma_map_entry_fragments f)(i := fr)\<rparr>
      in if fr = 0xff then
           let (q, h) = diva_q_add_tail (diva_q_remove (available_q f1, links f1) (Suc i)) (Suc i)
           in f1\<lparr>available_q := q, links := h\<rparr>
         else f1)"

text \<open>Opening a new page on the first free entry \<open>i\<close>.\<close>

definition frag_open :: "frag_map \<Rightarrow> nat \<Rightarrow> nat \<Rightarrow> frag_map" where
  "frag_open f i entry_nr =
     (let (fq, h) = diva_q_remove (free_q f, links f) (Suc i);
          (aq, h') = diva_q_insert_before (available_q f, h) (diva_q_get_head (available_q f)) (Suc i)
      in f\<lparr>free_q := fq, available_q := aq, links := h',
           dma_map_entry := (dma_map_entry f)(i := entry_nr mod 65536),
           dma_map_entry_fragments := (dma_map_entry_fragments f)(i := 1)\<rparr>)"

definition diva_dma_fragment_map_alloc ::
    "frag_map option \<Rightarrow> dma_map \<Rightarrow> nat \<Rightarrow> (int \<times> dma_map \<times> frag_map option) option" where
  "diva_dma_fragment_map_alloc fragment_map dm len =
     (case fragment_map of
        None \<Rightarrow> map_option (\<lambda>(r, dm'). (r, dm', None)) (diva_alloc_dma_map_entry dm)
      | Some f \<Rightarrow>
          if len > DIVA_DMA_FRAGMENT_SIZE then
            map_option (\<lambda>(r, dm'). (r, dm', Some f)) (diva_alloc_dma_map_entry dm)
          else
            let link = diva_q_get_head (available_q f); i = link - 1;
                free_bits = [b \<leftarrow> [0..<8]. \<not> bit (dma_map_entry_fragments f i) b]
            in if link \<noteq> 0 \<and> dma_map_entry_fragments f i \<noteq> 0xff \<and> free_bits \<noteq> [] then
                 Some (int (frag_handle i (hd free_bits)), dm, Some (frag_take f i (hd free_bits)))
               else
                 let link = diva_q_get_head (free_q f); i = link - 1
                 in if link \<noteq> 0 then
                      (case diva_alloc_dma_map_entry dm of
                         None \<Rightarrow> None
                       | Some (entry_nr, dm') \<Rightarrow>
                           if entry_nr \<ge> 0 then
                             Some (int (i OR push_bit 15 1), dm', Some (frag_open f i (nat entry_nr)))
                           else Some (- 1, dm', Some f))
                    else Some (- 1, dm, Some f))"

definition uses_fragment :: "frag_map option \<Rightarrow> nat \<Rightarrow> bool" where
  "uses_fragment fragment_map nr \<longleftrightarrow> fragment_map \<noteq> None \<and> bit nr 15"

definition diva_dma_fragment_map_get_dma_map_entry ::
    "frag_map option \<Rightarrow> dma_map \<Rightarrow> nat \<Rightarrow> (nat \<times> nat) option" where
  "diva_dma_fragment_map_get_dma_map_entry fragment_map dm nr =
     (if nr = 0xffff then None
      else if uses_fragment fragment_map nr then
        let offset = DIVA_DMA_FRAGMENT_SIZE * (drop_bit 8 nr AND 7);
            (virt, phys) = diva_get_dma_map_entry dm (dma_map_entry (the fragment_map) (nr AND 0xff))
        in Some (virt + offset, phys + offset)
      else Some (diva_get_dma_map_entry dm nr))"

definition diva_dma_fragment_map_get_dma_map_entry_hi ::
    "frag_map option \<Rightarrow> dma_map \<Rightarrow> nat \<Rightarrow> nat option" where
  "diva_dma_fragment_map_get_dma_map_entry_hi fragment_map dm nr =
     (if nr = 0xffff then None
      else if uses_fragment fragment_map nr then
        Some (diva_get_dma_map_entry_hi dm (dma_map_entry (the fragment_map) (nr AND 0xff)))
      else Some (diva_get_dma_map_entry_hi dm nr))"

text \<open>Giving back fragment \<open>b\<close> of entry \<open>i\<close>: the entry leaves \<open>available_q\<close> and returns
  to its head, or goes to \<open>free_q\<close> when that was its last fragment.\<close>

definition frag_release :: "frag_map \<Rightarrow> dma_map \<Rightarrow> nat \<Rightarrow> nat \<Rightarrow> dma_map \<times> frag_map" where
  "frag_release f dm i b =
     (let fr = unset_bit b (dma_map_entry_fragments f i);
          (aq, h) = diva_q_remove (available_q f, links f) (Suc i);
          f1 = f\<lparr>dma_map_entry_fragments := (dma_map_entry_fragments f)(i := fr)\<rparr>
      in if fr = 0 then
           let (fq, h') = diva_q_add_tail (free_q f1, h) (Suc i)
           in (diva_free_dma_map_entry dm (dma_map_entry f i),
               f1\<lparr>dma_map_entry := (dma_map_entry f)(i := 0xffff),
                  free_q := fq, available_q := aq, links := h'\<rparr>)
         else
           let (aq', h') = diva_q_insert_before (aq, h) (diva_q_get_head aq) (Suc i)
           in (dm, f1\<lparr>available_q := aq', links := h'\<rparr>))"

definition diva_dma_fragment_map_free ::
    "frag_map option \<Rightarrow> dma_map \<Rightarrow> nat \<Rightarrow> dma_map \<times> frag_map option" where
  "diva_dma_fragment_map_free fragment_map dm nr =
     (if nr = 0xffff then (dm, fragment_map)
      else if uses_fragment fragment_map nr then
        map_prod id Some (frag_release (the fragment_map) dm (nr AND 0xff) (drop_bit 8 nr AND 7))
      else (diva_free_dma_map_entry dm nr, fragment_map))"

definition frag_reset_step :: "frag_map \<Rightarrow> dma_map \<Rightarrow> nat \<Rightarrow> dma_map \<times> frag_map" where
  "frag_reset_step f dm i =
     (let (aq, h) = diva_q_remove (available_q f, links f) (Suc i);
          (fq, h') = diva_q_add_tail (free_q f, h) (Suc i)
      in (diva_free_dma_map_entry dm (dma_map_entry f i),
          f\<lparr>dma_map_entry := (dma_map_entry f)(i := 0xffff),
            dma_map_entry_fragments := (dma_map_entry_fragments f)(i := 0),
            free_q := fq, available_q := aq, links := h'\<rparr>))"

partial_function (option) frag_reset_loop :: "dma_map \<times> frag_map \<Rightarrow> (dma_map \<times> frag_map) option" where
  "frag_reset_loop s =
     (let link = diva_q_get_head (available_q (snd s))
      in if link \<noteq> 0 then frag_reset_loop (frag_reset_step (snd s) (fst s) (link - 1)) else Some s)"

definition diva_reset_dma_fragment_map ::
    "frag_map option \<Rightarrow> dma_map \<Rightarrow> (dma_map \<times> frag_map option) option" where
  "diva_reset_dma_fragment_map fragment_map dm =
     (case fragment_map of
        None \<Rightarrow> Some (dm, None)
      | Some f \<Rightarrow> map_option (map_prod id Some) (frag_reset_loop (dm, f)))"

section \<open>Handles\<close>

lemma and_255_nat: "n AND (255::nat) = n mod 256"
  using take_bit_eq_mask [of 8 n] by (simp add: take_bit_eq_mod mask_eq_exp_minus_1)

lemma and_7_nat: "n AND (7::nat) = n mod 8"
  using take_bit_eq_mask [of 3 n] by (simp add: take_bit_eq_mod mask_eq_exp_minus_1)

lemma concat_3_bits:
  "take_bit 8 i OR push_bit 8 (take_bit 3 b) OR push_bit 15 c =
     take_bit 8 i + push_bit 8 (take_bit 3 b) + push_bit 15 (c :: nat)"
proof -
  have "(take_bit 8 i OR push_bit 8 (take_bit 3 b)) AND push_bit 15 c = 0"
    by (rule bit_eqI) (auto simp: bit_simps)
  then have 1: "(take_bit 8 i OR push_bit 8 (take_bit 3 b)) OR push_bit 15 c =
      (take_bit 8 i OR push_bit 8 (take_bit 3 b)) + push_bit 15 c"
    by (rule disjunctive_add_eq_or [symmetric])
  have "take_bit 8 i AND push_bit 8 (take_bit 3 b) = 0" by (rule bit_eqI) (auto simp: bit_simps)
  then have 2: "take_bit 8 i OR push_bit 8 (take_bit 3 b) = take_bit 8 i + push_bit 8 (take_bit 3 b)"
    by (rule disjunctive_add_eq_or [symmetric])
  show ?thesis using 1 2 by (metis or.assoc)
qed

lemma frag_handle_arith:
  assumes "i < 256" "b < 8"
  shows "frag_handle i b = i + 256 * (b + 128)"
proof -
  have "take_bit 8 i = i" "take_bit 3 b = b" using assms by (simp_all add: take_bit_nat_eq_self)
  then show ?thesis
    using concat_3_bits [of i b 1] by (simp add: frag_handle_def or.assoc push_bit_eq_mult)
qed

lemma frag_handle_decode:
  assumes "i < 256" "b < 8"
  shows "frag_handle i b AND 0xff = i" "drop_bit 8 (frag_handle i b) AND 7 = b" "bit (frag_handle i b) 15"
    "32768 \<le> frag_handle i b"
proof -
  note h = frag_handle_arith [OF assms]
  have "(i + 256 * (b + 128)) mod 256 = i" using assms(1) by (simp only: mod_mult_self2 mod_less)
  then show "frag_handle i b AND 0xff = i" by (simp only: h and_255_nat)
  have "(i + 256 * (b + 128)) div 256 = b + 128" using assms(1) by (simp only: div_mult_self2)
  moreover have "(b + 128) mod 8 = b" using assms(2) mod_mult_self1 [of b 16 8] by simp
  ultimately show "drop_bit 8 (frag_handle i b) AND 7 = b" by (simp only: h and_7_nat drop_bit_eq_div) simp
  show "bit (frag_handle i b) 15" by (simp only: frag_handle_def bit_or_iff bit_push_bit_iff) (simp add: bit_0)
  show "32768 \<le> frag_handle i b" unfolding h by simp
qed

lemma direct_handle: "d < 32768 \<Longrightarrow> \<not> bit d 15" for d :: nat
  by (simp add: bit_iff_odd)

section \<open>The invariant\<close>

text \<open>
  \<open>frag_lists n f fs as\<close>: the entries \<open>fs\<close> are on \<open>free_q\<close>, the entries \<open>as\<close> on
  \<open>available_q\<close>, together every entry once. \<open>frag_inv\<close> adds what the pages are: a free entry
  has no fragment in use, an available one has some, on a busy page of its own, and the
  entries with all fragments in use are behind the others.
\<close>

definition frag_lists :: "nat \<Rightarrow> frag_map \<Rightarrow> nat list \<Rightarrow> nat list \<Rightarrow> bool" where
  "frag_lists n f fs as \<longleftrightarrow>
     q_rep (free_q f, links f) (map Suc fs) \<and> q_rep (available_q f, links f) (map Suc as) \<and>
     set fs \<inter> set as = {} \<and> set fs \<union> set as = {..<n}"

definition full_last :: "(nat \<Rightarrow> byte) \<Rightarrow> nat list \<Rightarrow> bool" where
  "full_last fr as \<longleftrightarrow> sorted_wrt (\<lambda>x y. fr x = 0xff \<longrightarrow> fr y = 0xff) as"

definition frag_pages :: "nat \<Rightarrow> dma_map \<Rightarrow> frag_map \<Rightarrow> nat list \<Rightarrow> nat list \<Rightarrow> bool" where
  "frag_pages N dm f fs as \<longleftrightarrow>
     (\<forall>i \<in> set fs. dma_map_entry_fragments f i = 0) \<and>
     (\<forall>i \<in> set as. dma_map_entry_fragments f i \<noteq> 0 \<and> dma_map_entry f i < N \<and> busy (dm (dma_map_entry f i)) \<noteq> 0) \<and>
     inj_on (dma_map_entry f) (set as) \<and> full_last (dma_map_entry_fragments f) as"

definition frag_inv :: "nat \<Rightarrow> nat \<Rightarrow> dma_map \<Rightarrow> frag_map \<Rightarrow> bool" where
  "frag_inv N n dm f \<longleftrightarrow> dma_len dm N \<and> N \<le> 32768 \<and> n \<le> 30 \<and>
     (\<exists>fs as. frag_lists n f fs as \<and> frag_pages N dm f fs as)"

text \<open>The handles in use: the fragments whose bit is set, and the busy pages that do not back
  fragments.\<close>

definition frag_bits :: "nat \<Rightarrow> (nat \<Rightarrow> byte) \<Rightarrow> nat set" where
  "frag_bits n fr = {frag_handle i b | i b. i < n \<and> b < 8 \<and> bit (fr i) b}"

definition frag_used :: "nat \<Rightarrow> nat \<Rightarrow> dma_map \<Rightarrow> frag_map \<Rightarrow> nat set" where
  "frag_used N n dm f =
     frag_bits n (dma_map_entry_fragments f) \<union>
     {d. d < N \<and> busy (dm d) \<noteq> 0 \<and> (\<forall>i < n. dma_map_entry_fragments f i \<noteq> 0 \<longrightarrow> dma_map_entry f i \<noteq> d)}"

lemma frag_lists_distinct: "frag_lists n f fs as \<Longrightarrow> distinct fs \<and> distinct as"
  by (auto simp: frag_lists_def distinct_map dest!: q_rep_distinct)

lemma map_Suc_disjoint: "set xs \<inter> set ys = {} \<Longrightarrow> set (map Suc xs) \<inter> set (map Suc ys) = {}"
  by auto

lemma frag_lists_rotate:
  assumes "frag_lists n f fs (i # as)"
    and "diva_q_add_tail (diva_q_remove (available_q f, links f) (Suc i)) (Suc i) = (q, h)"
  shows "frag_lists n (f\<lparr>available_q := q, links := h\<rparr>) fs (as @ [i])"
proof -
  from assms(1) have r: "q_rep (free_q f, links f) (map Suc fs)" "q_rep (available_q f, links f) ([] @ Suc i # map Suc as)"
    and dj: "set fs \<inter> set (i # as) = {}" "set fs \<union> set (i # as) = {..<n}" by (auto simp: frag_lists_def)
  have "set ([] @ Suc i # map Suc as) \<inter> set (map Suc fs) = {}" using dj(1) by auto
  from dlq.rotate [OF r(2)] dlq.rotate_other [OF r(2,1) this] assms(2) dj show ?thesis
    by (auto simp: frag_lists_def)
qed

lemma frag_lists_open:
  assumes "frag_lists n f (i # fs) as"
    and "diva_q_remove (free_q f, links f) (Suc i) = (fq, h)"
    and "diva_q_insert_before (available_q f, h) (diva_q_get_head (available_q f)) (Suc i) = (aq, h')"
  shows "frag_lists n (f\<lparr>free_q := fq, available_q := aq, links := h'\<rparr>) fs (i # as)"
proof -
  from assms(1) have r: "q_rep (free_q f, links f) ([] @ Suc i # map Suc fs)" "q_rep (available_q f, links f) (map Suc as)"
    and dj: "set (i # fs) \<inter> set as = {}" "set (i # fs) \<union> set as = {..<n}" by (auto simp: frag_lists_def)
  have d: "set ([] @ Suc i # map Suc fs) \<inter> set (map Suc as) = {}" using dj(1) by auto
  have "i \<notin> set fs" using frag_lists_distinct [OF assms(1)] by simp
  with dlq.move_front [OF r d] assms(2,3) dj show ?thesis by (auto simp: frag_lists_def)
qed

lemma frag_lists_close:
  assumes "frag_lists n f fs (xs @ i # ys)"
    and "diva_q_remove (available_q f, links f) (Suc i) = (aq, h)"
    and "diva_q_add_tail (free_q f, h) (Suc i) = (fq, h')"
  shows "frag_lists n (f\<lparr>free_q := fq, available_q := aq, links := h'\<rparr>) (fs @ [i]) (xs @ ys)"
proof -
  from assms(1) have r: "q_rep (available_q f, links f) (map Suc xs @ Suc i # map Suc ys)" "q_rep (free_q f, links f) (map Suc fs)"
    and dj: "set fs \<inter> set (xs @ i # ys) = {}" "set fs \<union> set (xs @ i # ys) = {..<n}" by (auto simp: frag_lists_def)
  have d: "set (map Suc xs @ Suc i # map Suc ys) \<inter> set (map Suc fs) = {}" using dj(1) by auto
  have "i \<notin> set (xs @ ys)" using frag_lists_distinct [OF assms(1)] by simp
  with dlq.move [OF r d] assms(2,3) dj show ?thesis by (auto simp: frag_lists_def)
qed

lemma frag_lists_to_front:
  assumes "frag_lists n f fs (xs @ i # ys)"
    and "diva_q_remove (available_q f, links f) (Suc i) = (aq, h)"
    and "diva_q_insert_before (aq, h) (diva_q_get_head aq) (Suc i) = (aq', h')"
  shows "frag_lists n (f\<lparr>available_q := aq', links := h'\<rparr>) fs (i # xs @ ys)"
proof -
  from assms(1) have r: "q_rep (available_q f, links f) (map Suc xs @ Suc i # map Suc ys)" "q_rep (free_q f, links f) (map Suc fs)"
    and dj: "set fs \<inter> set (xs @ i # ys) = {}" "set fs \<union> set (xs @ i # ys) = {..<n}" by (auto simp: frag_lists_def)
  have d: "set (map Suc xs @ Suc i # map Suc ys) \<inter> set (map Suc fs) = {}" using dj(1) by auto
  from dlq.to_front [OF r(1)] dlq.to_front_other [OF r d] assms(2,3) dj show ?thesis
    by (auto simp: frag_lists_def)
qed

lemma frag_heads:
  assumes "frag_lists n f fs as"
  shows "diva_q_get_head (available_q f) = (if as = [] then 0 else Suc (hd as))"
    "diva_q_get_head (free_q f) = (if fs = [] then 0 else Suc (hd fs))"
proof -
  from assms have r: "q_rep (available_q f, links f) (map Suc as)" "q_rep (free_q f, links f) (map Suc fs)"
    by (simp_all add: frag_lists_def)
  from q_rep_head [OF r(1)] show "diva_q_get_head (available_q f) = (if as = [] then 0 else Suc (hd as))"
    by (cases as) simp_all
  from q_rep_head [OF r(2)] show "diva_q_get_head (free_q f) = (if fs = [] then 0 else Suc (hd fs))"
    by (cases fs) simp_all
qed

lemma byte_full_iff: "fr = (0xff :: byte) \<longleftrightarrow> (\<forall>b < 8. bit fr b)"
proof -
  have "(0xff :: byte) = - 1" by simp
  then show ?thesis by (auto simp: bit_eq_iff bit_minus_1_iff possible_bit_def)
qed

lemma byte_zero_iff: "fr = (0 :: byte) \<longleftrightarrow> (\<forall>b < 8. \<not> bit fr b)"
  by (auto simp: bit_eq_iff possible_bit_def dest: bit_imp_le_length)

lemma byte_set_bit: "b < 8 \<Longrightarrow> set_bit b fr \<noteq> (0 :: byte)" "b < 8 \<Longrightarrow> unset_bit b fr \<noteq> (0xff :: byte)"
  by (auto simp: byte_zero_iff byte_full_iff bit_simps possible_bit_def)

lemma frag_handle_inj:
  "i < 256 \<Longrightarrow> b < 8 \<Longrightarrow> j < 256 \<Longrightarrow> c < 8 \<Longrightarrow> frag_handle i b = frag_handle j c \<longleftrightarrow> i = j \<and> b = c"
  by (metis frag_handle_decode(1,2))

lemma full_last_Cons:
  "full_last fr (i # as) \<longleftrightarrow> (fr i = 0xff \<longrightarrow> (\<forall>x \<in> set as. fr x = 0xff)) \<and> full_last fr as"
  by (auto simp: full_last_def)

lemma full_last_upd [simp]: "i \<notin> set as \<Longrightarrow> full_last (fr(i := v)) as = full_last fr as"
  by (induction as) (auto simp: full_last_def)

lemma full_last_append:
  "full_last fr (xs @ ys) \<longleftrightarrow> full_last fr xs \<and> full_last fr ys \<and> (\<forall>x \<in> set xs. \<forall>y \<in> set ys. fr x = 0xff \<longrightarrow> fr y = 0xff)"
  by (auto simp: full_last_def sorted_wrt_append)

text \<open>The fragments in use when one bit changes.\<close>

lemma full_last_drop: "full_last fr (xs @ i # ys) \<Longrightarrow> full_last fr (xs @ ys)"
  unfolding full_last_append full_last_Cons list.set by blast

lemma frag_bits_ge: "n \<le> 30 \<Longrightarrow> x \<in> frag_bits n fr \<Longrightarrow> 32768 \<le> x \<and> bit x 15"
  using frag_handle_decode(3,4) by (auto simp: frag_bits_def)

lemma frag_bits_mem:
  "i < n \<Longrightarrow> n \<le> 30 \<Longrightarrow> b < 8 \<Longrightarrow> frag_handle i b \<in> frag_bits n fr \<longleftrightarrow> bit (fr i) b"
  by (auto simp: frag_bits_def frag_handle_inj)

lemma frag_bits_upd:
  assumes "i < n" "n \<le> 30" "b < 8"
  shows "frag_bits n (fr(i := set_bit b (fr i))) = insert (frag_handle i b) (frag_bits n fr)"
    "frag_bits n (fr(i := unset_bit b (fr i))) = frag_bits n fr - {frag_handle i b}"
proof -
  have *: "x \<in> frag_bits n (fr(i := set_bit b (fr i))) \<longleftrightarrow> x \<in> insert (frag_handle i b) (frag_bits n fr)"
    "x \<in> frag_bits n (fr(i := unset_bit b (fr i))) \<longleftrightarrow> x \<in> frag_bits n fr - {frag_handle i b}" for x
  proof -
    consider j c where "x = frag_handle j c" "j < n" "c < 8" | "\<And>fr. x \<notin> frag_bits n fr" "x \<noteq> frag_handle i b"
      using assms by (fastforce simp: frag_bits_def)
    then have "(x \<in> frag_bits n (fr(i := set_bit b (fr i))) \<longleftrightarrow> x \<in> insert (frag_handle i b) (frag_bits n fr)) \<and>
      (x \<in> frag_bits n (fr(i := unset_bit b (fr i))) \<longleftrightarrow> x \<in> frag_bits n fr - {frag_handle i b})"
    proof cases
      case 1
      then show ?thesis
        using assms frag_handle_inj [of j c i b]
        by (auto simp: frag_bits_mem bit_simps possible_bit_def)
    qed simp
    then show "x \<in> frag_bits n (fr(i := set_bit b (fr i))) \<longleftrightarrow> x \<in> insert (frag_handle i b) (frag_bits n fr)"
      "x \<in> frag_bits n (fr(i := unset_bit b (fr i))) \<longleftrightarrow> x \<in> frag_bits n fr - {frag_handle i b}" by simp_all
  qed
  show "frag_bits n (fr(i := set_bit b (fr i))) = insert (frag_handle i b) (frag_bits n fr)"
    "frag_bits n (fr(i := unset_bit b (fr i))) = frag_bits n fr - {frag_handle i b}"
    using * by blast+
qed

lemma frag_used_direct:
  assumes "N \<le> 32768" "i < 256" "b < 8"
  shows "frag_handle i b \<in> frag_used N n dm f \<longleftrightarrow> frag_handle i b \<in> frag_bits n (dma_map_entry_fragments f)"
  using frag_handle_decode(4) [OF assms(2,3)] assms(1) by (auto simp: frag_used_def)

section \<open>Allocation and release keep the invariant\<close>

lemma frag_take_inv:
  assumes L: "frag_lists n f fs (i # as)" and P: "frag_pages N dm f fs (i # as)" and n: "n \<le> 30" and N: "N \<le> 32768"
    and b: "b < 8" "\<not> bit (dma_map_entry_fragments f i) b"
  shows "(\<exists>as'. frag_lists n (frag_take f i b) fs as' \<and> frag_pages N dm (frag_take f i b) fs as') \<and>
     frag_used N n dm (frag_take f i b) = insert (frag_handle i b) (frag_used N n dm f) \<and>
     frag_handle i b \<notin> frag_used N n dm f"
proof -
  let ?fr = "dma_map_entry_fragments f"
  let ?fr' = "?fr(i := set_bit b (?fr i))"
  let ?f1 = "f\<lparr>dma_map_entry_fragments := ?fr'\<rparr>"
  have i: "i < n" "i \<notin> set as" "i \<notin> set fs"
    using L frag_lists_distinct [OF L] by (auto simp: frag_lists_def)
  have L1: "frag_lists n ?f1 fs (i # as)" using L by (simp add: frag_lists_def)
  have fr': "dma_map_entry_fragments (frag_take f i b) = ?fr'" "dma_map_entry (frag_take f i b) = dma_map_entry f"
    by (simp_all add: frag_take_def Let_def split: prod.splits)
  have fs: "\<forall>j \<in> set fs. ?fr' j = 0" using P i by (auto simp: frag_pages_def)
  have as: "\<forall>j \<in> set (i # as). ?fr' j \<noteq> 0 \<and> dma_map_entry f j < N \<and> busy (dm (dma_map_entry f j)) \<noteq> 0"
    using P byte_set_bit(1) [OF b(1)] by (auto simp: frag_pages_def)
  have inj: "inj_on (dma_map_entry f) (set (i # as))" using P by (simp add: frag_pages_def)
  have fl: "full_last ?fr as" using P by (simp add: frag_pages_def full_last_Cons)
  have lists: "\<exists>as'. frag_lists n (frag_take f i b) fs as' \<and> frag_pages N dm (frag_take f i b) fs as'"
  proof (cases "set_bit b (?fr i) = 0xff")
    case True
    obtain q h where q: "diva_q_add_tail (diva_q_remove (available_q ?f1, links ?f1) (Suc i)) (Suc i) = (q, h)"
      by (metis surj_pair)
    have "frag_lists n (frag_take f i b) fs (as @ [i])"
      using frag_lists_rotate [OF L1 q] q True by (simp add: frag_take_def Let_def)
    moreover have "full_last ?fr' (as @ [i])" using fl i True by (simp add: full_last_append full_last_Cons) (simp add: full_last_def)
    then have "frag_pages N dm (frag_take f i b) fs (as @ [i])"
      using fs as inj by (simp add: frag_pages_def fr')
    ultimately show ?thesis by blast
  next
    case False
    then have "frag_take f i b = ?f1" by (simp add: frag_take_def Let_def)
    moreover have "full_last ?fr' (i # as)" using fl i False by (simp add: full_last_Cons)
    then have "frag_pages N dm ?f1 fs (i # as)" using fs as inj by (simp add: frag_pages_def)
    ultimately show ?thesis using L1 by auto
  qed
  have "frag_used N n dm (frag_take f i b) = insert (frag_handle i b) (frag_used N n dm f)"
  proof -
    have "(\<forall>j < n. ?fr' j \<noteq> 0 \<longrightarrow> dma_map_entry f j \<noteq> d) = (\<forall>j < n. ?fr j \<noteq> 0 \<longrightarrow> dma_map_entry f j \<noteq> d)" for d
      using as P by (auto simp: frag_pages_def)
    then show ?thesis
      using frag_bits_upd(1) [OF i(1) n b(1), of ?fr] by (auto simp: frag_used_def fr')
  qed
  moreover have "frag_handle i b \<notin> frag_used N n dm f"
    using frag_used_direct [OF N, of i b] frag_bits_mem [OF i(1) n b(1)] b i(1) n by simp
  ultimately show ?thesis using lists by blast
qed

lemma frag_open_inv:
  assumes L: "frag_lists n f (i # fs) as" and P: "frag_pages N dm f (i # fs) as" and n: "n \<le> 30"
    and N: "N \<le> 32768" and j: "j < N" "busy (dm j) = 0"
  shows "frag_lists n (frag_open f i j) fs (i # as) \<and>
     frag_pages N (dm(j := (dm j)\<lparr>busy := 1\<rparr>)) (frag_open f i j) fs (i # as) \<and>
     frag_used N n (dm(j := (dm j)\<lparr>busy := 1\<rparr>)) (frag_open f i j) =
       insert (frag_handle i 0) (frag_used N n dm f) \<and>
     frag_handle i 0 \<notin> frag_used N n dm f"
proof -
  let ?fr = "dma_map_entry_fragments f" and ?dm = "dm(j := (dm j)\<lparr>busy := 1\<rparr>)"
  let ?e = "dma_map_entry f" and ?f = "frag_open f i j"
  have i: "i < n" "i \<notin> set as" "i \<notin> set fs"
    using L frag_lists_distinct [OF L] by (auto simp: frag_lists_def)
  have cover: "{..<n} = insert i (set fs \<union> set as)" using L by (auto simp: frag_lists_def)
  have fr0: "?fr i = 0" using P by (simp add: frag_pages_def)
  have f': "dma_map_entry_fragments ?f = ?fr(i := set_bit 0 (?fr i))" "dma_map_entry ?f = ?e(i := j)"
    using j N fr0 by (simp_all add: frag_open_def Let_def set_bit_eq split: prod.splits)
  have lists: "frag_lists n ?f fs (i # as)"
  proof -
    obtain fq h where r: "diva_q_remove (free_q f, links f) (Suc i) = (fq, h)" by (metis surj_pair)
    obtain aq h' where b: "diva_q_insert_before (available_q f, h) (diva_q_get_head (available_q f)) (Suc i) = (aq, h')"
      by (metis surj_pair)
    from frag_lists_open [OF L r b] r b show ?thesis by (simp add: frag_open_def frag_lists_def)
  qed
  have as: "\<forall>x \<in> set as. ?fr x \<noteq> 0 \<and> ?e x < N \<and> busy (dm (?e x)) \<noteq> 0"
    and inj: "inj_on ?e (set as)" and fl: "full_last ?fr as" and fs: "\<forall>x \<in> set fs. ?fr x = 0"
    using P by (auto simp: frag_pages_def)
  have nj: "?e x \<noteq> j" if "x \<in> set as" for x using as that j(2) by metis
  have pages: "frag_pages N ?dm ?f fs (i # as)"
  proof -
    have "inj_on (?e(i := j)) (set (i # as))" using inj i nj by (auto simp: inj_on_def)
    moreover have "full_last (?fr(i := set_bit 0 (?fr i))) (i # as)" using fl i fr0 by (simp add: full_last_Cons set_bit_eq)
    ultimately show ?thesis
      using as fs i j nj fr0 by (auto simp: frag_pages_def f' set_bit_eq)
  qed
  have own: "(\<forall>x < n. (?fr(i := set_bit 0 (?fr i))) x \<noteq> 0 \<longrightarrow> (?e(i := j)) x \<noteq> d) =
      (d \<noteq> j \<and> (\<forall>x < n. ?fr x \<noteq> 0 \<longrightarrow> ?e x \<noteq> d))" for d
    using i(1) fr0 by (auto simp: set_bit_eq)
  have "frag_used N n ?dm ?f = insert (frag_handle i 0) (frag_used N n dm f)"
    using frag_bits_upd(1) [OF i(1) n, of 0 ?fr] j(2) unfolding frag_used_def f' own by auto
  moreover have "frag_handle i 0 \<notin> frag_used N n dm f"
    using frag_used_direct [OF N, of i 0] frag_bits_mem [OF i(1) n, of 0] i(1) n fr0 by simp
  ultimately show ?thesis using lists pages by blast
qed

lemma frag_release_inv:
  assumes L: "frag_lists n f fs as" and P: "frag_pages N dm f fs as" and n: "n \<le> 30" and N: "N \<le> 32768"
    and i: "i < n" and b: "b < 8" "bit (dma_map_entry_fragments f i) b"
    and r: "frag_release f dm i b = (dm', f')"
  shows "(\<exists>fs' as'. frag_lists n f' fs' as' \<and> frag_pages N dm' f' fs' as') \<and>
     frag_used N n dm' f' = frag_used N n dm f - {frag_handle i b} \<and> dma_len dm' N = dma_len dm N"
proof -
  let ?fr = "dma_map_entry_fragments f" and ?e = "dma_map_entry f"
  let ?fr' = "?fr(i := unset_bit b (?fr i))"
  have nz: "?fr i \<noteq> 0" using b by (auto simp: byte_zero_iff)
  have "i \<in> set as" using L P i nz by (auto simp: frag_lists_def frag_pages_def)
  then obtain xs ys where split: "as = xs @ i # ys" by (meson split_list)
  have di: "i \<notin> set xs" "i \<notin> set ys" "i \<notin> set fs"
    using frag_lists_distinct [OF L] L split by (auto simp: frag_lists_def)
  let ?f1 = "f\<lparr>dma_map_entry_fragments := ?fr'\<rparr>"
  have L1: "frag_lists n ?f1 fs (xs @ i # ys)" using L split by (simp add: frag_lists_def)
  have as: "\<forall>x \<in> set as. ?fr x \<noteq> 0 \<and> ?e x < N \<and> busy (dm (?e x)) \<noteq> 0"
    and inj: "inj_on ?e (set as)" and fl: "full_last ?fr (xs @ i # ys)" and fs: "\<forall>x \<in> set fs. ?fr x = 0"
    using P by (simp_all add: frag_pages_def flip: split)
  have "full_last ?fr (xs @ ys)" using fl by (rule full_last_drop)
  then have fl': "full_last ?fr' (xs @ ys)" using full_last_upd [of i "xs @ ys" ?fr] di by simp
  have own: "?e x \<noteq> ?e i" if "x \<in> set (xs @ ys)" for x
    using inj that di split by (auto simp: inj_on_def)
  have handles: "frag_bits n ?fr' = frag_bits n ?fr - {frag_handle i b}" by (rule frag_bits_upd(2) [OF i n b(1)])
  have dir: "\<not> frag_handle i b < N"
    using frag_handle_decode(4) [of i b] i n b(1) N by auto
  obtain aq h where rm: "diva_q_remove (available_q f, links f) (Suc i) = (aq, h)" by (metis surj_pair)
  show ?thesis
  proof (cases "unset_bit b (?fr i) = 0")
    case True
    obtain fq h' where ad: "diva_q_add_tail (free_q f, h) (Suc i) = (fq, h')" by (metis surj_pair)
    have f': "dm' = diva_free_dma_map_entry dm (?e i)"
      "f' = ?f1\<lparr>dma_map_entry := ?e(i := 0xffff), free_q := fq, available_q := aq, links := h'\<rparr>"
      using r rm ad True by (simp_all add: frag_release_def Let_def)
    have "frag_lists n f' (fs @ [i]) (xs @ ys)"
      using frag_lists_close [OF L1, of aq h fq h'] rm ad by (simp add: f' frag_lists_def)
    moreover have "frag_pages N dm' f' (fs @ [i]) (xs @ ys)"
    proof -
      have "inj_on (?e(i := 0xffff)) (set (xs @ ys))"
        using inj di split by (auto simp: inj_on_def)
      moreover have "\<forall>x \<in> set (xs @ ys). busy (dm' (?e x)) \<noteq> 0"
        using as own split by (simp add: f' diva_free_dma_map_entry_def)
      moreover have "\<forall>x \<in> set (xs @ ys). ?fr x \<noteq> 0 \<and> ?e x < N \<and> x \<noteq> i" using as split di by auto
      ultimately show ?thesis
        using fs fl' True di by (simp add: f'(2) frag_pages_def)
    qed
    moreover have "frag_used N n dm' f' = frag_used N n dm f - {frag_handle i b}"
    proof -
      have "(d < N \<and> busy (dm' d) \<noteq> 0 \<and> (\<forall>x < n. ?fr' x \<noteq> 0 \<longrightarrow> (?e(i := 0xffff)) x \<noteq> d)) =
        (d < N \<and> busy (dm d) \<noteq> 0 \<and> (\<forall>x < n. ?fr x \<noteq> 0 \<longrightarrow> ?e x \<noteq> d))" for d
        using i nz True by (auto simp: f' diva_free_dma_map_entry_def)
      then show ?thesis using handles dir by (auto simp: frag_used_def f'(2))
    qed
    ultimately show ?thesis by (auto simp: f')
  next
    case False
    obtain aq' h' where ad: "diva_q_insert_before (aq, h) (diva_q_get_head aq) (Suc i) = (aq', h')" by (metis surj_pair)
    have f': "dm' = dm" "f' = ?f1\<lparr>available_q := aq', links := h'\<rparr>"
      using r rm ad False by (simp_all add: frag_release_def Let_def)
    have "frag_lists n f' fs (i # xs @ ys)"
      using frag_lists_to_front [OF L1, of aq h aq' h'] rm ad by (simp add: f' frag_lists_def)
    moreover have "full_last ?fr' (i # xs @ ys)" using fl' byte_set_bit(2) [OF b(1), of "?fr i"] by (simp add: full_last_Cons)
    then have "frag_pages N dm' f' fs (i # xs @ ys)"
      using fs as inj di False split by (auto simp: f' frag_pages_def inj_on_def)
    moreover have "frag_used N n dm' f' = frag_used N n dm f - {frag_handle i b}"
    proof -
      have "(\<forall>x < n. ?fr' x \<noteq> 0 \<longrightarrow> ?e x \<noteq> d) = (\<forall>x < n. ?fr x \<noteq> 0 \<longrightarrow> ?e x \<noteq> d)" for d
        using nz False by auto
      then show ?thesis using handles dir by (auto simp: frag_used_def f')
    qed
    ultimately show ?thesis by (auto simp: f')
  qed
qed

lemma frag_inv_used_fragment:
  assumes "frag_inv N n dm f" "r \<in> frag_used N n dm f" "bit r 15"
  shows "\<exists>i b. i < n \<and> b < 8 \<and> r = frag_handle i b \<and> bit (dma_map_entry_fragments f i) b"
  using assms direct_handle by (fastforce simp: frag_used_def frag_inv_def frag_bits_def)

lemma frag_init_step:
  assumes "frag_lists n g [0..<n] [] \<and> (\<forall>i < n. dma_map_entry_fragments g i = 0)"
  shows "frag_lists (Suc n) (frag_init_entry g n) [0..<Suc n] [] \<and>
     (\<forall>i < Suc n. dma_map_entry_fragments (frag_init_entry g n) i = 0)"
proof -
  from assms have r: "q_rep (free_q g, links g) (map Suc [0..<n])" "q_rep (available_q g, links g) []"
    by (auto simp: frag_lists_def)
  have "Suc n \<notin> set (map Suc [0..<n])" by auto
  from q_rep_add_tail [OF r(1) this] r(2) assms show ?thesis
    by (auto simp: frag_init_entry_def frag_lists_def less_Suc_eq split: prod.splits)
qed

section \<open>Properties\<close>

text \<open>\<open>diva_init_dma_fragment_map\<close> accepts 1 to 30 entries and builds a map that satisfies
  the invariant with no fragment in use; it returns the null pointer otherwise.\<close>

theorem dma_fragment_init:
  assumes "dma_len dm N" and "N \<le> 32768"
  shows "(case diva_init_dma_fragment_map ok mem False k of
       None \<Rightarrow> \<not> ok \<or> k < 1 \<or> k > 30
     | Some f \<Rightarrow> ok \<and> 1 \<le> k \<and> k \<le> 30 \<and> frag_inv N (nat k) dm f \<and>
         frag_used N (nat k) dm f = {d. d < N \<and> busy (dm d) \<noteq> 0}) \<and>
     diva_init_dma_fragment_map ok mem True k = None"
proof -
  let ?f = "\<lambda>n. foldl frag_init_entry (mem\<lparr>free_q := diva_q_init, available_q := diva_q_init\<rparr>) [0..<n]"
  have "frag_lists n (?f n) [0..<n] [] \<and> (\<forall>i < n. dma_map_entry_fragments (?f n) i = 0)" for n
  proof (induction n)
    case 0
    show ?case by (simp add: frag_lists_def diva_q_init_def)
  next
    case (Suc n)
    then show ?case using frag_init_step [of n "?f n"] by simp
  qed
  note * = this [THEN conjunct1] this [THEN conjunct2, rule_format]
  have "frag_pages N dm (?f n) [0..<n] []" for n
    using *(2) by (auto simp: frag_pages_def full_last_def)
  with * assms have "n \<le> 30 \<Longrightarrow> frag_inv N n dm (?f n)" for n
    unfolding frag_inv_def by blast
  moreover have "frag_used N n dm (?f n) = {d. d < N \<and> busy (dm d) \<noteq> 0}" for n
    using *(2) by (auto simp: frag_used_def frag_bits_def)
  ultimately show ?thesis by (auto simp: diva_init_dma_fragment_map_def)
qed

text \<open>C16: \<open>diva_dma_fragment_map_alloc\<close> always returns, keeps the invariant, and either hands
  out a handle that was not in use and now is, all others being unaffected, or returns \<open>-1\<close>
  with nothing changed. A request above 512 bytes gets a whole page and fails only when every page
  is busy. A smaller one gets a fragment and fails only when no open page has a fragment free and no
  further page can be opened, as all entries are in use or all pages busy.\<close>

theorem dma_fragment_alloc_exclusive:
  assumes "frag_inv N n dm f"
  shows "\<exists>r dm' f'. diva_dma_fragment_map_alloc (Some f) dm len = Some (r, dm', Some f') \<and>
     frag_inv N n dm' f' \<and>
     (if r < 0 then r = - 1 \<and> dm' = dm \<and> f' = f \<and>
        (if len \<le> 512 then
           (\<forall>i < n. dma_map_entry_fragments f i = 0 \<or> dma_map_entry_fragments f i = 0xff) \<and>
           ((\<forall>i < n. dma_map_entry_fragments f i \<noteq> 0) \<or> (\<forall>d < N. busy (dm d) \<noteq> 0))
         else \<forall>d < N. busy (dm d) \<noteq> 0)
      else nat r \<notin> frag_used N n dm f \<and> frag_used N n dm' f' = insert (nat r) (frag_used N n dm f) \<and>
        bit (nat r) 15 = (len \<le> 512))"
proof -
  from assms obtain fs as where inv: "dma_len dm N" "N \<le> 32768" "n \<le> 30"
    and L: "frag_lists n f fs as" and P: "frag_pages N dm f fs as" by (auto simp: frag_inv_def)
  have cover: "i \<in> set fs \<or> i \<in> set as" if "i < n" for i using L that by (auto simp: frag_lists_def)
  have owned: "dma_map_entry_fragments f i \<noteq> 0 \<Longrightarrow> i < n \<Longrightarrow> busy (dm (dma_map_entry f i)) \<noteq> 0" for i
    using P cover [of i] by (auto simp: frag_pages_def)
  show ?thesis
  proof (cases "len > 512")
    case True
    from inv(1) show ?thesis
    proof (cases rule: diva_alloc_dma_map_entry_len)
      case 1
      then show ?thesis using True assms by (simp add: diva_dma_fragment_map_alloc_def)
    next
      case (2 j)
      let ?dm = "dm(j := (dm j)\<lparr>busy := 1\<rparr>)"
      have noj: "i < n \<Longrightarrow> dma_map_entry_fragments f i \<noteq> 0 \<Longrightarrow> dma_map_entry f i \<noteq> j" for i
        using owned [of i] 2(2) by auto
      have "frag_pages N ?dm f fs as" using P by (auto simp: frag_pages_def)
      then have "frag_inv N n ?dm f" using inv L by (auto simp: frag_inv_def)
      moreover have "frag_used N n ?dm f = insert j (frag_used N n dm f)"
        using 2(1,2) noj by (auto simp: frag_used_def)
      moreover have "j \<notin> frag_used N n dm f"
        using 2(1,2) inv(2) frag_bits_ge [OF inv(3), of j] by (auto simp: frag_used_def)
      ultimately show ?thesis
        using 2 True inv direct_handle [of j] by (simp add: diva_dma_fragment_map_alloc_def)
    qed
  next
    case small: False
    show ?thesis
    proof (cases "as \<noteq> [] \<and> dma_map_entry_fragments f (hd as) \<noteq> 0xff")
      case True
      then obtain i as' where as: "as = i # as'" "dma_map_entry_fragments f i \<noteq> 0xff" by (cases as) auto
      let ?bs = "[b \<leftarrow> [0..<8]. \<not> bit (dma_map_entry_fragments f i) b]"
      have "?bs \<noteq> []" using as(2) by (auto simp: byte_full_iff filter_empty_conv)
      then obtain b where b: "hd ?bs = b" "b < 8" "\<not> bit (dma_map_entry_fragments f i) b"
        using hd_in_set [of ?bs] by auto
      have res: "diva_dma_fragment_map_alloc (Some f) dm len = Some (int (frag_handle i b), dm, Some (frag_take f i b))"
        using small as frag_heads(1) [OF L] \<open>?bs \<noteq> []\<close> b(1) by (simp add: diva_dma_fragment_map_alloc_def Let_def)
      have "i < n" using L as by (auto simp: frag_lists_def)
      then have "bit (frag_handle i b) 15" using inv(3) b by (intro frag_handle_decode) auto
      with frag_take_inv [OF L [unfolded as] P [unfolded as] inv(3,2) b(2,3)] res small inv show ?thesis
        by (auto simp: frag_inv_def)
    next
      case none: False
      have full: "\<forall>i \<in> set as. dma_map_entry_fragments f i = 0xff"
        using none P by (cases as) (auto simp: frag_pages_def full_last_Cons)
      then have open_full: "\<forall>i < n. dma_map_entry_fragments f i = 0 \<or> dma_map_entry_fragments f i = 0xff"
        using cover P unfolding frag_pages_def by blast
      show ?thesis
      proof (cases fs)
        case Nil
        have "\<forall>i < n. dma_map_entry_fragments f i = 0xff"
          using cover full Nil by (metis empty_iff list.set(1))
        then show ?thesis
          using none small Nil frag_heads [OF L] assms by (auto simp: diva_dma_fragment_map_alloc_def Let_def)
      next
        case (Cons i fs')
        from inv(1) show ?thesis
        proof (cases rule: diva_alloc_dma_map_entry_len)
          case 1
          then show ?thesis
            using Cons none small open_full frag_heads [OF L] assms by (auto simp: diva_dma_fragment_map_alloc_def Let_def)
        next
          case (2 j)
          have res: "diva_dma_fragment_map_alloc (Some f) dm len =
              Some (int (frag_handle i 0), dm(j := (dm j)\<lparr>busy := 1\<rparr>), Some (frag_open f i j))"
            using 2 Cons none small frag_heads [OF L]
            by (auto simp: diva_dma_fragment_map_alloc_def Let_def frag_handle_def)
          have "i < n" using L Cons by (auto simp: frag_lists_def)
          then have "bit (frag_handle i 0) 15" using inv(3) by (intro frag_handle_decode) auto
          with frag_open_inv [OF L [unfolded Cons] P [unfolded Cons] inv(3,2) 2(1,2)] res small inv show ?thesis
            by (auto simp: frag_inv_def)
        qed
      qed
    qed
  qed
qed

text \<open>C28: \<open>diva_dma_fragment_map_free\<close> of a handle in use, fragment or page, keeps the
  invariant and takes exactly that handle out of use; a handle 0xffff is ignored.\<close>

theorem dma_fragment_free_exact:
  assumes "frag_inv N n dm f" and "r \<in> frag_used N n dm f" and "r \<noteq> 0xffff"
  shows "\<exists>dm' f'. diva_dma_fragment_map_free (Some f) dm r = (dm', Some f') \<and> frag_inv N n dm' f' \<and>
     frag_used N n dm' f' = frag_used N n dm f - {r} \<and>
     diva_dma_fragment_map_free (Some f) dm 0xffff = (dm, Some f)"
proof -
  from assms(1) obtain fs as where inv: "dma_len dm N" "N \<le> 32768" "n \<le> 30"
    and L: "frag_lists n f fs as" and P: "frag_pages N dm f fs as" by (auto simp: frag_inv_def)
  show ?thesis
  proof (cases "bit r 15")
    case True
    obtain i b where ib: "i < n" "b < 8" "r = frag_handle i b" "bit (dma_map_entry_fragments f i) b"
      using frag_inv_used_fragment [OF assms(1,2) True] by blast
    obtain dm' f' where rel: "frag_release f dm i b = (dm', f')" by (metis surj_pair)
    have "diva_dma_fragment_map_free (Some f) dm r = (dm', Some f')"
      using ib inv(3) rel assms(3) True frag_handle_decode(1,2) [of i b]
      by (simp add: diva_dma_fragment_map_free_def uses_fragment_def)
    with frag_release_inv [OF L P inv(3,2) ib(1,2,4) rel] inv ib(3) show ?thesis
      by (auto simp: frag_inv_def diva_dma_fragment_map_free_def)
  next
    case False
    let ?dm = "diva_free_dma_map_entry dm r"
    have "r \<notin> frag_bits n (dma_map_entry_fragments f)"
      using False frag_bits_ge [OF inv(3)] by auto
    with assms(2) have r: "r < N" "\<forall>i < n. dma_map_entry_fragments f i \<noteq> 0 \<longrightarrow> dma_map_entry f i \<noteq> r"
      by (auto simp: frag_used_def)
    have "i < n" if "i \<in> set as" for i using L that by (auto simp: frag_lists_def)
    with P r(2) have "frag_pages N ?dm f fs as"
      by (auto simp: frag_pages_def diva_free_dma_map_entry_def)
    then have "frag_inv N n ?dm f" using inv L by (auto simp: frag_inv_def)
    moreover have "frag_used N n ?dm f = frag_used N n dm f - {r}"
      using r \<open>r \<notin> frag_bits n _\<close> by (auto simp: frag_used_def diva_free_dma_map_entry_def)
    ultimately show ?thesis
      using assms(3) False by (simp add: diva_dma_fragment_map_free_def uses_fragment_def)
  qed
qed

definition handle_range :: "frag_map \<Rightarrow> dma_map \<Rightarrow> nat \<Rightarrow> nat set" where
  "handle_range f dm r =
     (case diva_dma_fragment_map_get_dma_map_entry (Some f) dm r of
        None \<Rightarrow> {}
      | Some (virt, _) \<Rightarrow> {virt ..< virt + (if bit r 15 then DIVA_DMA_FRAGMENT_SIZE else 4096)})"

text \<open>The page of a handle in use, and where in the page its range lies.\<close>

lemma handle_range_page:
  assumes "frag_inv N n dm f" "r \<in> frag_used N n dm f"
  obtains i b where "i < n" "b < 8" "r = frag_handle i b" "dma_map_entry_fragments f i \<noteq> 0" "dma_map_entry f i < N"
    "handle_range f dm r \<subseteq> {local_ram_addr (dm (dma_map_entry f i)) + 512 * b ..<
       local_ram_addr (dm (dma_map_entry f i)) + 512 * b + 512}"
  | "r < N" "\<forall>i < n. dma_map_entry_fragments f i \<noteq> 0 \<longrightarrow> dma_map_entry f i \<noteq> r"
    "handle_range f dm r \<subseteq> {local_ram_addr (dm r) ..< local_ram_addr (dm r) + 4096}"
proof (cases "bit r 15")
  case True
  obtain i b where ib: "i < n" "b < 8" "r = frag_handle i b" "bit (dma_map_entry_fragments f i) b"
    using frag_inv_used_fragment [OF assms True] by blast
  from assms(1) obtain fs as where "n \<le> 30" "frag_lists n f fs as" "frag_pages N dm f fs as"
    by (auto simp: frag_inv_def)
  moreover have nz: "dma_map_entry_fragments f i \<noteq> 0" using ib(2,4) by (auto simp: byte_zero_iff)
  ultimately have "dma_map_entry f i < N" "i < 256" using ib(1) by (auto simp: frag_lists_def frag_pages_def)
  moreover have "handle_range f dm r \<subseteq> {local_ram_addr (dm (dma_map_entry f i)) + 512 * b ..<
       local_ram_addr (dm (dma_map_entry f i)) + 512 * b + 512}"
  proof (cases "r = 0xffff")
    case True
    then show ?thesis by (simp add: handle_range_def diva_dma_fragment_map_get_dma_map_entry_def)
  next
    case ne: False
    have "r AND 0xff = i" "drop_bit 8 r AND 7 = b"
      using frag_handle_decode(1,2) [of i b] ib(2,3) \<open>i < 256\<close> by simp_all
    then show ?thesis
      using ne True by (simp add: handle_range_def diva_dma_fragment_map_get_dma_map_entry_def uses_fragment_def
          diva_get_dma_map_entry_def Let_def)
  qed
  ultimately show ?thesis using that(1) [OF ib(1-3) nz] by blast
next
  case False
  have "r \<notin> frag_bits n (dma_map_entry_fragments f)"
    using False frag_bits_ge [of n r] assms(1) by (auto simp: frag_inv_def)
  with assms(2) show ?thesis
    using that(2) False
    by (auto simp: frag_used_def handle_range_def diva_dma_fragment_map_get_dma_map_entry_def uses_fragment_def
        diva_get_dma_map_entry_def)
qed

lemma frag_pages_inj:
  assumes "frag_inv N n dm f" "i < n" "j < n" "dma_map_entry_fragments f i \<noteq> 0" "dma_map_entry_fragments f j \<noteq> 0"
    "dma_map_entry f i = dma_map_entry f j"
  shows "i = j"
proof -
  from assms(1) obtain fs as where "frag_lists n f fs as" "frag_pages N dm f fs as" by (auto simp: frag_inv_def)
  then have "i \<in> set as" "j \<in> set as" "inj_on (dma_map_entry f) (set as)"
    using assms(2-5) by (auto simp: frag_lists_def frag_pages_def)
  then show ?thesis using assms(6) by (simp add: inj_on_def)
qed

definition pages_apart :: "nat \<Rightarrow> dma_map \<Rightarrow> bool" where
  "pages_apart N dm \<longleftrightarrow> (\<forall>i < N. \<forall>j < N. i \<noteq> j \<longrightarrow>
     local_ram_addr (dm i) + 4096 \<le> local_ram_addr (dm j) \<or> local_ram_addr (dm j) + 4096 \<le> local_ram_addr (dm i))"

text \<open>Two different handles in use denote disjoint memory: when the DMA pages of the map lie
  at least 4096 bytes apart, the address ranges that
  \<open>diva_dma_fragment_map_get_dma_map_entry\<close> returns for them, 512 bytes for a fragment and 4096
  bytes for a page, do not overlap.\<close>

theorem dma_fragment_ranges_disjoint:
  assumes "frag_inv N n dm f" and "pages_apart N dm"
    and "r \<in> frag_used N n dm f" and "s \<in> frag_used N n dm f" and "r \<noteq> s"
  shows "handle_range f dm r \<inter> handle_range f dm s = {}"
proof -
  have sub: "{a + 512 * b ..< a + 512 * b + 512} \<subseteq> {a ..< a + 4096}" if "b < 8" for a b :: nat
    using that by auto
  have ap: "{local_ram_addr (dm i) ..< local_ram_addr (dm i) + 4096} \<inter>
      {local_ram_addr (dm j) ..< local_ram_addr (dm j) + 4096} = {}" if "i < N" "j < N" "i \<noteq> j" for i j
    using assms(2) that unfolding pages_apart_def by (fastforce simp: disjoint_iff)
  from assms(1,3) show ?thesis
  proof (cases rule: handle_range_page)
    case r: (1 i b)
    from assms(1,4) show ?thesis
    proof (cases rule: handle_range_page)
      case s: (1 j c)
      show ?thesis
      proof (cases "i = j")
        case True
        then have "b \<noteq> c" using assms(5) r s by auto
        then show ?thesis using r(6) s(6) True by (fastforce simp: disjoint_iff nat_neq_iff)
      next
        case False
        then have "dma_map_entry f i \<noteq> dma_map_entry f j" using frag_pages_inj [OF assms(1)] r s by blast
        with ap [OF r(5) s(5) this] sub [OF r(2)] sub [OF s(2)] r(6) s(6) show ?thesis by blast
      qed
    next
      case s: 2
      then have "dma_map_entry f i \<noteq> s" using r by blast
      with ap [OF r(5) s(1) this] sub [OF r(2)] r(6) s(3) show ?thesis by blast
    qed
  next
    case r: 2
    from assms(1,4) show ?thesis
    proof (cases rule: handle_range_page)
      case s: (1 j c)
      then have "r \<noteq> dma_map_entry f j" using r by blast
      with ap [OF r(1) s(5) this] sub [OF s(2)] s(6) r(3) show ?thesis by blast
    next
      case s: 2
      with ap [OF r(1) s(1) assms(5)] r(3) show ?thesis by blast
    qed
  qed
qed

section \<open>Witnesses\<close>

text \<open>A map of two entries over three pages, the first page in use.\<close>

definition wit_dma :: dma_map where
  "wit_dma = (\<lambda>i. \<lparr>busy = (if i = 0 then 1 else 0), phys_bus_addr = 0, phys_bus_addr_hi = 0,
     local_ram_addr = (if i < 3 then 4096 * (i + 1) else 0), addr_handle = 0\<rparr>)"

definition wit_frag :: frag_map where
  "wit_frag = foldl frag_init_entry
     \<lparr>dma_map_entry = (\<lambda>_. 0), dma_map_entry_fragments = (\<lambda>_. 0), free_q = diva_q_init,
      available_q = diva_q_init, links = \<lparr>lnext = (\<lambda>_. 0), lprev = (\<lambda>_. 0)\<rparr>\<rparr> [0..<2]"

lemma wit_dma_len: "dma_len wit_dma 3" "pages_apart 3 wit_dma"
proof -
  show "dma_len wit_dma 3" by (simp add: dma_len_def wit_dma_def)
  have "i < j \<Longrightarrow> 4096 * (i + 1) + 4096 \<le> 4096 * (j + 1)" for i j :: nat by simp
  then have "i \<noteq> j \<Longrightarrow> 4096 * (i + 1) + 4096 \<le> 4096 * (j + 1) \<or> 4096 * (j + 1) + 4096 \<le> 4096 * (i + 1)" for i j :: nat
    by (meson nat_neq_iff)
  then show "pages_apart 3 wit_dma" by (auto simp: pages_apart_def wit_dma_def)
qed

lemma wit_frag_lists: "frag_lists 2 wit_frag [0, 1] []" "dma_map_entry_fragments wit_frag = (\<lambda>_. 0)"
  by (auto simp: wit_frag_def frag_init_entry_def diva_q_init_def diva_q_add_tail_def frag_lists_def
      upt_rec q_rep_def fun_eq_iff)

lemma wit_frag_inv: "frag_inv 3 2 wit_dma wit_frag"
proof -
  have "frag_pages 3 wit_dma wit_frag [0, 1] []" by (simp add: frag_pages_def wit_frag_lists full_last_def)
  with wit_frag_lists wit_dma_len show ?thesis unfolding frag_inv_def by auto
qed

lemma wit_frag_used: "frag_used 3 2 wit_dma wit_frag = {0}"
  by (auto simp: frag_used_def frag_bits_def wit_frag_lists wit_dma_def)

theorem dma_fragment_init_witness:
  "diva_init_dma_fragment_map True wit_frag True 2 = None"
  using dma_fragment_init [OF wit_dma_len(1), of True 2 wit_frag] by simp

theorem dma_fragment_alloc_exclusive_witness:
  "\<exists>r dm' f'. diva_dma_fragment_map_alloc (Some wit_frag) wit_dma 100 = Some (r, dm', Some f') \<and> frag_inv 3 2 dm' f'"
  using dma_fragment_alloc_exclusive [OF wit_frag_inv, of 100] by blast

theorem dma_fragment_free_exact_witness:
  "\<exists>dm' f'. diva_dma_fragment_map_free (Some wit_frag) wit_dma 0 = (dm', Some f') \<and> frag_used 3 2 dm' f' = {}"
  using dma_fragment_free_exact [OF wit_frag_inv, of 0] by (auto simp: wit_frag_used)

theorem dma_fragment_ranges_disjoint_witness:
  "\<exists>f dm. frag_used 3 2 dm f = {0, 32768} \<and> handle_range f dm 0 \<inter> handle_range f dm 32768 = {}"
proof -
  let ?f = "frag_open wit_frag 0 1" and ?dm = "wit_dma(1 := (wit_dma 1)\<lparr>busy := 1\<rparr>)"
  have "frag_pages 3 wit_dma wit_frag [0, 1] []" by (simp add: frag_pages_def wit_frag_lists full_last_def)
  from frag_open_inv [OF wit_frag_lists(1) this, of 1]
  have *: "frag_lists 2 ?f [1] [0]" "frag_pages 3 ?dm ?f [1] [0]"
    "frag_used 3 2 ?dm ?f = insert (frag_handle 0 0) {0}"
    unfolding wit_frag_used by (simp_all only: wit_dma_def) simp_all
  then have "frag_used 3 2 ?dm ?f = {0, 32768}" using frag_handle_arith [of 0 0] by auto
  moreover have "frag_inv 3 2 ?dm ?f" using * wit_dma_len unfolding frag_inv_def by auto
  moreover have "pages_apart 3 ?dm" using wit_dma_len(2) by (simp add: pages_apart_def)
  ultimately have "frag_used 3 2 ?dm ?f = {0, 32768} \<and> handle_range ?f ?dm 0 \<inter> handle_range ?f ?dm 32768 = {}"
    using dma_fragment_ranges_disjoint [of 3 2 ?dm ?f 0 32768] by simp
  then show ?thesis by blast
qed

end
