(* ===== verification/CapiTypes.thy ===== *)
theory CapiTypes
  imports XBuffer
begin

text \<open>
  The state of the CAPI message layer \<open>kernel/message.c\<close> for one adapter: the tables of
  \<open>DIVA_CAPI_ADAPTER\<close>, its PLCIs, the applications, and what the code sends out. Records
  hold the fields the modelled functions use (\<open>kernel/divacapi.h\<close>).

  A pointer into \<open>a->plci\<close> is the number of the entry counted from 1, so that
  \<open>&a->plci[Id - 1]\<close> is \<open>Id\<close> and \<open>0\<close> is the null pointer; a pointer to an application is
  its number, \<open>0\<close> is the null pointer. Arrays are functions of the index. Fields that only
  count or compare are natural numbers; flag bytes are machine words. Requests to the
  adapter (\<open>a->request\<close>) and messages to applications (\<open>sendf\<close>) are recorded as events in
  the order in which they are made.
\<close>

abbreviation (input) MAX_NCCI :: nat where "MAX_NCCI \<equiv> 127"
abbreviation (input) MAX_NL_CHANNEL :: nat where "MAX_NL_CHANNEL \<equiv> 255"
abbreviation (input) MAX_DATA_B3 :: nat where "MAX_DATA_B3 \<equiv> 8"
abbreviation (input) MAX_DATA_ACK :: nat where "MAX_DATA_ACK \<equiv> 8"

abbreviation (input) IDLE :: nat where "IDLE \<equiv> 0"
abbreviation (input) INC_ACT_PENDING :: nat where "INC_ACT_PENDING \<equiv> 5"
abbreviation (input) CONNECTED :: nat where "CONNECTED \<equiv> 7"

abbreviation (input) N_CH_XOFF :: byte where "N_CH_XOFF \<equiv> 0x01"
abbreviation (input) N_XON_SENT :: byte where "N_XON_SENT \<equiv> 0x02"
abbreviation (input) N_XON_REQ :: byte where "N_XON_REQ \<equiv> 0x04"
abbreviation (input) N_XON_CONNECT_IND :: byte where "N_XON_CONNECT_IND \<equiv> 0x08"
abbreviation (input) N_RX_FLOW_CONTROL_MASK :: byte where "N_RX_FLOW_CONTROL_MASK \<equiv> 0x3f"
abbreviation (input) N_OK_FC_PENDING :: byte where "N_OK_FC_PENDING \<equiv> 0x80"

abbreviation (input) N_DISC :: nat where "N_DISC \<equiv> 4"
abbreviation (input) N_DATA :: nat where "N_DATA \<equiv> 8"
abbreviation (input) N_UDATA :: nat where "N_UDATA \<equiv> 10"
abbreviation (input) N_DATA_ACK :: nat where "N_DATA_ACK \<equiv> 12"
abbreviation (input) N_XON :: nat where "N_XON \<equiv> 15"
abbreviation (input) REMOVE :: nat where "REMOVE \<equiv> 0xff"

abbreviation (input) EXT_CONTROLLER :: nat where "EXT_CONTROLLER \<equiv> 0x80"
abbreviation (input) CAPI_CONFIRM :: nat where "CAPI_CONFIRM \<equiv> 0x0100"
abbreviation (input) DISCONNECT_B3_R :: nat where "DISCONNECT_B3_R \<equiv> 0x8084"
abbreviation (input) DATA_B3_R :: nat where "DATA_B3_R \<equiv> 0x8086"
abbreviation (input) WRONG_STATE :: nat where "WRONG_STATE \<equiv> 0x2001"
abbreviation (input) WRONG_IDENTIFIER :: nat where "WRONG_IDENTIFIER \<equiv> 0x2002"

record data_b3_desc =
  d_Handle :: nat
  d_Number :: nat
  d_Flags :: nat
  d_Length :: nat
  d_P :: nat

record data_ack_desc =
  k_Handle :: nat
  k_Number :: nat

record ncci_data =
  data_out :: nat
  data_pending :: nat
  data_ack_out :: nat
  data_ack_pending :: nat
  DBuffer :: "nat \<Rightarrow> data_b3_desc"
  DataAck :: "nat \<Rightarrow> data_ack_desc"

record appl_data =
  xbuffers :: xbuffer_table
  MaxBuffer :: nat
  DataNCCI :: "nat \<Rightarrow> nat"
  DataFlags :: "nat \<Rightarrow> nat"
  BadDataB3Resp :: nat

record plci_data =
  pl_Id :: nat
  pl_appl :: nat
  pl_State :: nat
  tel :: bool
  ncci_ring_list :: nat
  ch_flow_ring_list :: nat
  nl_req :: nat
  sig_req :: nat
  NL_Id :: nat
  Sig_Id :: nat
  NL_ReqCh :: nat
  nl_remove_id :: nat
  nl_remove_ncci :: nat
  sig_remove_id :: nat
  nl_global_req :: nat
  sig_global_req :: nat
  command :: nat
  B2_prot :: nat
  B3_prot :: nat
  data_sent :: bool
  data_sent_ptr :: nat
  send_disc :: nat
  dtmf_recv_on :: bool
  fax_control_bits :: nat
  fax_feature_bits :: nat
  rx_dma_descriptor :: nat
  req_in_start :: nat
  req_in :: nat
  req_out :: nat
  RBuffer :: mem
  req_overrun :: bool

text \<open>A request to the network or signaling entity carries its buffers; a data request names
  the transmit buffer (\<open>TransmitBufferGet\<close>), its length and whether a V.120 header precedes
  it; the others carry the bytes they send.\<close>

datatype payload =
  Bytes "byte list"
| TxBuffer nat nat
| V120Buffer bool nat nat
| FaxInfo

text \<open>The functions of internal commands; starting one is recorded with the PLCI and the id.\<close>

datatype internal_fn = Fax_disconnect_info | Reset_b3_n_reset | Reset_b3

datatype capi_event =
  NL_request nat nat nat payload
| SIG_request nat nat nat payload
| Sendf nat nat nat nat "nat list"
| DtmfBlock nat nat
| InternalCommand nat nat internal_fn
| FreeDmaDescriptor nat

record capi =
  a_Id :: nat
  adapter_disabled :: bool
  feature_xonoff :: bool
  manufacturer_features :: nat
  manufacturer_features2 :: nat
  private_options :: nat
  ch_ncci :: "nat \<Rightarrow> nat"
  ncci_ch :: "nat \<Rightarrow> nat"
  ncci_plci :: "nat \<Rightarrow> nat"
  ncci_state :: "nat \<Rightarrow> nat"
  ncci_next :: "nat \<Rightarrow> nat"
  ncci :: "nat \<Rightarrow> ncci_data"
  ch_flow_control :: "nat \<Rightarrow> byte"
  ch_flow_control_pending :: nat
  ch_flow_plci :: "nat \<Rightarrow> nat"
  ch_flow_next :: "nat \<Rightarrow> nat"
  flow_control_id :: "nat \<Rightarrow> nat"
  flow_control_skip :: "nat \<Rightarrow> bool"
  plci :: "nat \<Rightarrow> plci_data"
  appl :: "nat \<Rightarrow> appl_data"
  events :: "capi_event list"

definition upd_plci :: "nat \<Rightarrow> (plci_data \<Rightarrow> plci_data) \<Rightarrow> capi \<Rightarrow> capi" where
  "upd_plci p f w = w\<lparr>plci := (plci w)(p := f (plci w p))\<rparr>"

definition upd_ncci :: "nat \<Rightarrow> (ncci_data \<Rightarrow> ncci_data) \<Rightarrow> capi \<Rightarrow> capi" where
  "upd_ncci n f w = w\<lparr>ncci := (ncci w)(n := f (ncci w n))\<rparr>"

definition upd_appl :: "nat \<Rightarrow> (appl_data \<Rightarrow> appl_data) \<Rightarrow> capi \<Rightarrow> capi" where
  "upd_appl x f w = w\<lparr>appl := (appl w)(x := f (appl w x))\<rparr>"

definition emit :: "capi_event \<Rightarrow> capi \<Rightarrow> capi" where
  "emit e w = w\<lparr>events := events w @ [e]\<rparr>"

text \<open>Each helper leaves the other parts of the state alone.\<close>

lemma upd_plci_simps [simp]:
  "plci (upd_plci p f w) = (plci w)(p := f (plci w p))"
  "a_Id (upd_plci p f w) = a_Id w" "adapter_disabled (upd_plci p f w) = adapter_disabled w"
  "feature_xonoff (upd_plci p f w) = feature_xonoff w"
  "manufacturer_features (upd_plci p f w) = manufacturer_features w"
  "manufacturer_features2 (upd_plci p f w) = manufacturer_features2 w"
  "private_options (upd_plci p f w) = private_options w"
  "ch_ncci (upd_plci p f w) = ch_ncci w" "ncci_ch (upd_plci p f w) = ncci_ch w"
  "ncci_plci (upd_plci p f w) = ncci_plci w" "ncci_state (upd_plci p f w) = ncci_state w"
  "ncci_next (upd_plci p f w) = ncci_next w" "ncci (upd_plci p f w) = ncci w"
  "ch_flow_control (upd_plci p f w) = ch_flow_control w"
  "ch_flow_control_pending (upd_plci p f w) = ch_flow_control_pending w"
  "ch_flow_plci (upd_plci p f w) = ch_flow_plci w" "ch_flow_next (upd_plci p f w) = ch_flow_next w"
  "flow_control_id (upd_plci p f w) = flow_control_id w" "flow_control_skip (upd_plci p f w) = flow_control_skip w"
  "appl (upd_plci p f w) = appl w" "events (upd_plci p f w) = events w"
  by (simp_all add: upd_plci_def)

lemma upd_ncci_simps [simp]:
  "ncci (upd_ncci n g w) = (ncci w)(n := g (ncci w n))"
  "a_Id (upd_ncci n g w) = a_Id w" "adapter_disabled (upd_ncci n g w) = adapter_disabled w"
  "feature_xonoff (upd_ncci n g w) = feature_xonoff w"
  "manufacturer_features (upd_ncci n g w) = manufacturer_features w"
  "manufacturer_features2 (upd_ncci n g w) = manufacturer_features2 w"
  "private_options (upd_ncci n g w) = private_options w"
  "ch_ncci (upd_ncci n g w) = ch_ncci w" "ncci_ch (upd_ncci n g w) = ncci_ch w"
  "ncci_plci (upd_ncci n g w) = ncci_plci w" "ncci_state (upd_ncci n g w) = ncci_state w"
  "ncci_next (upd_ncci n g w) = ncci_next w" "plci (upd_ncci n g w) = plci w"
  "ch_flow_control (upd_ncci n g w) = ch_flow_control w"
  "ch_flow_control_pending (upd_ncci n g w) = ch_flow_control_pending w"
  "ch_flow_plci (upd_ncci n g w) = ch_flow_plci w" "ch_flow_next (upd_ncci n g w) = ch_flow_next w"
  "flow_control_id (upd_ncci n g w) = flow_control_id w" "flow_control_skip (upd_ncci n g w) = flow_control_skip w"
  "appl (upd_ncci n g w) = appl w" "events (upd_ncci n g w) = events w"
  by (simp_all add: upd_ncci_def)

lemma upd_appl_simps [simp]:
  "appl (upd_appl x h w) = (appl w)(x := h (appl w x))"
  "a_Id (upd_appl x h w) = a_Id w" "adapter_disabled (upd_appl x h w) = adapter_disabled w"
  "feature_xonoff (upd_appl x h w) = feature_xonoff w"
  "manufacturer_features (upd_appl x h w) = manufacturer_features w"
  "manufacturer_features2 (upd_appl x h w) = manufacturer_features2 w"
  "private_options (upd_appl x h w) = private_options w"
  "ch_ncci (upd_appl x h w) = ch_ncci w" "ncci_ch (upd_appl x h w) = ncci_ch w"
  "ncci_plci (upd_appl x h w) = ncci_plci w" "ncci_state (upd_appl x h w) = ncci_state w"
  "ncci_next (upd_appl x h w) = ncci_next w" "ncci (upd_appl x h w) = ncci w"
  "ch_flow_control (upd_appl x h w) = ch_flow_control w"
  "ch_flow_control_pending (upd_appl x h w) = ch_flow_control_pending w"
  "ch_flow_plci (upd_appl x h w) = ch_flow_plci w" "ch_flow_next (upd_appl x h w) = ch_flow_next w"
  "flow_control_id (upd_appl x h w) = flow_control_id w" "flow_control_skip (upd_appl x h w) = flow_control_skip w"
  "plci (upd_appl x h w) = plci w" "events (upd_appl x h w) = events w"
  by (simp_all add: upd_appl_def)

lemma emit_simps [simp]:
  "events (emit e w) = events w @ [e]"
  "a_Id (emit e w) = a_Id w" "adapter_disabled (emit e w) = adapter_disabled w"
  "feature_xonoff (emit e w) = feature_xonoff w"
  "manufacturer_features (emit e w) = manufacturer_features w"
  "manufacturer_features2 (emit e w) = manufacturer_features2 w"
  "private_options (emit e w) = private_options w"
  "ch_ncci (emit e w) = ch_ncci w" "ncci_ch (emit e w) = ncci_ch w"
  "ncci_plci (emit e w) = ncci_plci w" "ncci_state (emit e w) = ncci_state w"
  "ncci_next (emit e w) = ncci_next w" "ncci (emit e w) = ncci w"
  "ch_flow_control (emit e w) = ch_flow_control w"
  "ch_flow_control_pending (emit e w) = ch_flow_control_pending w"
  "ch_flow_plci (emit e w) = ch_flow_plci w" "ch_flow_next (emit e w) = ch_flow_next w"
  "flow_control_id (emit e w) = flow_control_id w" "flow_control_skip (emit e w) = flow_control_skip w"
  "plci (emit e w) = plci w" "appl (emit e w) = appl w"
  by (simp_all add: emit_def)

definition free_xbuffer :: "nat \<Rightarrow> nat \<Rightarrow> capi \<Rightarrow> capi" where
  "free_xbuffer x ptr = upd_appl x (\<lambda>a. a\<lparr>xbuffers := TransmitBufferFree (xbuffers a) ptr\<rparr>)"

definition set_xbuffer :: "nat \<Rightarrow> nat \<Rightarrow> capi \<Rightarrow> nat \<times> capi" where
  "set_xbuffer x ref w =
     (case TransmitBufferSet (xbuffers (appl w x)) ref of
        (ptr, t) \<Rightarrow> (ptr, upd_appl x (\<lambda>a. a\<lparr>xbuffers := t\<rparr>) w))"

definition ncci_code :: "capi \<Rightarrow> nat \<Rightarrow> nat" where
  "ncci_code w n = n OR push_bit 8 (a_Id w)"

text \<open>An adapter with no NCCI, no flow control and idle PLCIs, for examples.\<close>

definition idle_plci :: plci_data where
  "idle_plci = \<lparr>pl_Id = 0, pl_appl = 0, pl_State = 0, tel = False, ncci_ring_list = 0, ch_flow_ring_list = 0, nl_req = 0,
     sig_req = 0, NL_Id = 0, Sig_Id = 0, NL_ReqCh = 0, nl_remove_id = 0, nl_remove_ncci = 0, sig_remove_id = 0,
     nl_global_req = 0, sig_global_req = 0, command = 0, B2_prot = 0, B3_prot = 0, data_sent = False,
     data_sent_ptr = 0, send_disc = 0, dtmf_recv_on = False,
     fax_control_bits = 0, fax_feature_bits = 0, rx_dma_descriptor = 0, req_in_start = 0, req_in = 0, req_out = 0, RBuffer = (\<lambda>_. 0),
     req_overrun = False\<rparr>"

definition idle_appl :: appl_data where
  "idle_appl = \<lparr>xbuffers = XBufferInit \<lparr>next_i = (\<lambda>_. 0), prev_i = (\<lambda>_. 0)\<rparr> 8, MaxBuffer = 4,
     DataNCCI = (\<lambda>_. 0), DataFlags = (\<lambda>_. 0), BadDataB3Resp = 0\<rparr>"

definition idle_capi :: capi where
  "idle_capi = \<lparr>a_Id = 1, adapter_disabled = False, feature_xonoff = True, manufacturer_features = 0,
     manufacturer_features2 = 0, private_options = 0, ch_ncci = (\<lambda>_. 0),
     ncci_ch = (\<lambda>_. 0), ncci_plci = (\<lambda>_. 0), ncci_state = (\<lambda>_. 0), ncci_next = (\<lambda>_. 0),
     ncci = (\<lambda>_. \<lparr>data_out = 0, data_pending = 0, data_ack_out = 0, data_ack_pending = 0,
       DBuffer = (\<lambda>_. \<lparr>d_Handle = 0, d_Number = 0, d_Flags = 0, d_Length = 0, d_P = 0\<rparr>),
       DataAck = (\<lambda>_. \<lparr>k_Handle = 0, k_Number = 0\<rparr>)\<rparr>),
     ch_flow_control = (\<lambda>_. 0), ch_flow_control_pending = 0, ch_flow_plci = (\<lambda>_. 0),
     ch_flow_next = (\<lambda>_. 0), flow_control_id = (\<lambda>_. 0), flow_control_skip = (\<lambda>_. False), plci = (\<lambda>p. idle_plci\<lparr>pl_Id := p, pl_appl := 1\<rparr>), appl = (\<lambda>_. idle_appl), events = []\<rparr>"

lemma idle_capi_simps [simp]:
  "a_Id idle_capi = 1"
  "adapter_disabled idle_capi = False"
  "feature_xonoff idle_capi = True"
  "ch_ncci idle_capi = (\<lambda>_. 0)"
  "ncci_ch idle_capi = (\<lambda>_. 0)"
  "ncci_plci idle_capi = (\<lambda>_. 0)"
  "ncci_state idle_capi = (\<lambda>_. 0)"
  "ncci_next idle_capi = (\<lambda>_. 0)"
  "ch_flow_control idle_capi = (\<lambda>_. 0)"
  "ch_flow_plci idle_capi = (\<lambda>_. 0)"
  "ch_flow_next idle_capi = (\<lambda>_. 0)"
  "flow_control_id idle_capi = (\<lambda>_. 0)"
  "flow_control_skip idle_capi = (\<lambda>_. False)"
  "plci idle_capi = (\<lambda>p. idle_plci\<lparr>pl_Id := p, pl_appl := 1\<rparr>)"
  "appl idle_capi = (\<lambda>_. idle_appl)"
  "events idle_capi = []"
  by (simp_all add: idle_capi_def)

lemma idle_plci_simps [simp]:
  "pl_Id idle_plci = 0"
  "pl_appl idle_plci = 0"
  "ncci_ring_list idle_plci = 0"
  "ch_flow_ring_list idle_plci = 0"
  "nl_req idle_plci = 0"
  "sig_req idle_plci = 0"
  "NL_Id idle_plci = 0"
  "Sig_Id idle_plci = 0"
  "nl_remove_id idle_plci = 0"
  "send_disc idle_plci = 0"
  "command idle_plci = 0"
  "pl_State idle_plci = 0"
  "req_in_start idle_plci = 0"
  "req_in idle_plci = 0"
  "req_out idle_plci = 0"
  "B2_prot idle_plci = 0"
  "data_sent idle_plci = False"
  "dtmf_recv_on idle_plci = False"
  by (simp_all add: idle_plci_def)

end
