(* ===== verification/NextRing.thy ===== *)
theory NextRing
  imports CBase
begin

text \<open>
  Circular singly linked lists over an array of successors, as \<open>ncci_next\<close> and
  \<open>ch_flow_next\<close> of the CAPI adapter hold them: a list is denoted by the index of its last
  element, \<open>0\<close> stands for the empty list. \<open>cring nx s xs\<close>: starting behind \<open>s\<close>, the loop
  \<open>do i = next[i] ... while (i != s)\<close> visits exactly \<open>xs\<close>.
\<close>

fun walk :: "(nat \<Rightarrow> nat) \<Rightarrow> nat \<Rightarrow> nat list \<Rightarrow> bool" where
  "walk nx a [] \<longleftrightarrow> True"
| "walk nx a (x # xs) \<longleftrightarrow> nx a = x \<and> walk nx x xs"

definition cring :: "(nat \<Rightarrow> nat) \<Rightarrow> nat \<Rightarrow> nat list \<Rightarrow> bool" where
  "cring nx s xs \<longleftrightarrow> distinct xs \<and> 0 \<notin> set xs \<and>
     (if s = 0 then xs = [] else xs \<noteq> [] \<and> walk nx s xs \<and> last xs = s)"

lemma walk_append: "walk nx a (xs @ ys) \<longleftrightarrow> walk nx a xs \<and> walk nx (if xs = [] then a else last xs) ys"
  by (induction nx a xs rule: walk.induct) auto

lemma walk_cong:
  "(\<And>x. x \<in> set (a # butlast xs) \<Longrightarrow> nx' x = nx x) \<Longrightarrow> walk nx' a xs = walk nx a xs"
proof (induction xs arbitrary: a)
  case (Cons x xs)
  show ?case
  proof (cases "xs = []")
    case False
    then have "walk nx' x xs = walk nx x xs" using Cons.prems by (intro Cons.IH) auto
    with Cons.prems show ?thesis by auto
  qed (use Cons.prems in auto)
qed simp

lemma cring_empty [simp]: "cring nx 0 xs \<longleftrightarrow> xs = []" "cring nx s [] \<longleftrightarrow> s = 0"
  by (auto simp: cring_def)

lemma cring_cong:
  "(\<And>x. x \<in> set xs \<Longrightarrow> nx' x = nx x) \<Longrightarrow> cring nx' s xs = cring nx s xs"
proof -
  assume eq: "\<And>x. x \<in> set xs \<Longrightarrow> nx' x = nx x"
  have "walk nx' s xs = walk nx s xs" if "last xs = s" "xs \<noteq> []"
    using eq that by (intro walk_cong) (auto dest: in_set_butlastD)
  then show ?thesis by (auto simp: cring_def)
qed

lemma cring_in: "cring nx s xs \<Longrightarrow> s \<noteq> 0 \<Longrightarrow> s \<in> set xs"
  by (auto simp: cring_def)

lemma cring_walk: "cring nx s xs \<Longrightarrow> walk nx s xs"
  by (cases "s = 0") (auto simp: cring_def)

lemma cring_distinct: "cring nx s xs \<Longrightarrow> distinct xs \<and> 0 \<notin> set xs"
  by (simp add: cring_def)

text \<open>The first element becomes the last one when the anchor moves on.\<close>

lemma cring_rotate:
  assumes "cring nx s (ys @ x # zs)"
  shows "cring nx x (zs @ ys @ [x])"
proof -
  have s: "s \<noteq> 0" "walk nx s (ys @ x # zs)" "last (ys @ x # zs) = s" "distinct (ys @ x # zs)" "0 \<notin> set (ys @ x # zs)"
    using assms by (auto simp: cring_def split: if_splits)
  show ?thesis
  proof (cases "zs = []")
    case True
    with s show ?thesis by (auto simp: cring_def walk_append)
  next
    case False
    with s have "last zs = s" by simp
    with s False show ?thesis by (auto simp: cring_def walk_append)
  qed
qed

lemma cring_next_in: "cring nx s xs \<Longrightarrow> x \<in> set xs \<Longrightarrow> nx x \<in> set xs"
proof -
  assume c: "cring nx s xs" and "x \<in> set xs"
  then obtain ys zs where xs: "xs = ys @ x # zs" by (meson split_list)
  from cring_rotate [OF c [unfolded xs]] have "walk nx x (zs @ ys @ [x])" by (rule cring_walk)
  then have "nx x \<in> set (zs @ ys @ [x])" by (cases "zs @ ys @ [x]") auto
  then show ?thesis unfolding xs by auto
qed

lemma last_notin_butlast: "distinct xs \<Longrightarrow> xs \<noteq> [] \<Longrightarrow> last xs \<notin> set (butlast xs)"
  by (induction xs) (auto dest: in_set_butlastD)

text \<open>Insertion behind the anchor.\<close>

lemma cring_insert:
  assumes c: "cring nx s xs" and n: "n \<noteq> 0" "n \<notin> set xs"
  shows "s \<noteq> 0 \<Longrightarrow> cring (nx(n := nx s, s := n)) s (n # xs)"
    and "s = 0 \<Longrightarrow> cring (nx(n := n)) n [n]"
proof -
  assume s: "s \<noteq> 0"
  then obtain x ys where xs: "xs = x # ys" "nx s = x" "walk nx x ys" "last xs = s"
    using c by (cases xs) (auto simp: cring_def)
  have ns: "n \<noteq> s" using n(2) cring_in [OF c s] by auto
  have "walk (nx(n := nx s, s := n)) x ys = walk nx x ys"
  proof (cases "ys = []")
    case False
    have "s \<notin> set (butlast (x # ys))" using last_notin_butlast [of "x # ys"] xs c by (simp add: cring_def)
    then have "s \<notin> set (x # butlast ys)" using False by simp
    then show ?thesis using n xs by (intro walk_cong) (auto dest: in_set_butlastD)
  qed simp
  then show "cring (nx(n := nx s, s := n)) s (n # xs)"
    using c xs ns n s by (auto simp: cring_def)
next
  show "s = 0 \<Longrightarrow> cring (nx(n := n)) n [n]" using n by (simp add: cring_def)
qed

text \<open>Removal of the element behind \<open>i\<close>.\<close>

lemma cring_remove:
  assumes c: "cring nx i (n # xs)" and ne: "xs \<noteq> []"
  shows "cring (nx(i := nx n)) i xs"
proof -
  from c have d: "distinct (n # xs)" "0 \<notin> set (n # xs)" "nx i = n" "walk nx n xs" "last xs = i" "i \<noteq> 0"
    using ne by (auto simp: cring_def split: if_splits)
  obtain y ys where xs: "xs = y # ys" using ne by (cases xs) auto
  then have y: "nx n = y" "walk nx y ys" using d(4) by auto
  have "walk (nx(i := nx n)) y ys = walk nx y ys"
  proof (cases "ys = []")
    case False
    have "i \<notin> set (y # butlast ys)"
      using last_notin_butlast [of "y # ys"] d(1,5) xs False by simp
    then show ?thesis by (intro walk_cong) auto
  qed simp
  then show ?thesis using d y xs by (auto simp: cring_def)
qed

text \<open>Removal of an element by its predecessor, moving the anchor back if it was the anchor.\<close>

lemma cring_unlink:
  assumes c: "cring nx s xs" and xs: "xs = ys @ n # zs"
  defines "i \<equiv> last (s # ys)"
  shows "nx i = n" "i \<in> set xs" "s \<notin> set ys" "walk nx s (ys @ [n])" "i = n \<Longrightarrow> set xs = {n}"
    "i \<noteq> n \<Longrightarrow> \<exists>xs'. cring (nx(i := nx n)) (if s = n then i else s) xs' \<and> set xs' = set xs - {n}"
proof -
  have s: "s \<noteq> 0" "last xs = s" using c xs by (auto simp: cring_def split: if_splits)
  have d: "distinct xs" "0 \<notin> set xs" using c by (auto dest: cring_distinct)
  show sys: "s \<notin> set ys" using s(2) d(1) xs last_in_set [of zs] by (cases "zs = []") (auto simp: disjoint_iff)
  show w: "walk nx s (ys @ [n])" using cring_walk [OF c] xs by (simp add: walk_append)
  then have "walk nx i [n]" by (auto simp: i_def walk_append split: if_splits)
  then show in_n: "nx i = n" by simp
  have "i \<in> set (s # ys)" unfolding i_def by (rule last_in_set) simp
  then show i: "i \<in> set xs" using cring_in [OF c s(1)] xs by auto
  show "i = n \<Longrightarrow> set xs = {n}"
  proof -
    assume eq: "i = n"
    have "ys = []" using eq d(1) xs last_in_set [of ys] by (cases "ys = []") (auto simp: i_def)
    moreover have "zs = []" using calculation eq xs s(2) d(1) last_in_set [of zs] by (cases "zs = []") (auto simp: i_def)
    ultimately show ?thesis using xs by simp
  qed
  assume ne_i: "i \<noteq> n"
  have ring_i: "cring nx i (n # zs @ ys)"
  proof (cases "ys = []")
    case True
    then show ?thesis using c xs by (simp add: i_def)
  next
    case ne: False
    then obtain us where us: "ys = us @ [i]" using append_butlast_last_id [OF ne] by (metis i_def last_ConsR)
    have "cring nx s (us @ i # n # zs)" using c unfolding xs by (subst (asm) us) simp
    from cring_rotate [OF this] us show ?thesis by simp
  qed
  have ne: "zs @ ys \<noteq> []" using ring_i ne_i by (auto simp: cring_def split: if_splits)
  have rem: "cring (nx(i := nx n)) i (zs @ ys)" using cring_remove [OF ring_i ne] .
  have "cring (nx(i := nx n)) (if s = n then i else s) (if s = n then zs @ ys else ys @ zs)"
  proof (cases "s = n")
    case False
    show ?thesis
    proof (cases "ys = []")
      case True
      then show ?thesis using rem False by (simp add: i_def)
    next
      case yne: False
      have zne: "zs \<noteq> []" using s(2) xs False by auto
      then have "last zs = s" using s(2) xs by simp
      then obtain vs where vs: "zs = vs @ [s]" using append_butlast_last_id [OF zne] by metis
      from rem have "cring (nx(i := nx n)) i (vs @ s # ys)" unfolding vs by simp
      from cring_rotate [OF this] have "cring (nx(i := nx n)) s (ys @ vs @ [s])" .
      then show ?thesis using False vs by simp
    qed
  qed (use rem in simp)
  moreover have "set (if s = n then zs @ ys else ys @ zs) = set xs - {n}" using d xs by auto
  ultimately show "\<exists>xs'. cring (nx(i := nx n)) (if s = n then i else s) xs' \<and> set xs' = set xs - {n}" by blast
qed

section \<open>Loops over a ring\<close>

text \<open>\<open>do { i = next[i]; f (i); } while (i != s)\<close>, and its variant that leaves at the first
  element found.\<close>

partial_function (option) ring_loop :: "(nat \<Rightarrow> nat) \<Rightarrow> nat \<Rightarrow> (nat \<Rightarrow> 'w \<Rightarrow> 'w) \<Rightarrow> nat \<Rightarrow> 'w \<Rightarrow> 'w option" where
  "ring_loop nx s f i w =
     (if nx i \<noteq> s then ring_loop nx s f (nx i) (f (nx i) w) else Some (f (nx i) w))"

partial_function (option) ring_find :: "(nat \<Rightarrow> nat) \<Rightarrow> nat \<Rightarrow> (nat \<Rightarrow> bool) \<Rightarrow> nat \<Rightarrow> nat option option" where
  "ring_find nx s P i =
     (if P (nx i) then Some (Some (nx i))
      else if nx i \<noteq> s then ring_find nx s P (nx i) else Some None)"

lemma ring_loop_walk:
  "walk nx i (xs @ [s]) \<Longrightarrow> s \<notin> set xs \<Longrightarrow> ring_loop nx s f i w = Some (fold f (xs @ [s]) w)"
proof (induction xs arbitrary: i w)
  case Nil
  then show ?case by (subst ring_loop.simps) simp
next
  case (Cons x xs)
  then show ?case by (subst ring_loop.simps) auto
qed

lemma ring_find_walk:
  "walk nx i (xs @ [s]) \<Longrightarrow> s \<notin> set xs \<Longrightarrow> ring_find nx s P i = Some (find P (xs @ [s]))"
proof (induction xs arbitrary: i)
  case Nil
  then show ?case by (subst ring_find.simps) simp
next
  case (Cons x xs)
  then show ?case by (subst ring_find.simps) auto
qed

lemma cring_snoc: "cring nx s xs \<Longrightarrow> s \<noteq> 0 \<Longrightarrow> \<exists>ys. xs = ys @ [s] \<and> s \<notin> set ys"
  by (cases xs rule: rev_cases) (auto simp: cring_def)

lemma ring_loop_cring: "cring nx s xs \<Longrightarrow> s \<noteq> 0 \<Longrightarrow> ring_loop nx s f s w = Some (fold f xs w)"
  using cring_snoc [of nx s xs] cring_walk [of nx s xs] ring_loop_walk by fastforce

lemma ring_find_cring: "cring nx s xs \<Longrightarrow> s \<noteq> 0 \<Longrightarrow> ring_find nx s P s = Some (find P xs)"
  using cring_snoc [of nx s xs] cring_walk [of nx s xs] ring_find_walk by fastforce

end
