(* ===== verification/CapiNcci.thy ===== *)
theory CapiNcci
  imports CapiTypes NextRing
begin

text \<open>
  Allocation and release of NCCIs, the logical connections of the CAPI, in
  \<open>kernel/message.c\<close>: \<open>get_ncci\<close>, \<open>ncci_free_receive_buffers\<close>, \<open>cleanup_ncci_data\<close> and
  \<open>ncci_remove\<close>. The NCCIs of a PLCI are a circular list through \<open>ncci_next\<close>
  (\<open>NextRing\<close>). Loops whose end depends on the tables are \<open>partial_function (option)\<close>.
\<close>

section \<open>get_ncci\<close>

text \<open>The search for two NCCIs mapped to the same channel when the table is full. The loop
  variable \<open>i\<close> is the channel; the code does not change it between rounds.\<close>

definition ncci_overflow_round :: "capi \<Rightarrow> nat \<Rightarrow> nat" where
  "ncci_overflow_round w i =
     (let j = scan_up (\<lambda>j. ncci_ch w j = i) (MAX_NCCI + 1) 1
      in if j < MAX_NCCI + 1 then scan_up (\<lambda>j. ncci_ch w j = i) (MAX_NCCI + 1) (j + 1) else j)"

partial_function (option) ncci_overflow_scan :: "capi \<Rightarrow> nat \<Rightarrow> unit option" where
  "ncci_overflow_scan w i =
     (if i < MAX_NL_CHANNEL + 1 \<and> ncci_overflow_round w i < MAX_NCCI + 1 then ncci_overflow_scan w i
      else Some ())"

definition ncci_choose :: "capi \<Rightarrow> nat \<Rightarrow> nat option" where
  "ncci_choose w ch =
     (if ch < MAX_NCCI + 1 \<and> ncci_ch w ch = 0 then Some ch
      else
        let n = scan_up (\<lambda>n. ncci_ch w n = 0) (MAX_NCCI + 1) 1
        in if n = MAX_NCCI + 1 then map_option (\<lambda>_. ch) (ncci_overflow_scan w 1) else Some n)"

definition ncci_claim :: "capi \<Rightarrow> nat \<Rightarrow> nat \<Rightarrow> capi" where
  "ncci_claim w p n =
     (let w1 = w\<lparr>ncci_plci := (ncci_plci w)(n := pl_Id (plci w p)), ncci_state := (ncci_state w)(n := IDLE)\<rparr>;
          w2 = (if ncci_ring_list (plci w1 p) = 0 then upd_plci p (\<lambda>q. q\<lparr>ncci_ring_list := n\<rparr>) w1
                else w1\<lparr>ncci_next := (ncci_next w1)(n := ncci_next w1 (ncci_ring_list (plci w1 p)))\<rparr>)
      in w2\<lparr>ncci_next := (ncci_next w2)(ncci_ring_list (plci w2 p) := n mod 256)\<rparr>)"

definition get_ncci :: "capi \<Rightarrow> nat \<Rightarrow> nat \<Rightarrow> nat \<Rightarrow> (nat \<times> capi) option" where
  "get_ncci w p ch force_ncci =
     (if ch = 0 \<or> ch_ncci w ch \<noteq> 0 then Some (ch, w)
      else
        map_option (\<lambda>(n, w1). (n, w1\<lparr>ncci_ch := (ncci_ch w1)(n := ch), ch_ncci := (ch_ncci w1)(ch := n mod 256)\<rparr>))
          (if force_ncci \<noteq> 0 then Some (force_ncci, w)
           else map_option (\<lambda>n. (n, ncci_claim w p n)) (ncci_choose w ch)))"

section \<open>Receive buffers and data of an NCCI\<close>

definition free_receive_buffer :: "nat \<Rightarrow> nat \<Rightarrow> appl_data \<Rightarrow> nat \<Rightarrow> appl_data" where
  "free_receive_buffer code plciId x i =
     (if DataNCCI x i = code \<and> (DataFlags x i div 256) mod 256 = plciId
      then x\<lparr>DataNCCI := (DataNCCI x)(i := 0)\<rparr> else x)"

definition free_receive_buffers_of :: "capi \<Rightarrow> nat \<Rightarrow> appl_data \<Rightarrow> nat \<Rightarrow> appl_data" where
  "free_receive_buffers_of w p x n =
     foldl (free_receive_buffer (ncci_code w n) (pl_Id (plci w p))) x [0..<MaxBuffer x]"

definition ncci_free_receive_buffers :: "capi \<Rightarrow> nat \<Rightarrow> nat \<Rightarrow> nat \<Rightarrow> capi" where
  "ncci_free_receive_buffers w x p n =
     (if x = 0 then w
      else if n \<noteq> 0 then upd_appl x (\<lambda>a. free_receive_buffers_of w p a n) w
      else upd_appl x (\<lambda>a. foldl (free_receive_buffers_of w p) a [1..<MAX_NCCI + 1]) w)"

definition cleanup_step :: "nat \<Rightarrow> nat \<Rightarrow> capi \<Rightarrow> capi" where
  "cleanup_step p n w =
     (let ptr = d_P (DBuffer (ncci w n) (data_out (ncci w n)));
          w1 = (if \<not> data_sent (plci w p) \<or> ptr \<noteq> data_sent_ptr (plci w p)
                then free_xbuffer (pl_appl (plci w p)) ptr w else w)
      in upd_ncci n (\<lambda>c. c\<lparr>data_out := (if data_out c + 1 = MAX_DATA_B3 then 0 else data_out c + 1),
           data_pending := data_pending c - 1\<rparr>) w1)"

definition cleanup_ncci_data :: "nat \<Rightarrow> nat \<Rightarrow> capi \<Rightarrow> capi" where
  "cleanup_ncci_data p n w =
     (if n \<noteq> 0 \<and> ncci_plci w n = pl_Id (plci w p) then
        let w1 = (if pl_appl (plci w p) \<noteq> 0 then (cleanup_step p n ^^ data_pending (ncci w n)) w else w)
        in upd_ncci n (\<lambda>c. c\<lparr>data_out := 0, data_pending := 0, data_ack_out := 0, data_ack_pending := 0\<rparr>) w1
      else w)"

section \<open>ncci_remove\<close>

partial_function (option) ncci_pred :: "(nat \<Rightarrow> nat) \<Rightarrow> nat \<Rightarrow> nat \<Rightarrow> nat \<Rightarrow> nat option" where
  "ncci_pred nx s n i =
     (if i \<noteq> 0 \<and> nx i \<noteq> s \<and> nx i \<noteq> n then ncci_pred nx s n (nx i) else Some i)"

text \<open>Releasing the entry of the tables, then taking it out of the list of the PLCI.\<close>

definition ncci_release :: "nat \<Rightarrow> capi \<Rightarrow> capi" where
  "ncci_release n w =
     w\<lparr>ncci_ch := (ncci_ch w)(n := 0), ncci_plci := (ncci_plci w)(n := 0),
       ncci_state := (ncci_state w)(n := IDLE)\<rparr>"

definition ncci_unlink :: "nat \<Rightarrow> nat \<Rightarrow> capi \<Rightarrow> capi option" where
  "ncci_unlink p n w =
     map_option
       (\<lambda>i. let w1 = (if i \<noteq> 0 \<and> ncci_next w i = n then
                        let w2 = (if i = n then upd_plci p (\<lambda>q. q\<lparr>ncci_ring_list := 0\<rparr>) w
                                  else if ncci_ring_list (plci w p) = n then upd_plci p (\<lambda>q. q\<lparr>ncci_ring_list := i\<rparr>) w
                                  else w)
                        in w2\<lparr>ncci_next := (ncci_next w2)(i := ncci_next w2 n)\<rparr>
                      else w)
            in w1\<lparr>ncci_next := (ncci_next w1)(n := 0)\<rparr>)
       (ncci_pred (ncci_next w) (ncci_ring_list (plci w p)) n (ncci_ring_list (plci w p)))"

definition ncci_unmap :: "nat \<Rightarrow> nat \<Rightarrow> capi \<Rightarrow> capi" where
  "ncci_unmap p n w =
     (let w1 = cleanup_ncci_data p n w in w1\<lparr>ch_ncci := (ch_ncci w1)(ncci_ch w1 n := 0)\<rparr>)"

definition ncci_remove_all_step :: "nat \<Rightarrow> bool \<Rightarrow> capi \<Rightarrow> nat \<Rightarrow> capi" where
  "ncci_remove_all_step p preserve_ncci w n =
     (if ncci_plci w n = pl_Id (plci w p) then
        let w1 = ncci_unmap p n w
        in if preserve_ncci then w1
           else (ncci_release n w1)\<lparr>ncci_next := (ncci_next w1)(n := 0)\<rparr>
      else w)"

definition ncci_remove :: "capi \<Rightarrow> nat \<Rightarrow> nat \<Rightarrow> bool \<Rightarrow> capi option" where
  "ncci_remove w p n preserve_ncci =
     (if n \<noteq> 0 then
        (if ncci_plci w n \<noteq> pl_Id (plci w p) then Some w
         else
           let w1 = ncci_unmap p n w
           in if preserve_ncci then Some w1 else ncci_unlink p n (ncci_release n w1))
      else
        let w1 = foldl (ncci_remove_all_step p preserve_ncci) w [1..<MAX_NCCI + 1]
        in Some (if preserve_ncci then w1 else upd_plci p (\<lambda>q. q\<lparr>ncci_ring_list := 0\<rparr>) w1))"

section \<open>The invariant of the NCCI tables\<close>

definition ncci_inv :: "capi \<Rightarrow> bool" where
  "ncci_inv w \<longleftrightarrow>
     (\<forall>n. ncci_plci w n \<noteq> 0 \<longrightarrow> n \<in> {1..MAX_NCCI}) \<and>
     (\<forall>n. (ncci_ch w n = 0) = (ncci_plci w n = 0)) \<and>
     (\<forall>ch. ch_ncci w ch \<noteq> 0 \<longrightarrow> ch \<noteq> 0 \<and> ncci_ch w (ch_ncci w ch) = ch) \<and>
     (\<forall>p. p \<noteq> 0 \<longrightarrow> (\<exists>xs. cring (ncci_next w) (ncci_ring_list (plci w p)) xs \<and> set xs = {n. ncci_plci w n = p}))"

lemma ncci_invD:
  assumes "ncci_inv w"
  shows "ncci_plci w n \<noteq> 0 \<Longrightarrow> 1 \<le> n \<and> n \<le> MAX_NCCI" "(ncci_ch w n = 0) = (ncci_plci w n = 0)"
    "ch_ncci w ch \<noteq> 0 \<Longrightarrow> ch \<noteq> 0 \<and> ncci_ch w (ch_ncci w ch) = ch"
  using assms by (auto simp: ncci_inv_def)

lemma ncci_inv_ring:
  assumes "ncci_inv w" "p \<noteq> 0"
  obtains xs where "cring (ncci_next w) (ncci_ring_list (plci w p)) xs" "set xs = {n. ncci_plci w n = p}"
  using assms unfolding ncci_inv_def by blast

lemma ncci_choose_free:
  assumes "\<exists>n. 1 \<le> n \<and> n \<le> MAX_NCCI \<and> ncci_ch w n = 0" "ch \<noteq> 0"
  obtains n where "ncci_choose w ch = Some n" "1 \<le> n" "n \<le> MAX_NCCI" "ncci_ch w n = 0"
    "ch \<le> MAX_NCCI \<Longrightarrow> ncci_ch w ch = 0 \<Longrightarrow> n = ch"
    "ncci_ch w ch \<noteq> 0 \<or> ch > MAX_NCCI \<Longrightarrow> \<forall>k. 1 \<le> k \<and> k < n \<longrightarrow> ncci_ch w k \<noteq> 0"
proof (cases "ch < MAX_NCCI + 1 \<and> ncci_ch w ch = 0")
  case True
  then show ?thesis using that [of ch] assms(2) by (auto simp: ncci_choose_def)
next
  case False
  let ?n = "scan_up (\<lambda>n. ncci_ch w n = 0) (MAX_NCCI + 1) 1"
  obtain k where k: "1 \<le> k" "k \<le> MAX_NCCI" "ncci_ch w k = 0" using assms(1) by blast
  have le: "?n \<le> k" using k by (intro scan_up_found) auto
  have n: "1 \<le> ?n" by (rule scan_up_props(1))
  have lt: "?n < MAX_NCCI + 1" using le k(2) by linarith
  have z: "ncci_ch w ?n = 0" using scan_up_props(4) [OF lt] .
  show ?thesis
  proof (rule that)
    show "ncci_choose w ch = Some ?n"
      using False lt unfolding ncci_choose_def Let_def by (subst if_not_P) auto
    show "1 \<le> ?n" "?n \<le> MAX_NCCI" "ncci_ch w ?n = 0" using n lt z by simp_all
    show "ch \<le> MAX_NCCI \<Longrightarrow> ncci_ch w ch = 0 \<Longrightarrow> ?n = ch" using False by simp
    show "\<forall>j. 1 \<le> j \<and> j < ?n \<longrightarrow> ncci_ch w j \<noteq> 0"
      using scan_up_props(3) [of 1 _ "\<lambda>n. ncci_ch w n = 0" "MAX_NCCI + 1"] by blast
  qed
qed

lemma ncci_claim_simps:
  "ncci_plci (ncci_claim w p n) = (ncci_plci w)(n := pl_Id (plci w p))"
  "ncci_ch (ncci_claim w p n) = ncci_ch w" "ch_ncci (ncci_claim w p n) = ch_ncci w"
  "ncci_state (ncci_claim w p n) = (ncci_state w)(n := IDLE)"
  "q \<noteq> p \<Longrightarrow> plci (ncci_claim w p n) q = plci w q"
  "pl_Id (plci (ncci_claim w p n) q) = pl_Id (plci w q)"
  by (auto simp: ncci_claim_def Let_def)

lemma ncci_claim_ring:
  assumes inv: "ncci_inv w" and p: "p \<noteq> 0" "pl_Id (plci w p) = p"
    and n: "1 \<le> n" "n \<le> MAX_NCCI" "ncci_plci w n = 0" and q: "q \<noteq> 0"
  shows "\<exists>xs. cring (ncci_next (ncci_claim w p n)) (ncci_ring_list (plci (ncci_claim w p n) q)) xs \<and>
    set xs = {k. ncci_plci (ncci_claim w p n) k = q}"
proof -
  obtain ps where ps: "cring (ncci_next w) (ncci_ring_list (plci w p)) ps" "set ps = {k. ncci_plci w k = p}"
    using ncci_inv_ring [OF inv p(1)] by blast
  let ?s = "ncci_ring_list (plci w p)" and ?w = "ncci_claim w p n"
  have nps: "n \<notin> set ps" using ps(2) n(3) p(1) by auto
  have nx: "ncci_next ?w = (if ?s = 0 then (ncci_next w)(n := n) else (ncci_next w)(n := ncci_next w ?s, ?s := n))"
    "ncci_ring_list (plci ?w p) = (if ?s = 0 then n else ?s)"
    using n(2) by (auto simp: ncci_claim_def Let_def)
  show ?thesis
  proof (cases "q = p")
    case True
    have "cring (ncci_next ?w) (ncci_ring_list (plci ?w p)) (n # ps)"
      using cring_insert [OF ps(1) _ nps] n(1) ps(1) by (auto simp: nx)
    moreover have "set (n # ps) = {k. ncci_plci ?w k = p}" using ps(2) p(2) by (auto simp: ncci_claim_simps)
    ultimately show ?thesis using True by blast
  next
    case False
    obtain qs where qs: "cring (ncci_next w) (ncci_ring_list (plci w q)) qs" "set qs = {k. ncci_plci w k = q}"
      using ncci_inv_ring [OF inv q] by blast
    have "x \<noteq> n \<and> (?s \<noteq> 0 \<longrightarrow> x \<noteq> ?s)" if "x \<in> set qs" for x
      using that qs(2) n(3) q False cring_in [OF ps(1)] ps(2) by auto
    then have "cring (ncci_next ?w) (ncci_ring_list (plci ?w q)) qs"
      using qs(1) False by (subst cring_cong [where nx = "ncci_next w"]) (auto simp: nx ncci_claim_simps)
    moreover have "set qs = {k. ncci_plci ?w k = q}"
      using qs(2) False n(3) q p(2) by (auto simp: ncci_claim_simps)
    ultimately show ?thesis by blast
  qed
qed

section \<open>Releasing keeps the invariant\<close>

lemma cleanup_step_tables [simp]:
  "ncci_plci (cleanup_step p n w) = ncci_plci w" "ncci_ch (cleanup_step p n w) = ncci_ch w"
  "ch_ncci (cleanup_step p n w) = ch_ncci w" "ncci_next (cleanup_step p n w) = ncci_next w"
  "plci (cleanup_step p n w) = plci w" "ncci_state (cleanup_step p n w) = ncci_state w"
  by (auto simp: cleanup_step_def Let_def free_xbuffer_def)

lemma cleanup_steps_tables [simp]:
  "ncci_plci ((cleanup_step p n ^^ k) w) = ncci_plci w" "ncci_ch ((cleanup_step p n ^^ k) w) = ncci_ch w"
  "ch_ncci ((cleanup_step p n ^^ k) w) = ch_ncci w" "ncci_next ((cleanup_step p n ^^ k) w) = ncci_next w"
  "plci ((cleanup_step p n ^^ k) w) = plci w" "ncci_state ((cleanup_step p n ^^ k) w) = ncci_state w"
  by (induction k) auto

lemma cleanup_ncci_data_tables [simp]:
  "ncci_plci (cleanup_ncci_data p n w) = ncci_plci w" "ncci_ch (cleanup_ncci_data p n w) = ncci_ch w"
  "ch_ncci (cleanup_ncci_data p n w) = ch_ncci w" "ncci_next (cleanup_ncci_data p n w) = ncci_next w"
  "plci (cleanup_ncci_data p n w) = plci w" "ncci_state (cleanup_ncci_data p n w) = ncci_state w"
  by (auto simp: cleanup_ncci_data_def Let_def)

lemma ncci_pred_walk:
  assumes "walk nx i (ys @ [n])" "s \<notin> set ys" "n \<notin> set ys" "i \<noteq> 0" "0 \<notin> set ys"
  shows "ncci_pred nx s n i = Some (last (i # ys))"
  using assms
proof (induction ys arbitrary: i)
  case Nil
  then show ?case by (subst ncci_pred.simps) auto
next
  case (Cons y ys)
  then show ?case by (subst ncci_pred.simps) auto
qed

lemma ncci_unlink_ring:
  assumes c: "cring (ncci_next w) (ncci_ring_list (plci w p)) xs" and n: "n \<in> set xs"
  shows "\<exists>w'. ncci_unlink p n w = Some w' \<and>
     (\<exists>xs'. cring (ncci_next w') (ncci_ring_list (plci w' p)) xs' \<and> set xs' = set xs - {n}) \<and>
     (\<forall>k. k \<notin> set xs \<longrightarrow> ncci_next w' k = ncci_next w k) \<and>
     ncci_plci w' = ncci_plci w \<and> ncci_ch w' = ncci_ch w \<and> ch_ncci w' = ch_ncci w \<and>
     (\<forall>q. q \<noteq> p \<longrightarrow> plci w' q = plci w q) \<and> pl_Id (plci w' p) = pl_Id (plci w p)"
proof -
  let ?nx = "ncci_next w" and ?s = "ncci_ring_list (plci w p)"
  obtain ys zs where xs: "xs = ys @ n # zs" using n by (meson split_list)
  have s: "?s \<noteq> 0" using c n by (auto simp: cring_def split: if_splits)
  have d: "distinct xs" "0 \<notin> set xs" using c by (auto dest: cring_distinct)
  let ?i = "last (?s # ys)" and ?s' = "if ?s = n then last (?s # ys) else ?s"
  note u = cring_unlink [OF c xs]
  have pred: "ncci_pred ?nx ?s n ?s = Some ?i"
    using u(3,4) d xs s by (intro ncci_pred_walk) auto
  have i: "?i \<in> set xs" "?i \<noteq> 0" using u(2) d(2) by (blast, metis)
  note in_n = u(1)
  show ?thesis
  proof (cases "?i = n")
    case True
    show ?thesis using pred True in_n i u(5) by (auto simp: ncci_unlink_def Let_def)
  next
    case False
    obtain xs' where xs': "cring (?nx(?i := ?nx n)) ?s' xs'" "set xs' = set xs - {n}"
      using u(6) [OF False] by blast
    have "cring (?nx(?i := ?nx n, n := 0)) ?s' xs'"
      using xs' by (subst cring_cong [where nx = "?nx(?i := ?nx n)"]) auto
    with xs'(2) have fin: "\<exists>xs'. cring (?nx(?i := ?nx n, n := 0)) ?s' xs' \<and> set xs' = set xs - {n}"
      by blast
    define v where "v = (if ?s = n then upd_plci p (\<lambda>q. q\<lparr>ncci_ring_list := ?i\<rparr>) w else w)
      \<lparr>ncci_next := ?nx(?i := ?nx n, n := 0)\<rparr>"
    have res: "ncci_unlink p n w = Some v"
      unfolding ncci_unlink_def pred v_def using False in_n i(2) by (simp add: Let_def)
    have ring: "ncci_ring_list (plci v p) = ?s'" "ncci_next v = ?nx(?i := ?nx n, n := 0)"
      by (simp_all add: v_def)
    have 1: "\<exists>xs'. cring (ncci_next v) (ncci_ring_list (plci v p)) xs' \<and> set xs' = set xs - {n}"
      unfolding ring by (rule fin)
    have 2: "\<forall>k. k \<notin> set xs \<longrightarrow> ncci_next v k = ncci_next w k" using i(1) n by (auto simp: ring)
    have 3: "ncci_plci v = ncci_plci w" "ncci_ch v = ncci_ch w" "ch_ncci v = ch_ncci w"
       "\<forall>q. q \<noteq> p \<longrightarrow> plci v q = plci w q" "pl_Id (plci v p) = pl_Id (plci w p)" by (simp_all add: v_def)
    show ?thesis unfolding res by (rule exI [of _ v]) (intro conjI refl 1 2 3)
  qed
qed

lemma ncci_unmap_tables:
  "ncci_plci (ncci_unmap p n w) = ncci_plci w" "ncci_ch (ncci_unmap p n w) = ncci_ch w"
  "ncci_next (ncci_unmap p n w) = ncci_next w" "plci (ncci_unmap p n w) = plci w"
  "ch_ncci (ncci_unmap p n w) = (ch_ncci w)(ncci_ch w n := 0)"
  by (simp_all add: ncci_unmap_def Let_def)

lemma ncci_release_tables:
  "ncci_plci (ncci_release n w) = (ncci_plci w)(n := 0)" "ncci_ch (ncci_release n w) = (ncci_ch w)(n := 0)"
  "ncci_next (ncci_release n w) = ncci_next w" "plci (ncci_release n w) = plci w"
  "ch_ncci (ncci_release n w) = ch_ncci w"
  by (simp_all add: ncci_release_def)

lemma ncci_remove_all_steps:
  assumes "pl_Id (plci w p) = p" "\<forall>ch. ch_ncci w ch \<noteq> 0 \<longrightarrow> ch \<noteq> 0 \<and> ncci_ch w (ch_ncci w ch) = ch" "distinct ns"
  defines "w' \<equiv> foldl (ncci_remove_all_step p False) w ns"
  shows "(\<forall>k. ncci_plci w' k = (if ncci_plci w k = p \<and> k \<in> set ns then 0 else ncci_plci w k)) \<and>
     (\<forall>k. ncci_ch w' k = (if ncci_plci w k = p \<and> k \<in> set ns then 0 else ncci_ch w k)) \<and>
     (\<forall>k. ncci_next w' k = (if ncci_plci w k = p \<and> k \<in> set ns then 0 else ncci_next w k)) \<and>
     plci w' = plci w \<and> (\<forall>ch. ch_ncci w' ch \<noteq> 0 \<longrightarrow> ch \<noteq> 0 \<and> ncci_ch w' (ch_ncci w' ch) = ch)"
  using assms(3) unfolding w'_def
proof (induction ns rule: rev_induct)
  case Nil
  then show ?case using assms(2) by simp
next
  case (snoc n ns)
  let ?v = "foldl (ncci_remove_all_step p False) w ns"
  have n: "distinct ns" "n \<notin> set ns" using snoc.prems by auto
  note I = snoc.IH [OF n(1)]
  note IH = I [THEN conjunct1] I [THEN conjunct2, THEN conjunct1] I [THEN conjunct2, THEN conjunct2, THEN conjunct1]
    I [THEN conjunct2, THEN conjunct2, THEN conjunct2, THEN conjunct1]
    I [THEN conjunct2, THEN conjunct2, THEN conjunct2, THEN conjunct2]
  show ?case
  proof (cases "ncci_plci w n = p")
    case True
    let ?u = "ncci_remove_all_step p False ?v n"
    have owner: "ncci_plci ?v n = pl_Id (plci ?v p)" using True n IH(1,4) assms(1) by simp
    have u: "ncci_plci ?u = (ncci_plci ?v)(n := 0)" "ncci_ch ?u = (ncci_ch ?v)(n := 0)"
      "ncci_next ?u = (ncci_next ?v)(n := 0)" "plci ?u = plci ?v" "ch_ncci ?u = (ch_ncci ?v)(ncci_ch ?v n := 0)"
      using owner by (simp_all add: ncci_remove_all_step_def Let_def ncci_unmap_tables ncci_release_tables)
    have last: "\<forall>ch. ch_ncci ?u ch \<noteq> 0 \<longrightarrow> ch \<noteq> 0 \<and> ncci_ch ?u (ch_ncci ?u ch) = ch"
      using IH(5) unfolding u by (auto split: if_splits)
    have eq: "foldl (ncci_remove_all_step p False) w (ns @ [n]) = ?u" by simp
    show ?thesis unfolding eq
      by (intro conjI last) (use IH(1-4) True n in \<open>auto simp: u\<close>)
  next
    case False
    then have "ncci_plci ?v n \<noteq> pl_Id (plci ?v p)" using n IH(1,4) assms(1) by simp
    then have eq: "foldl (ncci_remove_all_step p False) w (ns @ [n]) = ?v" by (simp add: ncci_remove_all_step_def)
    show ?thesis unfolding eq
      by (intro conjI IH(4,5)) (use IH(1-3) False n in auto)
  qed
qed

lemma ncci_inv_keep_ring:
  assumes "ncci_inv w" "q \<noteq> 0" "plci w' q = plci w q"
    and "\<And>k. ncci_plci w k = q \<Longrightarrow> ncci_next w' k = ncci_next w k"
    and "\<And>k. (ncci_plci w' k = q) = (ncci_plci w k = q)"
  shows "\<exists>xs. cring (ncci_next w') (ncci_ring_list (plci w' q)) xs \<and> set xs = {k. ncci_plci w' k = q}"
proof -
  obtain qs where qs: "cring (ncci_next w) (ncci_ring_list (plci w q)) qs" "set qs = {k. ncci_plci w k = q}"
    using ncci_inv_ring [OF assms(1,2)] by blast
  have "cring (ncci_next w') (ncci_ring_list (plci w' q)) qs"
    using qs assms(3,4) by (subst cring_cong [where nx = "ncci_next w"]) auto
  with qs(2) assms(5) show ?thesis by auto
qed

section \<open>Properties\<close>

text \<open>C12: \<open>get_ncci\<close> for an unmapped channel, with a free NCCI left, returns an NCCI between 1
  and 127 that was free, the channel's own number when that is free and otherwise the lowest
  free one; it belongs to the PLCI afterwards, is mapped to the channel in both directions, no
  other NCCI changes its owner or channel, and the circular lists of all PLCIs stay exact.\<close>

theorem get_ncci_fresh:
  assumes "ncci_inv w" and "p \<noteq> 0" and "pl_Id (plci w p) = p" and "0 < ch" and "ch_ncci w ch = 0"
    and "\<exists>n. 1 \<le> n \<and> n \<le> MAX_NCCI \<and> ncci_plci w n = 0"
  shows "\<exists>n w'. get_ncci w p ch 0 = Some (n, w') \<and> 1 \<le> n \<and> n \<le> MAX_NCCI \<and> ncci_plci w n = 0 \<and>
     (if ch \<le> MAX_NCCI \<and> ncci_plci w ch = 0 then n = ch else \<forall>k. 1 \<le> k \<and> k < n \<longrightarrow> ncci_plci w k \<noteq> 0) \<and>
     ncci_inv w' \<and> ncci_plci w' = (ncci_plci w)(n := p) \<and> ncci_ch w' = (ncci_ch w)(n := ch) \<and>
     ch_ncci w' = (ch_ncci w)(ch := n) \<and> ncci_state w' = (ncci_state w)(n := IDLE)"
proof -
  have free: "\<exists>n. 1 \<le> n \<and> n \<le> MAX_NCCI \<and> ncci_ch w n = 0" using assms(6) ncci_invD(2) [OF assms(1)] by auto
  obtain n where n: "ncci_choose w ch = Some n" "1 \<le> n" "n \<le> MAX_NCCI" "ncci_ch w n = 0"
    "ch \<le> MAX_NCCI \<Longrightarrow> ncci_ch w ch = 0 \<Longrightarrow> n = ch"
    "ncci_ch w ch \<noteq> 0 \<or> ch > MAX_NCCI \<Longrightarrow> \<forall>k. 1 \<le> k \<and> k < n \<longrightarrow> ncci_ch w k \<noteq> 0"
    using ncci_choose_free [OF free] assms(4) by blast
  have np: "ncci_plci w n = 0" using n(4) ncci_invD(2) [OF assms(1)] by simp
  let ?v = "ncci_claim w p n"
  let ?w = "?v\<lparr>ncci_ch := (ncci_ch ?v)(n := ch), ch_ncci := (ch_ncci ?v)(ch := n)\<rparr>"
  have res: "get_ncci w p ch 0 = Some (n, ?w)"
    using assms(4,5) n(1,3) by (simp add: get_ncci_def)
  have t: "ncci_plci ?w = (ncci_plci w)(n := p)" "ncci_ch ?w = (ncci_ch w)(n := ch)"
    "ch_ncci ?w = (ch_ncci w)(ch := n)" "ncci_state ?w = (ncci_state w)(n := IDLE)"
    using assms(3) by (simp_all add: ncci_claim_simps)
  have rings: "\<exists>xs. cring (ncci_next ?w) (ncci_ring_list (plci ?w q)) xs \<and> set xs = {k. ncci_plci ?w k = q}"
    if "q \<noteq> 0" for q
    using ncci_claim_ring [OF assms(1-3) n(2,3) np that] by simp
  have "ncci_inv ?w"
    unfolding ncci_inv_def t
  proof (intro conjI allI impI)
    fix k assume "((ncci_plci w)(n := p)) k \<noteq> 0"
    then show "k \<in> {1..MAX_NCCI}" using n(2,3) ncci_invD(1) [OF assms(1), of k] by (auto split: if_splits)
  next
    fix k show "(((ncci_ch w)(n := ch)) k = 0) = (((ncci_plci w)(n := p)) k = 0)"
      using assms(2,4) ncci_invD(2) [OF assms(1)] by auto
  next
    fix c assume "((ch_ncci w)(ch := n)) c \<noteq> 0"
    then show "c \<noteq> 0" "((ncci_ch w)(n := ch)) (((ch_ncci w)(ch := n)) c) = c"
      using ncci_invD(3) [OF assms(1), of c] n(4) assms(4) by (auto split: if_splits)
  next
    fix q :: nat assume "q \<noteq> 0"
    from rings [OF this] show "\<exists>xs. cring (ncci_next ?w) (ncci_ring_list (plci ?w q)) xs \<and> set xs = {k. ((ncci_plci w)(n := p)) k = q}"
      unfolding t .
  qed
  moreover have "if ch \<le> MAX_NCCI \<and> ncci_plci w ch = 0 then n = ch else \<forall>k. 1 \<le> k \<and> k < n \<longrightarrow> ncci_plci w k \<noteq> 0"
    using n(5,6) ncci_invD(2) [OF assms(1)] by (metis not_le)
  ultimately show ?thesis using res n(2,3) np t by blast
qed


lemma ncci_overflow_scan_hangs:
  assumes "i < MAX_NL_CHANNEL + 1" "ncci_overflow_round w i < MAX_NCCI + 1"
  shows "ncci_overflow_scan w i = None"
proof -
  have "ncci_overflow_scan w i = Some y \<Longrightarrow> i < MAX_NL_CHANNEL + 1 \<longrightarrow> ncci_overflow_round w i < MAX_NCCI + 1 \<longrightarrow> False" for y
    by (rule ncci_overflow_scan.raw_induct [of "\<lambda>w i y. i < MAX_NL_CHANNEL + 1 \<longrightarrow> ncci_overflow_round w i < MAX_NCCI + 1 \<longrightarrow> False"])
      (auto split: if_splits)
  then show ?thesis using assms by (cases "ncci_overflow_scan w i") auto
qed

lemma ncci_overflow_round_iff:
  "ncci_overflow_round w i < MAX_NCCI + 1 \<longleftrightarrow>
     (\<exists>a b. 1 \<le> a \<and> a < b \<and> b \<le> MAX_NCCI \<and> ncci_ch w a = i \<and> ncci_ch w b = i)"
proof -
  let ?P = "\<lambda>j. ncci_ch w j = i" and ?N = "MAX_NCCI + 1"
  let ?j = "scan_up ?P ?N 1"
  let ?k = "scan_up ?P ?N (?j + 1)"
  note j = scan_up_props [where stop = ?P and hi = ?N and i = 1]
  note k = scan_up_props [where stop = ?P and hi = ?N and i = "?j + 1"]
  have r: "ncci_overflow_round w i = (if ?j < ?N then ?k else ?j)"
    unfolding ncci_overflow_round_def Let_def ..
  show ?thesis
  proof
    assume *: "ncci_overflow_round w i < MAX_NCCI + 1"
    then have lt: "?j < ?N" "?k < ?N" unfolding r by (auto split: if_splits)
    have "1 \<le> ?j" "?j < ?k" using j(1) k(1) by linarith+
    moreover have "?k \<le> MAX_NCCI" using lt(2) by linarith
    ultimately show "\<exists>a b. 1 \<le> a \<and> a < b \<and> b \<le> MAX_NCCI \<and> ncci_ch w a = i \<and> ncci_ch w b = i"
      using j(4) [OF lt(1)] k(4) [OF lt(2)] by blast
  next
    assume "\<exists>a b. 1 \<le> a \<and> a < b \<and> b \<le> MAX_NCCI \<and> ncci_ch w a = i \<and> ncci_ch w b = i"
    then obtain a b where ab: "1 \<le> a" "a < b" "b \<le> MAX_NCCI" "?P a" "?P b" by blast
    have ja: "?j \<le> a" using ab by (intro scan_up_found) auto
    then have "?j + 1 \<le> b" "b < ?N" using ab by linarith+
    then have "?k \<le> b" using ab(5) by (intro scan_up_found) auto
    then show "ncci_overflow_round w i < MAX_NCCI + 1" unfolding r using ja ab by auto
  qed
qed

text \<open>With all 127 NCCIs in use, \<open>get_ncci\<close> looks for two NCCIs that share a channel, but
  the loop never advances the channel it looks for: it does not end when two NCCIs are mapped
  to channel 1, and otherwise ends after one round and returns the channel number itself,
  which is taken as an NCCI although it may be in use or above 127.\<close>

theorem get_ncci_overflow:
  assumes "\<forall>n. 1 \<le> n \<and> n \<le> MAX_NCCI \<longrightarrow> ncci_ch w n \<noteq> 0" and "0 < ch" and "ch < 256" and "ch_ncci w ch = 0"
    and "ncci_ch w ch \<noteq> 0 \<or> MAX_NCCI < ch"
  shows "map_option fst (get_ncci w p ch 0) =
     (if \<exists>a b. 1 \<le> a \<and> a < b \<and> b \<le> MAX_NCCI \<and> ncci_ch w a = 1 \<and> ncci_ch w b = 1 then None else Some ch)"
proof -
  let ?n = "scan_up (\<lambda>n. ncci_ch w n = 0) (MAX_NCCI + 1) 1"
  have full: "?n = MAX_NCCI + 1"
  proof (rule ccontr)
    assume "?n \<noteq> MAX_NCCI + 1"
    moreover have "?n \<le> MAX_NCCI + 1" by (rule scan_up_props(2)) simp
    ultimately have lt: "?n < MAX_NCCI + 1" by linarith
    have "1 \<le> ?n" by (rule scan_up_props(1))
    then show False using assms(1) lt scan_up_props(4) [OF lt] by auto
  qed
  have "ncci_choose w ch = map_option (\<lambda>_. ch) (ncci_overflow_scan w 1)"
    unfolding ncci_choose_def Let_def full using assms(5) by auto
  moreover have "ncci_overflow_scan w 1 = (if ncci_overflow_round w 1 < MAX_NCCI + 1 then None else Some ())"
  proof (cases "ncci_overflow_round w 1 < MAX_NCCI + 1")
    case True
    then show ?thesis using ncci_overflow_scan_hangs [of 1 w] by simp
  next
    case False
    then show ?thesis by (subst ncci_overflow_scan.simps) simp
  qed
  ultimately show ?thesis
    unfolding ncci_overflow_round_iff using assms(2,4) by (auto simp: get_ncci_def)
qed

text \<open>The transmit buffers an NCCI still holds, oldest first.\<close>

definition pending_ptrs :: "ncci_data \<Rightarrow> nat list" where
  "pending_ptrs c = map (\<lambda>k. d_P (DBuffer c ((data_out c + k) mod MAX_DATA_B3))) [0..<data_pending c]"

lemma pending_ptrs_step:
  assumes "data_pending c = Suc k" "data_out c < MAX_DATA_B3"
  shows "pending_ptrs c = d_P (DBuffer c (data_out c)) #
     pending_ptrs (c\<lparr>data_out := (if data_out c + 1 = MAX_DATA_B3 then 0 else data_out c + 1), data_pending := data_pending c - 1\<rparr>)"
proof -
  have "(data_out c + Suc i) mod 8 = ((if data_out c + 1 = 8 then 0 else data_out c + 1) + i) mod 8" for i
    by (auto simp: mod_simps)
  then show ?thesis
    using assms by (simp add: pending_ptrs_def upt_conv_Cons map_Suc_upt [symmetric] del: upt_Suc)
qed

lemma cleanup_steps:
  assumes "data_pending (ncci w n) = k" "data_out (ncci w n) < MAX_DATA_B3"
  shows "appl ((cleanup_step p n ^^ k) w) = appl (fold (free_xbuffer (pl_appl (plci w p)))
      [q \<leftarrow> pending_ptrs (ncci w n). \<not> data_sent (plci w p) \<or> q \<noteq> data_sent_ptr (plci w p)] w)"
  using assms
proof (induction k arbitrary: w)
  case 0
  then show ?case by (simp add: pending_ptrs_def)
next
  case (Suc k)
  let ?v = "cleanup_step p n w" and ?x = "pl_appl (plci w p)"
  let ?q = "d_P (DBuffer (ncci w n) (data_out (ncci w n)))"
  let ?free = "\<not> data_sent (plci w p) \<or> ?q \<noteq> data_sent_ptr (plci w p)"
  have v: "ncci ?v n = (ncci w n)\<lparr>data_out := (if data_out (ncci w n) + 1 = MAX_DATA_B3 then 0 else data_out (ncci w n) + 1),
      data_pending := data_pending (ncci w n) - 1\<rparr>" "plci ?v = plci w"
    "appl ?v = appl (if ?free then free_xbuffer ?x ?q w else w)"
    by (auto simp: cleanup_step_def Let_def free_xbuffer_def)
  have cong: "appl u = appl u' \<Longrightarrow> appl (fold (free_xbuffer ?x) qs u) = appl (fold (free_xbuffer ?x) qs u')" for qs u u'
    by (induction qs arbitrary: u u') (simp_all add: free_xbuffer_def)
  have "appl ((cleanup_step p n ^^ k) ?v) = appl (fold (free_xbuffer ?x)
      [q \<leftarrow> pending_ptrs (ncci ?v n). \<not> data_sent (plci w p) \<or> q \<noteq> data_sent_ptr (plci w p)] ?v)"
    using Suc.IH [of ?v] Suc.prems unfolding v(2) by (simp add: v(1))
  moreover have "pending_ptrs (ncci w n) = ?q # pending_ptrs (ncci ?v n)"
    unfolding v(1) using pending_ptrs_step [OF Suc.prems] .
  ultimately show ?case
    using cong [OF v(3)] by (simp add: funpow_Suc_right del: funpow.simps)
qed

text \<open>\<open>cleanup_ncci_data\<close> on an NCCI of the PLCI frees every transmit buffer the NCCI still
  holds, each once and oldest first, except the one the adapter is still sending, and leaves
  the NCCI with empty data and acknowledge queues; an NCCI of another PLCI is not touched.\<close>

theorem cleanup_ncci_data_frees:
  assumes "data_out (ncci w n) < MAX_DATA_B3" and "n \<noteq> 0" and "pl_appl (plci w p) \<noteq> 0"
  shows "let w' = cleanup_ncci_data p n w in
     if ncci_plci w n = pl_Id (plci w p) then
       appl w' = appl (fold (free_xbuffer (pl_appl (plci w p)))
         [q \<leftarrow> pending_ptrs (ncci w n). \<not> (data_sent (plci w p) \<and> q = data_sent_ptr (plci w p))] w) \<and>
       data_pending (ncci w' n) = 0 \<and> data_ack_pending (ncci w' n) = 0
     else w' = w"
  using cleanup_steps [OF refl assms(1), of p] assms(2,3)
  by (simp add: cleanup_ncci_data_def Let_def)

theorem cleanup_ncci_data_frees_witness:
  "cleanup_ncci_data 2 1 idle_capi = idle_capi"
  using cleanup_ncci_data_frees [of idle_capi 1 2] by (simp add: Let_def idle_capi_def)

theorem get_ncci_overflow_witness:
  "get_ncci (idle_capi\<lparr>ncci_ch := (\<lambda>n. if n \<le> 2 then 1 else n)\<rparr>) 1 200 0 = None"
proof -
  let ?w = "idle_capi\<lparr>ncci_ch := (\<lambda>n. if n \<le> 2 then 1 else n)\<rparr>"
  have "\<exists>a b. 1 \<le> a \<and> a < b \<and> b \<le> MAX_NCCI \<and> ncci_ch ?w a = 1 \<and> ncci_ch ?w b = 1"
    by (rule exI [of _ 1], rule exI [of _ 2]) simp
  moreover have "ch_ncci ?w = (\<lambda>_. 0)" by simp
  ultimately show ?thesis using get_ncci_overflow [of ?w 200 1] by simp
qed

lemma idle_capi_inv: "ncci_inv idle_capi"
  by (auto simp: ncci_inv_def)

theorem get_ncci_fresh_witness:
  "\<exists>w'. get_ncci idle_capi 1 5 0 = Some (5, w') \<and> ncci_inv w'"
proof -
  have "\<exists>n. 1 \<le> n \<and> n \<le> MAX_NCCI \<and> ncci_plci idle_capi n = 0" by (rule exI [of _ 1]) simp
  from get_ncci_fresh [OF idle_capi_inv _ _ _ _ this, of 1 5] show ?thesis by auto
qed


end
