(* ===== verification/CapiFlow.thy ===== *)
theory CapiFlow
  imports CapiTypes NextRing
begin

text \<open>
  The XON protocol helpers of \<open>kernel/message.c\<close>: the flow control flags of a channel, the
  circular list through \<open>ch_flow_next\<close> of the channels a PLCI controls, and the round-robin
  choice of the next channel that gets an \<open>N_XON\<close>. The loops over the list are
  \<open>ring_loop\<close> and \<open>ring_find\<close> of \<open>NextRing\<close>.
\<close>

section \<open>Operations\<close>

partial_function (option) flow_pred :: "(nat \<Rightarrow> nat) \<Rightarrow> nat \<Rightarrow> nat \<Rightarrow> nat option" where
  "flow_pred nx ch i = (if nx i \<noteq> ch then flow_pred nx ch (nx i) else Some i)"

text \<open>Taking \<open>ch\<close> out of the list of the PLCI that controls it.\<close>

definition flow_unlink :: "nat \<Rightarrow> nat \<Rightarrow> capi \<Rightarrow> capi option" where
  "flow_unlink other ch w =
     (if ch_flow_ring_list (plci w other) \<noteq> 0 then
        map_option
          (\<lambda>i. if i = ch then upd_plci other (\<lambda>q. q\<lparr>ch_flow_ring_list := 0\<rparr>) w
               else
                 let w1 = (if ch_flow_ring_list (plci w other) = ch_flow_next w i
                           then upd_plci other (\<lambda>q. q\<lparr>ch_flow_ring_list := i\<rparr>) w else w)
                 in w1\<lparr>ch_flow_next := (ch_flow_next w1)(i := ch_flow_next w1 (ch_flow_next w1 i))\<rparr>)
          (flow_pred (ch_flow_next w) ch (ch_flow_ring_list (plci w other)))
      else Some w)"

definition flow_link :: "nat \<Rightarrow> nat \<Rightarrow> capi \<Rightarrow> capi" where
  "flow_link p ch w =
     (let w1 = (if ch_flow_ring_list (plci w p) = 0 then
                  upd_plci p (\<lambda>q. q\<lparr>ch_flow_ring_list := ch\<rparr>) (w\<lparr>ch_flow_next := (ch_flow_next w)(ch := ch)\<rparr>)
                else
                  let w2 = w\<lparr>ch_flow_next := (ch_flow_next w)(ch := ch_flow_next w (ch_flow_ring_list (plci w p)))\<rparr>
                  in w2\<lparr>ch_flow_next := (ch_flow_next w2)(ch_flow_ring_list (plci w2 p) := ch)\<rparr>)
      in w1\<lparr>ch_flow_plci := (ch_flow_plci w1)(ch := pl_Id (plci w1 p))\<rparr>)"

definition channel_flow_control_plci :: "nat \<Rightarrow> nat \<Rightarrow> capi \<Rightarrow> capi option" where
  "channel_flow_control_plci p ch w =
     (if ch_flow_plci w ch \<noteq> pl_Id (plci w p) then
        map_option (flow_link p ch)
          (if ch_flow_plci w ch \<noteq> 0 then flow_unlink (ch_flow_plci w ch) ch w else Some w)
      else Some w)"

definition flow_clear :: "nat \<Rightarrow> capi \<Rightarrow> capi" where
  "flow_clear i w =
     w\<lparr>ch_flow_plci := (ch_flow_plci w)(i := 0), ch_flow_control := (ch_flow_control w)(i := 0)\<rparr>"

definition channel_flow_control_remove :: "nat \<Rightarrow> capi \<Rightarrow> capi option" where
  "channel_flow_control_remove p w =
     (let s = ch_flow_ring_list (plci w p)
      in if s \<noteq> 0 then
           map_option (upd_plci p (\<lambda>q. q\<lparr>ch_flow_ring_list := 0\<rparr>))
             (ring_loop (ch_flow_next w) s flow_clear s w)
         else Some w)"

definition set_flow_control :: "nat \<Rightarrow> byte \<Rightarrow> capi \<Rightarrow> capi" where
  "set_flow_control ch v w = w\<lparr>ch_flow_control := (ch_flow_control w)(ch := v)\<rparr>"

definition channel_x_on :: "nat \<Rightarrow> capi \<Rightarrow> capi" where
  "channel_x_on ch w =
     (if ch_flow_control w ch AND N_XON_SENT \<noteq> 0
      then set_flow_control ch (ch_flow_control w ch AND NOT N_XON_SENT) w else w)"

definition channel_x_off :: "nat \<Rightarrow> nat \<Rightarrow> byte \<Rightarrow> capi \<Rightarrow> capi option" where
  "channel_x_off p ch flag w =
     (if ch_flow_control w ch AND N_RX_FLOW_CONTROL_MASK = 0 then
        map_option (\<lambda>w2. w2\<lparr>ch_flow_control_pending := (ch_flow_control_pending w2 + 1) mod 256\<rparr>)
          (channel_flow_control_plci p ch
            (set_flow_control ch (ch_flow_control w ch OR (N_CH_XOFF OR flag)) w))
      else Some w)"

definition channel_request_xon :: "nat \<Rightarrow> capi \<Rightarrow> capi" where
  "channel_request_xon ch w =
     (if ch_flow_control w ch AND N_CH_XOFF \<noteq> 0 then
        set_flow_control ch
          (((ch_flow_control w ch OR N_XON_REQ) AND NOT N_CH_XOFF) AND NOT N_XON_CONNECT_IND) w
      else w)"

definition find_channel_with_pending_x_on :: "nat \<Rightarrow> capi \<Rightarrow> (nat \<times> capi) option" where
  "find_channel_with_pending_x_on p w =
     (if \<not> feature_xonoff w then Some (0, w)
      else
        let s = ch_flow_ring_list (plci w p)
        in if s \<noteq> 0 then
             map_option (\<lambda>r. case r of None \<Rightarrow> (0, w) | Some i \<Rightarrow> (i, upd_plci p (\<lambda>q. q\<lparr>ch_flow_ring_list := i\<rparr>) w))
               (ring_find (ch_flow_next w) s (\<lambda>i. ch_flow_control w i AND N_XON_REQ \<noteq> 0) s)
           else Some (0, w))"

definition send_xon :: "nat \<Rightarrow> nat \<Rightarrow> capi \<Rightarrow> capi" where
  "send_xon p ch w =
     emit (NL_request (NL_Id (plci w p)) N_XON ch (Bytes []))
       (upd_plci p (\<lambda>q. q\<lparr>nl_req := N_XON, NL_ReqCh := ch\<rparr>)
         (set_flow_control ch ((ch_flow_control w ch AND NOT N_XON_REQ) OR N_XON_SENT) w))"

definition channel_xmit_xon :: "nat \<Rightarrow> capi \<Rightarrow> capi option" where
  "channel_xmit_xon p w =
     (if nl_req (plci w p) \<noteq> 0 \<or> NL_Id (plci w p) = 0 \<or> nl_remove_id (plci w p) \<noteq> 0 then Some w
      else map_option (\<lambda>(ch, w'). if ch mod 256 = 0 then w' else send_xon p (ch mod 256) w')
             (find_channel_with_pending_x_on p w))"

definition extended_xon_step :: "nat \<Rightarrow> capi \<times> bool \<Rightarrow> capi \<times> bool" where
  "extended_xon_step i s =
     (if ch_flow_control (fst s) i AND N_CH_XOFF \<noteq> 0 \<and> ch_flow_control (fst s) i AND N_XON_CONNECT_IND \<noteq> 0
      then (channel_request_xon (i mod 256) (fst s), True) else s)"

definition channel_xmit_extended_xon :: "nat \<Rightarrow> capi \<Rightarrow> capi option" where
  "channel_xmit_extended_xon p w =
     (if p = 0 \<or> pl_Id (plci w p) = 0 then Some w
      else
        let s = ch_flow_ring_list (plci w p)
        in if s \<noteq> 0 then
             (case ring_loop (ch_flow_next w) s extended_xon_step s (w, False) of
                None \<Rightarrow> None
              | Some (w', one_requested) \<Rightarrow> if one_requested then channel_xmit_xon p w' else Some w')
           else Some w)"

text \<open>The buffers of the application are counted in one pass: how many belong to the NCCI, and
  the first free one (0xffff if there is none).\<close>

definition xon_count_step :: "appl_data \<Rightarrow> nat \<Rightarrow> nat \<times> nat \<Rightarrow> nat \<Rightarrow> nat \<times> nat" where
  "xon_count_step x code s i =
     (if DataNCCI x i = code then fst s + 1 else fst s,
      if DataNCCI x i = 0 \<and> snd s = 0xffff then i else snd s)"

definition channel_can_xon :: "nat \<Rightarrow> nat \<Rightarrow> capi \<Rightarrow> bool" where
  "channel_can_xon p ch w =
     (if pl_appl (plci w p) = 0 then False
      else
        let x = appl w (pl_appl (plci w p));
            (count, num) = foldl (xon_count_step x (ncci_code w (ch_ncci w ch))) (0, 0xffff) [0..<MaxBuffer x]
        in \<not> (count > 2 \<or> num = 0xffff))"

section \<open>The invariant\<close>

text \<open>The list of each PLCI holds exactly the channels it controls.\<close>

definition flow_ring :: "capi \<Rightarrow> nat \<Rightarrow> bool" where
  "flow_ring w p \<longleftrightarrow>
     (\<exists>xs. cring (ch_flow_next w) (ch_flow_ring_list (plci w p)) xs \<and> set xs = {ch. ch_flow_plci w ch = p})"

definition flow_inv :: "capi \<Rightarrow> bool" where
  "flow_inv w \<longleftrightarrow>
     (\<forall>ch. ch_flow_plci w ch \<noteq> 0 \<longrightarrow> 0 < ch \<and> ch \<le> MAX_NL_CHANNEL) \<and> (\<forall>p. p \<noteq> 0 \<longrightarrow> flow_ring w p)"

lemma flow_inv_ring:
  assumes "flow_inv w" "p \<noteq> 0"
  obtains xs where "cring (ch_flow_next w) (ch_flow_ring_list (plci w p)) xs" "set xs = {ch. ch_flow_plci w ch = p}"
  using assms unfolding flow_inv_def flow_ring_def by blast

lemma flow_ring_keep:
  assumes "flow_ring w q" "ch_flow_ring_list (plci w' q) = ch_flow_ring_list (plci w q)"
    and "\<And>k. ch_flow_plci w k = q \<Longrightarrow> ch_flow_next w' k = ch_flow_next w k"
    and "\<And>k. (ch_flow_plci w' k = q) = (ch_flow_plci w k = q)"
  shows "flow_ring w' q"
proof -
  obtain xs where xs: "cring (ch_flow_next w) (ch_flow_ring_list (plci w q)) xs" "set xs = {k. ch_flow_plci w k = q}"
    using assms(1) by (auto simp: flow_ring_def)
  have "cring (ch_flow_next w') (ch_flow_ring_list (plci w' q)) xs"
    using xs assms(2,3) by (subst cring_cong [where nx = "ch_flow_next w"]) auto
  with xs(2) assms(4) show ?thesis by (auto simp: flow_ring_def)
qed

lemma flow_pred_walk:
  assumes "walk nx i (ys @ [n])" "n \<notin> set ys"
  shows "flow_pred nx n i = Some (last (i # ys))"
  using assms
proof (induction ys arbitrary: i)
  case Nil
  then show ?case by (subst flow_pred.simps) simp
next
  case (Cons y ys)
  then show ?case by (subst flow_pred.simps) auto
qed

text \<open>Unlinking leaves the channel with no owner in the sense of the lists: it is in none of
  them, while \<open>ch_flow_plci\<close> still names the old one.\<close>

lemma flow_unlink_rep:
  assumes c: "cring (ch_flow_next w) (ch_flow_ring_list (plci w p)) xs" and n: "n \<in> set xs"
  obtains v xs' where "flow_unlink p n w = Some v"
    "cring (ch_flow_next v) (ch_flow_ring_list (plci v p)) xs'" "set xs' = set xs - {n}"
    "\<And>k. k \<notin> set xs \<Longrightarrow> ch_flow_next v k = ch_flow_next w k"
    "\<And>q. q \<noteq> p \<Longrightarrow> plci v q = plci w q" "\<And>q. pl_Id (plci v q) = pl_Id (plci w q)"
    "ch_flow_plci v = ch_flow_plci w" "ch_flow_control v = ch_flow_control w"
proof -
  let ?nx = "ch_flow_next w" and ?s = "ch_flow_ring_list (plci w p)"
  obtain ys zs where xs: "xs = ys @ n # zs" using n by (meson split_list)
  have s: "?s \<noteq> 0" using c n by (auto simp: cring_def split: if_splits)
  have d: "distinct xs" using c by (auto dest: cring_distinct)
  let ?i = "last (?s # ys)"
  note u = cring_unlink [OF c xs]
  have pred: "flow_pred ?nx n ?s = Some ?i" using u(4) d xs by (intro flow_pred_walk) auto
  show ?thesis
  proof (cases "?i = n")
    case True
    show ?thesis
      by (rule that [of "upd_plci p (\<lambda>q. q\<lparr>ch_flow_ring_list := 0\<rparr>) w" "[]"])
        (use pred True s u(5) [OF True] in \<open>auto simp: flow_unlink_def\<close>)
  next
    case False
    obtain xs' where xs': "cring (?nx(?i := ?nx n)) (if ?s = n then ?i else ?s) xs'" "set xs' = set xs - {n}"
      using u(6) [OF False] by blast
    define v where "v = (if ?s = n then upd_plci p (\<lambda>q. q\<lparr>ch_flow_ring_list := ?i\<rparr>) w else w)
      \<lparr>ch_flow_next := ?nx(?i := ?nx n)\<rparr>"
    have res: "flow_unlink p n w = Some v"
      unfolding flow_unlink_def pred v_def using False u(1) s by (simp add: Let_def)
    have ring: "ch_flow_ring_list (plci v p) = (if ?s = n then ?i else ?s)" "ch_flow_next v = ?nx(?i := ?nx n)"
      by (simp_all add: v_def)
    show ?thesis
    proof (rule that [OF res _ xs'(2)])
      show "cring (ch_flow_next v) (ch_flow_ring_list (plci v p)) xs'" unfolding ring by (rule xs'(1))
      show "k \<notin> set xs \<Longrightarrow> ch_flow_next v k = ch_flow_next w k" for k unfolding ring using u(2) by auto
      show "q \<noteq> p \<Longrightarrow> plci v q = plci w q" "pl_Id (plci v q) = pl_Id (plci w q)" for q by (simp_all add: v_def)
      show "ch_flow_plci v = ch_flow_plci w" "ch_flow_control v = ch_flow_control w" by (simp_all add: v_def)
    qed
  qed
qed

lemma flow_link_tables:
  "ch_flow_plci (flow_link p ch w) = (ch_flow_plci w)(ch := pl_Id (plci w p))"
  "ch_flow_control (flow_link p ch w) = ch_flow_control w"
  "q \<noteq> p \<Longrightarrow> plci (flow_link p ch w) q = plci w q"
  "pl_Id (plci (flow_link p ch w) q) = pl_Id (plci w q)"
  by (auto simp: flow_link_def Let_def)

lemma flow_link_ring:
  assumes "cring (ch_flow_next w) (ch_flow_ring_list (plci w p)) xs" "ch \<noteq> 0" "ch \<notin> set xs"
  shows "cring (ch_flow_next (flow_link p ch w)) (ch_flow_ring_list (plci (flow_link p ch w) p)) (ch # xs)"
    "k \<noteq> ch \<Longrightarrow> k \<notin> set xs \<Longrightarrow> ch_flow_next (flow_link p ch w) k = ch_flow_next w k"
proof -
  let ?s = "ch_flow_ring_list (plci w p)"
  have nx: "ch_flow_next (flow_link p ch w) =
      (if ?s = 0 then (ch_flow_next w)(ch := ch) else (ch_flow_next w)(ch := ch_flow_next w ?s, ?s := ch))"
    "ch_flow_ring_list (plci (flow_link p ch w) p) = (if ?s = 0 then ch else ?s)"
    by (auto simp: flow_link_def Let_def)
  show "cring (ch_flow_next (flow_link p ch w)) (ch_flow_ring_list (plci (flow_link p ch w) p)) (ch # xs)"
    using cring_insert [OF assms] assms(1) by (auto simp: nx)
  show "k \<noteq> ch \<Longrightarrow> k \<notin> set xs \<Longrightarrow> ch_flow_next (flow_link p ch w) k = ch_flow_next w k"
    using cring_in [OF assms(1)] by (auto simp: nx)
qed

lemma channel_flow_control_plci_inv:
  assumes inv: "flow_inv w" and p: "p \<noteq> 0" "pl_Id (plci w p) = p" and ch: "0 < ch" "ch \<le> MAX_NL_CHANNEL"
  obtains w' where "channel_flow_control_plci p ch w = Some w'" "flow_inv w'"
    "ch_flow_plci w' = (ch_flow_plci w)(ch := p)" "ch_flow_control w' = ch_flow_control w"
proof (cases "ch_flow_plci w ch = p")
  case True
  then have "(ch_flow_plci w)(ch := p) = ch_flow_plci w" by auto
  then show ?thesis using that [of w] True inv p(2) by (simp add: channel_flow_control_plci_def)
next
  case False
  let ?o = "ch_flow_plci w ch"
  obtain v where v: "(if ?o \<noteq> 0 then flow_unlink ?o ch w else Some w) = Some v"
    "\<And>q. pl_Id (plci v q) = pl_Id (plci w q)" "ch_flow_plci v = ch_flow_plci w" "ch_flow_control v = ch_flow_control w"
    and rings: "\<And>q. q \<noteq> 0 \<Longrightarrow> \<exists>xs. cring (ch_flow_next v) (ch_flow_ring_list (plci v q)) xs \<and>
      set xs = {k. ch_flow_plci w k = q} - {ch}"
  proof (cases "?o = 0")
    case True
    have "\<exists>xs. cring (ch_flow_next w) (ch_flow_ring_list (plci w q)) xs \<and> set xs = {k. ch_flow_plci w k = q} - {ch}"
      if "q \<noteq> 0" for q
    proof -
      have "{k. ch_flow_plci w k = q} - {ch} = {k. ch_flow_plci w k = q}" using True that by auto
      then show ?thesis using flow_inv_ring [OF inv that] by metis
    qed
    then show ?thesis using that [of w] True by simp
  next
    case o: False
    obtain os where os: "cring (ch_flow_next w) (ch_flow_ring_list (plci w ?o)) os" "set os = {k. ch_flow_plci w k = ?o}"
      using flow_inv_ring [OF inv o] by blast
    have "ch \<in> set os" using os(2) by simp
    from flow_unlink_rep [OF os(1) this] obtain v os' where v: "flow_unlink ?o ch w = Some v"
      "cring (ch_flow_next v) (ch_flow_ring_list (plci v ?o)) os'" "set os' = set os - {ch}"
      "\<And>k. k \<notin> set os \<Longrightarrow> ch_flow_next v k = ch_flow_next w k"
      "\<And>q. q \<noteq> ?o \<Longrightarrow> plci v q = plci w q" "\<And>q. pl_Id (plci v q) = pl_Id (plci w q)"
      "ch_flow_plci v = ch_flow_plci w" "ch_flow_control v = ch_flow_control w" by blast
    have "\<exists>xs. cring (ch_flow_next v) (ch_flow_ring_list (plci v q)) xs \<and> set xs = {k. ch_flow_plci w k = q} - {ch}"
      if q: "q \<noteq> 0" for q
    proof (cases "q = ?o")
      case True
      with v(2,3) os(2) show ?thesis by auto
    next
      case qo: False
      obtain qs where qs: "cring (ch_flow_next w) (ch_flow_ring_list (plci w q)) qs" "set qs = {k. ch_flow_plci w k = q}"
        using flow_inv_ring [OF inv q] by blast
      have "cring (ch_flow_next v) (ch_flow_ring_list (plci v q)) qs"
        using qs v(4,5) qo os(2) by (subst cring_cong [where nx = "ch_flow_next w"]) auto
      moreover have "{k. ch_flow_plci w k = q} - {ch} = {k. ch_flow_plci w k = q}" using qo by auto
      ultimately show ?thesis using qs(2) by metis
    qed
    then show ?thesis using that [of v] v o by simp
  qed
  let ?w = "flow_link p ch v"
  have res: "channel_flow_control_plci p ch w = Some ?w"
    using False p(2) v(1) by (simp add: channel_flow_control_plci_def)
  have pl: "ch_flow_plci ?w = (ch_flow_plci w)(ch := p)" "ch_flow_control ?w = ch_flow_control w"
    using v p(2) by (simp_all add: flow_link_tables)
  obtain ps where ps: "cring (ch_flow_next v) (ch_flow_ring_list (plci v p)) ps" "set ps = {k. ch_flow_plci w k = p} - {ch}"
    using rings [OF p(1)] by blast
  have nps: "ch \<notin> set ps" using ps(2) by simp
  have "flow_ring ?w q" if q: "q \<noteq> 0" for q
  proof (cases "q = p")
    case True
    have "set (ch # ps) = {k. ch_flow_plci ?w k = p}" using ps(2) by (auto simp: pl)
    with flow_link_ring(1) [OF ps(1) _ nps] ch(1) True show ?thesis unfolding flow_ring_def by blast
  next
    case qp: False
    obtain qs where qs: "cring (ch_flow_next v) (ch_flow_ring_list (plci v q)) qs" "set qs = {k. ch_flow_plci w k = q} - {ch}"
      using rings [OF q] by blast
    have "cring (ch_flow_next ?w) (ch_flow_ring_list (plci ?w q)) qs"
      using qs ps(2) qp flow_link_ring(2) [OF ps(1) _ nps] ch(1)
      by (subst cring_cong [where nx = "ch_flow_next v"]) (auto simp: flow_link_tables)
    moreover have "set qs = {k. ch_flow_plci ?w k = q}" using qs(2) qp by (auto simp: pl)
    ultimately show ?thesis unfolding flow_ring_def by blast
  qed
  then have "flow_inv ?w"
    using inv ch by (auto simp: flow_inv_def pl)
  with that [of ?w] res pl show ?thesis by blast
qed

lemma fold_flow_clear:
  "ch_flow_plci (fold flow_clear xs w) = (\<lambda>k. if k \<in> set xs then 0 else ch_flow_plci w k)"
  "ch_flow_control (fold flow_clear xs w) = (\<lambda>k. if k \<in> set xs then 0 else ch_flow_control w k)"
  "ch_flow_next (fold flow_clear xs w) = ch_flow_next w" "plci (fold flow_clear xs w) = plci w"
  "events (fold flow_clear xs w) = events w"
  by (induction xs arbitrary: w) (auto simp: flow_clear_def fun_eq_iff)

lemma set_flow_control_simps [simp]:
  "ch_flow_control (set_flow_control ch v w) = (ch_flow_control w)(ch := v)"
  "ch_flow_plci (set_flow_control ch v w) = ch_flow_plci w" "ch_flow_next (set_flow_control ch v w) = ch_flow_next w"
  "plci (set_flow_control ch v w) = plci w" "events (set_flow_control ch v w) = events w"
  "feature_xonoff (set_flow_control ch v w) = feature_xonoff w"
  by (simp_all add: set_flow_control_def)

lemma flow_inv_set_flow_control [simp]: "flow_inv (set_flow_control ch v w) = flow_inv w"
  by (simp add: flow_inv_def flow_ring_def)

lemma flow_link_pending:
  "ch_flow_control_pending (flow_link p ch w) = ch_flow_control_pending w"
  "flow_control_skip (flow_link p ch w) = flow_control_skip w"
  by (simp_all add: flow_link_def Let_def)

lemma flow_unlink_pending:
  assumes "flow_unlink p ch w = Some v"
  shows "ch_flow_control_pending v = ch_flow_control_pending w \<and> flow_control_skip v = flow_control_skip w"
proof (cases "ch_flow_ring_list (plci w p) = 0")
  case False
  from assms False obtain i where "v = (if i = ch then upd_plci p (\<lambda>q. q\<lparr>ch_flow_ring_list := 0\<rparr>) w
       else let w1 = (if ch_flow_ring_list (plci w p) = ch_flow_next w i
                      then upd_plci p (\<lambda>q. q\<lparr>ch_flow_ring_list := i\<rparr>) w else w)
            in w1\<lparr>ch_flow_next := (ch_flow_next w1)(i := ch_flow_next w1 (ch_flow_next w1 i))\<rparr>)"
    unfolding flow_unlink_def by (auto simp only: if_True if_False simp_thms map_option_eq_Some)
  then show ?thesis by (simp add: Let_def)
qed (use assms in \<open>simp add: flow_unlink_def\<close>)

lemma channel_flow_control_plci_pending:
  assumes "channel_flow_control_plci p ch w = Some w'"
  shows "ch_flow_control_pending w' = ch_flow_control_pending w \<and> flow_control_skip w' = flow_control_skip w"
proof (cases "ch_flow_plci w ch = pl_Id (plci w p)")
  case False
  with assms obtain v where "w' = flow_link p ch v" "(if ch_flow_plci w ch \<noteq> 0 then flow_unlink (ch_flow_plci w ch) ch w else Some w) = Some v"
    by (auto simp only: channel_flow_control_plci_def if_True if_False simp_thms map_option_eq_Some)
  then show ?thesis using flow_unlink_pending by (auto simp: flow_link_pending split: if_splits)
qed (use assms in \<open>simp add: channel_flow_control_plci_def\<close>)

lemma find_append: "find P (xs @ ys) = (case find P xs of None \<Rightarrow> find P ys | Some x \<Rightarrow> Some x)"
  by (induction xs) auto

section \<open>Properties\<close>

text \<open>\<open>channel_x_off\<close> on a channel without receive flow control always returns: it marks the
  channel XOFF with the given flag, moves it from the list of whichever PLCI controlled it
  before into the list of the calling PLCI, where it is the next one to be served, and keeps
  every list exact: each PLCI's list holds the channels it controls, each once. A channel
  already under flow control is left as it is.\<close>

theorem channel_x_off_takes_channel:
  assumes "flow_inv w" and "p \<noteq> 0" and "pl_Id (plci w p) = p" and "0 < ch" and "ch \<le> MAX_NL_CHANNEL"
  shows "\<exists>w'. channel_x_off p ch flag w = Some w' \<and>
     (if ch_flow_control w ch AND N_RX_FLOW_CONTROL_MASK = 0 then
        flow_inv w' \<and> ch_flow_plci w' = (ch_flow_plci w)(ch := p) \<and>
        ch_flow_control w' = (ch_flow_control w)(ch := ch_flow_control w ch OR (N_CH_XOFF OR flag)) \<and>
        ch_flow_control_pending w' = (ch_flow_control_pending w + 1) mod 256
      else w' = w)"
proof (cases "ch_flow_control w ch AND N_RX_FLOW_CONTROL_MASK = 0")
  case True
  let ?w = "set_flow_control ch (ch_flow_control w ch OR (N_CH_XOFF OR flag)) w"
  have w: "flow_inv ?w" "pl_Id (plci ?w p) = p" using assms by simp_all
  obtain v where v: "channel_flow_control_plci p ch ?w = Some v" "flow_inv v"
    "ch_flow_plci v = (ch_flow_plci ?w)(ch := p)" "ch_flow_control v = ch_flow_control ?w"
    using channel_flow_control_plci_inv [OF w(1) assms(2) w(2) assms(4,5)] by blast
  moreover have "ch_flow_control_pending v = ch_flow_control_pending w"
    using channel_flow_control_plci_pending [OF v(1)] by (simp add: set_flow_control_def)
  moreover have "flow_inv (v\<lparr>ch_flow_control_pending := x\<rparr>) = flow_inv v" for x
    by (simp add: flow_inv_def flow_ring_def)
  ultimately show ?thesis using True by (simp add: channel_x_off_def)
qed (simp add: channel_x_off_def)

text \<open>\<open>channel_flow_control_remove\<close> ends, and takes every channel the PLCI controls out of
  flow control: no owner, no flags, empty list; the channels and lists of the other PLCIs are
  unchanged.\<close>

theorem channel_flow_control_remove_exact:
  assumes "flow_inv w" and "p \<noteq> 0"
  shows "\<exists>w'. channel_flow_control_remove p w = Some w' \<and> flow_inv w' \<and>
     ch_flow_ring_list (plci w' p) = 0 \<and>
     (\<forall>ch. ch_flow_plci w' ch = (if ch_flow_plci w ch = p then 0 else ch_flow_plci w ch) \<and>
        ch_flow_control w' ch = (if ch_flow_plci w ch = p then 0 else ch_flow_control w ch))"
proof -
  obtain xs where xs: "cring (ch_flow_next w) (ch_flow_ring_list (plci w p)) xs" "set xs = {ch. ch_flow_plci w ch = p}"
    using flow_inv_ring [OF assms] by blast
  define v where "v = (if ch_flow_ring_list (plci w p) = 0 then w
    else upd_plci p (\<lambda>q. q\<lparr>ch_flow_ring_list := 0\<rparr>) (fold flow_clear xs w))"
  have res: "channel_flow_control_remove p w = Some v"
  proof (cases "ch_flow_ring_list (plci w p) = 0")
    case False
    show ?thesis
      using ring_loop_cring [OF xs(1) False, of flow_clear w] False
      by (simp add: channel_flow_control_remove_def v_def Let_def)
  qed (simp add: channel_flow_control_remove_def v_def)
  have t: "ch_flow_plci v = (\<lambda>k. if ch_flow_plci w k = p then 0 else ch_flow_plci w k)"
    "ch_flow_control v = (\<lambda>k. if ch_flow_plci w k = p then 0 else ch_flow_control w k)"
    "ch_flow_next v = ch_flow_next w" "ch_flow_ring_list (plci v p) = 0" "\<And>q. q \<noteq> p \<Longrightarrow> plci v q = plci w q"
    using xs by (auto simp: v_def fold_flow_clear fun_eq_iff)
  have "flow_ring v q" if q: "q \<noteq> 0" for q
  proof (cases "q = p")
    case True
    have "{ch. ch_flow_plci v ch = q} = {}" using True q by (auto simp: t split: if_splits)
    then show ?thesis using True t(4) by (simp add: flow_ring_def)
  next
    case False
    have "flow_ring w q" using assms(1) q by (simp add: flow_inv_def)
    then show ?thesis by (rule flow_ring_keep) (use False q t in auto)
  qed
  then have "flow_inv v" using assms(1) by (auto simp: flow_inv_def t(1) split: if_splits)
  with res t show ?thesis by auto
qed

text \<open>C40: With the network layer of a PLCI idle, \<open>channel_xmit_xon\<close> sends nothing when none of its
  channels requests an XON. Otherwise it sends exactly one \<open>N_XON\<close>, for the first requesting
  channel behind the one served last, replaces that channel's request flag by the sent flag,
  marks the PLCI busy and moves the channel to the end of the list, so that all other
  requesting channels are served before it is served again.\<close>

theorem channel_xmit_xon_round_robin:
  assumes "flow_inv w" and "p \<noteq> 0" and "feature_xonoff w" and "nl_req (plci w p) = 0"
    and "NL_Id (plci w p) \<noteq> 0" and "nl_remove_id (plci w p) = 0"
    and "cring (ch_flow_next w) (ch_flow_ring_list (plci w p)) xs" and "set xs = {ch. ch_flow_plci w ch = p}"
  defines "wants \<equiv> \<lambda>ch. ch_flow_control w ch AND N_XON_REQ \<noteq> 0"
  shows "if \<forall>ch \<in> set xs. \<not> wants ch then channel_xmit_xon p w = Some w
     else \<exists>ys ch zs w'. xs = ys @ ch # zs \<and> (\<forall>c \<in> set ys. \<not> wants c) \<and> wants ch \<and>
       channel_xmit_xon p w = Some w' \<and>
       events w' = events w @ [NL_request (NL_Id (plci w p)) N_XON ch (Bytes [])] \<and>
       ch_flow_control w' = (ch_flow_control w)
         (ch := (ch_flow_control w ch AND NOT N_XON_REQ) OR N_XON_SENT) \<and>
       nl_req (plci w' p) = N_XON \<and> flow_inv w' \<and>
       cring (ch_flow_next w') (ch_flow_ring_list (plci w' p)) (zs @ ys @ [ch])"
proof -
  let ?s = "ch_flow_ring_list (plci w p)"
  show ?thesis
  proof (cases "\<forall>ch \<in> set xs. \<not> wants ch")
    case True
    then have "find wants xs = None" by (simp add: find_None_iff)
    then have "channel_xmit_xon p w = Some w"
      using assms(3) ring_find_cring [OF assms(7), of wants]
      by (auto simp: channel_xmit_xon_def find_channel_with_pending_x_on_def wants_def Let_def)
    with True show ?thesis by simp
  next
    case False
    then obtain ys ch zs where xs: "xs = ys @ ch # zs" "\<forall>c \<in> set ys. \<not> wants c" "wants ch"
      using split_list_first_prop [of xs wants] by auto
    have f: "find wants xs = Some ch"
    proof -
      have "find wants ys = None" using xs(2) by (simp add: find_None_iff)
      then show ?thesis using xs(3) by (simp add: xs(1) find_append)
    qed
    have s: "?s \<noteq> 0" using assms(7) xs(1) by (auto simp: cring_def split: if_splits)
    have "ch_flow_plci w ch = p" using assms(8) xs(1) by auto
    then have "0 < ch \<and> ch \<le> 255" using assms(1,2) by (simp add: flow_inv_def)
    then have ch: "0 < ch" "ch < 256" by simp_all
    let ?v = "upd_plci p (\<lambda>q. q\<lparr>ch_flow_ring_list := ch\<rparr>) w"
    have res: "channel_xmit_xon p w = Some (send_xon p ch ?v)"
      using assms(3-6) ring_find_cring [OF assms(7) s, of wants] f s ch
      by (simp add: channel_xmit_xon_def find_channel_with_pending_x_on_def wants_def Let_def)
    have ring: "cring (ch_flow_next w) ch (zs @ ys @ [ch])" using cring_rotate [OF assms(7) [unfolded xs(1)]] .
    have t: "ch_flow_next (send_xon p ch ?v) = ch_flow_next w" "ch_flow_ring_list (plci (send_xon p ch ?v) p) = ch"
      "ch_flow_plci (send_xon p ch ?v) = ch_flow_plci w" "\<And>q. q \<noteq> p \<Longrightarrow> plci (send_xon p ch ?v) q = plci w q"
      "events (send_xon p ch ?v) = events w @ [NL_request (NL_Id (plci w p)) N_XON ch (Bytes [])]"
      "nl_req (plci (send_xon p ch ?v) p) = N_XON"
      "ch_flow_control (send_xon p ch ?v) = (ch_flow_control w)(ch := (ch_flow_control w ch AND NOT N_XON_REQ) OR N_XON_SENT)"
      by (simp_all add: send_xon_def)
    have "flow_ring (send_xon p ch ?v) q" if q: "q \<noteq> 0" for q
    proof (cases "q = p")
      case True
      have "set (zs @ ys @ [ch]) = {k. ch_flow_plci w k = p}" using assms(8) xs(1) by auto
      with ring True show ?thesis unfolding flow_ring_def t by (metis t(2))
    next
      case False
      have "flow_ring w q" using assms(1) q by (simp add: flow_inv_def)
      then show ?thesis by (rule flow_ring_keep) (use False t in auto)
    qed
    then have inv: "flow_inv (send_xon p ch ?v)" using assms(1) by (simp add: flow_inv_def t(3))
    have "cring (ch_flow_next (send_xon p ch ?v)) (ch_flow_ring_list (plci (send_xon p ch ?v) p)) (zs @ ys @ [ch])"
      unfolding t(1,2) by (rule ring)
    with False xs res t(5,6,7) inv show ?thesis by (auto simp del: fun_upd_apply)
  qed
qed

lemma idle_flow_inv: "flow_inv idle_capi"
  by (simp add: flow_inv_def flow_ring_def)

theorem channel_x_off_takes_channel_witness:
  "\<exists>w'. channel_x_off 1 7 0 idle_capi = Some w' \<and> flow_inv w' \<and> ch_flow_plci w' 7 = 1"
  using channel_x_off_takes_channel [OF idle_flow_inv, of 1 7 0] by auto

theorem channel_flow_control_remove_exact_witness:
  "\<exists>w'. channel_flow_control_remove 1 idle_capi = Some w' \<and> flow_inv w'"
  using channel_flow_control_remove_exact [OF idle_flow_inv, of 1] by auto

theorem channel_xmit_xon_round_robin_witness:
  "let w = idle_capi\<lparr>plci := (\<lambda>p. idle_plci\<lparr>pl_Id := p, NL_Id := 1, ch_flow_ring_list := (if p = 1 then 5 else 0)\<rparr>),
       ch_flow_next := (\<lambda>_. 0)(5 := 3, 3 := 5), ch_flow_plci := (\<lambda>_. 0)(3 := 1, 5 := 1),
       ch_flow_control := (\<lambda>_. N_XON_REQ)\<rparr>
   in \<exists>w'. channel_xmit_xon 1 w = Some w' \<and> events w' = [NL_request 1 N_XON 3 (Bytes [])]"
proof -
  define w where "w = idle_capi\<lparr>plci := (\<lambda>p. idle_plci\<lparr>pl_Id := p, NL_Id := 1, ch_flow_ring_list := (if p = 1 then 5 else 0)\<rparr>),
       ch_flow_next := (\<lambda>_. 0)(5 := 3, 3 := 5), ch_flow_plci := (\<lambda>_. 0)(3 := 1, 5 := 1),
       ch_flow_control := (\<lambda>_. N_XON_REQ)\<rparr>"
  have f: "ch_flow_control w = (\<lambda>_. N_XON_REQ)" "NL_Id (plci w 1) = 1" "nl_req (plci w 1) = 0"
    "nl_remove_id (plci w 1) = 0" "feature_xonoff w" "events w = []" by (simp_all add: w_def)
  have ring: "cring (ch_flow_next w) (ch_flow_ring_list (plci w 1)) [3, 5]" by (simp add: w_def cring_def)
  have own: "{ch. ch_flow_plci w ch = q} = (if q = 1 then {3, 5} else {})" if "q \<noteq> 0" for q
    using that by (auto simp: w_def split: if_splits)
  have "flow_ring w q" if q: "q \<noteq> 0" for q
    using ring own [OF q] by (auto simp: flow_ring_def w_def)
  moreover have "\<forall>ch. ch_flow_plci w ch \<noteq> 0 \<longrightarrow> 0 < ch \<and> ch \<le> MAX_NL_CHANNEL" by (simp add: w_def)
  ultimately have inv: "flow_inv w" by (simp add: flow_inv_def)
  have set: "set [3, 5] = {ch. ch_flow_plci w ch = 1}" unfolding own [OF one_neq_zero] by simp
  have "\<not> (\<forall>ch \<in> set [3, 5]. \<not> ch_flow_control w ch AND N_XON_REQ \<noteq> 0)" by (simp add: f) blast
  moreover note channel_xmit_xon_round_robin [OF inv one_neq_zero f(5,3) _ f(4) ring set]
  ultimately obtain ys ch zs w' where "[3, 5] = ys @ ch # zs"
    "\<forall>c \<in> set ys. \<not> ch_flow_control w c AND N_XON_REQ \<noteq> 0" "channel_xmit_xon 1 w = Some w'"
    "events w' = events w @ [NL_request (NL_Id (plci w 1)) N_XON ch (Bytes [])]"
    unfolding f(2) by (simp only: if_False) blast
  then show ?thesis
    unfolding w_def [symmetric] Let_def by (auto simp: f f(2) [simplified] append_eq_Cons_conv)
qed

end
