(* ===== verification/CapiReq.thy ===== *)
theory CapiReq
  imports CapiFlow
begin

text \<open>
  The request buffer of a PLCI in \<open>kernel/message.c\<close>: \<open>add_ie\<close>, \<open>add_p\<close>, \<open>add_d\<close>,
  \<open>sig_req_\<close> and \<open>nl_req_ncci_\<close> build requests in \<open>RBuffer\<close>, \<open>send_req\<close> takes them out and
  hands them to the adapter. A request is a word with the length of its information elements,
  the elements with a terminating zero, and three bytes: the target (1 is the network
  layer), the request code and the channel. The positions are C \<open>word\<close>s. The data a pointer
  argument points to is a function of the offset, \<open>None\<close> is the null pointer.

  \<open>RBuffer\<close> has 2048 bytes and the code writes without a check; that it has left the buffer it
  finds out, and traces, only afterwards. A write behind the buffer sets \<open>req_overrun\<close>: the
  program has then overwritten other fields of the PLCI, and the rest of the state says nothing about it.
\<close>

abbreviation (input) RBUFFER_SIZE :: nat where "RBUFFER_SIZE \<equiv> 2048"
abbreviation (input) CAI :: byte where "CAI \<equiv> 0x10"
abbreviation (input) UID :: byte where "UID \<equiv> 0x2d"
abbreviation (input) ESC :: byte where "ESC \<equiv> 0x7f"
abbreviation (input) NL_ID :: nat where "NL_ID \<equiv> 0x20"

section \<open>Operations\<close>

definition put_req :: "plci_data \<Rightarrow> byte \<Rightarrow> plci_data" where
  "put_req P b =
     P\<lparr>RBuffer := (RBuffer P)(req_in P := b), req_in := (req_in P + 1) mod 65536,
       req_overrun := (req_overrun P \<or> RBUFFER_SIZE \<le> req_in P)\<rparr>"

definition open_req :: "plci_data \<Rightarrow> plci_data" where
  "open_req P =
     (if req_in P = req_in_start P then P\<lparr>req_in := (req_in P + 2) mod 65536\<rparr>
      else P\<lparr>req_in := (req_in P + 65535) mod 65536\<rparr>)"

definition add_ie :: "byte \<Rightarrow> (nat \<Rightarrow> byte) option \<Rightarrow> nat \<Rightarrow> plci_data \<Rightarrow> plci_data" where
  "add_ie code ptr p_length P =
     (if \<not> bit code 7 \<and> p_length = 0 then P
      else
        let P1 = put_req (open_req P) code;
            P2 = (case ptr of None \<Rightarrow> P1
                  | Some f \<Rightarrow> foldl put_req (put_req P1 (word_of_nat p_length)) (map (\<lambda>i. f (1 + i)) [0..<p_length]))
        in put_req P2 0)"

definition add_p :: "byte \<Rightarrow> (nat \<Rightarrow> byte) option \<Rightarrow> plci_data \<Rightarrow> plci_data" where
  "add_p code ptr P = add_ie code ptr (case ptr of None \<Rightarrow> 0 | Some f \<Rightarrow> unat (f 0)) P"

definition add_s :: "byte \<Rightarrow> ((nat \<Rightarrow> byte) \<times> nat) option \<Rightarrow> plci_data \<Rightarrow> plci_data" where
  "add_s code parm P = (case parm of None \<Rightarrow> P | Some (f, n) \<Rightarrow> add_ie code (Some f) (n mod 65536) P)"

text \<open>The elements of a structure: length byte at \<open>i\<close>, code in front of it.\<close>

function add_ss_from :: "(nat \<Rightarrow> byte) \<Rightarrow> nat \<Rightarrow> nat \<Rightarrow> plci_data \<Rightarrow> plci_data" where
  "add_ss_from f n i P =
     (if i \<le> n \<and> i + unat (f i) \<le> n then
        add_ss_from f n (i + unat (f i) + 2) (add_ie (f (i - 1)) (Some (\<lambda>k. f (i + k))) (unat (f i)) P)
      else P)"
  by pat_completeness auto

termination
  by (relation "measure (\<lambda>(f, n, i, P). n + 2 - i)") auto

declare add_ss_from.simps [simp del]

definition add_ss :: "byte \<Rightarrow> ((nat \<Rightarrow> byte) \<times> nat) option \<Rightarrow> plci_data \<Rightarrow> plci_data" where
  "add_ss code parm P = (case parm of None \<Rightarrow> P | Some (f, n) \<Rightarrow> add_ss_from f n 2 P)"

function getChannel_from :: "(nat \<Rightarrow> byte) \<Rightarrow> nat \<Rightarrow> nat \<Rightarrow> byte" where
  "getChannel_from f n i =
     (if i < n then
        if unat (f i) = 2 \<and> f (i - 1) = ESC \<and> f (i + 1) = 0x18 then f (i + 2)
        else getChannel_from f n (i + unat (f i) + 2)
      else 0)"
  by pat_completeness auto

termination
  by (relation "measure (\<lambda>(f, n, i). n - i)") auto

declare getChannel_from.simps [simp del]

definition getChannel :: "((nat \<Rightarrow> byte) \<times> nat) option \<Rightarrow> byte" where
  "getChannel parm = (case parm of None \<Rightarrow> 0 | Some (f, n) \<Rightarrow> getChannel_from f n 2)"

definition add_d :: "byte list \<Rightarrow> plci_data \<Rightarrow> plci_data" where
  "add_d d P = foldl put_req (open_req P) d"

text \<open>What \<open>sig_req_\<close> and \<open>nl_req_ncci_\<close> have in common: complete the request.\<close>

definition finish_req :: "byte \<Rightarrow> byte \<Rightarrow> byte \<Rightarrow> plci_data \<Rightarrow> plci_data" where
  "finish_req flag req ch P =
     (let P1 = (if req_in P = req_in_start P then put_req (P\<lparr>req_in := (req_in P + 2) mod 65536\<rparr>) 0 else P);
          P2 = P1\<lparr>RBuffer := wr16 (RBuffer P1) (req_in_start P1) ((req_in P1 + 131070 - req_in_start P1) mod 65536),
                  req_overrun := (req_overrun P1 \<or> RBUFFER_SIZE \<le> req_in_start P1 + 1)\<rparr>;
          P3 = put_req (put_req (put_req P2 flag) req) ch
      in P3\<lparr>req_in_start := req_in P3\<rparr>)"

definition hex_digit :: "nat \<Rightarrow> byte" where
  "hex_digit n = (if n < 10 then 0x30 + word_of_nat n else 0x61 + word_of_nat (n - 10))"

definition esc_uid :: "nat \<Rightarrow> byte list" where
  "esc_uid plciId = [4, UID, 0x43, hex_digit (plciId div 16 mod 16), hex_digit (plciId mod 16)]"

definition sig_request :: "nat \<Rightarrow> nat \<Rightarrow> nat \<Rightarrow> capi \<Rightarrow> capi" where
  "sig_request p req eid w =
     (if p = 0 \<or> adapter_disabled w then w
      else upd_plci p (\<lambda>P.
        let P1 = add_p ESC (Some (\<lambda>i. if i < 5 then esc_uid (pl_Id P) ! i else 0)) P;
            P2 = (if req = REMOVE then P1\<lparr>sig_remove_id := Sig_Id P1\<rparr> else P1)
        in finish_req (word_of_nat eid) (word_of_nat req) 0 P2) w)"

definition nl_req_ncci :: "nat \<Rightarrow> nat \<Rightarrow> nat \<Rightarrow> capi \<Rightarrow> capi" where
  "nl_req_ncci p req n w =
     (if p = 0 \<or> adapter_disabled w then w
      else upd_plci p (\<lambda>P.
        let P1 = (if req = REMOVE then P\<lparr>nl_remove_id := NL_Id P, nl_remove_ncci := n\<rparr> else P);
            n1 = (if req = REMOVE then 0 else n)
        in finish_req 1 (word_of_nat req) (word_of_nat (ncci_ch w (n1 mod 256))) P1) w)"

text \<open>\<open>send_req\<close> behind its guards: take the request at \<open>req_out\<close>; the first request to the
  network layer carries the assignment to the signaling entity instead of its terminator and
  trailer.\<close>

definition send_head :: "nat \<Rightarrow> capi \<Rightarrow> capi" where
  "send_head p w =
     (let P = plci w p; m = RBuffer P; l = rd16 m (req_out P);
          data = (req_out P + 2) mod 65536;
          out = (data + l) mod 65536
      in if m out = 1 then
           let req = unat (m ((out + 1) mod 65536)); ch = unat (m ((out + 2) mod 65536));
               out' = (out + 3) mod 65536
           in if NL_Id P mod 32 = 0 then
                let m' = m(out' - 4 := CAI, out' - 3 := 1,
                           out' - 2 := (if Sig_Id P = 0xff then 0 else word_of_nat (Sig_Id P)), out' - 1 := 0)
                in emit (NL_request NL_ID req ch (Bytes (rd_bytes m' data ((l + 3) mod 65536))))
                     (upd_plci p (\<lambda>Q. Q\<lparr>req_out := out', RBuffer := m', nl_req := req, NL_ReqCh := ch, NL_Id := NL_ID,
                        nl_global_req := req, req_overrun := (req_overrun Q \<or> out' < 4 \<or> RBUFFER_SIZE < out')\<rparr>) w)
              else
                emit (NL_request (NL_Id P) req ch (Bytes (rd_bytes m data l)))
                  (upd_plci p (\<lambda>Q. Q\<lparr>req_out := out', nl_req := req, NL_ReqCh := ch\<rparr>) w)
         else
           let eid = (if m out \<noteq> 0 then unat (m out) else Sig_Id P);
               req = unat (m ((out + 1) mod 65536)); ch = unat (m ((out + 2) mod 65536));
               out' = (out + 3) mod 65536
           in emit (SIG_request eid req ch (Bytes (rd_bytes m data l)))
                (upd_plci p (\<lambda>Q. Q\<lparr>req_out := out', sig_req := req, Sig_Id := eid,
                   sig_global_req := (if eid mod 32 = 0 then req else sig_global_req Q)\<rparr>) w))"

definition send_req :: "nat \<Rightarrow> capi \<Rightarrow> capi option" where
  "send_req p w =
     (if p = 0 \<or> adapter_disabled w then Some w
      else map_option
        (\<lambda>w1. if req_in (plci w1 p) = req_out (plci w1 p) then w1
              else if nl_req (plci w1 p) \<noteq> 0 \<or> sig_req (plci w1 p) \<noteq> 0 then w1
              else send_head p w1)
        (channel_xmit_xon p w))"

section \<open>The buffer as a queue of requests\<close>

text \<open>A complete request is its elements (with the terminator) and the three bytes behind
  them; the open request is what has been added since.\<close>

datatype request = Request "byte list" byte byte byte

fun req_laid :: "mem \<Rightarrow> nat \<Rightarrow> request list \<Rightarrow> nat \<Rightarrow> bool" where
  "req_laid m p [] e \<longleftrightarrow> p = e"
| "req_laid m p (Request d f r c # rs) e \<longleftrightarrow>
     d \<noteq> [] \<and> length d < 65536 \<and> rd16 m p = length d \<and> rd_bytes m (p + 2) (length d) = d \<and>
     m (p + 2 + length d) = f \<and> m (p + 3 + length d) = r \<and> m (p + 4 + length d) = c \<and>
     req_laid m (p + 5 + length d) rs e"

definition req_open :: "mem \<Rightarrow> nat \<Rightarrow> byte list \<Rightarrow> nat \<Rightarrow> bool" where
  "req_open m s d e \<longleftrightarrow>
     (if d = [] then e = s else e = s + 2 + length d \<and> rd_bytes m (s + 2) (length d) = d)"

definition req_rep :: "plci_data \<Rightarrow> request list \<Rightarrow> byte list \<Rightarrow> bool" where
  "req_rep P rs d \<longleftrightarrow> req_laid (RBuffer P) (req_out P) rs (req_in_start P) \<and>
     req_open (RBuffer P) (req_in_start P) d (req_in P)"

lemma req_laid_le: "req_laid m p rs e \<Longrightarrow> p + 6 * length rs \<le> e"
proof (induction m p rs e rule: req_laid.induct)
  case (2 m p d f r c rs e)
  then have "p + 5 + length d + 6 * length rs \<le> e" "1 \<le> length d" by (auto simp: Suc_le_eq)
  then show ?case by simp
qed simp

lemma req_laid_cong:
  "(\<And>i. p \<le> i \<Longrightarrow> i < e \<Longrightarrow> m' i = m i) \<Longrightarrow> req_laid m p rs e \<Longrightarrow> req_laid m' p rs e"
proof (induction m p rs e rule: req_laid.induct)
  case (2 m p d f r c rs e)
  from "2.prems"(2) have le: "p + 5 + length d \<le> e" using req_laid_le [of m "p + 5 + length d" rs e] by simp
  have "req_laid m' (p + 5 + length d) rs e" using 2 by simp
  moreover have "rd16 m' p = rd16 m p" using le "2.prems"(1) by (intro rd16_cong) auto
  moreover have "rd_bytes m' (p + 2) (length d) = rd_bytes m (p + 2) (length d)"
    using le "2.prems"(1) by (intro rd_bytes_cong) auto
  ultimately show ?case using 2 le by simp
qed simp

lemma req_laid_snoc:
  "req_laid m p (rs @ [r]) e \<longleftrightarrow> (\<exists>t. req_laid m p rs t \<and> req_laid m t [r] e)"
proof (induction rs arbitrary: p)
  case (Cons x rs)
  then show ?case by (cases x) auto
qed simp

lemma wr_bytes_Nil [simp]: "wr_bytes m p [] = m"
  by (rule ext) (auto simp: wr_bytes_def)

lemma wr_bytes_snoc: "(wr_bytes m p xs)(p + length xs := b) = wr_bytes m p (xs @ [b])"
  by (rule ext) (auto simp: wr_bytes_def nth_append)

text \<open>Writing behind the complete requests keeps them.\<close>

lemma put_reqs:
  assumes "req_in P + length bs \<le> RBUFFER_SIZE"
  shows "foldl put_req P bs =
     P\<lparr>RBuffer := wr_bytes (RBuffer P) (req_in P) bs, req_in := req_in P + length bs\<rparr>"
  using assms
proof (induction bs rule: rev_induct)
  case Nil
  show ?case by simp
next
  case (snoc b bs)
  then have "foldl put_req P (bs @ [b]) =
      put_req (P\<lparr>RBuffer := wr_bytes (RBuffer P) (req_in P) bs, req_in := req_in P + length bs\<rparr>) b" by simp
  also have "\<dots> = P\<lparr>RBuffer := wr_bytes (RBuffer P) (req_in P) (bs @ [b]), req_in := req_in P + length (bs @ [b])\<rparr>"
    using snoc.prems by (cases P) (simp add: put_req_def wr_bytes_snoc)
  finally show ?case .
qed

lemma rd_wr_bytes_at: "rd_bytes (wr_bytes m p xs) p n = take n xs" if "n \<le> length xs"
  using that by (intro nth_equalityI) (simp_all add: rd_bytes_def wr_bytes_def)

lemma dec16: "0 < n \<Longrightarrow> n \<le> 65536 \<Longrightarrow> (n + 65535) mod 65536 = n - (1 :: nat)"
  by (simp add: mod_if)

lemma sub16: "a + 2 + n < 65536 \<Longrightarrow> (a + 2 + n + 131070 - a) mod 65536 = (n :: nat)"
proof -
  assume "a + 2 + n < 65536"
  moreover have "a + 2 + n + 131070 - a = n + 2 * 65536" by simp
  ultimately show ?thesis by (simp only: mod_mult_self1 mod_less)
qed

definition same_but_req :: "plci_data \<Rightarrow> plci_data \<Rightarrow> bool" where
  "same_but_req P Q \<longleftrightarrow>
     Q = P\<lparr>RBuffer := RBuffer Q, req_in := req_in Q, req_in_start := req_in_start Q, req_out := req_out Q\<rparr> \<and>
     (\<forall>i \<ge> RBUFFER_SIZE. RBuffer Q i = RBuffer P i)"

lemma same_but_reqD:
  assumes "same_but_req P Q"
  shows "NL_Id Q = NL_Id P" "Sig_Id Q = Sig_Id P" "nl_remove_id Q = nl_remove_id P"
    "nl_remove_ncci Q = nl_remove_ncci P" "nl_req Q = nl_req P" "sig_req Q = sig_req P" "pl_Id Q = pl_Id P"
    "req_overrun Q = req_overrun P"
  using assms by (cases P; cases Q; simp add: same_but_req_def)+

lemma same_but_req_trans: "same_but_req P Q \<Longrightarrow> same_but_req Q R \<Longrightarrow> same_but_req P R"
  by (cases P; cases Q; cases R; simp add: same_but_req_def)

lemma req_append:
  assumes r: "req_rep P rs d" and bs: "bs \<noteq> []" and lt: "(if d = [] then req_in P + 2 else req_in P - 1) + length bs \<le> RBUFFER_SIZE"
  defines "Q \<equiv> foldl put_req (open_req P) bs"
  shows "req_rep Q rs (butlast d @ bs)" "same_but_req P Q"
    "req_in_start Q = req_in_start P" "req_out Q = req_out P"
    "req_in Q = (if d = [] then req_in P + 2 else req_in P - 1) + length bs"
proof -
  let ?s = "req_in_start P" and ?m = "RBuffer P"
  let ?t = "?s + 2 + length (butlast d)"
  from r have L: "req_laid ?m (req_out P) rs ?s" and O: "req_open ?m ?s d (req_in P)"
    by (simp_all add: req_rep_def)
  have opn: "open_req P = P\<lparr>req_in := ?t\<rparr>"
  proof (cases "d = []")
    case True
    then show ?thesis using O lt by (simp add: open_req_def req_open_def)
  next
    case False
    then have "req_in P = ?s + 2 + length d" using O by (simp add: req_open_def)
    then have "req_in P \<noteq> ?s" "(req_in P + 65535) mod 65536 = ?t"
      using dec16 [of "req_in P"] lt False by (auto simp: Suc_le_eq)
    then show ?thesis by (simp add: open_req_def)
  qed
  have "?t + length bs \<le> RBUFFER_SIZE" using O lt by (cases "d = []") (auto simp: req_open_def Suc_le_eq)
  then have Q: "Q = P\<lparr>RBuffer := wr_bytes ?m ?t bs, req_in := ?t + length bs\<rparr>"
    unfolding Q_def opn using put_reqs [of "P\<lparr>req_in := ?t\<rparr>" bs] by simp
  show "same_but_req P Q"
    using \<open>?t + length bs \<le> RBUFFER_SIZE\<close> by (simp add: same_but_req_def Q wr_bytes_other)
  show "req_in_start Q = req_in_start P" "req_out Q = req_out P" by (simp_all add: Q)
  show "req_in Q = (if d = [] then req_in P + 2 else req_in P - 1) + length bs"
    using O by (auto simp: Q req_open_def split: if_splits)
  have "req_laid (wr_bytes ?m ?t bs) (req_out P) rs ?s"
    by (rule req_laid_cong [OF _ L]) (simp add: wr_bytes_other)
  moreover have "rd_bytes (wr_bytes ?m ?t bs) (?s + 2) (length (butlast d @ bs)) = butlast d @ bs"
  proof -
    have "rd_bytes (wr_bytes ?m ?t bs) (?s + 2) (length (butlast d)) = rd_bytes ?m (?s + 2) (length (butlast d))"
      by (rule rd_bytes_cong, rule wr_bytes_other, rule disjI1)
    also have "\<dots> = butlast d"
    proof (cases "d = []")
      case False
      then have "rd_bytes ?m (?s + 2) (length d) = d" using O by (simp add: req_open_def)
      then have "butlast d = butlast (rd_bytes ?m (?s + 2) (length d))" by simp
      also have "length d = length (butlast d) + 1" using False by simp
      finally show ?thesis unfolding rd_bytes_append by (simp add: rd_bytes_def)
    qed (simp add: rd_bytes_def)
    finally have "rd_bytes (wr_bytes ?m ?t bs) (?s + 2) (length (butlast d)) = butlast d" .
    then show ?thesis
      unfolding length_append rd_bytes_append using rd_wr_bytes [of ?m ?t bs] by simp
  qed
  ultimately show "req_rep Q rs (butlast d @ bs)" using bs by (simp add: req_rep_def req_open_def Q)
qed

lemma add_ie_rep:
  fixes f :: "nat \<Rightarrow> byte"
  assumes r: "req_rep P rs d" and c: "bit code 7 \<or> n \<noteq> 0" and lt: "(if d = [] then req_in P + 2 else req_in P - 1) + n + 3 \<le> RBUFFER_SIZE"
  defines "Q \<equiv> add_ie code (Some f) n P"
  shows "req_rep Q rs (butlast d @ code # word_of_nat n # map (\<lambda>i. f (1 + i)) [0..<n] @ [0])"
    "same_but_req P Q" "req_in_start Q = req_in_start P" "req_out Q = req_out P"
    "req_in Q = (if d = [] then req_in P + 2 else req_in P - 1) + n + 3"
proof -
  let ?bs = "code # word_of_nat n # map (\<lambda>i. f (1 + i)) [0..<n] @ [0]"
  have Q: "Q = foldl put_req (open_req P) ?bs"
    using c by (auto simp: Q_def add_ie_def Let_def)
  have "(if d = [] then req_in P + 2 else req_in P - 1) + length ?bs \<le> RBUFFER_SIZE" using lt by simp
  note a = req_append [OF r _ this, folded Q]
  show "req_rep Q rs (butlast d @ ?bs)" "same_but_req P Q" "req_in_start Q = req_in_start P" "req_out Q = req_out P"
    using a(1-4) by simp_all
  show "req_in Q = (if d = [] then req_in P + 2 else req_in P - 1) + n + 3" using a(5) by simp
qed

lemma finish_req_rep:
  fixes f q c :: byte
  assumes r: "req_rep P rs d" and lt: "req_in P + (if d = [] then 6 else 3) \<le> RBUFFER_SIZE"
  defines "Q \<equiv> finish_req f q c P"
  shows "req_rep Q (rs @ [Request (if d = [] then [0] else d) f q c]) []" "same_but_req P Q" "req_out Q = req_out P"
    "req_in Q \<le> req_in P + 6"
proof -
  define dd where "dd = (if d = [] then [0] else d)"
  let ?s = "req_in_start P" and ?m = "RBuffer P" and ?d = dd
  from r have L: "req_laid ?m (req_out P) rs ?s" and O: "req_open ?m ?s d (req_in P)"
    by (simp_all add: req_rep_def)
  define m1 where "m1 = (if d = [] then ?m(?s + 2 := 0) else ?m)"
  define e where "e = ?s + 2 + length dd"
  let ?e = e
  define m2 where "m2 = wr16 m1 ?s (length ?d)"
  let ?m3 = "wr_bytes m2 ?e [f, q, c]"
  have e: "?e + 3 \<le> RBUFFER_SIZE" "?e \<le> req_in P + 3" using O lt by (auto simp: e_def dd_def req_open_def split: if_splits)
  have P1: "(if req_in P = ?s then put_req (P\<lparr>req_in := (req_in P + 2) mod 65536\<rparr>) 0 else P) =
      P\<lparr>RBuffer := m1, req_in := ?e\<rparr>"
  proof (cases "d = []")
    case True
    then have "req_in P = ?s" "?s + 6 \<le> RBUFFER_SIZE" using O lt by (simp_all add: req_open_def)
    then show ?thesis using True by (cases P) (simp add: put_req_def m1_def e_def dd_def)
  next
    case False
    then show ?thesis using O by (simp add: req_open_def m1_def e_def dd_def)
  qed
  have P2: "P\<lparr>RBuffer := m1, req_in := ?e, RBuffer := m2, req_overrun := (req_overrun P \<or> RBUFFER_SIZE \<le> ?s + 1)\<rparr> =
      P\<lparr>req_in := ?e, RBuffer := m2\<rparr>"
    using e(1) by (cases P) (simp add: e_def)
  have len: "(?e + 131070 - ?s) mod 65536 = length dd"
    unfolding e_def by (rule sub16) (use e(1) in \<open>simp add: e_def\<close>)
  have Q: "Q = P\<lparr>RBuffer := ?m3, req_in := ?e + 3, req_in_start := ?e + 3\<rparr>"
  proof -
    have "Q = (let P3 = foldl put_req (P\<lparr>req_in := ?e, RBuffer := m2\<rparr>) [f, q, c] in P3\<lparr>req_in_start := req_in P3\<rparr>)"
      unfolding Q_def finish_req_def P1 Let_def using P2 by (simp add: m2_def len)
    then show ?thesis
      using put_reqs [of "P\<lparr>req_in := ?e, RBuffer := m2\<rparr>" "[f, q, c]"] e(1) by (simp add: Let_def del: foldl.simps)
  qed
  have "i \<noteq> ?s + 2 \<and> i \<noteq> ?s \<and> i \<noteq> ?s + 1" if "RBUFFER_SIZE \<le> i" for i
    using that e(1) by (auto simp: e_def dd_def)
  then show "same_but_req P Q" "req_out Q = req_out P"
    using e(1) by (simp_all add: Q same_but_req_def wr_bytes_other m2_def m1_def wr16_def)
  show "req_in Q \<le> req_in P + 6" using e(2) by (simp add: Q)
  have data: "rd_bytes m1 (?s + 2) (length ?d) = ?d"
    using O by (auto simp: m1_def dd_def req_open_def rd_bytes_def split: if_splits)
  have "rd_bytes ?m3 (?s + 2) (length ?d) = rd_bytes m1 (?s + 2) (length ?d)"
    by (rule rd_bytes_cong) (auto simp: m2_def e_def wr_bytes_other wr16_other)
  moreover have "rd16 ?m3 ?s = length ?d"
  proof -
    have "rd16 ?m3 ?s = rd16 m2 ?s" by (rule rd16_cong) (auto simp: wr_bytes_other e_def)
    also have "\<dots> = length ?d mod 65536" unfolding m2_def by (rule rd16_wr16)
    also have "\<dots> = length ?d" using e(1) by (simp add: e_def)
    finally show ?thesis .
  qed
  moreover have "?m3 (?s + 2 + length ?d) = f" "?m3 (?s + 3 + length ?d) = q" "?m3 (?s + 4 + length ?d) = c"
    by (auto simp: wr_bytes_def e_def)
  ultimately have new: "req_laid ?m3 ?s [Request ?d f q c] (?e + 3)"
    using data e(1) by (simp add: e_def) (simp add: dd_def)
  have old: "req_laid ?m3 (req_out P) rs ?s"
    by (rule req_laid_cong [OF _ L]) (auto simp: m2_def m1_def e_def wr_bytes_other wr16_other)
  show "req_rep Q (rs @ [Request (if d = [] then [0] else d) f q c]) []"
    unfolding dd_def [symmetric]
    using old new req_laid_snoc [of ?m3 "req_out P" rs "Request ?d f q c" "?e + 3"]
    by (auto simp: req_rep_def Q req_open_def)
qed

lemma send_head_rep:
  assumes r: "req_rep (plci w p) (Request d f q c # rs) e" and lt: "req_in (plci w p) < 65536"
  defines "P \<equiv> plci w p" and "w' \<equiv> send_head p w"
  shows "req_rep (plci w' p) rs e"
    "events w' = events w @
       [if f = 1 then
          (if NL_Id P mod 32 = 0 then
             NL_request NL_ID (unat q) (unat c)
               (Bytes (butlast d @ [CAI, 1, if Sig_Id P = 0xff then 0 else word_of_nat (Sig_Id P), 0]))
           else NL_request (NL_Id P) (unat q) (unat c) (Bytes d))
        else SIG_request (if f \<noteq> 0 then unat f else Sig_Id P) (unat q) (unat c) (Bytes d)]"
    "nl_req (plci w' p) = (if f = 1 then unat q else nl_req P)"
    "sig_req (plci w' p) = (if f = 1 then sig_req P else unat q)"
proof -
  let ?m = "RBuffer P" and ?o = "req_out P"
  have lay: "d \<noteq> []" "rd16 ?m ?o = length d" "rd_bytes ?m (?o + 2) (length d) = d" "?m (?o + 2 + length d) = f"
    "?m (?o + 3 + length d) = q" "?m (?o + 4 + length d) = c"
    and L: "req_laid ?m (?o + 5 + length d) rs (req_in_start P)" and O: "req_open ?m (req_in_start P) e (req_in P)"
    using r by (simp_all add: req_rep_def P_def)
  have le: "?o + 5 + length d \<le> req_in_start P" using req_laid_le [OF L] by simp
  have "req_in_start P < 65536" using O lt by (auto simp: req_open_def P_def split: if_splits)
  with le have b: "?o + 5 + length d < 65536" by simp
  define data where "data = ?o + 2"
  define out where "out = data + length d"
  have w: "(?o + 2) mod 65536 = data" "(data + rd16 ?m ?o) mod 65536 = out" "(out + 1) mod 65536 = out + 1"
    "(out + 2) mod 65536 = out + 2" "(out + 3) mod 65536 = out + 3"
    using b lay(2) by (simp_all add: data_def out_def)
  have at: "?m out = f" "?m (out + 1) = q" "?m (out + 2) = c" "rd_bytes ?m data (rd16 ?m ?o) = d"
  proof -
    have "out = ?o + 2 + length d" "out + 1 = ?o + 3 + length d" "out + 2 = ?o + 4 + length d"
      by (simp_all add: data_def out_def)
    then show "?m out = f" "?m (out + 1) = q" "?m (out + 2) = c" "rd_bytes ?m data (rd16 ?m ?o) = d"
      using lay by (simp_all only: data_def)
  qed
  define sid where "sid = (if Sig_Id P = 0xff then 0 else word_of_nat (Sig_Id P) :: byte)"
  define m' where "m' = ?m(out - 1 := CAI, out := 1, out + 1 := sid, out + 2 := 0)"
  have o4: "out + 3 - 4 = out - 1" "out + 3 - 3 = out" "out + 3 - 2 = out + 1" "out + 3 - 1 = out + 2" by simp_all
  have pay: "rd_bytes m' data ((rd16 ?m ?o + 3) mod 65536) = butlast d @ [CAI, 1, sid, 0]"
  proof -
    have n: "(rd16 ?m ?o + 3) mod 65536 = length (butlast d) + 4" using lay(1,2) b by (simp add: Suc_diff_le)
    have l: "data + length (butlast d) = out - 1" using lay(1) by (cases d) (simp_all add: out_def)
    have "rd_bytes m' data (length (butlast d)) = rd_bytes ?m data (length (butlast d))"
      by (rule rd_bytes_cong) (use l in \<open>auto simp: m'_def\<close>)
    also have "\<dots> = take (length (butlast d)) (rd_bytes ?m data (length d))"
      by (simp add: rd_bytes_def take_map)
    also have "\<dots> = butlast d" using lay(3) by (simp add: data_def butlast_conv_take)
    finally have 1: "rd_bytes m' data (length (butlast d)) = butlast d" .
    have "0 < out" using lay(1) by (cases d) (auto simp: out_def)
    then have "rd_bytes m' (out - 1) 4 = [CAI, 1, sid, 0]"
      by (auto simp: rd_bytes_def m'_def upt_rec numeral_eq_Suc)
    then show ?thesis unfolding n rd_bytes_append 1 l by simp
  qed
  have keep: "req_laid m' (out + 3) rs (req_in_start P)" "req_open m' (req_in_start P) e (req_in P)"
    "req_laid ?m (out + 3) rs (req_in_start P)"
  proof -
    have o: "?o + 5 + length d = out + 3" by (simp add: out_def data_def)
    show "req_laid ?m (out + 3) rs (req_in_start P)" using L unfolding o .
    then show "req_laid m' (out + 3) rs (req_in_start P)" by (rule req_laid_cong [rotated]) (auto simp: m'_def)
    have "rd_bytes m' (req_in_start P + 2) (length e) = rd_bytes ?m (req_in_start P + 2) (length e)"
      by (rule rd_bytes_cong) (use le o in \<open>auto simp: m'_def\<close>)
    then show "req_open m' (req_in_start P) e (req_in P)" using O unfolding req_open_def by (simp only: if_cancel)
  qed
  note def = send_head_def [of p w, folded P_def, unfolded Let_def w at o4 sid_def [symmetric] m'_def [symmetric]]
  show "req_rep (plci w' p) rs e"
    using keep O unfolding w'_def def by (auto simp: req_rep_def P_def)
  show "events w' = events w @
       [if f = 1 then
          (if NL_Id P mod 32 = 0 then
             NL_request NL_ID (unat q) (unat c)
               (Bytes (butlast d @ [CAI, 1, if Sig_Id P = 0xff then 0 else word_of_nat (Sig_Id P), 0]))
           else NL_request (NL_Id P) (unat q) (unat c) (Bytes d))
        else SIG_request (if f \<noteq> 0 then unat f else Sig_Id P) (unat q) (unat c) (Bytes d)]"
    unfolding w'_def def pay sid_def [symmetric] by simp
  show "nl_req (plci w' p) = (if f = 1 then unat q else nl_req P)"
    "sig_req (plci w' p) = (if f = 1 then sig_req P else unat q)"
    unfolding w'_def def by (simp_all add: P_def)
qed

section \<open>Properties\<close>

text \<open>The bytes of a list of information elements, and adding them one by one.\<close>

definition encode_ies :: "(byte \<times> byte list) list \<Rightarrow> byte list" where
  "encode_ies ies = concat (map (\<lambda>(c, d). c # word_of_nat (length d) # d) ies) @ [0]"

definition ie_valid :: "byte \<times> byte list \<Rightarrow> bool" where
  "ie_valid x \<longleftrightarrow> length (snd x) < 256 \<and> (bit (fst x) 7 \<or> snd x \<noteq> [])"

definition ie_ptr :: "byte list \<Rightarrow> nat \<Rightarrow> byte" where
  "ie_ptr d i = (if i = 0 then word_of_nat (length d) else d ! (i - 1))"

definition add_ies :: "(byte \<times> byte list) list \<Rightarrow> plci_data \<Rightarrow> plci_data" where
  "add_ies ies P = foldl (\<lambda>P (c, d). add_p c (Some (ie_ptr d)) P) P ies"

lemma encode_ies_snoc:
  "encode_ies (ies @ [(c, d)]) = butlast (encode_ies ies) @ c # word_of_nat (length d) # d @ [0]"
  by (simp add: encode_ies_def butlast_append)

lemma encode_ies_ne [simp]: "encode_ies ies \<noteq> []"
  by (simp add: encode_ies_def)

lemma add_ies_rep:
  assumes "req_rep P rs []" "\<forall>x \<in> set ies. ie_valid x" "req_in P + 2 + length (encode_ies ies) \<le> RBUFFER_SIZE"
  shows "req_rep (add_ies ies P) rs (if ies = [] then [] else encode_ies ies) \<and> same_but_req P (add_ies ies P) \<and>
     req_out (add_ies ies P) = req_out P \<and>
     req_in (add_ies ies P) = (if ies = [] then req_in P else req_in P + 2 + length (encode_ies ies))"
  using assms(2,3)
proof (induction ies rule: rev_induct)
  case Nil
  show ?case using assms(1) by (simp add: add_ies_def same_but_req_def)
next
  case (snoc x ies)
  obtain c d where x: "x = (c, d)" by (cases x)
  let ?P = "add_ies ies P" and ?e = "if ies = [] then [] else encode_ies ies"
  have len: "length (encode_ies (ies @ [x])) = length (encode_ies ies) + 2 + length d"
    by (simp add: encode_ies_def x)
  then have IH: "req_rep ?P rs ?e" "same_but_req P ?P" "req_out ?P = req_out P"
    "req_in ?P = (if ies = [] then req_in P else req_in P + 2 + length (encode_ies ies))"
    using snoc by auto
  have v: "length d < 256" "bit c 7 \<or> length d \<noteq> 0" using snoc.prems(1) x by (auto simp: ie_valid_def)
  have step: "add_ies (ies @ [x]) P = add_ie c (Some (ie_ptr d)) (length d) ?P"
    using v(1) by (simp add: add_ies_def x add_p_def ie_ptr_def)
  have at: "(if ?e = [] then req_in ?P + 2 else req_in ?P - 1) + length d + 3 = req_in P + 2 + length (encode_ies (ies @ [x]))"
    unfolding len IH(4) by (cases "ies = []") (simp_all add: encode_ies_def)
  with snoc.prems(2) have "(if ?e = [] then req_in ?P + 2 else req_in ?P - 1) + length d + 3 \<le> RBUFFER_SIZE" by simp
  note a = add_ie_rep [OF IH(1) v(2) this, of "ie_ptr d", folded step]
  have "map (\<lambda>i. ie_ptr d (1 + i)) [0..<length d] = d" by (simp add: ie_ptr_def map_nth)
  moreover have "butlast ?e = butlast (encode_ies ies)" by (simp add: encode_ies_def)
  ultimately have "req_rep (add_ies (ies @ [x]) P) rs (encode_ies (ies @ [x]))"
    using a(1) unfolding x encode_ies_snoc by simp
  moreover have "same_but_req P (add_ies (ies @ [x]) P)"
    by (rule same_but_req_trans [OF IH(2) a(2)])
  ultimately show ?case using IH(3) a(4,5) at by simp
qed

text \<open>C35: A request to the network layer built from any information elements that fits in \<open>RBuffer\<close>
  arrives unchanged: adding the elements and calling \<open>nl_req_ncci_\<close> appends to the queue exactly one
  request with their encoding, the request code and the channel of the NCCI, writes nothing behind
  the 2048 bytes of \<open>RBuffer\<close>, and leaves the requests already queued and everything outside the PLCI
  untouched; a \<open>REMOVE\<close> also notes the entity to be removed and goes out without a channel of its own.\<close>

theorem nl_request_queued:
  assumes "req_rep (plci w p) rs []" and "\<forall>x \<in> set ies. ie_valid x" and "p \<noteq> 0" and "\<not> adapter_disabled w"
    and "req_in (plci w p) + 5 + length (encode_ies ies) \<le> RBUFFER_SIZE"
  shows "let w' = nl_req_ncci p req n (upd_plci p (add_ies ies) w) in
     req_rep (plci w' p)
       (rs @ [Request (encode_ies ies) 1 (word_of_nat req)
         (word_of_nat (ncci_ch w ((if req = REMOVE then 0 else n) mod 256)))]) [] \<and>
     w' = w\<lparr>plci := (plci w)(p := plci w' p)\<rparr> \<and>
     (\<forall>i \<ge> RBUFFER_SIZE. RBuffer (plci w' p) i = RBuffer (plci w p) i) \<and>
     req_overrun (plci w' p) = req_overrun (plci w p) \<and>
     (req = REMOVE \<longrightarrow> nl_remove_id (plci w' p) = NL_Id (plci w p) \<and> nl_remove_ncci (plci w' p) = n)"
proof -
  define w' where "w' = nl_req_ncci p req n (upd_plci p (add_ies ies) w)"
  let ?P = "add_ies ies (plci w p)"
  define R where "R = (if req = REMOVE then ?P\<lparr>nl_remove_id := NL_Id ?P, nl_remove_ncci := n\<rparr> else ?P)"
  define c :: byte where "c = word_of_nat (ncci_ch w ((if req = REMOVE then 0 else n) mod 256))"
  define e where "e = (if ies = [] then [] else encode_ies ies)"
  have bnd: "req_in (plci w p) + 2 + length (encode_ies ies) \<le> RBUFFER_SIZE" using assms(5) by simp
  note a = add_ies_rep [OF assms(1,2) bnd, folded e_def]
  have R: "req_rep R rs e" "req_in R + (if e = [] then 6 else 3) \<le> RBUFFER_SIZE"
    "RBuffer R = RBuffer ?P" "req_overrun R = req_overrun ?P"
  proof -
    have "req_rep R rs x = req_rep ?P rs x" "req_in R = req_in ?P" for x by (simp_all add: R_def req_rep_def)
    then show "req_rep R rs e" "req_in R + (if e = [] then 6 else 3) \<le> RBUFFER_SIZE"
      using a assms(5) by (auto simp: e_def encode_ies_def)
  qed (simp_all add: R_def)
  have w': "w' = upd_plci p (\<lambda>P. finish_req 1 (word_of_nat req) c R) w"
    using assms(3,4) by (simp add: w'_def nl_req_ncci_def upd_plci_def Let_def R_def c_def)
  note f = finish_req_rep [OF R(1,2), of 1 "word_of_nat req" c]
  have sb: "same_but_req (plci w p) ?P" using a by blast
  have "(if e = [] then [0] else e) = encode_ies ies" by (simp add: e_def encode_ies_def)
  then have "req_rep (plci w' p) (rs @ [Request (encode_ies ies) 1 (word_of_nat req) c]) []"
    using f(1) by (simp add: w')
  moreover have "w' = w\<lparr>plci := (plci w)(p := plci w' p)\<rparr>" by (simp add: w' upd_plci_def)
  moreover have "\<forall>i \<ge> RBUFFER_SIZE. RBuffer (plci w' p) i = RBuffer (plci w p) i"
    using sb f(2) R(3) by (simp add: w' same_but_req_def)
  moreover have "req_overrun (plci w' p) = req_overrun (plci w p)"
    using same_but_reqD(8) [OF sb] same_but_reqD(8) [OF f(2)] R(4) by (simp add: w')
  moreover have "req = REMOVE \<longrightarrow> nl_remove_id (plci w' p) = NL_Id (plci w p) \<and> nl_remove_ncci (plci w' p) = n"
    using same_but_reqD(3,4) [OF f(2)] same_but_reqD(1) [OF sb] by (auto simp: w' R_def)
  ultimately show ?thesis unfolding w'_def [symmetric] Let_def c_def by blast
qed

text \<open>C39: \<open>send_req\<close> on an idle PLCI with nothing to XON hands exactly the oldest queued request to
  the adapter, as a request of the network layer or of the signaling entity with its code,
  channel and information elements; the first network layer request carries the assignment
  element instead of its terminator. The request leaves the queue, the others stay in order,
  and the PLCI is busy, so that a second \<open>send_req\<close> before the return code sends nothing.\<close>

theorem send_req_oldest:
  assumes "req_rep (plci w p) (Request d f q c # rs) e" and "req_in (plci w p) \<le> RBUFFER_SIZE" and "p \<noteq> 0"
    and "\<not> adapter_disabled w" and "channel_xmit_xon p w = Some w"
    and "nl_req (plci w p) = 0" and "sig_req (plci w p) = 0" and "q \<noteq> 0"
  shows "\<exists>w'. send_req p w = Some w' \<and> req_rep (plci w' p) rs e \<and>
     events w' = events w @
       [if f = 1 then
          (if NL_Id (plci w p) mod 32 = 0 then
             NL_request NL_ID (unat q) (unat c)
               (Bytes (butlast d @ [CAI, 1, if Sig_Id (plci w p) = 0xff then 0 else word_of_nat (Sig_Id (plci w p)), 0]))
           else NL_request (NL_Id (plci w p)) (unat q) (unat c) (Bytes d))
        else SIG_request (if f \<noteq> 0 then unat f else Sig_Id (plci w p)) (unat q) (unat c) (Bytes d)] \<and>
     nl_req (plci w' p) + sig_req (plci w' p) = unat q \<and>
     (channel_xmit_xon p w' = Some w' \<longrightarrow> send_req p w' = Some w')"
proof -
  let ?w = "send_head p w"
  have "req_in (plci w p) < 65536" using assms(2) by simp
  note h = send_head_rep [OF assms(1) this]
  have ne: "req_in (plci w p) \<noteq> req_out (plci w p)"
  proof -
    have "req_out (plci w p) + 6 \<le> req_in_start (plci w p)" "req_in_start (plci w p) \<le> req_in (plci w p)"
      using assms(1) req_laid_le [of "RBuffer (plci w p)" "req_out (plci w p)" "Request d f q c # rs" "req_in_start (plci w p)"]
      by (auto simp: req_rep_def req_open_def split: if_splits)
    then show ?thesis by simp
  qed
  then have res: "send_req p w = Some ?w" using assms(3-7) by (simp add: send_req_def)
  have busy: "nl_req (plci ?w p) + sig_req (plci ?w p) = unat q"
    using h(3,4) assms(6,7) by simp
  moreover have "unat q \<noteq> 0" using assms(8) by (simp add: unat_eq_zero)
  ultimately have "nl_req (plci ?w p) \<noteq> 0 \<or> sig_req (plci ?w p) \<noteq> 0" by (metis add_0)
  then have "channel_xmit_xon p ?w = Some ?w \<longrightarrow> send_req p ?w = Some ?w" by (simp add: send_req_def)
  with res h busy show ?thesis by blast
qed

text \<open>A concrete queue: one DISCONNECT request with the element \<open>0x1c 01 61\<close>.\<close>

definition example_ies :: "(byte \<times> byte list) list" where
  "example_ies = [(0x1c, [0x61]), (0xa1, [])]"

lemma req_rep_idle: "req_rep (idle_plci\<lparr>pl_Id := a, pl_appl := b\<rparr>) [] []"
  by (simp add: req_rep_def req_open_def)

theorem nl_request_queued_witness:
  "let w' = nl_req_ncci 1 N_DISC 3 (upd_plci 1 (add_ies example_ies) idle_capi) in
     req_rep (plci w' 1)
       ([] @ [Request (encode_ies example_ies) 1 (word_of_nat N_DISC)
         (word_of_nat (ncci_ch idle_capi ((if N_DISC = REMOVE then 0 else 3) mod 256)))]) [] \<and>
     w' = idle_capi\<lparr>plci := (plci idle_capi)(1 := plci w' 1)\<rparr> \<and>
     (\<forall>i \<ge> RBUFFER_SIZE. RBuffer (plci w' 1) i = RBuffer (plci idle_capi 1) i) \<and>
     req_overrun (plci w' 1) = req_overrun (plci idle_capi 1) \<and>
     (N_DISC = REMOVE \<longrightarrow> nl_remove_id (plci w' 1) = NL_Id (plci idle_capi 1) \<and> nl_remove_ncci (plci w' 1) = 3)"
  by (rule nl_request_queued) (simp_all add: req_rep_idle example_ies_def ie_valid_def encode_ies_def)

definition queued_capi :: capi where
  "queued_capi = upd_plci 1 (finish_req 1 (word_of_nat N_DISC) 0) idle_capi"

lemma queued_capi:
  "req_rep (plci queued_capi 1) ([] @ [Request (if [] = ([] :: byte list) then [0] else []) 1 (word_of_nat N_DISC) 0]) []"
  "req_in (plci queued_capi 1) \<le> 6"
  "nl_req (plci queued_capi 1) = 0" "sig_req (plci queued_capi 1) = 0" "NL_Id (plci queued_capi 1) = 0"
  "adapter_disabled queued_capi = False" "ch_flow_ring_list (plci queued_capi 1) = 0"
proof -
  have P: "plci queued_capi 1 = finish_req 1 (word_of_nat N_DISC) 0 (idle_plci\<lparr>pl_Id := 1, pl_appl := 1\<rparr>)"
    by (simp add: queued_capi_def)
  have lt: "req_in (idle_plci\<lparr>pl_Id := 1, pl_appl := 1\<rparr>) + (if [] = ([] :: byte list) then 6 else 3) \<le> RBUFFER_SIZE" by simp
  note f = finish_req_rep [OF req_rep_idle lt, of 1 "word_of_nat N_DISC" 0]
  show "req_rep (plci queued_capi 1) ([] @ [Request (if [] = ([] :: byte list) then [0] else []) 1 (word_of_nat N_DISC) 0]) []"
    unfolding P by (rule f(1))
  show "req_in (plci queued_capi 1) \<le> 6" unfolding P using f(4) by simp
  show "nl_req (plci queued_capi 1) = 0" "sig_req (plci queued_capi 1) = 0" "NL_Id (plci queued_capi 1) = 0"
    unfolding P same_but_reqD [OF f(2)] by simp_all
  show "adapter_disabled queued_capi = False" by (simp add: queued_capi_def)
  show "ch_flow_ring_list (plci queued_capi 1) = 0" unfolding P by (simp add: finish_req_def put_req_def Let_def)
qed

theorem send_req_oldest_witness:
  "\<exists>w'. send_req 1 queued_capi = Some w' \<and> req_rep (plci w' 1) [] [] \<and>
     events w' = events queued_capi @ [NL_request NL_ID N_DISC 0 (Bytes [CAI, 1, word_of_nat (Sig_Id (plci queued_capi 1)), 0])] \<and>
     nl_req (plci w' 1) + sig_req (plci w' 1) = N_DISC"
proof -
  have s: "Sig_Id (plci queued_capi 1) = 0"
  proof -
    have lt: "req_in (idle_plci\<lparr>pl_Id := 1, pl_appl := 1\<rparr>) + (if [] = ([] :: byte list) then 6 else 3) \<le> RBUFFER_SIZE" by simp
    note f = finish_req_rep [OF req_rep_idle lt, of 1 "word_of_nat N_DISC" 0]
    show ?thesis using same_but_reqD(2) [OF f(2)] by (simp add: queued_capi_def)
  qed
  have 1: "req_rep (plci queued_capi 1) (Request [0] 1 (word_of_nat N_DISC) 0 # []) []"
    using queued_capi(1) by simp
  have 2: "req_in (plci queued_capi 1) \<le> RBUFFER_SIZE" using queued_capi(2) by simp
  have 3: "channel_xmit_xon 1 queued_capi = Some queued_capi"
    by (simp add: channel_xmit_xon_def queued_capi(5) del: One_nat_def)
  have 4: "\<not> adapter_disabled queued_capi" using queued_capi(6) by simp
  have 5: "(word_of_nat N_DISC :: byte) \<noteq> 0" by simp
  note r = send_req_oldest [OF 1 2 one_neq_zero 4 3 queued_capi(3,4) 5, unfolded queued_capi(5) s]
  obtain w' where w': "send_req 1 queued_capi = Some w'" "req_rep (plci w' 1) [] []"
    "nl_req (plci w' 1) + sig_req (plci w' 1) = unat (word_of_nat N_DISC :: byte)"
    "events w' = events queued_capi @ [NL_request NL_ID (unat (word_of_nat N_DISC :: byte)) (unat (0 :: byte)) (Bytes (butlast [0] @ [CAI, 1, 0, 0]))]"
    using r by (auto simp del: One_nat_def)
  have "unat (word_of_nat N_DISC :: byte) = N_DISC" by simp
  then show ?thesis using w' by (intro exI [of _ w']) (simp add: s del: One_nat_def)
qed

end
