(* ===== verification/CapiData.thy ===== *)
theory CapiData
  imports CapiNcci CapiFlow CapiReq Fifo
begin

text \<open>
  The data path of the CAPI message layer (\<open>kernel/message.c\<close>): a DATA_B3 request queues a
  descriptor at the NCCI (\<open>data_b3_req\<close>), \<open>send_data\<close> hands the oldest descriptor of the next
  NCCI that may send to the adapter, the return code confirms and drops it (\<open>data_rc\<close>), a
  delivery confirmation is reported by \<open>data_ack\<close>, and \<open>data_b3_res\<close> releases a receive
  buffer. The parameters of a message arrive parsed: the data pointer, length, handle and
  flags are arguments; whether the parameter lies in the message queue of a PLCI is the
  argument \<open>in_queue\<close>. The DTMF receiver sees the block as the event \<open>DtmfBlock\<close>; what it
  detects is outside this model.
\<close>

abbreviation (input) B2_V120_ASYNC :: nat where "B2_V120_ASYNC \<equiv> 9"
abbreviation (input) B2_V120_ASYNC_V42BIS :: nat where "B2_V120_ASYNC_V42BIS \<equiv> 10"
abbreviation (input) B2_V120_BIT_TRANSPARENT :: nat where "B2_V120_BIT_TRANSPARENT \<equiv> 11"
abbreviation (input) B3_T30_WITH_EXTENSIONS :: nat where "B3_T30_WITH_EXTENSIONS \<equiv> 5"

section \<open>send_data\<close>

definition data_req_code :: "nat \<Rightarrow> nat" where
  "data_req_code flags = (push_bit 4 (flags AND 7) OR N_DATA) mod 256"

definition is_V120 :: "plci_data \<Rightarrow> bool" where
  "is_V120 P \<longleftrightarrow> B2_prot P = B2_V120_ASYNC \<or> B2_prot P = B2_V120_ASYNC_V42BIS \<or> B2_prot P = B2_V120_BIT_TRANSPARENT"

text \<open>The request code and the buffers for a descriptor.\<close>

definition data_request :: "plci_data \<Rightarrow> data_b3_desc \<Rightarrow> nat \<times> payload" where
  "data_request P d =
     (if is_V120 P then (data_req_code (d_Flags d), V120Buffer (bit (d_Flags d) 4) (d_P d) (d_Length d))
      else (if bit (d_Flags d) 4 then N_UDATA else data_req_code (d_Flags d), TxBuffer (d_P d) (d_Length d)))"

definition send_packet :: "nat \<Rightarrow> nat \<Rightarrow> capi \<Rightarrow> capi" where
  "send_packet p n w =
     (let P = plci w p; d = DBuffer (ncci w n) (data_out (ncci w n)); (req, b) = data_request P d;
          w1 = (if \<not> is_V120 P \<and> dtmf_recv_on P then emit (DtmfBlock (d_P d) (d_Length d)) w else w)
      in emit (NL_request (NL_Id P) req (ncci_ch w n) b)
           (upd_plci p (\<lambda>Q. Q\<lparr>nl_req := req, NL_ReqCh := ncci_ch w n, data_sent := True, data_sent_ptr := d_P d\<rparr>) w1))"

definition send_disconnect :: "nat \<Rightarrow> nat \<Rightarrow> capi \<Rightarrow> capi" where
  "send_disconnect p n w =
     upd_plci p (\<lambda>Q. Q\<lparr>command := DISCONNECT_B3_R, send_disc := 0\<rparr>)
       (emit (NL_request (NL_Id (plci w p)) N_DISC (ncci_ch w n)
            (if B3_prot (plci w p) = B3_T30_WITH_EXTENSIONS then FaxInfo else Bytes []))
         (upd_plci p (\<lambda>Q. Q\<lparr>nl_req := N_DISC, NL_ReqCh := ncci_ch w n\<rparr>) w))"

definition fc_blocked :: "capi \<Rightarrow> nat \<Rightarrow> bool" where
  "fc_blocked w n \<longleftrightarrow> ncci_ch w n \<noteq> 0 \<and> ch_flow_control w (ncci_ch w n) AND N_OK_FC_PENDING \<noteq> 0"

definition may_send :: "capi \<Rightarrow> nat \<Rightarrow> nat \<Rightarrow> bool" where
  "may_send w p n \<longleftrightarrow> ncci_state w n = CONNECTED \<or> ncci_state w n = INC_ACT_PENDING \<or> send_disc (plci w p) = n"

definition send_data_step :: "nat \<Rightarrow> nat \<Rightarrow> capi \<Rightarrow> capi" where
  "send_data_step p n w =
     (if fc_blocked w n then w
      else if data_pending (ncci w n) \<noteq> 0 then
        (if may_send w p n then send_packet p n w else cleanup_ncci_data p n w)
      else if send_disc (plci w p) = n \<and> command (plci w p) = 0 then send_disconnect p n w
      else w)"

partial_function (option) send_data_loop :: "nat \<Rightarrow> nat \<Rightarrow> capi \<Rightarrow> capi option" where
  "send_data_loop p i w =
     (let n = ncci_next w i; w1 = send_data_step p n w
      in if nl_req (plci w1 p) = 0 \<and> n \<noteq> ncci_ring_list (plci w1 p) then send_data_loop p n w1
         else Some (upd_plci p (\<lambda>Q. Q\<lparr>ncci_ring_list := n\<rparr>) w1))"

definition send_data :: "nat \<Rightarrow> capi \<Rightarrow> capi option" where
  "send_data p w =
     (if nl_req (plci w p) = 0 \<and> ncci_ring_list (plci w p) \<noteq> 0 then send_data_loop p (ncci_ring_list (plci w p)) w
      else Some w)"

section \<open>DATA_B3 request and response\<close>

definition wrap8 :: "nat \<Rightarrow> nat" where
  "wrap8 i = (if i \<ge> MAX_DATA_B3 then i - MAX_DATA_B3 else i)"

definition queue_ack :: "nat \<Rightarrow> nat \<Rightarrow> ncci_data \<Rightarrow> ncci_data" where
  "queue_ack handle Number c =
     c\<lparr>DataAck := (DataAck c)(wrap8 (data_ack_out c + data_ack_pending c) := \<lparr>k_Handle = handle, k_Number = Number\<rparr>),
       data_ack_pending := data_ack_pending c + 1\<rparr>"

definition queue_data :: "data_b3_desc \<Rightarrow> ncci_data \<Rightarrow> ncci_data" where
  "queue_data d c =
     (let c1 = c\<lparr>DBuffer := (DBuffer c)(wrap8 (data_out c + data_pending c) := d), data_pending := data_pending c + 1\<rparr>
      in if bit (d_Flags d) 2 then queue_ack (d_Handle d) (d_Number d) c1 else c1)"

definition id_ncci :: "nat \<Rightarrow> nat" where "id_ncci msgid = (msgid div 65536) mod 65536"
definition id_plci :: "nat \<Rightarrow> nat" where "id_plci msgid = (msgid div 256) mod 256"

definition data_b3_req :: "(nat \<Rightarrow> bool) \<Rightarrow> nat \<Rightarrow> nat \<Rightarrow> nat \<Rightarrow> nat \<Rightarrow> nat \<Rightarrow> nat \<Rightarrow> nat \<Rightarrow> nat \<Rightarrow> capi \<Rightarrow> capi option" where
  "data_b3_req in_queue msgid Number p x dat len handle flags w =
     (let n = id_ncci msgid; Info = (if p \<noteq> 0 \<and> n \<noteq> 0 then WRONG_STATE else WRONG_IDENTIFIER)
      in if p \<noteq> 0 \<and> n \<noteq> 0 \<and> (ncci_state w n = CONNECTED \<or> ncci_state w n = INC_ACT_PENDING) then
           let (ptr, w1) = (if in_queue p then (dat, w) else set_xbuffer x dat w)
           in send_data p (upd_ncci n (queue_data
                \<lparr>d_Handle = handle, d_Number = Number, d_Flags = flags, d_Length = len, d_P = ptr\<rparr>) w1)
         else if x \<noteq> 0 then
           Some (emit (Sendf x (DATA_B3_R OR CAPI_CONFIRM) msgid Number [handle, Info])
             (if id_plci msgid \<noteq> 0 \<and> in_queue (id_plci msgid) then free_xbuffer x dat w else w))
         else Some w)"

definition release_receive_buffer :: "nat \<Rightarrow> nat \<Rightarrow> capi \<Rightarrow> capi" where
  "release_receive_buffer x i = upd_appl x (\<lambda>A. A\<lparr>DataNCCI := (DataNCCI A)(i := 0)\<rparr>)"

text \<open>The response returns whether a request was queued (\<open>return 1\<close>).\<close>

definition data_b3_res :: "nat \<Rightarrow> nat \<Rightarrow> nat \<Rightarrow> nat \<Rightarrow> capi \<Rightarrow> (bool \<times> capi) option" where
  "data_b3_res msgid p x i w =
     (let n = id_ncci msgid; A = appl w x
      in if p \<noteq> 0 \<and> n \<noteq> 0 then
           (if i < MaxBuffer A \<and> DataNCCI A i = ncci_code w n \<and> (DataFlags A i div 256) mod 256 = pl_Id (plci w p) \<and>
               bit (DataFlags A i) 4 then
              let w1 = release_receive_buffer x i w;
                  w2 = (if channel_can_xon p (ncci_ch w n) w1 then channel_request_xon (ncci_ch w n) w1 else w1)
              in map_option
                   (\<lambda>w3. if bit (DataFlags A i) 2 then (True, nl_req_ncci p N_DATA_ACK n w3) else (False, w3))
                   (channel_xmit_xon p w2)
            else if i \<ge> MaxBuffer A \<or> DataNCCI A i \<noteq> 0 then
              Some (False, upd_appl x (\<lambda>A. A\<lparr>BadDataB3Resp := BadDataB3Resp A + 1\<rparr>) w)
            else Some (False, w))
         else Some (False, w))"

section \<open>Return codes and acknowledgements\<close>

definition msg_id :: "capi \<Rightarrow> nat \<Rightarrow> nat \<Rightarrow> nat" where
  "msg_id w p n =
     (let msgid = push_bit 16 n OR push_bit 8 (pl_Id (plci w p)) OR a_Id w
      in if tel (plci w p) then msgid OR EXT_CONTROLLER else msgid)"

definition drop_data :: "ncci_data \<Rightarrow> ncci_data" where
  "drop_data c = c\<lparr>data_out := (if data_out c + 1 = MAX_DATA_B3 then 0 else data_out c + 1), data_pending := data_pending c - 1\<rparr>"

definition data_rc :: "nat \<Rightarrow> nat \<Rightarrow> nat \<Rightarrow> capi \<Rightarrow> capi" where
  "data_rc p ch data_ptr w =
     (let P = plci w p; n = ch_ncci w ch; c = ncci w n; d = DBuffer c (data_out c)
      in if pl_appl P = 0 then w
         else
           let w1 = (if \<not> data_sent P \<or> data_ptr \<noteq> data_sent_ptr P then free_xbuffer (pl_appl P) data_ptr w else w)
           in if n \<noteq> 0 \<and> ncci_plci w n = pl_Id P \<and> data_pending c \<noteq> 0 \<and> d_P d = data_ptr then
                upd_ncci n drop_data
                  (if \<not> bit (d_Flags d) 2 \<and> ncci_state w n \<noteq> 0
                   then emit (Sendf (pl_appl P) (DATA_B3_R OR CAPI_CONFIRM) (msg_id w p n) (d_Number d) [d_Handle d, 0]) w1
                   else w1)
              else w1)"

definition drop_ack :: "ncci_data \<Rightarrow> ncci_data" where
  "drop_ack c = c\<lparr>data_ack_out := (if data_ack_out c + 1 = MAX_DATA_ACK then 0 else data_ack_out c + 1),
     data_ack_pending := data_ack_pending c - 1\<rparr>"

definition data_ack :: "nat \<Rightarrow> nat \<Rightarrow> capi \<Rightarrow> capi" where
  "data_ack p ch w =
     (let n = ch_ncci w ch; c = ncci w n; k = DataAck c (data_ack_out c)
      in if data_ack_pending c \<noteq> 0 then
           upd_ncci n drop_ack
             (if ncci_state w n \<noteq> 0 \<and> ncci_plci w n = pl_Id (plci w p)
              then emit (Sendf (pl_appl (plci w p)) (DATA_B3_R OR CAPI_CONFIRM) (msg_id w p n) (k_Number k) [k_Handle k, 0]) w
              else w)
         else w)"

section \<open>Descriptors and acknowledgements as queues\<close>

definition ring8 :: "(nat \<Rightarrow> 'a) \<Rightarrow> nat \<Rightarrow> nat \<Rightarrow> 'a list" where
  "ring8 f out n = map (\<lambda>k. f ((out + k) mod 8)) [0..<n]"

lemma ring8_0 [simp]: "ring8 f out 0 = []"
  by (simp add: ring8_def)

lemma ring8_Nil [simp]: "ring8 f out n = [] \<longleftrightarrow> n = 0"
  by (simp add: ring8_def)

lemma ring8_length [simp]: "length (ring8 f out n) = n"
  by (simp add: ring8_def)

lemma wrap8_mod: "i < 16 \<Longrightarrow> wrap8 i = i mod 8"
  by (simp add: wrap8_def mod_if)

lemma ring8_snoc:
  assumes "out < 8" "n < 8"
  shows "ring8 (f(wrap8 (out + n) := d)) out (n + 1) = ring8 f out n @ [d]"
proof -
  have w: "wrap8 (out + n) = (out + n) mod 8" using assms by (simp add: wrap8_mod)
  have "(out + k) mod 8 \<noteq> (out + n) mod 8" if "k < n" for k
  proof
    assume "(out + k) mod 8 = (out + n) mod 8"
    then have "8 dvd n - k" using that mod_eq_dvd_iff_nat [of "out + k" "out + n" 8] by simp
    moreover have "0 < n - k" "n - k < 8" using that assms(2) by auto
    ultimately show False by (auto dest: dvd_imp_le)
  qed
  then show ?thesis unfolding w by (auto simp: ring8_def)
qed

lemma ring8_Cons:
  assumes "out < 8" "n \<noteq> 0"
  shows "ring8 f out n = f out # ring8 f (if out + 1 = 8 then 0 else out + 1) (n - 1)"
proof -
  obtain k where n: "n = Suc k" using assms(2) by (cases n) auto
  have "(out + Suc i) mod 8 = ((if out + 1 = 8 then 0 else out + 1) + i) mod 8" for i
    by (auto simp: mod_simps)
  then show ?thesis
    using assms by (simp add: ring8_def n upt_conv_Cons map_Suc_upt [symmetric] del: upt_Suc)
qed

definition b3_list :: "ncci_data \<Rightarrow> data_b3_desc list" where
  "b3_list c = ring8 (DBuffer c) (data_out c) (data_pending c)"

definition ack_list :: "ncci_data \<Rightarrow> data_ack_desc list" where
  "ack_list c = ring8 (DataAck c) (data_ack_out c) (data_ack_pending c)"

definition b3_ok :: "ncci_data \<Rightarrow> bool" where
  "b3_ok c \<longleftrightarrow> data_out c < MAX_DATA_B3 \<and> data_pending c \<le> MAX_DATA_B3 \<and>
     data_ack_out c < MAX_DATA_ACK \<and> data_ack_pending c \<le> MAX_DATA_ACK"

text \<open>The limit \<open>api_put\<close> puts on a DATA_B3 request (no message of the NCCI is waiting in the
  message queue of the PLCI).\<close>

definition data_room :: "ncci_data \<Rightarrow> bool" where
  "data_room c \<longleftrightarrow> \<not> (data_pending c \<ge> MAX_DATA_B3 \<or> data_ack_pending c \<ge> MAX_DATA_ACK)"

lemma queue_data_lists:
  assumes "b3_ok c" "data_room c"
  shows "b3_list (queue_data d c) = b3_list c @ [d]"
    "ack_list (queue_data d c) =
       ack_list c @ (if bit (d_Flags d) 2 then [\<lparr>k_Handle = d_Handle d, k_Number = d_Number d\<rparr>] else [])"
    "b3_ok (queue_data d c)"
  using assms ring8_snoc [of "data_out c" "data_pending c"] ring8_snoc [of "data_ack_out c" "data_ack_pending c"]
  by (auto simp: b3_list_def ack_list_def b3_ok_def data_room_def queue_data_def queue_ack_def Let_def)

lemma drop_data_lists:
  assumes "b3_ok c" "data_pending c \<noteq> 0"
  shows "b3_list c = DBuffer c (data_out c) # b3_list (drop_data c)" "ack_list (drop_data c) = ack_list c"
    "b3_ok (drop_data c)"
  using assms ring8_Cons [of "data_out c" "data_pending c" "DBuffer c"]
  by (auto simp: b3_list_def ack_list_def b3_ok_def drop_data_def)

lemma drop_ack_lists:
  assumes "b3_ok c" "data_ack_pending c \<noteq> 0"
  shows "ack_list c = DataAck c (data_ack_out c) # ack_list (drop_ack c)" "b3_list (drop_ack c) = b3_list c"
    "b3_ok (drop_ack c)"
  using assms ring8_Cons [of "data_ack_out c" "data_ack_pending c" "DataAck c"]
  by (auto simp: b3_list_def ack_list_def b3_ok_def drop_ack_def)

definition b3_put :: "ncci_data \<Rightarrow> data_b3_desc \<Rightarrow> bool \<times> ncci_data" where
  "b3_put c d = (if data_room c then (True, queue_data d c) else (False, c))"

definition b3_peek :: "ncci_data \<Rightarrow> data_b3_desc option" where
  "b3_peek c = (if data_pending c = 0 then None else Some (DBuffer c (data_out c)))"

definition b3_rep :: "ncci_data \<Rightarrow> data_b3_desc list \<Rightarrow> bool" where
  "b3_rep c xs \<longleftrightarrow> b3_ok c \<and> b3_list c = xs"

interpretation b3: fifo b3_rep b3_put b3_peek drop_data "\<lambda>_. True"
proof
  fix c :: ncci_data and xs d ok s'
  assume "b3_rep c xs" "b3_put c d = (ok, s')"
  then show "b3_rep s' (if ok then xs @ [d] else xs)"
    by (auto simp: b3_rep_def b3_put_def queue_data_lists split: if_splits)
next
  fix c :: ncci_data and xs
  assume "b3_rep c xs"
  then show "b3_peek c = (if xs = [] then None else Some (hd xs))"
    using drop_data_lists(1) [of c] by (auto simp: b3_rep_def b3_peek_def b3_list_def)
next
  fix c :: ncci_data and xs
  assume "b3_rep c xs" "xs \<noteq> []"
  moreover from this have "data_pending c \<noteq> 0" by (auto simp: b3_rep_def b3_list_def)
  ultimately show "b3_rep (drop_data c) (tl xs)" by (auto simp: b3_rep_def drop_data_lists)
qed

section \<open>Which NCCI sends\<close>

text \<open>An NCCI that \<open>send_data\<close> passes over without a request.\<close>

definition passes :: "capi \<Rightarrow> nat \<Rightarrow> nat \<Rightarrow> bool" where
  "passes w p n \<longleftrightarrow>
     fc_blocked w n \<or>
     (if data_pending (ncci w n) \<noteq> 0 then \<not> may_send w p n
      else \<not> (send_disc (plci w p) = n \<and> command (plci w p) = 0))"

text \<open>What a pass over some NCCIs leaves alone.\<close>

definition same_but_ncci :: "nat set \<Rightarrow> capi \<Rightarrow> capi \<Rightarrow> bool" where
  "same_but_ncci S w v \<longleftrightarrow>
     plci v = plci w \<and> events v = events w \<and> ncci_next v = ncci_next w \<and> ncci_state v = ncci_state w \<and>
     ncci_ch v = ncci_ch w \<and> ch_flow_control v = ch_flow_control w \<and> (\<forall>m. m \<notin> S \<longrightarrow> ncci v m = ncci w m)"

lemma same_but_nccis:
  assumes "same_but_ncci S w v"
  shows "plci v = plci w" "events v = events w" "ncci_next v = ncci_next w" "ncci_state v = ncci_state w"
    "ncci_ch v = ncci_ch w" "ch_flow_control v = ch_flow_control w" "m \<notin> S \<Longrightarrow> ncci v m = ncci w m"
  using assms by (auto simp: same_but_ncci_def)

lemma cleanup_step_ncci:
  "same_but_ncci {n} w (cleanup_step p n w)"
  by (simp add: same_but_ncci_def cleanup_step_def Let_def free_xbuffer_def)

lemma same_but_ncci_trans:
  "same_but_ncci S w v \<Longrightarrow> same_but_ncci T v u \<Longrightarrow> same_but_ncci (S \<union> T) w u"
  by (simp add: same_but_ncci_def)

lemma cleanup_ncci_data_same: "same_but_ncci {n} w (cleanup_ncci_data p n w)"
proof -
  have "same_but_ncci {n} w ((cleanup_step p n ^^ k) w)" for k
    using cleanup_step_ncci same_but_ncci_trans
    by (induction k) (auto simp: same_but_ncci_def)
  then show ?thesis by (auto simp: cleanup_ncci_data_def Let_def same_but_ncci_def)
qed

lemma passes_step:
  assumes "passes w p n"
  shows "same_but_ncci {n} w (send_data_step p n w)"
  using assms cleanup_ncci_data_same [of n w p]
  by (auto simp: passes_def send_data_step_def same_but_ncci_def split: if_splits)

lemma passes_cong:
  assumes "same_but_ncci S w v" "m \<notin> S"
  shows "passes v p m = passes w p m"
  using same_but_nccis [OF assms(1)] assms(2) by (simp add: passes_def fc_blocked_def may_send_def)

lemma send_data_loop_passes:
  assumes "walk (ncci_next w) i (ys @ zs)" "distinct ys" "\<forall>m \<in> set ys. passes w p m"
    "nl_req (plci w p) = 0" "ncci_ring_list (plci w p) \<notin> set ys"
  shows "\<exists>v. same_but_ncci (set ys) w v \<and> send_data_loop p i w = send_data_loop p (last (i # ys)) v"
  using assms
proof (induction ys arbitrary: i w)
  case Nil
  show ?case by (rule exI [of _ w]) (simp add: same_but_ncci_def)
next
  case (Cons y ys)
  let ?v = "send_data_step p y w"
  from Cons.prems have nx: "ncci_next w i = y" and "passes w p y" by simp_all
  note v = passes_step [OF this(2)]
  note v' = same_but_nccis [OF v]
  have pass: "\<forall>m \<in> set ys. passes ?v p m"
  proof
    fix m assume m: "m \<in> set ys"
    then have "passes ?v p m = passes w p m" using Cons.prems(2) by (intro passes_cong [OF v]) auto
    with m Cons.prems(3) show "passes ?v p m" by simp
  qed
  have "\<exists>u. same_but_ncci (set ys) ?v u \<and> send_data_loop p y ?v = send_data_loop p (last (y # ys)) u"
    using Cons.prems pass by (intro Cons.IH) (simp_all add: v'(1,3))
  then obtain u where u: "same_but_ncci (set ys) ?v u" "send_data_loop p y ?v = send_data_loop p (last (y # ys)) u"
    by blast
  have "send_data_loop p i w = send_data_loop p y ?v"
    using Cons.prems(4,5) by (subst send_data_loop.simps) (simp add: nx v'(1) Let_def)
  moreover have "same_but_ncci (set (y # ys)) w u" using same_but_ncci_trans [OF v u(1)] by simp
  ultimately show ?case using u(2) by (intro exI [of _ u]) simp
qed

lemma send_packet_simps:
  fixes w :: capi and p n :: nat
  defines "d \<equiv> DBuffer (ncci w n) (data_out (ncci w n))"
  shows "plci (send_packet p n w) = (plci w)(p := (plci w p)\<lparr>nl_req := fst (data_request (plci w p) d), NL_ReqCh := ncci_ch w n,
      data_sent := True, data_sent_ptr := d_P d\<rparr>)"
    "events (send_packet p n w) = events w @
      (if \<not> is_V120 (plci w p) \<and> dtmf_recv_on (plci w p) then [DtmfBlock (d_P d) (d_Length d)] else []) @
      [NL_request (NL_Id (plci w p)) (fst (data_request (plci w p) d)) (ncci_ch w n) (snd (data_request (plci w p) d))]"
    "ncci (send_packet p n w) = ncci w"
  by (simp_all add: send_packet_def Let_def d_def split: prod.splits)

lemma data_request_nonzero: "fst (data_request P d) \<noteq> 0"
proof -
  have "bit (data_req_code f) 3" for f by (simp add: data_req_code_def bit_simps flip: take_bit_eq_mod [of 8, simplified])
  then have "data_req_code f \<noteq> 0" for f by (metis bit_0_eq bot_apply bot_bool_def)
  then show ?thesis by (simp add: data_request_def)
qed

section \<open>Properties\<close>

text \<open>C7: With the network layer free, \<open>send_data\<close> goes round the NCCIs of the PLCI from
  the one after the last served and hands the oldest descriptor of the first one that is
  connected, has data and is not flow controlled to the adapter: one data request on its
  channel with the flags and the transmit buffer of the descriptor. The PLCI remembers the
  buffer being sent and continues behind this NCCI next time; the descriptor stays queued
  until the return code. If nobody can send, no request is made.\<close>

theorem send_data_sends_oldest:
  assumes "cring (ncci_next w) (ncci_ring_list (plci w p)) (ys @ n # zs)"
    and "nl_req (plci w p) = 0" and "\<forall>m \<in> set ys. passes w p m"
    and "\<not> fc_blocked w n" and "b3_list (ncci w n) = d # ds" and "b3_ok (ncci w n)" and "may_send w p n"
  shows "\<exists>w'. send_data p w = Some w' \<and>
     events w' = events w @
       (if \<not> is_V120 (plci w p) \<and> dtmf_recv_on (plci w p) then [DtmfBlock (d_P d) (d_Length d)] else []) @
       [NL_request (NL_Id (plci w p)) (fst (data_request (plci w p) d)) (ncci_ch w n) (snd (data_request (plci w p) d))] \<and>
     b3_list (ncci w' n) = d # ds \<and> data_sent (plci w' p) \<and> data_sent_ptr (plci w' p) = d_P d \<and>
     ncci_ring_list (plci w' p) = n \<and> nl_req (plci w' p) \<noteq> 0"
proof -
  let ?s = "ncci_ring_list (plci w p)"
  have ring: "?s \<noteq> 0" "distinct (ys @ n # zs)" "walk (ncci_next w) ?s (ys @ n # zs)" "last (ys @ n # zs) = ?s"
    using assms(1) by (auto simp: cring_def split: if_splits)
  have "?s \<notin> set ys" using ring(2,4) by (metis Int_iff distinct_append empty_iff last_appendR last_in_set list.distinct(1))
  then obtain v where v: "same_but_ncci (set ys) w v" "send_data_loop p ?s w = send_data_loop p (last (?s # ys)) v"
    using send_data_loop_passes [OF ring(3) _ assms(3,2)] ring(2) by auto
  note v' = same_but_nccis [OF v(1)]
  have nx: "ncci_next v (last (?s # ys)) = n"
    using ring(3) unfolding v'(3) walk_append by (simp add: walk_append)
  have ncci: "ncci v n = ncci w n" by (rule v'(7)) (use ring(2) in simp)
  have d: "DBuffer (ncci w n) (data_out (ncci w n)) = d" "data_pending (ncci w n) \<noteq> 0"
  proof -
    show pend: "data_pending (ncci w n) \<noteq> 0" using assms(5) by (metis b3_list_def list.distinct(1) ring8_0)
    show "DBuffer (ncci w n) (data_out (ncci w n)) = d" using drop_data_lists(1) [OF assms(6) pend] assms(5) by simp
  qed
  have step: "send_data_step p n v = send_packet p n v"
  proof -
    have "fc_blocked v n = fc_blocked w n" "may_send v p n = may_send w p n"
      by (simp_all add: fc_blocked_def may_send_def v'(1,4,5,6))
    then show ?thesis using assms(4,7) d(2) by (simp add: send_data_step_def ncci)
  qed
  note s = send_packet_simps [of p n v, unfolded ncci d v'(1,2,5)]
  have "nl_req (plci (send_packet p n v) p) \<noteq> 0" using data_request_nonzero by (simp add: s)
  then have "send_data_loop p (last (?s # ys)) v = Some (upd_plci p (\<lambda>Q. Q\<lparr>ncci_ring_list := n\<rparr>) (send_packet p n v))"
    by (subst send_data_loop.simps) (simp add: nx step Let_def del: last.simps)
  then have "send_data p w = Some (upd_plci p (\<lambda>Q. Q\<lparr>ncci_ring_list := n\<rparr>) (send_packet p n v))"
    using assms(2) ring(1) v(2) by (simp add: send_data_def)
  then show ?thesis using assms(5) data_request_nonzero [of "plci w p" d] by (simp add: s ncci)
qed

text \<open>C18: A DATA_B3 request for a connected NCCI with room appends one descriptor with its
  handle, number, length, flags and the transmit buffer to the queue of the NCCI, and with
  the delivery confirmation flag one entry to the acknowledge queue, before \<open>send_data\<close> runs;
  other NCCIs and the PLCI are as before. Any other request queues nothing and is answered to
  the application with the handle and the reason.\<close>

theorem data_b3_req_queues:
  assumes "b3_ok (ncci w n)" and "data_room (ncci w n)" and "n = id_ncci msgid" and "x \<noteq> 0"
  shows "if p \<noteq> 0 \<and> n \<noteq> 0 \<and> ncci_state w n \<in> {CONNECTED, INC_ACT_PENDING} then
       \<exists>v ptr. data_b3_req in_queue msgid num p x dat len handle flags w = send_data p v \<and>
         ptr = (if in_queue p then dat else fst (TransmitBufferSet (xbuffers (appl w x)) dat)) \<and>
         b3_list (ncci v n) = b3_list (ncci w n) @
           [\<lparr>d_Handle = handle, d_Number = num, d_Flags = flags, d_Length = len, d_P = ptr\<rparr>] \<and>
         ack_list (ncci v n) = ack_list (ncci w n) @
           (if bit flags 2 then [\<lparr>k_Handle = handle, k_Number = num\<rparr>] else []) \<and>
         b3_ok (ncci v n) \<and> (\<forall>m. m \<noteq> n \<longrightarrow> ncci v m = ncci w m) \<and> plci v = plci w \<and> events v = events w
     else \<exists>v. data_b3_req in_queue msgid num p x dat len handle flags w = Some v \<and> ncci v = ncci w \<and> plci v = plci w \<and>
         events v = events w @ [Sendf x (DATA_B3_R OR CAPI_CONFIRM) msgid num
           [handle, if p \<noteq> 0 \<and> n \<noteq> 0 then WRONG_STATE else WRONG_IDENTIFIER]]"
proof (cases "p \<noteq> 0 \<and> n \<noteq> 0 \<and> ncci_state w n \<in> {CONNECTED, INC_ACT_PENDING}")
  case True
  define s where "s = (if in_queue p then (dat, w) else set_xbuffer x dat w)"
  define d where "d = \<lparr>d_Handle = handle, d_Number = num, d_Flags = flags, d_Length = len, d_P = fst s\<rparr>"
  let ?v = "upd_ncci n (queue_data d) (snd s)"
  have s: "ncci (snd s) = ncci w" "plci (snd s) = plci w" "events (snd s) = events w"
    "fst s = (if in_queue p then dat else fst (TransmitBufferSet (xbuffers (appl w x)) dat))"
    by (auto simp: s_def set_xbuffer_def split: prod.splits)
  have "data_b3_req in_queue msgid num p x dat len handle flags w = send_data p ?v"
    using True assms(3) by (auto simp: data_b3_req_def s_def [symmetric] d_def Let_def split_beta)
  moreover note q = queue_data_lists [OF assms(1,2), of d]
  have "ncci ?v n = queue_data d (ncci w n)" "\<forall>m. m \<noteq> n \<longrightarrow> ncci ?v m = ncci w m" "plci ?v = plci w" "events ?v = events w"
    by (simp_all add: s)
  moreover have "d_Flags d = flags" "d_Handle d = handle" "d_Number d = num" by (simp_all add: d_def)
  ultimately show ?thesis
    unfolding if_P [OF True] using q by (intro exI [of _ ?v] exI [of _ "fst s"]) (simp add: s(4) d_def)
next
  case False
  show ?thesis
    unfolding if_not_P [OF False] using False assms(3,4)
    by (auto simp: data_b3_req_def Let_def free_xbuffer_def)
qed

text \<open>C23: The return code of a data request confirms exactly the oldest descriptor of the
  NCCI of its channel, if its buffer is the one the return code is for: the descriptor leaves
  the queue and the application gets one DATA_B3 confirmation with its number and handle,
  unless a delivery confirmation was requested. Then \<open>data_ack\<close> confirms the oldest entry of
  the acknowledge queue in the same way. The buffer itself is freed unless it is the one the
  adapter is still sending.\<close>

theorem data_rc_confirms_oldest:
  assumes "n = ch_ncci w ch" and "n \<noteq> 0" and "ncci_plci w n = pl_Id (plci w p)" and "pl_appl (plci w p) \<noteq> 0"
    and "b3_ok (ncci w n)" and "b3_list (ncci w n) = d # ds" and "ncci_state w n \<noteq> 0"
  shows "let v = data_rc p ch (d_P d) w; conf = (\<lambda>num h. Sendf (pl_appl (plci w p)) (DATA_B3_R OR CAPI_CONFIRM) (msg_id w p n) num [h, 0])
     in b3_list (ncci v n) = ds \<and> ack_list (ncci v n) = ack_list (ncci w n) \<and> b3_ok (ncci v n) \<and>
        events v = events w @ (if bit (d_Flags d) 2 then [] else [conf (d_Number d) (d_Handle d)]) \<and>
        appl v = appl (if data_sent (plci w p) \<and> d_P d = data_sent_ptr (plci w p) then w
                       else free_xbuffer (pl_appl (plci w p)) (d_P d) w) \<and>
        (\<forall>k ks. ack_list (ncci w n) = k # ks \<longrightarrow>
           (let u = data_ack p ch w in ack_list (ncci u n) = ks \<and> b3_list (ncci u n) = d # ds \<and> b3_ok (ncci u n) \<and>
              events u = events w @ [conf (k_Number k) (k_Handle k)]))"
proof -
  have pend: "data_pending (ncci w n) \<noteq> 0" using assms(6) by (metis b3_list_def list.distinct(1) ring8_0)
  note dd = drop_data_lists [OF assms(5) pend]
  have d: "DBuffer (ncci w n) (data_out (ncci w n)) = d" "b3_list (drop_data (ncci w n)) = ds" using dd(1) assms(6) by simp_all
  let ?w1 = "if data_sent (plci w p) \<and> d_P d = data_sent_ptr (plci w p) then w else free_xbuffer (pl_appl (plci w p)) (d_P d) w"
  have w1: "ncci ?w1 = ncci w" "events ?w1 = events w" by (simp_all add: free_xbuffer_def)
  have v: "data_rc p ch (d_P d) w = upd_ncci n drop_data (if bit (d_Flags d) 2 then ?w1
      else emit (Sendf (pl_appl (plci w p)) (DATA_B3_R OR CAPI_CONFIRM) (msg_id w p n) (d_Number d) [d_Handle d, 0]) ?w1)"
    using assms(2-4,7) pend by (auto simp: data_rc_def Let_def assms(1) [symmetric] d(1))
  have ack: "let u = data_ack p ch w in ack_list (ncci u n) = ks \<and> b3_list (ncci u n) = d # ds \<and> b3_ok (ncci u n) \<and>
      events u = events w @ [Sendf (pl_appl (plci w p)) (DATA_B3_R OR CAPI_CONFIRM) (msg_id w p n) (k_Number k) [k_Handle k, 0]]"
    if k: "ack_list (ncci w n) = k # ks" for k ks
  proof -
    have ap: "data_ack_pending (ncci w n) \<noteq> 0" using k by (metis ack_list_def list.distinct(1) ring8_0)
    note da = drop_ack_lists [OF assms(5) ap]
    have "DataAck (ncci w n) (data_ack_out (ncci w n)) = k" "ack_list (drop_ack (ncci w n)) = ks" using da(1) k by simp_all
    then show ?thesis using da(2,3) assms(3,6,7) ap by (simp add: data_ack_def Let_def assms(1) [symmetric])
  qed
  show ?thesis unfolding Let_def v using dd(2,3) d(2) ack [unfolded Let_def] by (simp add: w1)
qed

text \<open>An adapter with NCCI 3 of PLCI 1 connected on channel 5 and one descriptor queued.\<close>

definition data_capi :: capi where
  "data_capi = (upd_plci 1 (\<lambda>P. P\<lparr>ncci_ring_list := 3, NL_Id := 33\<rparr>) idle_capi)
     \<lparr>ncci_plci := (\<lambda>_. 0)(3 := 1), ncci_state := (\<lambda>_. 0)(3 := CONNECTED), ncci_ch := (\<lambda>_. 0)(3 := 5),
      ch_ncci := (\<lambda>_. 0)(5 := 3), ncci_next := (\<lambda>_. 0)(3 := 3),
      ncci := (\<lambda>_. \<lparr>data_out = 7, data_pending = 1, data_ack_out = 0, data_ack_pending = 0,
        DBuffer = (\<lambda>_. \<lparr>d_Handle = 9, d_Number = 77, d_Flags = 1, d_Length = 100, d_P = 2\<rparr>),
        DataAck = (\<lambda>_. \<lparr>k_Handle = 0, k_Number = 0\<rparr>)\<rparr>)\<rparr>"

abbreviation (input) data_desc :: data_b3_desc where
  "data_desc \<equiv> \<lparr>d_Handle = 9, d_Number = 77, d_Flags = 1, d_Length = 100, d_P = 2\<rparr>"

lemma data_capi:
  "b3_ok (ncci data_capi 3)" "data_room (ncci data_capi 3)" "b3_list (ncci data_capi 3) = [data_desc]"
  "ncci_state data_capi 3 = CONNECTED" "ncci_plci data_capi 3 = 1" "ch_ncci data_capi 5 = 3"
  "ncci_ring_list (plci data_capi 1) = 3" "nl_req (plci data_capi 1) = 0" "pl_appl (plci data_capi 1) = 1"
  "pl_Id (plci data_capi 1) = 1" "NL_Id (plci data_capi 1) = 33" "B2_prot (plci data_capi 1) = 0"
  "dtmf_recv_on (plci data_capi 1) = False" "ncci_ch data_capi 3 = 5" "events data_capi = []"
  "data_sent (plci data_capi 1) = False" "ncci_next data_capi = (\<lambda>_. 0)(3 := 3)" "ch_flow_control data_capi = (\<lambda>_. 0)"
  by (simp_all add: data_capi_def b3_ok_def data_room_def b3_list_def ring8_def upd_plci_def)

theorem send_data_sends_oldest_witness:
  "\<exists>w'. send_data 1 data_capi = Some w' \<and>
     events w' = [NL_request 33 0x18 5 (TxBuffer 2 100)] \<and> data_sent_ptr (plci w' 1) = 2"
proof -
  have c: "cring (ncci_next data_capi) (ncci_ring_list (plci data_capi 1)) ([] @ 3 # [])"
    by (simp add: data_capi cring_def del: One_nat_def)
  have f: "\<not> fc_blocked data_capi 3" "may_send data_capi 1 3"
    by (simp_all add: fc_blocked_def may_send_def data_capi del: One_nat_def)
  have q: "data_request (plci data_capi 1) data_desc = (0x18, TxBuffer 2 100)"
    by (simp add: data_request_def is_V120_def data_req_code_def data_capi del: One_nat_def)
  note t = send_data_sends_oldest [OF c data_capi(8) _ f(1) data_capi(3,1) f(2), unfolded q]
  show ?thesis using t by (auto simp: data_capi is_V120_def simp del: One_nat_def)
qed

theorem data_b3_req_queues_witness:
  "\<exists>v. data_b3_req (\<lambda>_. False) 0x30101 8 1 1 0x4000 64 10 4 data_capi = send_data 1 v \<and>
     length (b3_list (ncci v 3)) = 2 \<and> ack_list (ncci v 3) = [\<lparr>k_Handle = 10, k_Number = 8\<rparr>]"
proof -
  have n: "3 = id_ncci 0x30101" by (simp add: id_ncci_def)
  have a: "ack_list (ncci data_capi 3) = []" by (simp add: ack_list_def data_capi_def)
  show ?thesis
    using data_b3_req_queues [OF data_capi(1,2) n one_neq_zero, where p = 1 and in_queue = "\<lambda>_. False"
        and num = 8 and dat = "0x4000" and len = 64 and handle = 10 and flags = 4]
    by (auto simp: data_capi a bit_simps simp del: One_nat_def)
qed

theorem data_rc_confirms_oldest_witness:
  "events (data_rc 1 5 2 data_capi) = [Sendf 1 0x8186 0x30101 77 [9, 0]] \<and> b3_list (ncci (data_rc 1 5 2 data_capi) 3) = []"
proof -
  have i: "msg_id data_capi 1 3 = 0x30101"
    by (simp add: msg_id_def data_capi_def upd_plci_def idle_plci_def push_bit_eq_mult)
  show ?thesis
    using data_rc_confirms_oldest [of 3 data_capi 5 1 data_desc "[]"]
    by (simp add: data_capi i Let_def bit_simps del: One_nat_def)
qed

end
