(* ===== verification/CapiB3.thy ===== *)
theory CapiB3
  imports CapiData
begin

text \<open>
  The functions of \<open>kernel/message.c\<close> for the state of a B3 connection: the responses that
  activate it (\<open>connect_b3_a_res\<close>, \<open>connect_b3_t90_a_res\<close>), the requests that end or reset it
  (\<open>disconnect_b3_req\<close>, \<open>reset_b3_req\<close>) and the response to a reset (\<open>reset_b3_res\<close>). The
  parameters of a message arrive parsed: a structure is its length and the position of its
  length byte in the message \<open>m\<close>. A function returns whether a request is to be sent.
  \<open>start_internal_command\<close> is recorded as the event \<open>InternalCommand\<close>.
\<close>

abbreviation (input) OUTG_CON_PENDING :: nat where "OUTG_CON_PENDING \<equiv> 1"
abbreviation (input) INC_CON_PENDING :: nat where "INC_CON_PENDING \<equiv> 2"
abbreviation (input) OUTG_DIS_PENDING :: nat where "OUTG_DIS_PENDING \<equiv> 8"
abbreviation (input) INC_DIS_PENDING :: nat where "INC_DIS_PENDING \<equiv> 9"
abbreviation (input) INC_RES_PENDING :: nat where "INC_RES_PENDING \<equiv> 11"
abbreviation (input) INC_CON_CONNECTED_PEND :: nat where "INC_CON_CONNECTED_PEND \<equiv> 17"
abbreviation (input) INC_CON_CONNECTED_ALERT :: nat where "INC_CON_CONNECTED_ALERT \<equiv> 18"

abbreviation (input) B3_TRANSPARENT :: nat where "B3_TRANSPARENT \<equiv> 0"
abbreviation (input) B3_ISO8208 :: nat where "B3_ISO8208 \<equiv> 2"
abbreviation (input) B3_X25_DCE :: nat where "B3_X25_DCE \<equiv> 3"
abbreviation (input) B3_T30 :: nat where "B3_T30 \<equiv> 4"

abbreviation (input) N_CONNECT_ACK :: nat where "N_CONNECT_ACK \<equiv> 3"
abbreviation (input) N_RESET :: nat where "N_RESET \<equiv> 6"
abbreviation (input) N_RESET_ACK :: nat where "N_RESET_ACK \<equiv> 7"
abbreviation (input) N_D_BIT :: nat where "N_D_BIT \<equiv> 0x40"

abbreviation (input) T30_CONTROL_BIT_MORE_DOCUMENTS :: nat where "T30_CONTROL_BIT_MORE_DOCUMENTS \<equiv> 0x0100"
abbreviation (input) T30_CONTROL2_BIT_REQUEST_PRI :: nat where "T30_CONTROL2_BIT_REQUEST_PRI \<equiv> 0x0200"
abbreviation (input) RESET_B3_R :: nat where "RESET_B3_R \<equiv> 0x8087"
abbreviation (input) RESET_NOT_SUPPORTED :: nat where "RESET_NOT_SUPPORTED \<equiv> 0x300d"

section \<open>Activation\<close>

definition set_ncci_state :: "nat \<Rightarrow> nat \<Rightarrow> capi \<Rightarrow> capi" where
  "set_ncci_state n st w = w\<lparr>ncci_state := (ncci_state w)(n := st)\<rparr>"

definition connect_b3_a_res :: "nat \<Rightarrow> nat \<Rightarrow> capi \<Rightarrow> (bool \<times> capi) option" where
  "connect_b3_a_res msgid p w =
     (let n = id_ncci msgid
      in if p \<noteq> 0 \<and> n \<noteq> 0 \<and> pl_State (plci w p) \<noteq> IDLE \<and> pl_State (plci w p) \<noteq> INC_DIS_PENDING \<and>
            pl_State (plci w p) \<noteq> OUTG_DIS_PENDING \<and> ncci_state w n = INC_ACT_PENDING then
           let w1 = set_ncci_state n CONNECTED w;
               w2 = (if pl_State (plci w1 p) \<noteq> INC_CON_CONNECTED_PEND \<and> pl_State (plci w1 p) \<noteq> INC_CON_CONNECTED_ALERT
                     then upd_plci p (\<lambda>P. P\<lparr>pl_State := CONNECTED\<rparr>) w1 else w1)
           in map_option (\<lambda>w3. (False, w3)) (channel_xmit_xon p (channel_request_xon (ncci_ch w2 n) w2))
         else Some (False, w))"

text \<open>\<open>ncpi\<close> is the second parameter; \<open>ext\<close> tells that the first one is there.\<close>

definition connect_b3_t90_a_res :: "nat \<Rightarrow> nat \<Rightarrow> bool \<Rightarrow> nat \<Rightarrow> nat \<Rightarrow> mem \<Rightarrow> capi \<Rightarrow> bool \<times> capi" where
  "connect_b3_t90_a_res msgid p ext len at m w =
     (let n = id_ncci msgid
      in if p \<noteq> 0 \<and> n \<noteq> 0 \<and> ncci_state w n = INC_ACT_PENDING then (False, set_ncci_state n CONNECTED w)
         else if p \<noteq> 0 \<and> n \<noteq> 0 \<and> ncci_state w n = INC_CON_PENDING then
           let w1 = set_ncci_state n CONNECTED w;
               req = (if ext \<and> len > 2 \<and> bit (m (at + 1)) 0 then N_CONNECT_ACK OR N_D_BIT else N_CONNECT_ACK);
               w2 = (if ext \<and> len > 2 then upd_plci p (add_d (rd_bytes m (at + 4) (len - 3))) w1 else w1)
           in (True, nl_req_ncci p req (n mod 256) w2)
         else (False, w))"

section \<open>disconnect_b3_req\<close>

definition fax_disconnect_bits :: "nat \<Rightarrow> nat \<Rightarrow> nat \<Rightarrow> mem \<Rightarrow> capi \<Rightarrow> capi" where
  "fax_disconnect_bits p len at m w =
     (if B3_prot (plci w p) = B3_T30_WITH_EXTENSIONS then
        upd_plci p (\<lambda>P. P\<lparr>
          fax_control_bits := (if len \<ge> 4 \<and> bit (rd16 m (at + 3)) 2 \<and> bit (manufacturer_features w) 1
                               then fax_control_bits P OR T30_CONTROL_BIT_MORE_DOCUMENTS else fax_control_bits P),
          fax_feature_bits := (if len \<ge> 6 \<and> bit (rd16 m (at + 5)) 8 \<and> bit (private_options w) 8
                               then fax_feature_bits P OR T30_CONTROL2_BIT_REQUEST_PRI else fax_feature_bits P)\<rparr>) w
      else w)"

definition defers_disconnect :: "plci_data \<Rightarrow> bool" where
  "defers_disconnect P \<longleftrightarrow> B3_prot P = B3_TRANSPARENT \<or> B3_prot P = B3_T30 \<or> B3_prot P = B3_T30_WITH_EXTENSIONS"

definition disconnect_now :: "nat \<Rightarrow> nat \<Rightarrow> nat \<Rightarrow> nat \<Rightarrow> nat \<Rightarrow> mem \<Rightarrow> capi \<Rightarrow> bool \<times> capi" where
  "disconnect_now msgid p n len at m w =
     (let w1 = cleanup_ncci_data p n w; P = plci w1 p
      in if B3_prot P = B3_ISO8208 \<or> B3_prot P = B3_X25_DCE then
           (True, nl_req_ncci p N_DISC (n mod 256)
             (if len > 3 then upd_plci p (add_d (rd_bytes m (at + 4) (len - 3))) w1 else w1))
         else if B3_prot P = B3_T30_WITH_EXTENSIONS then (False, emit (InternalCommand p msgid Fax_disconnect_info) w1)
         else (True, nl_req_ncci p N_DISC (n mod 256) w1))"

definition disconnect_b3_req :: "nat \<Rightarrow> nat \<Rightarrow> nat \<Rightarrow> nat \<Rightarrow> nat \<Rightarrow> nat \<Rightarrow> mem \<Rightarrow> capi \<Rightarrow> (bool \<times> capi) option" where
  "disconnect_b3_req msgid Number p x len at m w =
     (let n = id_ncci msgid
      in if p \<noteq> 0 \<and> n \<noteq> 0 \<and> ncci_state w n \<in> {CONNECTED, OUTG_CON_PENDING, INC_CON_PENDING, INC_ACT_PENDING} then
           map_option
             (\<lambda>w1.
                let w2 = fax_disconnect_bits p len at m w1
                in if data_pending (ncci w2 n) \<noteq> 0 \<and> defers_disconnect (plci w2 p)
                   then (False, upd_plci p (\<lambda>P. P\<lparr>send_disc := n mod 256, command := 0\<rparr>) w2)
                   else disconnect_now msgid p n len at m w2)
             (channel_xmit_xon p (channel_request_xon (ncci_ch w n) (set_ncci_state n OUTG_DIS_PENDING w)))
         else Some (False, emit (Sendf x (DISCONNECT_B3_R OR CAPI_CONFIRM) msgid Number
           [if p \<noteq> 0 \<and> n \<noteq> 0 then WRONG_STATE else WRONG_IDENTIFIER]) w))"

section \<open>Reset\<close>

partial_function (option) flush_data :: "nat \<Rightarrow> nat \<Rightarrow> capi \<Rightarrow> capi option" where
  "flush_data p n w =
     (if data_pending (ncci w n) \<noteq> 0
      then flush_data p n (data_rc p (ncci_ch w n) (d_P (DBuffer (ncci w n) (data_out (ncci w n)))) w)
      else Some w)"

partial_function (option) flush_acks :: "nat \<Rightarrow> nat \<Rightarrow> capi \<Rightarrow> capi option" where
  "flush_acks p n w =
     (if data_ack_pending (ncci w n) \<noteq> 0 then flush_acks p n (data_ack p (ncci_ch w n) w) else Some w)"

definition reset_transparent :: "nat \<Rightarrow> nat \<Rightarrow> nat \<Rightarrow> capi \<Rightarrow> capi option" where
  "reset_transparent msgid p n w =
     (if bit (manufacturer_features2 w) 5 then
        (case flush_data p n w of
           None \<Rightarrow> None
         | Some w1 \<Rightarrow>
             (case flush_acks p n w1 of
                None \<Rightarrow> None
              | Some w2 \<Rightarrow> map_option (emit (InternalCommand p msgid Reset_b3_n_reset))
                            (send_req p (nl_req_ncci p N_RESET (n mod 256) w2))))
      else Some (emit (InternalCommand p msgid Reset_b3) w))"

definition reset_b3_req :: "nat \<Rightarrow> nat \<Rightarrow> nat \<Rightarrow> nat \<Rightarrow> capi \<Rightarrow> (bool \<times> capi) option" where
  "reset_b3_req msgid Number p x w =
     (let n = id_ncci msgid; B = B3_prot (plci w p);
          confirm = (\<lambda>Info w1. (False, emit (Sendf x (RESET_B3_R OR CAPI_CONFIRM) msgid Number [Info]) w1))
      in if p \<noteq> 0 \<and> n \<noteq> 0 then
           (if B = B3_ISO8208 \<or> B = B3_X25_DCE then
              (if ncci_state w n = CONNECTED then map_option (confirm 0) (send_req p (nl_req_ncci p N_RESET (n mod 256) w))
               else Some (confirm WRONG_STATE w))
            else if B = B3_TRANSPARENT then
              (if ncci_state w n = CONNECTED then map_option (confirm 0) (reset_transparent msgid p n w)
               else Some (confirm WRONG_STATE w))
            else Some (confirm RESET_NOT_SUPPORTED w))
         else Some (confirm WRONG_IDENTIFIER w))"

definition reset_b3_res :: "nat \<Rightarrow> nat \<Rightarrow> capi \<Rightarrow> bool \<times> capi" where
  "reset_b3_res msgid p w =
     (let n = id_ncci msgid; B = B3_prot (plci w p)
      in if p \<noteq> 0 \<and> n \<noteq> 0 \<and> (B = B3_ISO8208 \<or> B = B3_X25_DCE \<or> B = B3_TRANSPARENT) \<and> ncci_state w n = INC_RES_PENDING
         then (True, nl_req_ncci p N_RESET_ACK (n mod 256) (set_ncci_state n CONNECTED w))
         else (False, w))"


section \<open>What the functions leave alone\<close>

definition same_tables :: "capi \<Rightarrow> capi \<Rightarrow> bool" where
  "same_tables w v \<longleftrightarrow> plci v = plci w \<and> a_Id v = a_Id w \<and> ch_ncci v = ch_ncci w \<and> ncci_ch v = ncci_ch w \<and>
     ncci_plci v = ncci_plci w \<and> ncci_state v = ncci_state w \<and> ch_flow_next v = ch_flow_next w \<and>
     ch_flow_control v = ch_flow_control w \<and> ch_flow_plci v = ch_flow_plci w \<and> feature_xonoff v = feature_xonoff w \<and>
     adapter_disabled v = adapter_disabled w"

lemma same_tablesD:
  assumes "same_tables w v"
  shows "plci v = plci w" "a_Id v = a_Id w" "ch_ncci v = ch_ncci w" "ncci_ch v = ncci_ch w"
    "ncci_plci v = ncci_plci w" "ncci_state v = ncci_state w"
  using assms by (simp_all add: same_tables_def)

lemma same_tables_trans: "same_tables w v \<Longrightarrow> same_tables v u \<Longrightarrow> same_tables w u"
  by (simp add: same_tables_def)

lemma data_rc_tables: "same_tables w (data_rc p ch ptr w)"
  by (simp add: same_tables_def data_rc_def Let_def free_xbuffer_def)

lemma data_ack_tables: "same_tables w (data_ack p ch w)"
  by (simp add: same_tables_def data_ack_def Let_def)

lemma set_ncci_state_simps [simp]:
  "ncci_state (set_ncci_state n st w) = (ncci_state w)(n := st)" "ncci (set_ncci_state n st w) = ncci w"
  "plci (set_ncci_state n st w) = plci w" "ncci_ch (set_ncci_state n st w) = ncci_ch w"
  "events (set_ncci_state n st w) = events w"
  by (simp_all add: set_ncci_state_def)

lemma find_pending_cases:
  assumes "find_channel_with_pending_x_on p w = Some (ch, u)"
  shows "u = w \<or> (\<exists>i. u = upd_plci p (\<lambda>q. q\<lparr>ch_flow_ring_list := i\<rparr>) w)"
  using assms by (auto simp: find_channel_with_pending_x_on_def Let_def split: if_splits option.splits)

lemma send_xon_frame [simp]:
  "ncci_state (send_xon p ch w) = ncci_state w" "ncci (send_xon p ch w) = ncci w" "ncci_plci (send_xon p ch w) = ncci_plci w"
  "ch_ncci (send_xon p ch w) = ch_ncci w" "ncci_ch (send_xon p ch w) = ncci_ch w" "a_Id (send_xon p ch w) = a_Id w"
  "events (send_xon p ch w) = events w @ [NL_request (NL_Id (plci w p)) N_XON ch (Bytes [])]"
  "plci (send_xon p ch w) = (plci w)(p := (plci w p)\<lparr>nl_req := N_XON, NL_ReqCh := ch\<rparr>)"
  by (simp_all add: send_xon_def set_flow_control_def)

lemma channel_xmit_xon_cases:
  assumes "channel_xmit_xon p w = Some v"
  shows "\<exists>u. (u = w \<or> (\<exists>i. u = upd_plci p (\<lambda>q. q\<lparr>ch_flow_ring_list := i\<rparr>) w)) \<and> (v = u \<or> (\<exists>ch. v = send_xon p ch u))"
proof (cases "v = w")
  case False
  then obtain ch u where u: "find_channel_with_pending_x_on p w = Some (ch, u)"
    "v = (if ch mod 256 = 0 then u else send_xon p (ch mod 256) u)"
  proof -
    have "map_option (\<lambda>(ch, w'). if ch mod 256 = 0 then w' else send_xon p (ch mod 256) w')
        (find_channel_with_pending_x_on p w) = Some v"
      using assms False unfolding channel_xmit_xon_def by (metis option.inject)
    then show ?thesis using that by (cases "find_channel_with_pending_x_on p w") auto
  qed
  show ?thesis using find_pending_cases [OF u(1)] u(2) by (intro exI [of _ u]) auto
qed blast

lemma channel_xmit_xon_frame:
  assumes "channel_xmit_xon p w = Some v"
  shows "ncci_state v = ncci_state w" "ncci v = ncci w" "ncci_plci v = ncci_plci w" "ch_ncci v = ch_ncci w"
    "ncci_ch v = ncci_ch w" "pl_appl (plci v p) = pl_appl (plci w p)" "pl_Id (plci v p) = pl_Id (plci w p)"
    "B3_prot (plci v p) = B3_prot (plci w p)" "a_Id v = a_Id w" "\<exists>e. events v = events w @ e"
proof -
  obtain u where u: "u = w \<or> (\<exists>i. u = upd_plci p (\<lambda>q. q\<lparr>ch_flow_ring_list := i\<rparr>) w)" "v = u \<or> (\<exists>ch. v = send_xon p ch u)"
    using channel_xmit_xon_cases [OF assms] by blast
  have f: "ncci_state u = ncci_state w" "ncci u = ncci w" "ncci_plci u = ncci_plci w" "ch_ncci u = ch_ncci w"
    "ncci_ch u = ncci_ch w" "pl_appl (plci u p) = pl_appl (plci w p)" "pl_Id (plci u p) = pl_Id (plci w p)"
    "B3_prot (plci u p) = B3_prot (plci w p)" "a_Id u = a_Id w" "events u = events w"
    using u(1) by auto
  show "ncci_state v = ncci_state w" "ncci v = ncci w" "ncci_plci v = ncci_plci w" "ch_ncci v = ch_ncci w"
    "ncci_ch v = ncci_ch w" "pl_appl (plci v p) = pl_appl (plci w p)" "pl_Id (plci v p) = pl_Id (plci w p)"
    "B3_prot (plci v p) = B3_prot (plci w p)" "a_Id v = a_Id w" "\<exists>e. events v = events w @ e"
    using u(2) by (auto simp: f)
qed

lemma channel_request_xon_frame [simp]:
  "ncci_state (channel_request_xon ch w) = ncci_state w" "ncci (channel_request_xon ch w) = ncci w"
  "plci (channel_request_xon ch w) = plci w" "events (channel_request_xon ch w) = events w"
  "ncci_plci (channel_request_xon ch w) = ncci_plci w" "ch_ncci (channel_request_xon ch w) = ch_ncci w"
  "ncci_ch (channel_request_xon ch w) = ncci_ch w"
  by (simp_all add: channel_request_xon_def set_flow_control_def)

lemma nl_req_ncci_frame [simp]:
  "ncci_state (nl_req_ncci p req n w) = ncci_state w" "ncci (nl_req_ncci p req n w) = ncci w"
  "events (nl_req_ncci p req n w) = events w"
  by (simp_all add: nl_req_ncci_def)

lemma send_head_frame [simp]:
  "ncci_state (send_head p w) = ncci_state w" "ncci (send_head p w) = ncci w" "\<exists>e. events (send_head p w) = events w @ e"
  by (simp_all add: send_head_def Let_def)

lemma send_req_frame:
  assumes "send_req p w = Some v"
  shows "ncci_state v = ncci_state w" "ncci v = ncci w" "\<exists>e. events v = events w @ e"
proof -
  have "v = w \<or> (\<exists>u. channel_xmit_xon p w = Some u \<and> (v = u \<or> v = send_head p u))"
    using assms by (auto simp: send_req_def split: if_splits)
  then have "ncci_state v = ncci_state w \<and> ncci v = ncci w \<and> (\<exists>e. events v = events w @ e)"
  proof (elim disjE exE conjE)
    fix u assume u: "channel_xmit_xon p w = Some u" "v = send_head p u"
    obtain e where "events (send_head p u) = events u @ e" using send_head_frame(3) by blast
    then show ?thesis using channel_xmit_xon_frame(1,2,10) [OF u(1)] u(2) by auto
  qed (simp_all add: channel_xmit_xon_frame)
  then show "ncci_state v = ncci_state w" "ncci v = ncci w" "\<exists>e. events v = events w @ e" by simp_all
qed

lemma send_data_step_state: "ncci_state (send_data_step p n w) = ncci_state w"
  by (simp add: send_data_step_def send_packet_def send_disconnect_def Let_def split: prod.splits)

lemma send_data_loop_state: "send_data_loop p i w = Some v \<Longrightarrow> ncci_state v = ncci_state w"
  by (erule send_data_loop.raw_induct [of "\<lambda>p i w v. ncci_state v = ncci_state w", rotated])
    (auto simp: Let_def send_data_step_state split: if_splits)

lemma send_data_state: "send_data p w = Some v \<Longrightarrow> ncci_state v = ncci_state w"
  by (auto simp: send_data_def dest: send_data_loop_state split: if_splits)

lemma same_tables_refl [simp]: "same_tables w w"
  by (simp add: same_tables_def)

lemma flush_data_tables: "flush_data p n w = Some v \<Longrightarrow> same_tables w v"
proof (erule flush_data.raw_induct [of "\<lambda>p n w v. same_tables w v", rotated], goal_cases)
  case (1 flush p n w v)
  let ?u = "data_rc p (ncci_ch w n) (d_P (DBuffer (ncci w n) (data_out (ncci w n)))) w"
  show ?case
  proof (cases "data_pending (ncci w n) = 0")
    case False
    then have "same_tables ?u v" using 1 by simp
    with data_rc_tables show ?thesis by (rule same_tables_trans)
  qed (use 1(2) in simp)
qed

lemma flush_acks_tables: "flush_acks p n w = Some v \<Longrightarrow> same_tables w v"
proof (erule flush_acks.raw_induct [of "\<lambda>p n w v. same_tables w v", rotated], goal_cases)
  case (1 flush p n w v)
  let ?u = "data_ack p (ncci_ch w n) w"
  show ?case
  proof (cases "data_ack_pending (ncci w n) = 0")
    case False
    then have "same_tables ?u v" using 1 by simp
    with data_ack_tables show ?thesis by (rule same_tables_trans)
  qed (use 1(2) in simp)
qed

section \<open>Flushing\<close>

text \<open>A connection of the PLCI: the tables of the NCCI agree and its queues are sound.\<close>

definition b3_conn :: "nat \<Rightarrow> nat \<Rightarrow> capi \<Rightarrow> bool" where
  "b3_conn p n w \<longleftrightarrow> n \<noteq> 0 \<and> ncci_plci w n = pl_Id (plci w p) \<and> ch_ncci w (ncci_ch w n) = n \<and> ncci_state w n \<noteq> IDLE \<and>
     pl_appl (plci w p) \<noteq> 0 \<and> b3_ok (ncci w n)"

lemma b3_conn_tables: "b3_conn p n w \<Longrightarrow> same_tables w v \<Longrightarrow> b3_ok (ncci v n) \<Longrightarrow> b3_conn p n v"
  by (simp add: b3_conn_def same_tables_def)

lemma msg_id_tables: "same_tables w v \<Longrightarrow> msg_id v p n = msg_id w p n"
  by (simp add: msg_id_def same_tables_def)

text \<open>The confirmation of a request of the application of PLCI \<open>p\<close>.\<close>

definition b3_conf :: "capi \<Rightarrow> nat \<Rightarrow> nat \<Rightarrow> nat \<Rightarrow> nat \<Rightarrow> capi_event" where
  "b3_conf w p n num h = Sendf (pl_appl (plci w p)) (DATA_B3_R OR CAPI_CONFIRM) (msg_id w p n) num [h, 0]"

lemma b3_conf_tables: "same_tables w v \<Longrightarrow> b3_conf v p n num h = b3_conf w p n num h"
  by (simp add: b3_conf_def msg_id_tables) (simp add: same_tables_def)

definition data_confs :: "capi \<Rightarrow> nat \<Rightarrow> nat \<Rightarrow> data_b3_desc list \<Rightarrow> capi_event list" where
  "data_confs w p n ds = map (\<lambda>d. b3_conf w p n (d_Number d) (d_Handle d)) [d \<leftarrow> ds. \<not> bit (d_Flags d) 2]"

definition ack_confs :: "capi \<Rightarrow> nat \<Rightarrow> nat \<Rightarrow> data_ack_desc list \<Rightarrow> capi_event list" where
  "ack_confs w p n ks = map (\<lambda>k. b3_conf w p n (k_Number k) (k_Handle k)) ks"

lemma confs_tables:
  "same_tables w v \<Longrightarrow> data_confs v p n ds = data_confs w p n ds"
  "same_tables w v \<Longrightarrow> ack_confs v p n ks = ack_confs w p n ks"
  by (simp_all add: data_confs_def ack_confs_def b3_conf_tables)

lemma data_rc_step:
  assumes "b3_conn p n w" "b3_list (ncci w n) = d # ds"
  shows "let v = data_rc p (ncci_ch w n) (d_P d) w
     in same_tables w v \<and> b3_conn p n v \<and> b3_list (ncci v n) = ds \<and> ack_list (ncci v n) = ack_list (ncci w n) \<and>
        events v = events w @ data_confs w p n [d] \<and> (\<forall>m. m \<noteq> n \<longrightarrow> ncci v m = ncci w m)"
proof -
  have pend: "data_pending (ncci w n) \<noteq> 0" using assms(2) by (metis b3_list_def list.distinct(1) ring8_0)
  have c: "n \<noteq> 0" "ncci_plci w n = pl_Id (plci w p)" "ch_ncci w (ncci_ch w n) = n" "ncci_state w n \<noteq> 0"
    "pl_appl (plci w p) \<noteq> 0" "b3_ok (ncci w n)"
    using assms(1) by (simp_all add: b3_conn_def)
  note dd = drop_data_lists [OF c(6) pend]
  have d: "DBuffer (ncci w n) (data_out (ncci w n)) = d" "b3_list (drop_data (ncci w n)) = ds" using dd(1) assms(2) by simp_all
  let ?v = "data_rc p (ncci_ch w n) (d_P d) w"
  have v: "ncci ?v = (ncci w)(n := drop_data (ncci w n))" "events ?v = events w @ data_confs w p n [d]"
    using c pend d(1) by (auto simp: data_rc_def Let_def free_xbuffer_def data_confs_def b3_conf_def)
  show ?thesis
    unfolding Let_def using dd d v data_rc_tables [of w p "ncci_ch w n" "d_P d"]
    by (intro conjI b3_conn_tables [OF assms(1)]) auto
qed

lemma data_ack_step:
  assumes "b3_conn p n w" "ack_list (ncci w n) = k # ks"
  shows "let v = data_ack p (ncci_ch w n) w
     in same_tables w v \<and> b3_conn p n v \<and> b3_list (ncci v n) = b3_list (ncci w n) \<and> ack_list (ncci v n) = ks \<and>
        events v = events w @ ack_confs w p n [k] \<and> (\<forall>m. m \<noteq> n \<longrightarrow> ncci v m = ncci w m)"
proof -
  have pend: "data_ack_pending (ncci w n) \<noteq> 0" using assms(2) by (metis ack_list_def list.distinct(1) ring8_0)
  have c: "n \<noteq> 0" "ncci_plci w n = pl_Id (plci w p)" "ch_ncci w (ncci_ch w n) = n" "ncci_state w n \<noteq> 0"
    "b3_ok (ncci w n)"
    using assms(1) by (simp_all add: b3_conn_def)
  note dd = drop_ack_lists [OF c(5) pend]
  have d: "DataAck (ncci w n) (data_ack_out (ncci w n)) = k" "ack_list (drop_ack (ncci w n)) = ks" using dd(1) assms(2) by simp_all
  let ?v = "data_ack p (ncci_ch w n) w"
  have v: "ncci ?v = (ncci w)(n := drop_ack (ncci w n))" "events ?v = events w @ ack_confs w p n [k]"
    using c pend d(1) by (auto simp: data_ack_def Let_def ack_confs_def b3_conf_def)
  show ?thesis
    unfolding Let_def using dd d v data_ack_tables [of w p "ncci_ch w n"]
    by (intro conjI b3_conn_tables [OF assms(1)]) auto
qed

lemma flush_data_all:
  assumes "b3_conn p n w" "b3_list (ncci w n) = ds"
  shows "\<exists>v. flush_data p n w = Some v \<and> same_tables w v \<and> b3_conn p n v \<and> b3_list (ncci v n) = [] \<and>
     ack_list (ncci v n) = ack_list (ncci w n) \<and> events v = events w @ data_confs w p n ds \<and>
     (\<forall>m. m \<noteq> n \<longrightarrow> ncci v m = ncci w m)"
  using assms
proof (induction ds arbitrary: w)
  case Nil
  then have "data_pending (ncci w n) = 0" by (simp add: b3_list_def)
  then show ?case using Nil by (subst flush_data.simps) (simp add: data_confs_def)
next
  case (Cons d ds)
  have pend: "data_pending (ncci w n) \<noteq> 0" using Cons.prems(2) by (metis b3_list_def list.distinct(1) ring8_0)
  have b: "b3_ok (ncci w n)" using Cons.prems(1) by (simp add: b3_conn_def)
  have d: "DBuffer (ncci w n) (data_out (ncci w n)) = d" using drop_data_lists(1) [OF b pend] Cons.prems(2) by simp
  let ?u = "data_rc p (ncci_ch w n) (d_P d) w"
  note u = data_rc_step [OF Cons.prems, unfolded Let_def]
  obtain v where v: "flush_data p n ?u = Some v" "same_tables ?u v" "b3_conn p n v" "b3_list (ncci v n) = []"
    "ack_list (ncci v n) = ack_list (ncci ?u n)" "events v = events ?u @ data_confs ?u p n ds"
    "\<forall>m. m \<noteq> n \<longrightarrow> ncci v m = ncci ?u m"
    using Cons.IH [of ?u] u by blast
  have "flush_data p n w = Some v" using pend v(1) by (subst flush_data.simps) (simp add: d)
  moreover have "same_tables w v" using u v(2) by (blast intro: same_tables_trans)
  moreover have "events v = events w @ data_confs w p n (d # ds)"
    using u v(6) confs_tables(1) [of w ?u p n ds] by (simp add: data_confs_def)
  ultimately show ?case using u v by auto
qed

lemma flush_acks_all:
  assumes "b3_conn p n w" "ack_list (ncci w n) = ks"
  shows "\<exists>v. flush_acks p n w = Some v \<and> same_tables w v \<and> b3_conn p n v \<and> ack_list (ncci v n) = [] \<and>
     b3_list (ncci v n) = b3_list (ncci w n) \<and> events v = events w @ ack_confs w p n ks \<and>
     (\<forall>m. m \<noteq> n \<longrightarrow> ncci v m = ncci w m)"
  using assms
proof (induction ks arbitrary: w)
  case Nil
  then have "data_ack_pending (ncci w n) = 0" by (simp add: ack_list_def)
  then show ?case using Nil by (subst flush_acks.simps) (simp add: ack_confs_def)
next
  case (Cons k ks)
  have pend: "data_ack_pending (ncci w n) \<noteq> 0" using Cons.prems(2) by (metis ack_list_def list.distinct(1) ring8_0)
  let ?u = "data_ack p (ncci_ch w n) w"
  note u = data_ack_step [OF Cons.prems, unfolded Let_def]
  obtain v where v: "flush_acks p n ?u = Some v" "same_tables ?u v" "b3_conn p n v" "ack_list (ncci v n) = []"
    "b3_list (ncci v n) = b3_list (ncci ?u n)" "events v = events ?u @ ack_confs ?u p n ks"
    "\<forall>m. m \<noteq> n \<longrightarrow> ncci v m = ncci ?u m"
    using Cons.IH [of ?u] u by blast
  have "flush_acks p n w = Some v" using pend v(1) by (subst flush_acks.simps) simp
  moreover have "same_tables w v" using u v(2) by (blast intro: same_tables_trans)
  moreover have "events v = events w @ ack_confs w p n (k # ks)"
    using u v(6) confs_tables(2) [of w ?u p n ks] by (simp add: ack_confs_def)
  ultimately show ?case using u v by auto
qed

lemma channel_xmit_xon_returns:
  assumes "flow_ring w p"
  shows "\<exists>v. channel_xmit_xon p w = Some v"
proof -
  obtain xs where "cring (ch_flow_next w) (ch_flow_ring_list (plci w p)) xs" using assms by (auto simp: flow_ring_def)
  from ring_find_cring [OF this] show ?thesis
    by (auto simp: channel_xmit_xon_def find_channel_with_pending_x_on_def Let_def)
qed

lemma flow_ring_cong:
  assumes "ch_flow_next v = ch_flow_next w" "ch_flow_plci v = ch_flow_plci w" "ch_flow_ring_list (plci v p) = ch_flow_ring_list (plci w p)"
  shows "flow_ring v p = flow_ring w p"
  by (simp add: flow_ring_def assms)

lemma finish_req_flow [simp]:
  "ch_flow_ring_list (finish_req f r c P) = ch_flow_ring_list P"
  by (simp add: finish_req_def put_req_def Let_def)

lemma nl_req_ncci_flow [simp]:
  "ch_flow_next (nl_req_ncci p req n w) = ch_flow_next w" "ch_flow_plci (nl_req_ncci p req n w) = ch_flow_plci w"
  "ch_flow_ring_list (plci (nl_req_ncci p req n w) q) = ch_flow_ring_list (plci w q)"
  by (simp_all add: nl_req_ncci_def Let_def)

lemma send_req_returns: "flow_ring w p \<Longrightarrow> \<exists>v. send_req p w = Some v"
  using channel_xmit_xon_returns by (fastforce simp: send_req_def)

section \<open>Properties\<close>

text \<open>C5: A reset of a connected transparent connection, where the card supports it, confirms every
  DATA_B3 request still queued, oldest first (those with delivery confirmation are confirmed by
  their acknowledge entries behind them), leaves both queues empty and the connection connected,
  and ends: then the reset is sent, started as an internal command and confirmed to the application.
  Other NCCIs keep their queues.\<close>

theorem reset_b3_flushes:
  assumes "b3_conn p n w" and "n = id_ncci msgid" and "p \<noteq> 0" and "B3_prot (plci w p) = B3_TRANSPARENT"
    and "ncci_state w n = CONNECTED" and "bit (manufacturer_features2 w) 5" and "flow_ring w p"
  shows "\<exists>w' e. reset_b3_req msgid num p x w = Some (False, w') \<and>
     b3_list (ncci w' n) = [] \<and> ack_list (ncci w' n) = [] \<and> (\<forall>m. m \<noteq> n \<longrightarrow> ncci w' m = ncci w m) \<and>
     ncci_state w' = ncci_state w \<and>
     events w' = events w @ data_confs w p n (b3_list (ncci w n)) @ ack_confs w p n (ack_list (ncci w n)) @ e @
       [InternalCommand p msgid Reset_b3_n_reset, Sendf x (RESET_B3_R OR CAPI_CONFIRM) msgid num [0]]"
proof -
  obtain u where u: "flush_data p n w = Some u" "same_tables w u" "b3_conn p n u" "b3_list (ncci u n) = []"
    "ack_list (ncci u n) = ack_list (ncci w n)" "events u = events w @ data_confs w p n (b3_list (ncci w n))"
    "\<forall>m. m \<noteq> n \<longrightarrow> ncci u m = ncci w m"
    using flush_data_all [OF assms(1) refl] by blast
  obtain v where v: "flush_acks p n u = Some v" "same_tables u v" "ack_list (ncci v n) = []"
    "b3_list (ncci v n) = []" "events v = events u @ ack_confs w p n (ack_list (ncci w n))"
    "\<forall>m. m \<noteq> n \<longrightarrow> ncci v m = ncci w m"
    using flush_acks_all [OF u(3,5)] u(2,4,7) confs_tables(2) [OF u(2)] by auto
  have wv: "same_tables w v" using u(2) v(2) by (rule same_tables_trans)
  let ?v = "nl_req_ncci p N_RESET (n mod 256) v"
  have "flow_ring ?v p" using assms(7) wv by (subst flow_ring_cong [where w = w]) (simp_all add: same_tables_def)
  then obtain t where t: "send_req p ?v = Some t" using send_req_returns by blast
  note f = send_req_frame [OF t, simplified]
  from f(3) obtain e where e: "events t = events v @ e" by blast
  have "reset_transparent msgid p n w = Some (emit (InternalCommand p msgid Reset_b3_n_reset) t)"
    using assms(6) u(1) v(1) t by (simp add: reset_transparent_def)
  then have r: "reset_b3_req msgid num p x w = Some (False, emit (Sendf x (RESET_B3_R OR CAPI_CONFIRM) msgid num [0])
      (emit (InternalCommand p msgid Reset_b3_n_reset) t))" (is "_ = Some (False, ?r)")
    using assms(1-5) by (simp add: reset_b3_req_def Let_def b3_conn_def)
  have "ncci_state t = ncci_state w" using f(1) same_tablesD(6) [OF wv] by simp
  then show ?thesis
    using r f(2) v(3,4,5,6) u(6) e by (intro exI [of _ ?r] exI [of _ e]) simp
qed

section \<open>The states of an NCCI\<close>

text \<open>The steps of the message layer that concern B3 connections: the functions above and the data
  path. An NCCI that is being set up, in use or being reset may become connected or start to
  disconnect.\<close>

inductive b3_step :: "capi \<Rightarrow> capi \<Rightarrow> bool" where
  "connect_b3_a_res i p w = Some (r, v) \<Longrightarrow> b3_step w v"
| "connect_b3_t90_a_res i p ext len at m w = (r, v) \<Longrightarrow> b3_step w v"
| "disconnect_b3_req i num p x len at m w = Some (r, v) \<Longrightarrow> b3_step w v"
| "reset_b3_req i num p x w = Some (r, v) \<Longrightarrow> b3_step w v"
| "reset_b3_res i p w = (r, v) \<Longrightarrow> b3_step w v"
| "data_b3_req in_queue i num p x dat len handle flags w = Some v \<Longrightarrow> b3_step w v"
| "data_b3_res i p x num w = Some (r, v) \<Longrightarrow> b3_step w v"
| "v = data_rc p ch ptr w \<Longrightarrow> b3_step w v"
| "v = data_ack p ch w \<Longrightarrow> b3_step w v"
| "send_data p w = Some v \<Longrightarrow> b3_step w v"
| "send_req p w = Some v \<Longrightarrow> b3_step w v"

inductive ncci_trans :: "nat \<Rightarrow> nat \<Rightarrow> bool" where
  activated: "st \<in> {INC_ACT_PENDING, INC_CON_PENDING} \<Longrightarrow> ncci_trans st CONNECTED"
| reset_done: "ncci_trans INC_RES_PENDING CONNECTED"
| disconnecting: "st \<in> {CONNECTED, OUTG_CON_PENDING, INC_CON_PENDING, INC_ACT_PENDING} \<Longrightarrow> ncci_trans st OUTG_DIS_PENDING"

inductive_simps ncci_trans_from_dis: "ncci_trans OUTG_DIS_PENDING st"

lemma disconnect_now_state: "ncci_state (snd (disconnect_now i p n len at m w)) = ncci_state w"
  by (simp add: disconnect_now_def Let_def)

lemma disconnect_b3_req_state:
  assumes "disconnect_b3_req i num p x len at m w = Some (r, v)"
  shows "ncci_state v = ncci_state w \<or>
     ncci_state w (id_ncci i) \<in> {CONNECTED, OUTG_CON_PENDING, INC_CON_PENDING, INC_ACT_PENDING} \<and>
     ncci_state v = (ncci_state w)(id_ncci i := OUTG_DIS_PENDING)"
proof (cases "p \<noteq> 0 \<and> id_ncci i \<noteq> 0 \<and> ncci_state w (id_ncci i) \<in> {CONNECTED, OUTG_CON_PENDING, INC_CON_PENDING, INC_ACT_PENDING}")
  case True
  let ?n = "id_ncci i"
  obtain u where u: "channel_xmit_xon p (channel_request_xon (ncci_ch w ?n) (set_ncci_state ?n OUTG_DIS_PENDING w)) = Some u"
    "(r, v) = (let w2 = fax_disconnect_bits p len at m u
      in if data_pending (ncci w2 ?n) \<noteq> 0 \<and> defers_disconnect (plci w2 p)
         then (False, upd_plci p (\<lambda>P. P\<lparr>send_disc := ?n mod 256, command := 0\<rparr>) w2)
         else disconnect_now i p ?n len at m w2)"
    using assms unfolding disconnect_b3_req_def Let_def if_P [OF True] by auto
  have f: "ncci_state (fax_disconnect_bits p len at m u) = ncci_state u" by (simp add: fax_disconnect_bits_def)
  have "ncci_state v = ncci_state u"
    using u(2) disconnect_now_state [of i p ?n len at m "fax_disconnect_bits p len at m u"] f
    by (auto simp: Let_def split: if_splits dest: arg_cong [where f = snd])
  then show ?thesis using channel_xmit_xon_frame(1) [OF u(1)] True by simp
next
  case False
  then show ?thesis using assms unfolding disconnect_b3_req_def Let_def if_not_P [OF False] by auto
qed

lemma reset_transparent_state: "reset_transparent i p n w = Some v \<Longrightarrow> ncci_state v = ncci_state w"
proof -
  assume r: "reset_transparent i p n w = Some v"
  show ?thesis
  proof (cases "bit (manufacturer_features2 w) 5")
    case True
    with r obtain w1 w2 t where s: "flush_data p n w = Some w1" "flush_acks p n w1 = Some w2"
      "send_req p (nl_req_ncci p N_RESET (n mod 256) w2) = Some t" "ncci_state v = ncci_state t"
      by (auto simp: reset_transparent_def split: option.splits)
    have "ncci_state w1 = ncci_state w" "ncci_state w2 = ncci_state w1"
      using flush_data_tables [OF s(1)] flush_acks_tables [OF s(2)] by (simp_all add: same_tables_def)
    then show ?thesis using send_req_frame(1) [OF s(3)] s(4) by simp
  qed (use r in \<open>auto simp: reset_transparent_def\<close>)
qed

lemma b3_step_trans: "b3_step w v \<Longrightarrow> ncci_state v n = ncci_state w n \<or> ncci_trans (ncci_state w n) (ncci_state v n)"
proof (induction rule: b3_step.induct)
  case (1 i p w r v)
  then show ?case
    by (auto simp: connect_b3_a_res_def Let_def channel_xmit_xon_frame(1) intro!: ncci_trans.intros split: if_splits)
next
  case (2 i p ext len at m w r v)
  then show ?case
    by (auto simp: connect_b3_t90_a_res_def Let_def intro!: ncci_trans.intros split: if_splits)
next
  case (3 i num p x len at m w r v)
  then show ?case using disconnect_b3_req_state [OF 3] by (auto intro!: disconnecting)
next
  case (4 i num p x w r v)
  then have "ncci_state v = ncci_state w"
    by (auto simp: reset_b3_req_def Let_def reset_transparent_state dest: send_req_frame(1) split: if_splits)
  then show ?case by simp
next
  case (5 i p w r v)
  then show ?case by (auto simp: reset_b3_res_def Let_def intro!: reset_done split: if_splits)
next
  case (6 in_queue i num p x dat len handle flags w v)
  then have "ncci_state v = ncci_state w"
    by (auto simp: data_b3_req_def Let_def set_xbuffer_def free_xbuffer_def dest!: send_data_state split: if_splits prod.splits)
  then show ?case by simp
next
  case (7 i p x num w r v)
  then have "ncci_state v = ncci_state w"
    by (auto simp: data_b3_res_def Let_def release_receive_buffer_def dest!: channel_xmit_xon_frame(1) split: if_splits)
  then show ?case by simp
next
  case (8 v p ch ptr w)
  then show ?case by (simp add: same_tablesD(6) [OF data_rc_tables])
next
  case (9 v p ch w)
  then show ?case by (simp add: same_tablesD(6) [OF data_ack_tables])
next
  case (10 p w v)
  then show ?case by (simp add: send_data_state)
next
  case (11 p w v)
  then show ?case by (simp add: send_req_frame(1))
qed

text \<open>Whatever sequence of these operations is run, an NCCI changes its state only along the transitions
  of \<open>ncci_trans\<close>, and one that disconnects or is idle keeps its state. The other functions that set states are
  not among them: \<open>connect_b3_req\<close>, \<open>connect_b3_res\<close>, \<open>disconnect_b3_res\<close> and the indications make other
  transitions.\<close>

theorem ncci_state_path:
  assumes "b3_step\<^sup>*\<^sup>* w v"
  shows "ncci_trans\<^sup>*\<^sup>* (ncci_state w n) (ncci_state v n) \<and>
    (ncci_state w n \<in> {OUTG_DIS_PENDING, INC_DIS_PENDING, IDLE} \<longrightarrow> ncci_state v n = ncci_state w n)"
  using assms
proof (induction rule: rtranclp_induct)
  case base
  show ?case by simp
next
  case (step u v)
  note t = b3_step_trans [OF step.hyps(2), of n]
  have "ncci_trans\<^sup>*\<^sup>* (ncci_state w n) (ncci_state v n)"
    using t step.IH by (metis rtranclp.rtrancl_into_rtrancl)
  moreover have "ncci_state v n = ncci_state u n" if "ncci_state u n \<in> {OUTG_DIS_PENDING, INC_DIS_PENDING, IDLE}"
    using t that by (auto elim: ncci_trans.cases)
  ultimately show ?case using step.IH by auto
qed

section \<open>Examples\<close>

text \<open>The connection of \<open>data_capi\<close> on a card that can reset transparent connections.\<close>

definition reset_capi :: capi where
  "reset_capi = data_capi\<lparr>manufacturer_features2 := 0x20\<rparr>"

lemma reset_capi:
  "b3_conn 1 3 reset_capi" "B3_prot (plci reset_capi 1) = B3_TRANSPARENT" "ncci_state reset_capi 3 = CONNECTED"
  "bit (manufacturer_features2 reset_capi) 5" "b3_list (ncci reset_capi 3) = [data_desc]" "ack_list (ncci reset_capi 3) = []"
  "events reset_capi = []" "pl_appl (plci reset_capi 1) = 1"
proof -
  have f: "B3_prot (plci reset_capi 1) = 0" "data_ack_pending (ncci data_capi 3) = 0"
    by (simp_all add: reset_capi_def data_capi_def idle_plci_def)
  show "b3_conn 1 3 reset_capi" using data_capi by (simp add: b3_conn_def reset_capi_def)
  show "B3_prot (plci reset_capi 1) = B3_TRANSPARENT" by (rule f(1))
  show "bit (manufacturer_features2 reset_capi) 5" by (simp add: reset_capi_def bit_simps)
  show "ack_list (ncci reset_capi 3) = []" using f(2) by (simp add: ack_list_def reset_capi_def)
  show "ncci_state reset_capi 3 = CONNECTED" "b3_list (ncci reset_capi 3) = [data_desc]" "events reset_capi = []"
    "pl_appl (plci reset_capi 1) = 1" using data_capi by (simp_all add: reset_capi_def)
qed

lemma reset_capi_flow: "flow_ring reset_capi 1"
  by (auto simp: flow_ring_def reset_capi_def data_capi_def cring_def upd_plci_def intro: exI [of _ "[]"])

theorem reset_b3_flushes_witness:
  "\<exists>w' e. reset_b3_req 0x30101 9 1 1 reset_capi = Some (False, w') \<and> b3_list (ncci w' 3) = [] \<and>
     events w' = [Sendf 1 0x8186 0x30101 77 [9, 0]] @ e @
       [InternalCommand 1 0x30101 Reset_b3_n_reset, Sendf 1 0x8187 0x30101 9 [0]]"
proof -
  have n: "3 = id_ncci 0x30101" by (simp add: id_ncci_def)
  have i: "msg_id reset_capi 1 3 = 0x30101"
    by (simp add: msg_id_def reset_capi_def data_capi_def upd_plci_def idle_plci_def push_bit_eq_mult)
  have c: "data_confs reset_capi 1 3 [data_desc] = [Sendf 1 0x8186 0x30101 77 [9, 0]]" "ack_confs reset_capi 1 3 [] = []"
    by (simp_all add: data_confs_def ack_confs_def b3_conf_def i reset_capi(8) bit_simps del: One_nat_def)
  have r: "RESET_B3_R OR CAPI_CONFIRM = (0x8187 :: nat)" by simp
  from reset_b3_flushes [OF reset_capi(1) n _ reset_capi(2,3,4) reset_capi_flow, of 9 1, unfolded reset_capi(5-7) c r]
  show ?thesis by auto
qed

theorem ncci_state_path_witness:
  "ncci_trans\<^sup>*\<^sup>* INC_ACT_PENDING CONNECTED \<and>
   ncci_state (snd (connect_b3_t90_a_res 0x30101 1 False 0 0 (\<lambda>_. 0) (set_ncci_state 3 INC_ACT_PENDING data_capi))) 3 = CONNECTED"
proof -
  let ?w = "set_ncci_state 3 INC_ACT_PENDING data_capi"
  have c: "connect_b3_t90_a_res 0x30101 1 False 0 0 (\<lambda>_. 0) ?w = (False, set_ncci_state 3 CONNECTED ?w)"
    by (simp add: connect_b3_t90_a_res_def id_ncci_def Let_def)
  have "b3_step\<^sup>*\<^sup>* ?w (set_ncci_state 3 CONNECTED ?w)" by (rule r_into_rtranclp) (rule b3_step.intros(2) [OF c])
  from ncci_state_path [OF this, of 3] show ?thesis by (simp add: c del: One_nat_def)
qed

end
