(* ===== verification/MsgIn.thy ===== *)
theory MsgIn
  imports XBuffer Fifo
begin

text \<open>
  The queue of CAPI messages of a PLCI (\<open>msg_in_queue\<close> of \<open>kernel/divacapi.h\<close>, used in
  \<open>kernel/message.c\<close>): a message that cannot be processed is stored with a pointer to its
  application behind it and dispatched from the queue later. The queue is an array of
  \<open>MSG_IN_QUEUE_SIZE\<close> bytes with a read and a write position; a message that does not fit
  at the end goes to the start and the wrap position marks the end of the used part. Pointers
  have 8 bytes. A message is its bytes, the first two are its length; an application is a
  number, 0 is the null pointer. The loops over the queue are \<open>mi_loop\<close> with their body.
\<close>

abbreviation (input) MSG_IN_QUEUE_SIZE :: nat where "MSG_IN_QUEUE_SIZE \<equiv> 8192"
abbreviation (input) MSG_IN_OVERHEAD :: nat where "MSG_IN_OVERHEAD \<equiv> 8"
abbreviation (input) MAX_MSG_SIZE :: nat where "MAX_MSG_SIZE \<equiv> 2100"
abbreviation (input) DATA_B3_REQ :: nat where "DATA_B3_REQ \<equiv> 0x8086"

record msg_in =
  mi_mem :: mem
  mi_read :: nat
  mi_write :: nat
  mi_wrap :: nat

text \<open>Fields of a message at \<open>i\<close>.\<close>

definition msg_length :: "mem \<Rightarrow> nat \<Rightarrow> nat" where "msg_length m i = rd16 m i"
definition msg_command :: "mem \<Rightarrow> nat \<Rightarrow> nat" where "msg_command m i = rd16 m (i + 4)"
definition msg_ncci :: "mem \<Rightarrow> nat \<Rightarrow> nat" where "msg_ncci m i = rd16 m (i + 10)"
definition msg_data :: "mem \<Rightarrow> nat \<Rightarrow> nat" where "msg_data m i = rd32 m (i + 12)"
definition msg_flags :: "mem \<Rightarrow> nat \<Rightarrow> nat" where "msg_flags m i = rd16 m (i + 20)"

text \<open>A stored pointer.\<close>

definition rd_ptr :: "mem \<Rightarrow> nat \<Rightarrow> nat" where
  "rd_ptr m p = rd32 m p + 4294967296 * rd32 m (p + 4)"

definition wr_ptr :: "mem \<Rightarrow> nat \<Rightarrow> nat \<Rightarrow> mem" where
  "wr_ptr m p v = wr32 (wr32 m p v) (p + 4) (v div 4294967296)"

section \<open>Operations\<close>

definition msg_in_init :: "msg_in \<Rightarrow> msg_in" where
  "msg_in_init q = q\<lparr>mi_write := MSG_IN_QUEUE_SIZE, mi_read := MSG_IN_QUEUE_SIZE, mi_wrap := MSG_IN_QUEUE_SIZE\<rparr>"

text \<open>Where a message of \<open>len\<close> bytes would go, and the space the code counts for it.\<close>

definition msg_in_space :: "msg_in \<Rightarrow> nat \<Rightarrow> nat \<times> nat" where
  "msg_in_space q len =
     (let i = mi_read q; j = mi_write q
      in if j \<ge> i then
           if j + len + MSG_IN_OVERHEAD \<le> MSG_IN_QUEUE_SIZE then (j, MSG_IN_QUEUE_SIZE - j + 1) else (0, i)
         else
           let n = align_up 8 (msg_length (mi_mem q) 0 + MSG_IN_OVERHEAD);
               i' = (if i > MSG_IN_QUEUE_SIZE - n then MSG_IN_QUEUE_SIZE - n + 1 else i)
           in (j, if i' > j then i' - j else 0))"

definition msg_in_full :: "msg_in \<Rightarrow> nat \<Rightarrow> bool" where
  "msg_in_full q len \<longleftrightarrow> snd (msg_in_space q len) \<le> align_up 8 (len + MSG_IN_OVERHEAD)"

text \<open>Storing a message at \<open>j\<close>; the data pointer of a DATA_B3 request becomes the transmit
  buffer \<open>TransmitBufferSet\<close> returns.\<close>

definition msg_in_store :: "nat \<Rightarrow> nat \<Rightarrow> byte list \<Rightarrow> xbuffer_table \<Rightarrow> msg_in \<Rightarrow> xbuffer_table \<times> msg_in" where
  "msg_in_store j x msg t q =
     (let wp = (if j = 0 then mi_write q else mi_wrap q);
          m1 = wr_bytes (mi_mem q) j msg;
          (t1, m2) = (if msg_command m1 j = DATA_B3_REQ
                      then (snd (TransmitBufferSet t (msg_data m1 j)), wr32 m1 (j + 12) (fst (TransmitBufferSet t (msg_data m1 j))))
                      else (t, m1));
          k = align_up 8 (j + length msg)
      in (t1, q\<lparr>mi_wrap := wp, mi_mem := wr_ptr m2 k x, mi_write := k + MSG_IN_OVERHEAD\<rparr>))"

text \<open>Taking the next message out: its position, its application and the queue.\<close>

definition msg_in_next :: "msg_in \<Rightarrow> nat" where
  "msg_in_next q = (if mi_read q = mi_wrap q then 0 else mi_read q)"

definition msg_in_dequeue :: "msg_in \<Rightarrow> nat \<times> nat \<times> msg_in" where
  "msg_in_dequeue q =
     (let j = msg_in_next q; i = align_up 8 (msg_length (mi_mem q) j);
          x = rd_ptr (mi_mem q) (j + i);
          q1 = (if mi_read q = mi_wrap q then q\<lparr>mi_wrap := MSG_IN_QUEUE_SIZE, mi_read := i + MSG_IN_OVERHEAD\<rparr>
                else q\<lparr>mi_read := j + i + MSG_IN_OVERHEAD\<rparr>);
          q2 = (if mi_read q1 = mi_write q1 then q1\<lparr>mi_write := MSG_IN_QUEUE_SIZE, mi_read := MSG_IN_QUEUE_SIZE\<rparr>
                else if mi_read q1 = mi_wrap q1 then q1\<lparr>mi_read := MSG_IN_QUEUE_SIZE, mi_wrap := MSG_IN_QUEUE_SIZE\<rparr>
                else q1)
      in (j, x, q2))"

text \<open>The loop over the messages of a queue: \<open>body i j\<close> sees the position of a message and
  of the pointer behind it.\<close>

partial_function (option) mi_loop :: "('s \<Rightarrow> mem) \<Rightarrow> (nat \<Rightarrow> nat \<Rightarrow> 's \<Rightarrow> 's) \<Rightarrow> nat \<Rightarrow> nat \<Rightarrow> nat \<Rightarrow> 's \<Rightarrow> 's option" where
  "mi_loop get body wr wp i s =
     (if i \<noteq> wr then
        let i1 = (if i = wp then 0 else i); j = i1 + align_up 8 (msg_length (get s) i1)
        in mi_loop get body wr wp (j + MSG_IN_OVERHEAD) (body i1 j s)
      else Some s)"

definition count_data :: "nat \<Rightarrow> mem \<Rightarrow> nat \<Rightarrow> nat \<Rightarrow> nat \<times> nat \<Rightarrow> nat \<times> nat" where
  "count_data n m i j s =
     (if msg_command m i = DATA_B3_REQ \<and> msg_ncci m i = n
      then (fst s + 1, if bit (msg_flags m i) 2 then snd s + 1 else snd s) else s)"

definition count_queued_data :: "nat \<Rightarrow> msg_in \<Rightarrow> nat \<times> nat \<Rightarrow> (nat \<times> nat) option" where
  "count_queued_data n q s = mi_loop (\<lambda>_. mi_mem q) (count_data n (mi_mem q)) (mi_write q) (mi_wrap q) (mi_read q) s"

definition free_msg_body :: "mem \<Rightarrow> nat \<Rightarrow> nat \<Rightarrow> xbuffer_table \<Rightarrow> xbuffer_table" where
  "free_msg_body m i j t =
     (if rd_ptr m j \<noteq> 0 \<and> msg_command m i = DATA_B3_REQ then TransmitBufferFree t (msg_data m i) else t)"

definition plci_free_msg_in_queue :: "nat \<Rightarrow> xbuffer_table \<Rightarrow> msg_in \<Rightarrow> (xbuffer_table \<times> msg_in) option" where
  "plci_free_msg_in_queue plci_appl t q =
     map_option (\<lambda>t'. (t', msg_in_init q))
       (if plci_appl \<noteq> 0
        then mi_loop (\<lambda>_. mi_mem q) (free_msg_body (mi_mem q)) (mi_write q) (mi_wrap q) (mi_read q) t
        else Some t)"

definition free_appl_body :: "nat \<Rightarrow> nat \<Rightarrow> nat \<Rightarrow> xbuffer_table \<times> mem \<Rightarrow> xbuffer_table \<times> mem" where
  "free_appl_body x i j s =
     (if rd_ptr (snd s) j = x then
        (let m = wr_ptr (snd s) j 0
         in (if msg_command m i = DATA_B3_REQ then TransmitBufferFree (fst s) (msg_data m i) else fst s, m))
      else s)"

definition plci_free_queued_appl_msg :: "nat \<Rightarrow> xbuffer_table \<Rightarrow> msg_in \<Rightarrow> (xbuffer_table \<times> msg_in) option" where
  "plci_free_queued_appl_msg x t q =
     map_option (\<lambda>(t', m). (t', q\<lparr>mi_mem := m\<rparr>))
       (mi_loop snd (free_appl_body x) (mi_write q) (mi_wrap q) (mi_read q) (t, mi_mem q))"

section \<open>Layout\<close>

text \<open>The messages with their applications, one after the other from \<open>p\<close> to \<open>e\<close>.\<close>

definition msg_valid :: "byte list \<Rightarrow> bool" where
  "msg_valid b \<longleftrightarrow> 12 \<le> length b \<and> length b \<le> MAX_MSG_SIZE \<and> rd16 (\<lambda>i. b ! i) 0 = length b \<and>
     (msg_command (\<lambda>i. b ! i) 0 = DATA_B3_REQ \<longrightarrow> 20 \<le> length b)"

definition msg_at :: "mem \<Rightarrow> nat \<Rightarrow> nat \<times> byte list \<Rightarrow> bool" where
  "msg_at m p xb \<longleftrightarrow> msg_valid (snd xb) \<and> rd_bytes m p (length (snd xb)) = snd xb \<and>
     rd_ptr m (p + align_up 8 (length (snd xb))) = fst xb"

fun mi_laid :: "mem \<Rightarrow> nat \<Rightarrow> (nat \<times> byte list) list \<Rightarrow> nat \<Rightarrow> bool" where
  "mi_laid m p [] e \<longleftrightarrow> p = e"
| "mi_laid m p (xb # xs) e \<longleftrightarrow> msg_at m p xb \<and> mi_laid m (p + align_up 8 (length (snd xb)) + MSG_IN_OVERHEAD) xs e"

text \<open>The queue holds the messages \<open>as\<close> from the read position and then \<open>bs\<close> from the start.\<close>

definition mi_rep2 :: "msg_in \<Rightarrow> (nat \<times> byte list) list \<Rightarrow> (nat \<times> byte list) list \<Rightarrow> bool" where
  "mi_rep2 q as bs \<longleftrightarrow>
     8 dvd mi_read q \<and> 8 dvd mi_write q \<and> 8 dvd mi_wrap q \<and> mi_wrap q \<le> MSG_IN_QUEUE_SIZE \<and>
     (if bs = [] then
        mi_laid (mi_mem q) (mi_read q) as (mi_write q) \<and> mi_write q \<le> MSG_IN_QUEUE_SIZE \<and>
        mi_wrap q = MSG_IN_QUEUE_SIZE \<and> (as = [] \<longrightarrow> mi_read q = MSG_IN_QUEUE_SIZE)
      else
        mi_laid (mi_mem q) (mi_read q) as (mi_wrap q) \<and> mi_laid (mi_mem q) 0 bs (mi_write q) \<and>
        mi_write q < mi_read q \<and> (as = [] \<longrightarrow> mi_wrap q = MSG_IN_QUEUE_SIZE))"

definition mi_rep :: "msg_in \<Rightarrow> (nat \<times> byte list) list \<Rightarrow> bool" where
  "mi_rep q ms \<longleftrightarrow> (\<exists>as bs. ms = as @ bs \<and> mi_rep2 q as bs)"

lemma align8_add: "8 dvd j \<Longrightarrow> align_up 8 (j + n) = j + align_up 8 n"
proof -
  assume "8 dvd j"
  then obtain k where j: "j = 8 * k" by (auto elim!: dvdE)
  have "(8 * k + (n + 7)) div 8 = k + (n + 7) div 8" by (rule div_mult_self4) simp
  then show ?thesis by (simp add: align_up_def j add.assoc)
qed

lemma align8_bounds: "n \<le> align_up 8 n" "align_up 8 n \<le> n + 7"
  using align_up_ge [of 8 n] align_up_le [of 8 n] by simp_all

lemma dvd8_le: "8 dvd (a :: nat) \<Longrightarrow> 8 dvd b \<Longrightarrow> a + n \<le> b \<Longrightarrow> a + align_up 8 n \<le> b"
proof -
  assume "8 dvd a" "8 dvd b" and le: "a + n \<le> b"
  then obtain c d where "a = 8 * c" "b = 8 * d" by (auto elim!: dvdE)
  moreover have "align_up 8 n = 8 * ((n + 7) div 8)" by (simp add: align_up_def)
  moreover have "(n + 7) div 8 \<le> d - c" using le calculation(1,2) by linarith
  ultimately show ?thesis using le by simp
qed

lemma rd_ptr_wr_ptr: "v < 18446744073709551616 \<Longrightarrow> rd_ptr (wr_ptr m p v) p = v"
proof -
  assume v: "v < 18446744073709551616"
  then have "v div 4294967296 < 4294967296" by (simp add: div_less_iff_less_mult)
  then show ?thesis by (simp add: rd_ptr_def wr_ptr_def mem_simps)
qed

lemma wr_ptr_other: "i < p \<or> p + 8 \<le> i \<Longrightarrow> wr_ptr m p v i = m i"
  by (auto simp: wr_ptr_def wr32_other)

lemma rd_ptr_cong: "(\<And>i. p \<le> i \<Longrightarrow> i < p + 8 \<Longrightarrow> m' i = m i) \<Longrightarrow> rd_ptr m' p = rd_ptr m p"
  unfolding rd_ptr_def by (intro arg_cong2 [where f = "(+)"] arg_cong [where f = "(*) 4294967296"] rd32_cong) auto

lemma byte_mod: "(word_of_nat (n mod 256) :: byte) = word_of_nat n"
  unfolding unat_byte_of_nat [symmetric] by (simp only: of_nat_unat ucast_id)

lemma byte_eqI: "m mod 256 = n mod 256 \<Longrightarrow> (word_of_nat m :: byte) = word_of_nat n"
  using byte_mod [of m] byte_mod [of n] by simp

lemma wr16_mod: "wr16 m p (v mod 65536) = wr16 m p v"
proof -
  have "v mod 65536 = 256 * (v div 256 mod 256) + v mod 256"
    using mod_mult2_eq [of v 256 256] by simp
  then have e: "v mod 65536 div 256 mod 256 = v div 256 mod 256" "v mod 65536 mod 256 = v mod 256" by simp_all
  have "(word_of_nat (v mod 65536 div 256) :: byte) = word_of_nat (v div 256)"
    by (rule byte_eqI) (rule e)
  moreover have "(word_of_nat (v mod 65536) :: byte) = word_of_nat v"
    by (rule byte_eqI) (rule e)
  ultimately show ?thesis by (simp add: wr16_def)
qed

lemma wr32_rd32: "wr32 m p (rd32 m p) = m"
proof -
  have b: "unat (m i) < 256" for i using unsigned_less [of "m i"] by simp
  have "(word_of_nat (rd16 m q) :: byte) = m q" for q
  proof (rule unsigned_word_eqI)
    have "rd16 m q mod 256 = unat (m q)" using b [of q] by (simp add: rd16_def)
    then show "unat (word_of_nat (rd16 m q) :: byte) = unat (m q)" unfolding unat_byte_of_nat .
  qed
  moreover have "(word_of_nat (rd16 m q div 256) :: byte) = m (q + 1)" for q
  proof -
    have "rd16 m q div 256 = unat (m (q + 1))" using b [of q] by (simp add: rd16_def)
    then show ?thesis by simp
  qed
  ultimately
  have 16: "wr16 m q (rd16 m q) = m" for q by (rule_tac ext) (simp add: wr16_def)
  have "wr16 m p (rd32 m p) = wr16 m p (rd16 m p)"
    using wr16_mod [of m p "rd32 m p"] rd16_bound [of m p] by (simp add: rd32_def)
  moreover have "rd32 m p div 65536 = rd16 m (p + 2)" using rd16_bound [of m p] by (simp add: rd32_def)
  ultimately show ?thesis by (simp add: wr32_def 16)
qed

lemma rd16_at:
  assumes "rd_bytes m p (length b) = b" "k + 2 \<le> length b"
  shows "rd16 m (p + k) = rd16 (\<lambda>i. b ! i) k"
proof -
  have "m (p + i) = b ! i" if "i < length b" for i
    using arg_cong [OF assms(1), of "\<lambda>l. l ! i"] that by (simp add: rd_bytes_def)
  from this [of k] this [of "k + 1"] assms(2) show ?thesis by (simp add: rd16_def add.assoc)
qed

lemma msg_fields:
  assumes "msg_at m p xb"
  defines "b \<equiv> \<lambda>i. snd xb ! i"
  shows "msg_length m p = length (snd xb)" "msg_command m p = msg_command b 0" "msg_ncci m p = msg_ncci b 0"
    "msg_command b 0 = DATA_B3_REQ \<Longrightarrow> msg_data m p = msg_data b 0"
    "22 \<le> length (snd xb) \<Longrightarrow> msg_flags m p = msg_flags b 0"
    "rd_ptr m (p + align_up 8 (length (snd xb))) = fst xb"
proof -
  have v: "12 \<le> length (snd xb)" "rd16 b 0 = length (snd xb)" and r: "rd_bytes m p (length (snd xb)) = snd xb"
    and d: "msg_command b 0 = DATA_B3_REQ \<longrightarrow> 20 \<le> length (snd xb)"
    using assms(1) by (simp_all add: msg_at_def msg_valid_def b_def)
  have at: "rd16 m (p + k) = rd16 b k" if "k + 2 \<le> length (snd xb)" for k
    unfolding b_def by (rule rd16_at [OF r that])
  from at [of 0] v show "msg_length m p = length (snd xb)" by (simp add: msg_length_def)
  from at [of 4] v(1) show "msg_command m p = msg_command b 0" by (simp add: msg_command_def)
  from at [of 10] v(1) show "msg_ncci m p = msg_ncci b 0" by (simp add: msg_ncci_def)
  show "msg_data m p = msg_data b 0" if "msg_command b 0 = DATA_B3_REQ"
    using at [of 12] at [of 14] d that by (simp add: msg_data_def rd32_def ac_simps)
  show "msg_flags m p = msg_flags b 0" if "22 \<le> length (snd xb)"
    using at [of 20] that by (simp add: msg_flags_def)
  show "rd_ptr m (p + align_up 8 (length (snd xb))) = fst xb" using assms(1) by (simp add: msg_at_def)
qed

lemma msg_at_cong:
  assumes "\<And>i. p \<le> i \<Longrightarrow> i < p + align_up 8 (length (snd xb)) + 8 \<Longrightarrow> m' i = m i" "msg_at m p xb"
  shows "msg_at m' p xb"
proof -
  have "rd_bytes m' p (length (snd xb)) = rd_bytes m p (length (snd xb))"
    by (rule rd_bytes_cong) (use align8_bounds(1) [of "length (snd xb)"] assms(1) in auto)
  moreover have "rd_ptr m' (p + align_up 8 (length (snd xb))) = rd_ptr m (p + align_up 8 (length (snd xb)))"
    by (rule rd_ptr_cong) (use assms(1) in auto)
  ultimately show ?thesis using assms(2) by (simp add: msg_at_def)
qed

lemma mi_laid_le: "mi_laid m p xs e \<Longrightarrow> p + 20 * length xs \<le> e"
proof (induction xs arbitrary: p)
  case (Cons x xs)
  have "12 \<le> length (snd x)" using Cons.prems by (simp add: msg_at_def msg_valid_def)
  with align8_bounds(1) [of "length (snd x)"] Cons.IH [of "p + align_up 8 (length (snd x)) + 8"] Cons.prems
  show ?case by simp
qed simp

lemma mi_laid_cong:
  "(\<And>i. p \<le> i \<Longrightarrow> i < e \<Longrightarrow> m' i = m i) \<Longrightarrow> mi_laid m p xs e \<Longrightarrow> mi_laid m' p xs e"
proof (induction xs arbitrary: p)
  case (Cons x xs)
  have le: "p + align_up 8 (length (snd x)) + 8 \<le> e"
    using Cons.prems(2) mi_laid_le [of m "p + align_up 8 (length (snd x)) + 8" xs e] by simp
  have "msg_at m' p x" using Cons.prems le by (intro msg_at_cong [of p x m' m]) auto
  moreover have "mi_laid m' (p + align_up 8 (length (snd x)) + 8) xs e"
    using Cons.prems by (intro Cons.IH) auto
  ultimately show ?case by simp
qed simp

lemma mi_laid_append: "mi_laid m p (xs @ ys) e \<longleftrightarrow> (\<exists>t. mi_laid m p xs t \<and> mi_laid m t ys e)"
  by (induction xs arbitrary: p) auto

lemma mi_laid_dvd: "mi_laid m p xs e \<Longrightarrow> 8 dvd p \<Longrightarrow> 8 dvd e"
  by (induction xs arbitrary: p) auto

section \<open>The operations on the layout\<close>

lemma msg_in_store_eq:
  assumes "8 dvd j"
  shows "snd (msg_in_store j x b t q) =
     q\<lparr>mi_wrap := (if j = 0 then mi_write q else mi_wrap q),
       mi_mem := wr_ptr (wr_bytes (mi_mem q) j b) (j + align_up 8 (length b)) x,
       mi_write := j + align_up 8 (length b) + MSG_IN_OVERHEAD\<rparr>"
  by (simp add: msg_in_store_def Let_def TransmitBufferSet_def wr32_rd32 msg_data_def align8_add [OF assms])

lemma msg_at_stored:
  assumes "msg_valid b" "x < 18446744073709551616"
  shows "msg_at (wr_ptr (wr_bytes m j b) (j + align_up 8 (length b)) x) j (x, b)"
proof -
  have "rd_bytes (wr_ptr (wr_bytes m j b) (j + align_up 8 (length b)) x) j (length b) = rd_bytes (wr_bytes m j b) j (length b)"
    by (rule rd_bytes_cong) (use align8_bounds(1) [of "length b"] in \<open>simp add: wr_ptr_other\<close>)
  then show ?thesis using assms by (simp add: msg_at_def rd_wr_bytes rd_ptr_wr_ptr)
qed

lemma stored_other:
  "i < j \<or> j + align_up 8 (length b) + 8 \<le> i \<Longrightarrow> wr_ptr (wr_bytes m j b) (j + align_up 8 (length b)) x i = m i"
  using align8_bounds(1) [of "length b"] by (auto simp: wr_ptr_other wr_bytes_other)

lemma msg_in_store_rep:
  assumes rep: "mi_rep q ms" and b: "msg_valid b" "x < 18446744073709551616" and fit: "\<not> msg_in_full q (length b)"
  shows "mi_rep (snd (msg_in_store (fst (msg_in_space q (length b))) x b t q)) (ms @ [(x, b)])"
proof -
  let ?n = "align_up 8 (length b)" and ?m = "mi_mem q"
  have n: "align_up 8 (length b + 8) = ?n + 8" using align8_add [of 8 "length b"] by (simp add: add.commute)
  have len: "12 \<le> ?n" using b(1) align8_bounds(1) [of "length b"] by (simp add: msg_valid_def)
  obtain as bs where ms: "ms = as @ bs" and r: "mi_rep2 q as bs" using rep by (auto simp: mi_rep_def)
  have dv: "8 dvd mi_read q" "8 dvd mi_write q" "8 dvd mi_wrap q" using r by (simp_all add: mi_rep2_def)
  show ?thesis
  proof (cases "bs = []")
    case True
    with r have L: "mi_laid ?m (mi_read q) as (mi_write q)" "mi_write q \<le> 8192" "mi_wrap q = 8192"
      "as = [] \<longrightarrow> mi_read q = 8192" by (simp_all add: mi_rep2_def)
    have le: "mi_read q \<le> mi_write q" using mi_laid_le [OF L(1)] by simp
    show ?thesis
    proof (cases "mi_write q + length b + 8 \<le> 8192")
      case fits: True
      have "0 < mi_write q" using L(1,4) fits mi_laid_le [OF L(1)] by (cases as) auto
      then have q': "snd (msg_in_store (fst (msg_in_space q (length b))) x b t q) =
          q\<lparr>mi_mem := wr_ptr (wr_bytes ?m (mi_write q) b) (mi_write q + ?n) x, mi_write := mi_write q + ?n + 8\<rparr>"
        using fits le msg_in_store_eq [OF dv(2), of x b t q] by (simp add: msg_in_space_def Let_def)
      have "mi_write q + align_up 8 (length b + 8) \<le> 8192" using fits dv(2) by (intro dvd8_le) auto
      then have "mi_write q + ?n + 8 \<le> 8192" using n by simp
      moreover have "mi_laid (wr_ptr (wr_bytes ?m (mi_write q) b) (mi_write q + ?n) x) (mi_read q) as (mi_write q)"
        by (rule mi_laid_cong [OF _ L(1)]) (simp add: stored_other)
      moreover have "8 dvd mi_write q + ?n + 8" using dv(2) by (simp add: dvd_add)
      ultimately have "mi_rep2 (snd (msg_in_store (fst (msg_in_space q (length b))) x b t q)) (as @ [(x, b)]) []"
        using dv L(3) msg_at_stored [OF b] by (auto simp: q' mi_rep2_def mi_laid_append)
      then show ?thesis using ms True by (auto simp: mi_rep_def)
    next
      case False
      have q': "snd (msg_in_store (fst (msg_in_space q (length b))) x b t q) =
          q\<lparr>mi_wrap := mi_write q, mi_mem := wr_ptr (wr_bytes ?m 0 b) ?n x, mi_write := ?n + 8\<rparr>"
        using False le msg_in_store_eq [of 0 x b t q] by (simp add: msg_in_space_def Let_def)
      have sp: "?n + 8 < mi_read q" using fit le False n by (simp add: msg_in_full_def msg_in_space_def Let_def)
      have "mi_laid (wr_ptr (wr_bytes ?m 0 b) ?n x) (mi_read q) as (mi_write q)"
        by (rule mi_laid_cong [OF _ L(1)]) (use sp stored_other [of _ 0 b ?m x] in simp)
      moreover have "as = [] \<Longrightarrow> mi_write q = 8192" using L by simp
      ultimately have "mi_rep2 (snd (msg_in_store (fst (msg_in_space q (length b))) x b t q)) as [(x, b)]"
        using dv L(2) msg_at_stored [OF b, of ?m 0] sp by (auto simp: q' mi_rep2_def)
      then show ?thesis using ms True by (auto simp: mi_rep_def)
    qed
  next
    case False
    with r have L: "mi_laid ?m (mi_read q) as (mi_wrap q)" "mi_laid ?m 0 bs (mi_write q)" "mi_write q < mi_read q"
      "as = [] \<longrightarrow> mi_wrap q = 8192" "mi_wrap q \<le> 8192" by (simp_all add: mi_rep2_def)
    have pos: "0 < mi_write q" using mi_laid_le [OF L(2)] False by (cases bs) auto
    have sp: "mi_write q + ?n + 8 < mi_read q"
      using fit L(3) n by (auto simp: msg_in_full_def msg_in_space_def Let_def split: if_splits)
    have q': "snd (msg_in_store (fst (msg_in_space q (length b))) x b t q) =
        q\<lparr>mi_mem := wr_ptr (wr_bytes ?m (mi_write q) b) (mi_write q + ?n) x, mi_write := mi_write q + ?n + 8\<rparr>"
      using L(3) pos msg_in_store_eq [OF dv(2), of x b t q] by (simp add: msg_in_space_def Let_def)
    have "mi_laid (wr_ptr (wr_bytes ?m (mi_write q) b) (mi_write q + ?n) x) (mi_read q) as (mi_wrap q)"
      by (rule mi_laid_cong [OF _ L(1)]) (use sp in \<open>simp add: stored_other\<close>)
    moreover have "mi_laid (wr_ptr (wr_bytes ?m (mi_write q) b) (mi_write q + ?n) x) 0 bs (mi_write q)"
      by (rule mi_laid_cong [OF _ L(2)]) (simp add: stored_other)
    moreover have "8 dvd mi_write q + ?n + 8" using dv(2) by (simp add: dvd_add)
    ultimately have "mi_rep2 (snd (msg_in_store (fst (msg_in_space q (length b))) x b t q)) as (bs @ [(x, b)])"
      using dv L(4,5) sp msg_at_stored [OF b] by (auto simp: q' mi_rep2_def mi_laid_append)
    then show ?thesis using ms by (auto simp: mi_rep_def)
  qed
qed

text \<open>The position of the next message, whichever part it is in.\<close>

lemma msg_in_next_at:
  assumes "mi_rep2 q as bs" "as @ bs = xb # ms"
  shows "msg_at (mi_mem q) (msg_in_next q) xb" "mi_read q = mi_wrap q \<longleftrightarrow> as = []"
proof -
  have "mi_read q = mi_wrap q \<longleftrightarrow> as = []"
  proof (cases as)
    case Nil
    then show ?thesis using assms by (auto simp: mi_rep2_def split: if_splits)
  next
    case (Cons y ys)
    have "mi_read q + 20 \<le> mi_wrap q"
    proof (cases "bs = []")
      case True
      then have "mi_laid (mi_mem q) (mi_read q) as (mi_write q)" "mi_write q \<le> 8192" "mi_wrap q = 8192"
        using assms(1) by (simp_all add: mi_rep2_def)
      then show ?thesis using mi_laid_le Cons by fastforce
    next
      case False
      then show ?thesis using assms(1) mi_laid_le [of "mi_mem q" "mi_read q" as "mi_wrap q"] Cons
        by (simp add: mi_rep2_def)
    qed
    then show ?thesis using Cons by simp
  qed
  then show "mi_read q = mi_wrap q \<longleftrightarrow> as = []" .
  with assms show "msg_at (mi_mem q) (msg_in_next q) xb"
    by (cases as; cases bs) (auto simp: msg_in_next_def mi_rep2_def split: if_splits)
qed

lemma msg_in_dequeue_rep:
  assumes rep: "mi_rep q (xb # ms)" and "msg_in_dequeue q = (j, x, q')"
  shows "x = fst xb" "msg_at (mi_mem q) j xb" "mi_mem q' = mi_mem q" "mi_rep q' ms"
proof -
  obtain as bs where eq: "as @ bs = xb # ms" and r: "mi_rep2 q as bs" using rep by (auto simp: mi_rep_def)
  note nx = msg_in_next_at [OF r eq]
  let ?n = "align_up 8 (length (snd xb))"
  have f: "msg_length (mi_mem q) (msg_in_next q) = length (snd xb)"
    "rd_ptr (mi_mem q) (msg_in_next q + ?n) = fst xb" using msg_fields [OF nx(1)] by simp_all
  have j: "j = msg_in_next q" and x: "x = fst xb" and mem: "mi_mem q' = mi_mem q"
    using assms(2) f by (auto simp: msg_in_dequeue_def Let_def split: if_splits)
  show "x = fst xb" "msg_at (mi_mem q) j xb" "mi_mem q' = mi_mem q" using x nx(1) j mem by simp_all
  note d = assms(2) [unfolded msg_in_dequeue_def Let_def f]
  show "mi_rep q' ms"
  proof (cases as)
    case Nil
    then have bs: "bs = xb # ms" using eq by simp
    with r Nil have L: "mi_laid (mi_mem q) (?n + 8) ms (mi_write q)" "mi_write q < mi_read q" "mi_read q = 8192"
      "8 dvd mi_write q" "mi_read q = mi_wrap q" by (auto simp: mi_rep2_def)
    have "?n + 8 = mi_write q \<longleftrightarrow> ms = []" using L(1) mi_laid_le [OF L(1)] by (cases ms) auto
    moreover have "q' = (if ?n + 8 = mi_write q then q\<lparr>mi_wrap := 8192, mi_read := 8192, mi_write := 8192\<rparr>
        else q\<lparr>mi_wrap := 8192, mi_read := ?n + 8\<rparr>)"
      using d L(2,3,5) mi_laid_le [OF L(1)] by (auto split: if_splits)
    ultimately have "mi_rep2 q' ms []" using L by (auto simp: mi_rep2_def dvd_add)
    then show ?thesis by (auto simp: mi_rep_def)
  next
    case (Cons y ys)
    then have y: "y = xb" "ms = ys @ bs" using eq by simp_all
    have ne: "mi_read q \<noteq> mi_wrap q" using nx(2) Cons by simp
    let ?r = "mi_read q + ?n + 8"
    have j: "msg_in_next q = mi_read q" using ne by (simp add: msg_in_next_def)
    have dv: "8 dvd ?r" using r by (simp add: mi_rep2_def dvd_add)
    show ?thesis
    proof (cases "bs = []")
      case True
      with r Cons y have L: "mi_laid (mi_mem q) ?r ys (mi_write q)" "mi_write q \<le> 8192" "8 dvd mi_write q" "mi_wrap q = 8192"
        by (auto simp: mi_rep2_def)
      have "?r = mi_write q \<longleftrightarrow> ys = []" "?r \<le> mi_write q" using L(1) mi_laid_le [OF L(1)] by (cases ys; auto)+
      moreover have "?r = mi_wrap q \<Longrightarrow> ?r = mi_write q" using calculation(2) L(2,4) by simp
      ultimately have "q' = (if ys = [] then q\<lparr>mi_read := 8192, mi_write := 8192\<rparr> else q\<lparr>mi_read := ?r\<rparr>)"
        using d ne j by (auto split: if_splits)
      then have "mi_rep2 q' ys []" using L dv by (auto simp: mi_rep2_def)
      then show ?thesis using y True by (auto simp: mi_rep_def)
    next
      case False
      with r Cons y have L: "mi_laid (mi_mem q) ?r ys (mi_wrap q)" "mi_laid (mi_mem q) 0 bs (mi_write q)" "mi_write q < mi_read q"
        "mi_wrap q \<le> 8192" "8 dvd mi_write q" "8 dvd mi_wrap q"
        by (auto simp: mi_rep2_def)
      have "?r = mi_wrap q \<longleftrightarrow> ys = []" using L(1) mi_laid_le [OF L(1)] by (cases ys) auto
      moreover have "?r \<noteq> mi_write q" using L(3) by simp
      ultimately have "q' = (if ys = [] then q\<lparr>mi_read := 8192, mi_wrap := 8192\<rparr> else q\<lparr>mi_read := ?r\<rparr>)"
        using d ne j by (auto split: if_splits)
      moreover have "mi_write q < 8192" using L(1,3,4) mi_laid_le [OF L(1)] by simp
      ultimately have "mi_rep2 q' ys bs" using L dv False by (auto simp: mi_rep2_def)
      then show ?thesis using y by (auto simp: mi_rep_def)
    qed
  qed
qed

section \<open>The loops on the layout\<close>

fun laid_fold :: "(nat \<Rightarrow> nat \<Rightarrow> 's \<Rightarrow> 's) \<Rightarrow> nat \<Rightarrow> (nat \<times> byte list) list \<Rightarrow> 's \<Rightarrow> 's" where
  "laid_fold body p [] s = s"
| "laid_fold body p (xb # xs) s =
     laid_fold body (p + align_up 8 (length (snd xb)) + MSG_IN_OVERHEAD) xs (body p (p + align_up 8 (length (snd xb))) s)"

text \<open>A body that changes the bytes of its own message at most.\<close>

definition body_frame :: "('s \<Rightarrow> mem) \<Rightarrow> (nat \<Rightarrow> nat \<Rightarrow> 's \<Rightarrow> 's) \<Rightarrow> bool" where
  "body_frame get body \<longleftrightarrow>
     (\<forall>i j s k. i \<le> j \<longrightarrow> k < i \<or> j + MSG_IN_OVERHEAD \<le> k \<longrightarrow> get (body i j s) k = get s k)"

lemma body_frameD:
  "body_frame get body \<Longrightarrow> i \<le> j \<Longrightarrow> k < i \<or> j + MSG_IN_OVERHEAD \<le> k \<Longrightarrow> get (body i j s) k = get s k"
  unfolding body_frame_def by blast

lemma laid_fold_other:
  assumes "body_frame get body" "mi_laid m p xs e" "k < p \<or> e \<le> k"
  shows "get (laid_fold body p xs s) k = get s k"
  using assms(2,3)
proof (induction xs arbitrary: p s)
  case (Cons x xs)
  let ?n = "align_up 8 (length (snd x))"
  have "p + ?n + 8 \<le> e" using Cons.prems(1) mi_laid_le [of m "p + ?n + 8" xs e] by simp
  then have "get (body p (p + ?n) s) k = get s k" using Cons.prems(2) by (intro body_frameD [OF assms(1)]) auto
  moreover have "get (laid_fold body (p + ?n + 8) xs (body p (p + ?n) s)) k = get (body p (p + ?n) s) k"
    using Cons.prems by (intro Cons.IH) auto
  ultimately show ?case by simp
qed simp

lemma mi_loop_laid:
  assumes "body_frame get body" "mi_laid (get s) p xs e" "wr \<notin> {p..<e}" "wp \<notin> {p..<e}"
  shows "mi_loop get body wr wp p s = mi_loop get body wr wp e (laid_fold body p xs s)"
  using assms(2-)
proof (induction xs arbitrary: p s)
  case (Cons x xs)
  let ?n = "align_up 8 (length (snd x))" and ?s = "body p (p + align_up 8 (length (snd x))) s"
  from Cons.prems(1) have x: "msg_at (get s) p x" and L: "mi_laid (get s) (p + ?n + 8) xs e" by simp_all
  have le: "p + ?n + 8 \<le> e" using mi_laid_le [OF L] by simp
  have "mi_laid (get ?s) (p + ?n + 8) xs e"
    by (rule mi_laid_cong [OF _ L]) (rule body_frameD [OF assms(1)], auto)
  then have "mi_loop get body wr wp (p + ?n + 8) ?s = mi_loop get body wr wp e (laid_fold body (p + ?n + 8) xs ?s)"
    using Cons.prems(2,3) by (intro Cons.IH) auto
  moreover have "p \<noteq> wr" "p \<noteq> wp" using Cons.prems(2,3) le by auto
  ultimately show ?case
    using msg_fields(1) [OF x] by (subst mi_loop.simps) (simp add: Let_def)
qed simp

lemma mi_loop_wrap:
  "wp \<noteq> wr \<Longrightarrow> 0 < wr \<Longrightarrow> 0 < wp \<Longrightarrow> mi_loop get body wr wp wp s = mi_loop get body wr wp 0 s"
  by (subst (1 2) mi_loop.simps) simp

lemma mi_loop_rep:
  assumes "body_frame get body" "mi_rep2 q as bs" "get s = mi_mem q"
  shows "mi_loop get body (mi_write q) (mi_wrap q) (mi_read q) s =
     Some (laid_fold body 0 bs (laid_fold body (mi_read q) as s))"
proof (cases "bs = []")
  case True
  with assms(2) have L: "mi_laid (get s) (mi_read q) as (mi_write q)" "mi_write q \<le> 8192" "mi_wrap q = 8192"
    by (simp_all add: mi_rep2_def assms(3))
  have "mi_loop get body (mi_write q) (mi_wrap q) (mi_read q) s =
      mi_loop get body (mi_write q) (mi_wrap q) (mi_write q) (laid_fold body (mi_read q) as s)"
    using L(2,3) by (intro mi_loop_laid [OF assms(1) L(1)]) auto
  then show ?thesis using True by (subst (asm) (2) mi_loop.simps) simp
next
  case False
  with assms(2) have L: "mi_laid (get s) (mi_read q) as (mi_wrap q)" "mi_laid (get s) 0 bs (mi_write q)"
    "mi_write q < mi_read q" by (simp_all add: mi_rep2_def assms(3))
  let ?s = "laid_fold body (mi_read q) as s"
  have le: "mi_read q \<le> mi_wrap q" using mi_laid_le [OF L(1)] by simp
  have pos: "0 < mi_write q" using mi_laid_le [OF L(2)] False by (cases bs) auto
  have 1: "mi_loop get body (mi_write q) (mi_wrap q) (mi_read q) s =
      mi_loop get body (mi_write q) (mi_wrap q) (mi_wrap q) ?s"
    using L(3) by (intro mi_loop_laid [OF assms(1) L(1)]) auto
  have "mi_laid (get ?s) 0 bs (mi_write q)"
    by (rule mi_laid_cong [OF _ L(2)]) (use L(3) in \<open>simp add: laid_fold_other [OF assms(1) L(1)]\<close>)
  then have "mi_loop get body (mi_write q) (mi_wrap q) 0 ?s =
      mi_loop get body (mi_write q) (mi_wrap q) (mi_write q) (laid_fold body 0 bs ?s)"
    using L(3) le by (intro mi_loop_laid [OF assms(1)]) auto
  moreover have "mi_loop get body (mi_write q) (mi_wrap q) (mi_wrap q) ?s = mi_loop get body (mi_write q) (mi_wrap q) 0 ?s"
    using L(3) le pos by (intro mi_loop_wrap) auto
  moreover have "mi_loop get body (mi_write q) (mi_wrap q) (mi_write q) u = Some u" for u
    by (subst mi_loop.simps) simp
  ultimately show ?thesis using 1 by simp
qed

lemma laid_fold_const:
  assumes "\<And>i xb s. xb \<in> set xs \<Longrightarrow> msg_at m i xb \<Longrightarrow> body i (i + align_up 8 (length (snd xb))) s = g xb s"
  shows "mi_laid m p xs e \<Longrightarrow> laid_fold body p xs s = fold g xs s"
  using assms by (induction xs arbitrary: p s) simp_all

text \<open>A loop that does not write the queue is a fold over its messages.\<close>

lemma mi_loop_fold:
  assumes "mi_rep q ms" "\<And>i xb s. xb \<in> set ms \<Longrightarrow> msg_at (mi_mem q) i xb \<Longrightarrow> body i (i + align_up 8 (length (snd xb))) s = g xb s"
  shows "mi_loop (\<lambda>_. mi_mem q) body (mi_write q) (mi_wrap q) (mi_read q) s = Some (fold g ms s)"
proof -
  obtain as bs where ms: "ms = as @ bs" and r: "mi_rep2 q as bs" using assms(1) by (auto simp: mi_rep_def)
  have "body_frame (\<lambda>_. mi_mem q) body" by (simp add: body_frame_def)
  note l = mi_loop_rep [OF this r refl, of s]
  obtain e f where "mi_laid (mi_mem q) (mi_read q) as e" "mi_laid (mi_mem q) 0 bs f \<or> bs = []"
    using r by (auto simp: mi_rep2_def split: if_splits)
  then have "laid_fold body (mi_read q) as s = fold g as s" "laid_fold body 0 bs u = fold g bs u" for u
    using laid_fold_const [of as "mi_mem q" body g] laid_fold_const [of bs "mi_mem q" body g] assms(2) by (auto simp: ms)
  then show ?thesis unfolding l ms by simp
qed

section \<open>The queue as a first-in first-out queue\<close>

definition mi_put :: "msg_in \<Rightarrow> nat \<times> byte list \<Rightarrow> bool \<times> msg_in" where
  "mi_put q xb =
     (if msg_in_full q (length (snd xb)) then (False, q)
      else (True, snd (msg_in_store (fst (msg_in_space q (length (snd xb)))) (fst xb) (snd xb) \<lparr>next_i = (\<lambda>_. 0), prev_i = (\<lambda>_. 0)\<rparr> q)))"

definition mi_peek :: "msg_in \<Rightarrow> (nat \<times> byte list) option" where
  "mi_peek q =
     (if mi_write q = mi_read q then None
      else case msg_in_dequeue q of (j, x, q') \<Rightarrow> Some (x, rd_bytes (mi_mem q) j (msg_length (mi_mem q) j)))"

definition mi_pop :: "msg_in \<Rightarrow> msg_in" where
  "mi_pop q = snd (snd (msg_in_dequeue q))"

definition mi_valid :: "nat \<times> byte list \<Rightarrow> bool" where
  "mi_valid xb \<longleftrightarrow> msg_valid (snd xb) \<and> fst xb < 18446744073709551616"

lemma mi_rep_empty: "mi_rep q ms \<Longrightarrow> mi_write q = mi_read q \<longleftrightarrow> ms = []"
proof -
  assume "mi_rep q ms"
  then obtain as bs where ms: "ms = as @ bs" and r: "mi_rep2 q as bs" by (auto simp: mi_rep_def)
  show ?thesis
  proof (cases "bs = []")
    case True
    then have "mi_laid (mi_mem q) (mi_read q) as (mi_write q)" using r by (simp add: mi_rep2_def)
    then show ?thesis using mi_laid_le [of "mi_mem q" "mi_read q" as "mi_write q"] ms True by (cases as) auto
  next
    case False
    then show ?thesis using r ms by (auto simp: mi_rep2_def)
  qed
qed

interpretation mi: fifo mi_rep mi_put mi_peek mi_pop mi_valid
proof
  fix q ms xb ok q'
  assume "mi_rep q ms" "mi_valid xb" "mi_put q xb = (ok, q')"
  then show "mi_rep q' (if ok then ms @ [xb] else ms)"
    using msg_in_store_rep [of q ms "snd xb" "fst xb"] by (auto simp: mi_put_def mi_valid_def split: if_splits)
next
  fix q ms
  assume r: "mi_rep q ms"
  show "mi_peek q = (if ms = [] then None else Some (hd ms))"
  proof (cases ms)
    case Nil
    then show ?thesis using mi_rep_empty [OF r] by (simp add: mi_peek_def)
  next
    case (Cons xb ys)
    obtain j x q' where d: "msg_in_dequeue q = (j, x, q')" by (cases "msg_in_dequeue q")
    note m = msg_in_dequeue_rep [OF r [unfolded Cons] d]
    have "rd_bytes (mi_mem q) j (length (snd xb)) = snd xb" using m(2) by (simp add: msg_at_def)
    then show ?thesis
      using mi_rep_empty [OF r] Cons d m(1) msg_fields(1) [OF m(2)] by (simp add: mi_peek_def)
  qed
next
  fix q ms
  assume r: "mi_rep q ms" "ms \<noteq> []"
  obtain j x q' where d: "msg_in_dequeue q = (j, x, q')" by (cases "msg_in_dequeue q")
  show "mi_rep (mi_pop q) (tl ms)"
    using msg_in_dequeue_rep(4) [of q "hd ms" "tl ms", OF _ d] r d by (simp add: mi_pop_def)
qed

lemma msg_in_init_rep: "mi_rep (msg_in_init q) []"
  by (auto simp: mi_rep_def mi_rep2_def msg_in_init_def)

section \<open>Properties\<close>

text \<open>C10: The message queue of a PLCI is a first-in first-out queue: whatever sequence of
  messages is offered and taken out from the initial queue, through any number of wraps
  around the end of the buffer, the messages that were accepted come out unchanged, in order
  and with their applications, and nothing else does.\<close>

theorem msg_in_queue_fifo:
  assumes "\<forall>xb. Put xb \<in> set ops \<longrightarrow> mi_valid xb"
  shows "\<exists>n acc t. fifo_run mi_put mi_peek mi_pop (msg_in_init q) (ops @ replicate n Get) = (acc, acc, t) \<and>
     acc = fst (fifo_run mi_put mi_peek mi_pop (msg_in_init q) ops) \<and> mi_peek t = None"
proof -
  from mi.all_delivered [OF msg_in_init_rep assms] obtain n acc t where
    "fifo_run mi_put mi_peek mi_pop (msg_in_init q) (ops @ replicate n Get) = (acc, acc, t)" "mi_rep t []"
    "acc = fst (fifo_run mi_put mi_peek mi_pop (msg_in_init q) ops)" by blast
  moreover from mi.peek_rep [OF this(2)] have "mi_peek t = None" by simp
  ultimately show ?thesis by blast
qed

definition example_msg :: "byte list" where
  "example_msg = [22, 0, 1, 0, 0x86, 0x80, 7, 0, 1, 1, 3, 0, 0, 0, 0, 0, 16, 0, 5, 0, 4, 0]"

lemma example_msg_valid: "msg_valid example_msg"
  by (simp add: msg_valid_def msg_command_def example_msg_def rd16_def)

definition example_queue :: msg_in where
  "example_queue = \<lparr>mi_mem = (\<lambda>_. 0), mi_read = 0, mi_write = 0, mi_wrap = 0\<rparr>"

definition example_table :: xbuffer_table where
  "example_table = XBufferInit \<lparr>next_i = (\<lambda>_. 0), prev_i = (\<lambda>_. 0)\<rparr> 8"

theorem msg_in_queue_fifo_witness:
  "\<exists>n acc t. fifo_run mi_put mi_peek mi_pop (msg_in_init example_queue) ([Put (1, example_msg), Get, Put (2, example_msg)] @ replicate n Get)
     = (acc, acc, t)"
  using msg_in_queue_fifo [of "[Put (1, example_msg), Get, Put (2, example_msg)]" example_queue] example_msg_valid
  by (auto simp: mi_valid_def)

text \<open>The transmit buffers of the DATA_B3 requests of the given messages are freed.\<close>

definition free_data_of :: "(nat \<Rightarrow> bool) \<Rightarrow> nat \<times> byte list \<Rightarrow> xbuffer_table \<Rightarrow> xbuffer_table" where
  "free_data_of P xb t =
     (if P (fst xb) \<and> msg_command (\<lambda>i. snd xb ! i) 0 = DATA_B3_REQ
      then TransmitBufferFree t (msg_data (\<lambda>i. snd xb ! i) 0) else t)"

text \<open>Clearing the message queue of a PLCI with an application frees the transmit buffer
  of every waiting DATA_B3 request whose application has not been removed, each once and in
  order, and no other buffer; the queue is empty and ready for use afterwards. The loop over
  the queue ends.\<close>

theorem plci_free_msg_in_queue_frees:
  assumes "mi_rep q ms"
  shows "\<exists>q'. plci_free_msg_in_queue x t q =
       Some (if x = 0 then t else fold (free_data_of (\<lambda>y. y \<noteq> 0)) ms t, q') \<and> mi_rep q' []"
proof -
  have "free_msg_body (mi_mem q) i (i + align_up 8 (length (snd xb))) s = free_data_of (\<lambda>y. y \<noteq> 0) xb s"
    if "xb \<in> set ms" "msg_at (mi_mem q) i xb" for i xb s
    using msg_fields [OF that(2)] by (simp add: free_msg_body_def free_data_of_def)
  from mi_loop_fold [OF assms, where body = "free_msg_body (mi_mem q)" and g = "free_data_of (\<lambda>y. y \<noteq> 0)", OF this] show ?thesis
    using msg_in_init_rep by (auto simp: plci_free_msg_in_queue_def)
qed

lemma count_queued_data_rep:
  assumes "mi_rep q ms" "\<And>xb. xb \<in> set ms \<Longrightarrow> msg_command (\<lambda>i. snd xb ! i) 0 = DATA_B3_REQ \<Longrightarrow> 22 \<le> length (snd xb)"
  shows "count_queued_data n q s =
     Some (fold (\<lambda>xb s. let b = (\<lambda>i. snd xb ! i) in if msg_command b 0 = DATA_B3_REQ \<and> msg_ncci b 0 = n
        then (fst s + 1, if bit (msg_flags b 0) 2 then snd s + 1 else snd s) else s) ms s)"
  unfolding count_queued_data_def
  by (rule mi_loop_fold [OF assms(1)]) (use assms(2) in \<open>simp add: msg_fields count_data_def Let_def\<close>)

text \<open>Removing an application: its entries keep their place with a null pointer.\<close>

lemma free_appl_frame: "body_frame snd (free_appl_body x)"
  by (auto simp: body_frame_def free_appl_body_def Let_def wr_ptr_other)

lemma free_appl_laid:
  assumes "mi_laid (snd s) p xs e"
  shows "mi_laid (snd (laid_fold (free_appl_body x) p xs s)) p (map (apfst (\<lambda>y. if y = x then 0 else y)) xs) e \<and>
     fst (laid_fold (free_appl_body x) p xs s) = fold (free_data_of (\<lambda>y. y = x)) xs (fst s)"
  using assms
proof (induction xs arbitrary: p s)
  case (Cons y ys)
  let ?n = "align_up 8 (length (snd y))"
  let ?s = "free_appl_body x p (p + ?n) s"
  from Cons.prems have y: "msg_at (snd s) p y" and L: "mi_laid (snd s) (p + ?n + 8) ys e" by simp_all
  note f = msg_fields [OF y]
  have L': "mi_laid (snd ?s) (p + ?n + 8) ys e"
    by (rule mi_laid_cong [OF _ L]) (rule body_frameD [OF free_appl_frame], auto)
  note IH = Cons.IH [OF L']
  have keep: "msg_at (wr_ptr (snd s) (p + ?n) 0) p (0, snd y)"
  proof -
    have "rd_bytes (wr_ptr (snd s) (p + ?n) 0) p (length (snd y)) = rd_bytes (snd s) p (length (snd y))"
      by (rule rd_bytes_cong) (use align8_bounds(1) [of "length (snd y)"] in \<open>simp add: wr_ptr_other\<close>)
    then show ?thesis using y by (simp add: msg_at_def rd_ptr_wr_ptr)
  qed
  have s: "msg_at (snd ?s) p (apfst (\<lambda>y. if y = x then 0 else y) y)"
    using y keep f(6) by (cases y) (simp add: free_appl_body_def Let_def)
  have fst: "fst ?s = free_data_of (\<lambda>y. y = x) y (fst s)"
    using f(6) msg_fields(2,4) [OF keep] by (simp add: free_appl_body_def Let_def free_data_of_def)
  have "msg_at (snd (laid_fold (free_appl_body x) (p + ?n + 8) ys ?s)) p (apfst (\<lambda>y. if y = x then 0 else y) y)"
    by (rule msg_at_cong [OF _ s]) (simp add: laid_fold_other [OF free_appl_frame L'])
  then show ?case using IH fst by simp
qed simp

text \<open>Removing an application from the message queue of a PLCI keeps every message in its
  place but takes the application away from its own messages, so that they are skipped when
  they are dispatched, and frees the transmit buffers of its DATA_B3 requests, each once; the
  messages of other applications and their buffers are untouched.\<close>

theorem plci_free_queued_appl_msg_exact:
  assumes "mi_rep q ms"
  shows "\<exists>q'. plci_free_queued_appl_msg x t q = Some (fold (free_data_of (\<lambda>y. y = x)) ms t, q') \<and>
     mi_rep q' (map (\<lambda>(y, b). (if y = x then 0 else y, b)) ms)"
proof -
  let ?z = "apfst (\<lambda>y. if y = x then 0 else y) :: nat \<times> byte list \<Rightarrow> _" and ?f = "laid_fold (free_appl_body x)"
  obtain as bs where ms: "ms = as @ bs" and r: "mi_rep2 q as bs" using assms by (auto simp: mi_rep_def)
  define s1 where "s1 = ?f (mi_read q) as (t, mi_mem q)"
  define s2 where "s2 = ?f 0 bs s1"
  have z: "map (\<lambda>(y, b). (if y = x then 0 else y, b)) ms = map ?z as @ map ?z bs"
    by (simp add: ms) (simp add: apfst_def map_prod_def split_def)
  have run: "plci_free_queued_appl_msg x t q = Some (fst s2, q\<lparr>mi_mem := snd s2\<rparr>)"
    using mi_loop_rep [OF free_appl_frame r, of "(t, mi_mem q)"]
    by (simp add: plci_free_queued_appl_msg_def s1_def s2_def split_beta)
  have "mi_rep2 (q\<lparr>mi_mem := snd s2\<rparr>) (map ?z as) (map ?z bs) \<and> fst s2 = fold (free_data_of (\<lambda>y. y = x)) ms t"
  proof (cases "bs = []")
    case True
    then have L: "mi_laid (snd (t, mi_mem q)) (mi_read q) as (mi_write q)" using r by (simp add: mi_rep2_def)
    from free_appl_laid [OF L, of x] show ?thesis using True r ms by (simp add: mi_rep2_def s1_def s2_def)
  next
    case False
    then have L: "mi_laid (snd (t, mi_mem q)) (mi_read q) as (mi_wrap q)" "mi_laid (mi_mem q) 0 bs (mi_write q)"
      "mi_write q < mi_read q" using r by (simp_all add: mi_rep2_def)
    note 1 = free_appl_laid [OF L(1), of x, folded s1_def]
    have B: "mi_laid (snd s1) 0 bs (mi_write q)"
      by (rule mi_laid_cong [OF _ L(2)]) (use L(3) in \<open>simp add: s1_def laid_fold_other [OF free_appl_frame L(1)]\<close>)
    note 2 = free_appl_laid [OF B, of x, folded s2_def]
    have "mi_laid (snd s2) (mi_read q) (map ?z as) (mi_wrap q)"
      by (rule mi_laid_cong [OF _ 1 [THEN conjunct1]])
        (use L(3) in \<open>simp add: s2_def laid_fold_other [OF free_appl_frame B]\<close>)
    then show ?thesis using 1 2 False r ms by (simp add: mi_rep2_def)
  qed
  then show ?thesis unfolding z run by (auto simp: mi_rep_def)
qed

text \<open>Before a message taken from the queue is processed, \<open>api_put_reenter\<close> checks once
  more that it would fit into the queue. When the last message before the wrap is taken out
  and the messages behind the wrap, this message and a second copy of the first message
  behind the wrap need more than the whole buffer, the check fails: the message, which had
  been accepted, is refused as if the queue were full (and then dropped by the dispatch loop).\<close>

theorem msg_in_dispatch_refused:
  assumes "mi_rep2 q [xb] (yc # bs)"
    and "MSG_IN_QUEUE_SIZE < mi_write q + (align_up 8 (length (snd xb)) + MSG_IN_OVERHEAD) + (align_up 8 (length (snd yc)) + MSG_IN_OVERHEAD)"
  shows "case msg_in_dequeue q of (j, x, q') \<Rightarrow>
     x = fst xb \<and> msg_at (mi_mem q') j xb \<and> mi_rep q' (yc # bs) \<and> msg_in_full q' (length (snd xb))"
proof -
  obtain j x q' where d: "msg_in_dequeue q = (j, x, q')" by (cases "msg_in_dequeue q")
  have "mi_rep q (xb # (yc # bs))" 
    unfolding mi_rep_def using assms(1) by (intro exI [of _ "[xb]"] exI [of _ "yc # bs"]) simp
  note m = msg_in_dequeue_rep [OF this d]
  from assms(1) have L: "mi_wrap q = mi_read q + align_up 8 (length (snd xb)) + 8" "mi_write q < mi_read q"
    "mi_laid (mi_mem q) 0 (yc # bs) (mi_write q)" "msg_at (mi_mem q) (mi_read q) xb" "mi_wrap q \<le> 8192"
    by (auto simp: mi_rep2_def)
  have "mi_read q \<noteq> mi_wrap q" using L(1) by simp
  then have q': "mi_read q' = 8192" "mi_write q' = mi_write q"
    using d L(1,2) msg_fields(1) [OF L(4)] by (auto simp: msg_in_dequeue_def msg_in_next_def Let_def split: if_splits)
  have y: "msg_length (mi_mem q') 0 = length (snd yc)" using L(3) msg_fields(1) [of "mi_mem q" 0 yc] m(3) by simp
  have n: "align_up 8 (length b + 8) = align_up 8 (length b) + 8" for b :: "byte list"
    using align8_add [of 8 "length b"] by (simp add: add.commute)
  have "12 \<le> align_up 8 (length (snd yc))"
    using L(3) align8_bounds(1) [of "length (snd yc)"] by (simp add: msg_at_def msg_valid_def)
  then have "msg_in_full q' (length (snd xb))"
    using L(1,2,5) assms(2) by (auto simp: msg_in_full_def msg_in_space_def Let_def q' y n)
  then show ?thesis using d m by auto
qed

text \<open>Three messages of the maximal length, one before and two behind the wrap.\<close>

definition big_msg :: "byte list" where
  "big_msg = [0x34, 8] @ replicate 2098 0"

lemma big_msg: "msg_valid big_msg" "length big_msg = 2100" "align_up 8 (length big_msg) = 2104"
  by (simp_all add: msg_valid_def msg_command_def big_msg_def rd16_def align_up_def)

definition full_queue :: msg_in where
  "full_queue =
     (let put = (\<lambda>m j. wr_ptr (wr_bytes m j big_msg) (j + 2104) 1)
      in \<lparr>mi_mem = put (put (put (\<lambda>_. 0) 6080) 0) 2112, mi_read = 6080, mi_write = 4224, mi_wrap = 8192\<rparr>)"

lemma full_queue_rep: "mi_rep2 full_queue [(1, big_msg)] [(1, big_msg), (1, big_msg)]"
proof -
  let ?put = "\<lambda>m j. wr_ptr (wr_bytes m j big_msg) (j + 2104) 1"
  have at: "msg_at (?put m j) j (1, big_msg)" for m j
    using msg_at_stored [OF big_msg(1), of 1 m j] by (simp add: big_msg(3))
  have keep: "msg_at (?put m j) i (1, big_msg)" if a: "msg_at m i (1, big_msg)" and d: "i + 2112 \<le> j \<or> j + 2112 \<le> i" for m i j
  proof (rule msg_at_cong [OF _ a])
    fix k
    assume "i \<le> k" "k < i + align_up 8 (length (snd (1 :: nat, big_msg))) + 8"
    then have "k < j \<or> j + align_up 8 (length big_msg) + 8 \<le> k" using d by (auto simp: big_msg(3))
    from stored_other [OF this, of m 1] show "?put m j k = m k" by (simp only: big_msg(3))
  qed
  let ?m = "?put (?put (?put (\<lambda>_. 0) 6080) 0) 2112"
  have "msg_at ?m 6080 (1, big_msg)" by (intro keep at) simp_all
  moreover have "msg_at ?m 0 (1, big_msg)" by (intro keep at) simp
  moreover have "msg_at ?m 2112 (1, big_msg)" by (rule at)
  ultimately show ?thesis by (simp add: mi_rep2_def full_queue_def big_msg(3) Let_def)
qed

theorem msg_in_dispatch_refused_witness:
  "case msg_in_dequeue full_queue of (j, x, q') \<Rightarrow>
     x = 1 \<and> msg_at (mi_mem q') j (1, big_msg) \<and> mi_rep q' [(1, big_msg), (1, big_msg)] \<and> msg_in_full q' 2100"
proof -
  have "mi_write full_queue = 4224" by (simp add: full_queue_def Let_def)
  then have "8192 < mi_write full_queue + (align_up 8 (length (snd (1 :: nat, big_msg))) + 8) + (align_up 8 (length (snd (1 :: nat, big_msg))) + 8)"
    by (simp only: snd_conv big_msg(3))
  from msg_in_dispatch_refused [OF full_queue_rep this] show ?thesis by (simp only: fst_conv snd_conv big_msg(2))
qed

lemma example_queue_rep: "\<exists>q. mi_rep q [(1, example_msg)]"
proof -
  let ?q = "msg_in_init \<lparr>mi_mem = (\<lambda>_. 0), mi_read = 0, mi_write = 0, mi_wrap = 0\<rparr>"
  have "\<not> msg_in_full ?q (length example_msg)"
    by (simp add: msg_in_full_def msg_in_space_def msg_in_init_def example_msg_def align_up_def)
  from msg_in_store_rep [OF msg_in_init_rep example_msg_valid _ this, of 1] show ?thesis by auto
qed

lemma example_msg_data: "free_data_of P (x, example_msg) t = (if P x then TransmitBufferFree t 0 else t)"
  by (simp add: free_data_of_def example_msg_def msg_command_def msg_data_def rd16_def rd32_def)

theorem plci_free_msg_in_queue_frees_witness:
  "\<exists>q q'. mi_rep q [(1, example_msg)] \<and> plci_free_msg_in_queue 1 example_table q = Some (TransmitBufferFree example_table 0, q') \<and> mi_rep q' []"
proof -
  obtain q where q: "mi_rep q [(1, example_msg)]" using example_queue_rep by blast
  from plci_free_msg_in_queue_frees [OF q, of 1 example_table] q show ?thesis by (auto simp: example_msg_data)
qed

theorem plci_free_queued_appl_msg_exact_witness:
  "\<exists>q q'. mi_rep q [(1, example_msg)] \<and> plci_free_queued_appl_msg 1 example_table q = Some (TransmitBufferFree example_table 0, q') \<and>
     mi_rep q' [(0, example_msg)]"
proof -
  obtain q where q: "mi_rep q [(1, example_msg)]" using example_queue_rep by blast
  from plci_free_queued_appl_msg_exact [OF q, of 1 example_table] q show ?thesis by (auto simp: example_msg_data)
qed

end
