(* ===== verification/CapiParse.thy ===== *)
theory CapiParse
  imports CBase
begin

text \<open>
  The messages of the CAPI as parameters: \<open>api_parse\<close> splits a message by a format string,
  \<open>api_save_msg\<close> copies parsed parameters into a buffer, \<open>api_load_msg\<close> reads them back and
  \<open>api_compare_msg\<close> compares them with others (\<open>kernel/message.c\<close>). An array of
  \<open>API_PARSE\<close> is a map from its index; a pointer is an offset into the message, \<open>None\<close> is
  the null pointer. The position in the message is a C \<open>word\<close>.
\<close>

record api_parm =
  ap_length :: nat
  ap_info :: "nat option"

type_synonym api_parms = "nat \<Rightarrow> api_parm"

record api_save =
  sv_parms :: api_parms
  sv_info :: mem

section \<open>Operations\<close>

text \<open>Position behind a parameter at \<open>p\<close> and its entry; \<open>None\<close> is the early return.\<close>

definition parse_parm :: "mem \<Rightarrow> nat \<Rightarrow> char \<Rightarrow> nat \<Rightarrow> api_parm \<Rightarrow> nat option \<times> api_parm" where
  "parse_parm msg len c p a0 =
     (let a = a0\<lparr>ap_info := Some p\<rparr>
      in if c = CHR ''b'' then (Some ((p + 1) mod 65536), a)
         else if c = CHR ''w'' then (Some ((p + 2) mod 65536), a)
         else if c = CHR ''d'' then (Some ((p + 4) mod 65536), a)
         else if c = CHR ''s'' then
           (if msg p = 0xff then
              if p + 2 > len then (None, a)
              else (Some ((p + rd16 msg (p + 1) + 3) mod 65536), a\<lparr>ap_info := Some (p + 2), ap_length := rd16 msg (p + 1)\<rparr>)
            else (Some ((p + unat (msg p) + 1) mod 65536), a\<lparr>ap_length := unat (msg p)\<rparr>))
         else if c = CHR ''r'' then
           (let l = (len + 65536 - p) mod 65536 in (Some ((p + l) mod 65536), a\<lparr>ap_length := l\<rparr>))
         else (Some p, a))"

text \<open>\<open>True\<close> is the error result of the code.\<close>

fun api_parse_from :: "mem \<Rightarrow> nat \<Rightarrow> string \<Rightarrow> nat \<Rightarrow> nat \<Rightarrow> api_parms \<Rightarrow> bool \<times> api_parms" where
  "api_parse_from msg len [] i p parms = (False, parms(i := (parms i)\<lparr>ap_info := None\<rparr>))"
| "api_parse_from msg len (c # fmt) i p parms =
     (case parse_parm msg len c p (parms i) of
        (None, a) \<Rightarrow> (True, parms(i := a))
      | (Some p', a) \<Rightarrow> if p' > len then (True, parms(i := a)) else api_parse_from msg len fmt (i + 1) p' (parms(i := a)))"

definition api_parse :: "mem \<Rightarrow> nat \<Rightarrow> string \<Rightarrow> api_parms \<Rightarrow> bool \<times> api_parms" where
  "api_parse msg len fmt parms = api_parse_from msg len fmt 0 0 parms"

definition parm_size :: "char \<Rightarrow> nat \<Rightarrow> nat" where
  "parm_size c l =
     (if c = CHR ''b'' then 1 else if c = CHR ''w'' then 2 else if c = CHR ''d'' then 4
      else if c = CHR ''s'' then (l + 1) mod 65536 else 0)"

definition parm_bytes :: "mem \<Rightarrow> api_parm \<Rightarrow> nat \<Rightarrow> byte list" where
  "parm_bytes msg a n = rd_bytes msg (the (ap_info a)) n"

fun save_from :: "mem \<Rightarrow> api_parms \<Rightarrow> string \<Rightarrow> nat \<Rightarrow> nat \<Rightarrow> api_save \<Rightarrow> api_save" where
  "save_from msg inp [] i p out = out\<lparr>sv_parms := (sv_parms out)(i := \<lparr>ap_length = 0, ap_info = None\<rparr>)\<rparr>"
| "save_from msg inp (c # fmt) i p out =
     (let n = parm_size c (ap_length (inp i))
      in save_from msg inp fmt (i + 1) (p + n)
           (out\<lparr>sv_parms := (sv_parms out)(i := \<lparr>ap_length = ap_length (inp i), ap_info = Some p\<rparr>),
                sv_info := wr_bytes (sv_info out) p (parm_bytes msg (inp i) n)\<rparr>))"

definition api_save_msg :: "mem \<Rightarrow> api_parms \<Rightarrow> string \<Rightarrow> api_save \<Rightarrow> api_save" where
  "api_save_msg msg inp fmt out = save_from msg inp fmt 0 0 out"

partial_function (option) load_from :: "api_parms \<Rightarrow> nat \<Rightarrow> api_parms \<Rightarrow> api_parms option" where
  "load_from inp i out =
     (let out' = out(i := inp i)
      in if ap_info (inp i) \<noteq> None then load_from inp (i + 1) out' else Some out')"

definition api_load_msg :: "api_save \<Rightarrow> api_parms \<Rightarrow> api_parms option" where
  "api_load_msg s out = load_from (sv_parms s) 0 out"

text \<open>The bytes that are compared: a structure without its length byte.\<close>

definition cmp_bytes :: "mem \<Rightarrow> api_parm \<Rightarrow> char \<Rightarrow> byte list" where
  "cmp_bytes msg a c =
     (if c = CHR ''s'' then rd_bytes msg (the (ap_info a) + 1) (ap_length a)
      else parm_bytes msg a (parm_size c 0))"

fun compare_from :: "api_save \<Rightarrow> string \<Rightarrow> nat \<Rightarrow> mem \<Rightarrow> api_parms \<Rightarrow> byte" where
  "compare_from s [] i msg parms = 0"
| "compare_from s (c # fmt) i msg parms =
     (if ap_length (sv_parms s i) \<noteq> ap_length (parms i) then 1
      else if cmp_bytes (sv_info s) (sv_parms s i) c \<noteq> cmp_bytes msg (parms i) c then 1
      else compare_from s fmt (i + 1) msg parms)"

definition api_compare_msg :: "api_save \<Rightarrow> string \<Rightarrow> mem \<Rightarrow> api_parms \<Rightarrow> byte" where
  "api_compare_msg s fmt msg parms = compare_from s fmt 0 msg parms"

section \<open>Values and their encoding\<close>

datatype parm_value = PByte byte | PWord nat | PDword nat | PStruct "byte list"

fun parm_format :: "parm_value \<Rightarrow> char" where
  "parm_format (PByte b) = CHR ''b''"
| "parm_format (PWord n) = CHR ''w''"
| "parm_format (PDword n) = CHR ''d''"
| "parm_format (PStruct d) = CHR ''s''"

fun parm_ok :: "parm_value \<Rightarrow> bool" where
  "parm_ok (PByte b) \<longleftrightarrow> True"
| "parm_ok (PWord n) \<longleftrightarrow> n < 65536"
| "parm_ok (PDword n) \<longleftrightarrow> n < 4294967296"
| "parm_ok (PStruct d) \<longleftrightarrow> length d < 65536"

text \<open>A structure of 255 bytes or more has the extended length.\<close>

fun parm_encode :: "parm_value \<Rightarrow> byte list" where
  "parm_encode (PByte b) = [b]"
| "parm_encode (PWord n) = rd_bytes (wr16 (\<lambda>_. 0) 0 n) 0 2"
| "parm_encode (PDword n) = rd_bytes (wr32 (\<lambda>_. 0) 0 n) 0 4"
| "parm_encode (PStruct d) =
     (if length d < 255 then word_of_nat (length d) # d
      else 0xff # word_of_nat (length d) # word_of_nat (length d div 256) # d)"

text \<open>What the entry of a parameter denotes.\<close>

fun parm_denotes :: "mem \<Rightarrow> api_parm \<Rightarrow> parm_value \<Rightarrow> bool" where
  "parm_denotes msg a (PByte b) \<longleftrightarrow> ap_info a \<noteq> None \<and> msg (the (ap_info a)) = b"
| "parm_denotes msg a (PWord n) \<longleftrightarrow> ap_info a \<noteq> None \<and> rd16 msg (the (ap_info a)) = n"
| "parm_denotes msg a (PDword n) \<longleftrightarrow> ap_info a \<noteq> None \<and> rd32 msg (the (ap_info a)) = n"
| "parm_denotes msg a (PStruct d) \<longleftrightarrow> ap_info a \<noteq> None \<and> ap_length a = length d \<and>
     rd_bytes msg (the (ap_info a) + 1) (length d) = d"

lemma api_parse_from_other: "k < i \<Longrightarrow> snd (api_parse_from msg len fmt i p parms) k = parms k"
  by (induction msg len fmt i p parms rule: api_parse_from.induct) (auto split: prod.splits option.splits)

lemma rd16_of_bytes:
  "rd_bytes m p (length xs) = xs \<Longrightarrow> k + 2 \<le> length xs \<Longrightarrow> rd16 m (p + k) = unat (xs ! k) + 256 * unat (xs ! (k + 1))"
  using rd_bytes_nth [of m p "length xs" xs k] rd_bytes_nth [of m p "length xs" xs "k + 1"]
  by (simp add: rd16_def)

lemma byte_split: "n < 65536 \<Longrightarrow> n mod 256 + 256 * (n div 256 mod 256) = (n :: nat)"
  by (simp add: div_less_iff_less_mult)

lemma unat_ff: "unat (0xff :: byte) = 255"
  by simp

text \<open>One parameter, on an encoded value.\<close>

lemma parse_parm_encode:
  assumes "rd_bytes msg p (length (parm_encode v)) = parm_encode v" "parm_ok v"
    "p + length (parm_encode v) \<le> len" "len < 65536"
  obtains a where "parse_parm msg len (parm_format v) p a0 = (Some (p + length (parm_encode v)), a)"
    "parm_denotes msg a v"
proof (cases v)
  case (PByte b)
  have "msg p = b" using rd_bytes_nth [OF assms(1), of 0] PByte by simp
  then show ?thesis using assms(3,4) PByte by (intro that [of "a0\<lparr>ap_info := Some p\<rparr>"]) (simp_all add: parse_parm_def Let_def)
next
  case (PWord n)
  have "rd16 msg p = rd16 (wr16 (\<lambda>_. 0) 0 n) 0"
    using rd_bytes_nth [OF assms(1), of 0] rd_bytes_nth [OF assms(1), of 1] PWord
    by (simp add: rd16_def rd_bytes_def)
  then have "rd16 msg p = n" using PWord assms(2) by (simp add: rd16_wr16)
  then show ?thesis using assms(3,4) PWord by (intro that [of "a0\<lparr>ap_info := Some p\<rparr>"]) (simp_all add: parse_parm_def Let_def)
next
  case (PDword n)
  have "msg (p + k) = wr32 (\<lambda>_. 0) 0 n (0 + k)" if "k < 4" for k
    using rd_bytes_nth [OF assms(1), of k] PDword that by (simp add: rd_bytes_def)
  from this [of 0] this [of 1] this [of 2] this [of 3]
  have "rd32 msg p = rd32 (wr32 (\<lambda>_. 0) 0 n) 0" by (simp add: rd32_def rd16_def numeral_2_eq_2 numeral_3_eq_3)
  then have "rd32 msg p = n" using PDword assms(2) by (simp add: rd32_wr32)
  then show ?thesis using assms(3,4) PDword by (intro that [of "a0\<lparr>ap_info := Some p\<rparr>"]) (simp_all add: parse_parm_def Let_def)
next
  case (PStruct d)
  show ?thesis
  proof (cases "length d < 255")
    case True
    have "msg p = word_of_nat (length d)" using rd_bytes_nth [OF assms(1), of 0] PStruct True by simp
    moreover have u: "unat (word_of_nat (length d) :: byte) = length d" using True by simp
    moreover have "word_of_nat (length d) \<noteq> (0xff :: byte)"
    proof
      assume "word_of_nat (length d) = (0xff :: byte)"
      then show False using u True unat_ff by simp
    qed
    moreover have "rd_bytes msg (p + 1) (length d) = d"
      using assms(1) PStruct True rd_bytes_append [of msg p 1 "length d"] by (simp add: rd_bytes_def)
    ultimately show ?thesis using PStruct True assms(3,4) by (intro that [of "a0\<lparr>ap_info := Some p, ap_length := length d\<rparr>"]) (simp_all add: parse_parm_def Let_def)
  next
    case False
    let ?n = "length d"
    have n: "?n < 65536" using assms(2) PStruct by simp
    have "msg p = 0xff" using rd_bytes_nth [OF assms(1), of 0] PStruct False by simp
    moreover have "rd16 msg (p + 1) = ?n"
    proof -
      have "rd16 msg (p + 1) = ?n mod 256 + 256 * (?n div 256 mod 256)"
        using rd16_of_bytes [OF assms(1), of 1] PStruct False by simp
      then show ?thesis using byte_split [OF n] by simp
    qed
    moreover have "rd_bytes msg (p + 2 + 1) ?n = d"
    proof -
      have "length (parm_encode v) = 3 + ?n" "drop 3 (parm_encode v) = d" using PStruct False by simp_all
      with assms(1) rd_bytes_append [of msg p 3 ?n] have "drop 3 (rd_bytes msg p 3 @ rd_bytes msg (p + 3) ?n) = d" by simp
      then show ?thesis by (simp add: numeral_3_eq_3)
    qed
    ultimately show ?thesis using PStruct False assms(3,4) by (intro that [of "a0\<lparr>ap_info := Some (p + 2), ap_length := length d\<rparr>"]) (simp_all add: parse_parm_def Let_def)
  qed
qed

lemma api_parse_from_encode:
  assumes "rd_bytes msg p (length (concat (map parm_encode vs))) = concat (map parm_encode vs)"
    "\<forall>v \<in> set vs. parm_ok v" "p + length (concat (map parm_encode vs)) = len" "len < 65536"
  shows "\<exists>r. api_parse_from msg len (map parm_format vs) i p parms = (False, r) \<and>
    (\<forall>k < length vs. parm_denotes msg (r (i + k)) (vs ! k)) \<and> ap_info (r (i + length vs)) = None"
  using assms(1-3)
proof (induction vs arbitrary: i p parms)
  case (Cons v vs)
  let ?n = "length (parm_encode v)" and ?rest = "concat (map parm_encode vs)"
  have "rd_bytes msg p ?n @ rd_bytes msg (p + ?n) (length ?rest) = parm_encode v @ ?rest"
    using Cons.prems(1) rd_bytes_append [of msg p ?n "length ?rest"] by simp
  then have r: "rd_bytes msg p ?n = parm_encode v" "rd_bytes msg (p + ?n) (length ?rest) = ?rest" by simp_all
  obtain a where a: "parse_parm msg len (parm_format v) p (parms i) = (Some (p + ?n), a)" "parm_denotes msg a v"
    by (rule parse_parm_encode [OF r(1) _ _ assms(4)]) (use Cons.prems in auto)
  obtain res where res: "api_parse_from msg len (map parm_format vs) (i + 1) (p + ?n) (parms(i := a)) = (False, res)"
    "\<forall>k < length vs. parm_denotes msg (res (i + 1 + k)) (vs ! k)" "ap_info (res (i + 1 + length vs)) = None"
    using Cons.IH [OF r(2)] Cons.prems(2,3) by force
  have "res i = a"
    using api_parse_from_other [of i "i + 1" msg len "map parm_format vs" "p + ?n" "parms(i := a)"] res(1) by simp
  then have "parm_denotes msg (res (i + k)) ((v # vs) ! k)" if "k < length (v # vs)" for k
    using that a(2) res(2) [rule_format, of "k - 1"] by (cases k) auto
  then show ?case using a(1) res(1,3) Cons.prems(3) by simp
qed simp

text \<open>Bounds: a parameter of an accepted message lies inside it, unless the position wraps.\<close>

definition parm_inside :: "nat \<Rightarrow> char \<Rightarrow> api_parm \<Rightarrow> bool" where
  "parm_inside len c a \<longleftrightarrow> ap_info a \<noteq> None \<and>
     the (ap_info a) + (if c = CHR ''b'' then 1 else if c = CHR ''w'' then 2 else if c = CHR ''d'' then 4
       else if c = CHR ''s'' then ap_length a + 1 else if c = CHR ''r'' then ap_length a else 0) \<le> len"

definition no_wrap :: "mem \<Rightarrow> nat \<Rightarrow> bool" where
  "no_wrap msg len \<longleftrightarrow> (\<forall>p \<le> len. msg p = 0xff \<longrightarrow> p + rd16 msg (p + 1) + 3 < 65536)"

lemma parse_parm_inside:
  assumes "parse_parm msg len c p a0 = (Some p', a)" "p \<le> len" "p' \<le> len" "len < 65000" "no_wrap msg len"
  shows "parm_inside len c a"
proof -
  have u: "unat (msg p) < 256" using unsigned_less [of "msg p"] by simp
  have "msg p = 0xff \<Longrightarrow> p + rd16 msg (p + 1) + 3 < 65536" using assms(2,5) by (simp add: no_wrap_def)
  then have m: "msg p = 0xff \<Longrightarrow> (p + rd16 msg (p + 1) + 3) mod 65536 = p + rd16 msg (p + 1) + 3" by simp
  have s: "(p + 1) mod 65536 = p + 1" "(p + 2) mod 65536 = p + 2" "(p + 4) mod 65536 = p + 4"
    "(p + unat (msg p) + 1) mod 65536 = p + unat (msg p) + 1"
    using assms(2,4) u by simp_all
  have r: "(len + 65536 - p) mod 65536 = len - p"
  proof -
    have e: "len + 65536 - p = (len - p) + 65536" using assms(2) by simp
    show ?thesis unfolding e using assms(4) by simp
  qed
  consider "c = CHR ''b''" | "c = CHR ''w''" | "c = CHR ''d''" | "c = CHR ''s''" "msg p = 0xff" | "c = CHR ''s''" "msg p \<noteq> 0xff"
    | "c = CHR ''r''" | "c \<notin> {CHR ''b'', CHR ''w'', CHR ''d'', CHR ''s'', CHR ''r''}" by blast
  then show ?thesis
  proof cases
    case 4
    then show ?thesis using assms(1,3) m [OF 4(2)] unfolding parse_parm_def Let_def
      by (auto simp: parm_inside_def split: if_splits)
  next
    case 5
    then show ?thesis using assms(1,3) unfolding parse_parm_def Let_def s by (auto simp: parm_inside_def)
  next
    case 6
    then show ?thesis using assms(1,2) unfolding parse_parm_def Let_def r by (auto simp: parm_inside_def)
  next
    case 1
    then show ?thesis using assms(1,3) unfolding parse_parm_def Let_def s by (auto simp: parm_inside_def)
  next
    case 2
    then show ?thesis using assms(1,3) unfolding parse_parm_def Let_def s by (auto simp: parm_inside_def)
  next
    case 3
    then show ?thesis using assms(1,3) unfolding parse_parm_def Let_def s by (auto simp: parm_inside_def)
  next
    case 7
    then show ?thesis using assms(1,2) unfolding parse_parm_def Let_def by (auto simp: parm_inside_def)
  qed
qed

lemma api_parse_from_inside:
  assumes "api_parse_from msg len fmt i p parms = (False, r)" "p \<le> len" "len < 65000" "no_wrap msg len"
  shows "k < length fmt \<Longrightarrow> parm_inside len (fmt ! k) (r (i + k))"
  using assms(1,2)
proof (induction fmt arbitrary: i p parms k)
  case (Cons c fmt)
  obtain p' a where a: "parse_parm msg len c p (parms i) = (Some p', a)" "p' \<le> len"
    and r: "api_parse_from msg len fmt (i + 1) p' (parms(i := a)) = (False, r)"
    using Cons.prems(2) by (auto split: prod.splits option.splits if_splits)
  show ?case
  proof (cases k)
    case 0
    have "r i = a" using api_parse_from_other [of i "i + 1" msg len fmt p' "parms(i := a)"] r by simp
    then show ?thesis using 0 parse_parm_inside [OF a(1) Cons.prems(3) a(2) assms(3,4)] by simp
  next
    case (Suc j)
    then show ?thesis using Cons.IH [OF _ r a(2), of j] Cons.prems(1) by simp
  qed
qed simp

section \<open>Properties\<close>

text \<open>C36: Parsing what was encoded: a message made of any bytes, words, double words and
  structures, short and extended ones, is accepted under the matching format, every entry
  denotes the encoded value, and the entry behind the last one is the null pointer.\<close>

theorem api_parse_roundtrip:
  assumes "\<forall>v \<in> set vs. parm_ok v" and "length (concat (map parm_encode vs)) < 65536"
  shows "\<exists>r. api_parse (wr_bytes m 0 (concat (map parm_encode vs))) (length (concat (map parm_encode vs)))
       (map parm_format vs) parms = (False, r) \<and>
     (\<forall>k < length vs. parm_denotes (wr_bytes m 0 (concat (map parm_encode vs))) (r k) (vs ! k)) \<and>
     ap_info (r (length vs)) = None"
  unfolding api_parse_def
  using api_parse_from_encode [OF rd_wr_bytes assms(1) _ assms(2), of 0 m 0] by simp

text \<open>In an accepted message without an extended length that overflows a \<open>word\<close>, every
  parameter lies inside the message.\<close>

theorem api_parse_inside:
  assumes "api_parse msg len fmt parms = (False, r)" and "len < 65000" and "no_wrap msg len" and "k < length fmt"
  shows "parm_inside len (fmt ! k) (r k)"
  using api_parse_from_inside [OF assms(1) [unfolded api_parse_def] _ assms(2-4)] by simp

text \<open>The position is a \<open>word\<close>: an extended length of \<open>65533\<close> or more makes it wrap, and
  the check \<open>p > length\<close> passes although the structure reaches tens of kilobytes beyond the
  end of the message.\<close>

theorem api_parse_wrap:
  assumes "msg 0 = 0xff" and "65533 \<le> rd16 msg 1" and "3 \<le> len" and "len < 65000"
  shows "fst (api_parse msg len ''s'' parms) = False \<and> ap_length (snd (api_parse msg len ''s'' parms) 0) = rd16 msg 1 \<and>
     \<not> parm_inside len CHR ''s'' (snd (api_parse msg len ''s'' parms) 0)"
proof -
  have "rd16 msg 1 < 65536" by (rule rd16_bound)
  then have "(rd16 msg 1 + 3) mod 65536 = rd16 msg 1 - 65533"
    using assms(2) by (simp add: mod_if)
  moreover have "rd16 msg 1 - 65533 \<le> len" using \<open>rd16 msg 1 < 65536\<close> assms(3) by simp
  ultimately show ?thesis
    using assms by (simp add: api_parse_def parse_parm_def Let_def parm_inside_def)
qed

text \<open>Saving: entry \<open>i\<close> lies behind the ones before it and keeps its bytes.\<close>

definition save_size :: "api_parms \<Rightarrow> nat \<Rightarrow> string \<Rightarrow> nat" where
  "save_size inp i fmt = sum_list (map (\<lambda>k. parm_size (fmt ! k) (ap_length (inp (i + k)))) [0..<length fmt])"

lemma save_from_other:
  "k < i \<Longrightarrow> sv_parms (save_from msg inp fmt i p out) k = sv_parms out k"
  "j < p \<Longrightarrow> sv_info (save_from msg inp fmt i p out) j = sv_info out j"
  by (induction msg inp fmt i p out rule: save_from.induct) (auto simp: Let_def wr_bytes_other)

lemma save_from_entry:
  "k < length fmt \<Longrightarrow> \<exists>q. sv_parms (save_from msg inp fmt i p out) (i + k) = \<lparr>ap_length = ap_length (inp (i + k)), ap_info = Some q\<rparr> \<and>
     rd_bytes (sv_info (save_from msg inp fmt i p out)) q (parm_size (fmt ! k) (ap_length (inp (i + k)))) =
       parm_bytes msg (inp (i + k)) (parm_size (fmt ! k) (ap_length (inp (i + k))))"
proof (induction fmt arbitrary: i p out k)
  case (Cons c fmt)
  let ?n = "parm_size c (ap_length (inp i))"
  let ?o = "out\<lparr>sv_parms := (sv_parms out)(i := \<lparr>ap_length = ap_length (inp i), ap_info = Some p\<rparr>),
                sv_info := wr_bytes (sv_info out) p (parm_bytes msg (inp i) ?n)\<rparr>"
  show ?case
  proof (cases k)
    case 0
    have "rd_bytes (sv_info (save_from msg inp fmt (i + 1) (p + ?n) ?o)) p ?n = rd_bytes (sv_info ?o) p ?n"
      by (rule rd_bytes_cong) (simp add: save_from_other)
    also have "\<dots> = parm_bytes msg (inp i) ?n"
      using rd_wr_bytes [of "sv_info out" p "parm_bytes msg (inp i) ?n"] by (simp add: parm_bytes_def)
    finally show ?thesis using 0 by (simp add: Let_def save_from_other)
  next
    case (Suc j)
    then show ?thesis using Cons.IH [of j "i + 1" "p + ?n" ?o] Cons.prems by (simp add: Let_def)
  qed
qed simp

lemma save_from_end: "sv_parms (save_from msg inp fmt i p out) (i + length fmt) = \<lparr>ap_length = 0, ap_info = None\<rparr>"
proof (induction fmt arbitrary: i p out)
  case (Cons c fmt)
  from Cons.IH [of "i + 1"] show ?case by (simp add: Let_def)
qed simp

lemma compare_from_iff:
  "compare_from s fmt i msg parms = 0 \<longleftrightarrow>
     (\<forall>k < length fmt. ap_length (sv_parms s (i + k)) = ap_length (parms (i + k)) \<and>
        cmp_bytes (sv_info s) (sv_parms s (i + k)) (fmt ! k) = cmp_bytes msg (parms (i + k)) (fmt ! k))"
proof (induction fmt arbitrary: i)
  case (Cons c fmt)
  have split: "(\<forall>k < length (c # fmt). P k) \<longleftrightarrow> P 0 \<and> (\<forall>k < length fmt. P (Suc k))" for P
    by (auto simp: less_Suc_eq_0_disj)
  show ?case using Cons.IH [of "i + 1"] unfolding split by auto
qed simp

lemma load_from_entries:
  assumes "\<forall>k < n. ap_info (inp (i + k)) \<noteq> None" "ap_info (inp (i + n)) = None"
  shows "load_from inp i out = Some (\<lambda>k. if i \<le> k \<and> k \<le> i + n then inp k else out k)"
  using assms
proof (induction n arbitrary: i out)
  case 0
  then show ?case by (subst load_from.simps) (auto simp: Let_def fun_eq_iff)
next
  case (Suc n)
  have "ap_info (inp (i + 1 + k)) \<noteq> None" if "k < n" for k
    using Suc.prems(1) [rule_format, of "Suc k"] that by simp
  then have "load_from inp (i + 1) (out(i := inp i)) = Some (\<lambda>k. if i + 1 \<le> k \<and> k \<le> i + 1 + n then inp k else (out(i := inp i)) k)"
    using Suc.prems(2) by (intro Suc.IH) auto
  moreover have "ap_info (inp i) \<noteq> None" using Suc.prems(1) [rule_format, of 0] by simp
  ultimately show ?case by (subst load_from.simps) (auto simp: Let_def fun_eq_iff)
qed

text \<open>Saved parameters stand for the originals: loading them back ends and yields, for
  every parameter, an entry of the same length, and comparing the saved message with any
  parameters reports equality exactly when all lengths and all bytes agree with the
  parameters that were saved.\<close>

theorem api_save_compare:
  assumes "\<forall>k < length fmt. ap_length (parms k) < 65535"
  shows "(api_compare_msg (api_save_msg msg parms fmt out) fmt msg' parms' = 0 \<longleftrightarrow>
       (\<forall>k < length fmt. ap_length (parms k) = ap_length (parms' k) \<and>
          cmp_bytes msg (parms k) (fmt ! k) = cmp_bytes msg' (parms' k) (fmt ! k))) \<and>
     (\<exists>r. api_load_msg (api_save_msg msg parms fmt out) old = Some r \<and>
       (\<forall>k < length fmt. ap_length (r k) = ap_length (parms k) \<and>
          cmp_bytes (sv_info (api_save_msg msg parms fmt out)) (r k) (fmt ! k) = cmp_bytes msg (parms k) (fmt ! k)) \<and>
       ap_info (r (length fmt)) = None)"
proof -
  let ?s = "api_save_msg msg parms fmt out"
  have e: "ap_length (sv_parms ?s k) = ap_length (parms k) \<and> ap_info (sv_parms ?s k) \<noteq> None \<and>
      cmp_bytes (sv_info ?s) (sv_parms ?s k) (fmt ! k) = cmp_bytes msg (parms k) (fmt ! k)" if k: "k < length fmt" for k
  proof -
    let ?n = "parm_size (fmt ! k) (ap_length (parms k))"
    obtain q where q: "sv_parms ?s k = \<lparr>ap_length = ap_length (parms k), ap_info = Some q\<rparr>"
      "rd_bytes (sv_info ?s) q ?n = parm_bytes msg (parms k) ?n"
      using save_from_entry [OF k, of msg parms 0 0 out] by (auto simp: api_save_msg_def)
    have "cmp_bytes (sv_info ?s) (sv_parms ?s k) (fmt ! k) = cmp_bytes msg (parms k) (fmt ! k)"
    proof (cases "fmt ! k = CHR ''s''")
      case True
      then have "?n = 1 + ap_length (parms k)" using assms k by (simp add: parm_size_def)
      with q(2) show ?thesis
        using True q(1) rd_bytes_append [of "sv_info ?s" q 1 "ap_length (parms k)"]
          rd_bytes_append [of msg "the (ap_info (parms k))" 1 "ap_length (parms k)"]
        by (simp add: cmp_bytes_def parm_bytes_def)
    next
      case False
      then have "parm_size (fmt ! k) l = parm_size (fmt ! k) 0" for l by (simp add: parm_size_def)
      then show ?thesis using False q by (simp add: cmp_bytes_def parm_bytes_def) metis
    qed
    then show ?thesis using q(1) by simp
  qed
  have "api_load_msg ?s old = Some (\<lambda>k. if 0 \<le> k \<and> k \<le> 0 + length fmt then sv_parms ?s k else old k)"
    unfolding api_load_msg_def using e save_from_end [of msg parms fmt 0 0 out]
    by (intro load_from_entries) (auto simp: api_save_msg_def)
  then show ?thesis
    using e save_from_end [of msg parms fmt 0 0 out]
    by (simp add: api_compare_msg_def compare_from_iff) (auto simp: api_save_msg_def)
qed

section \<open>Examples\<close>

definition example_vs :: "parm_value list" where
  "example_vs = [PWord 0x1234, PStruct [1, 2, 3], PByte 9]"

definition no_parms :: api_parms where
  "no_parms = (\<lambda>_. \<lparr>ap_length = 0, ap_info = None\<rparr>)"

theorem api_parse_roundtrip_witness:
  "\<exists>r. api_parse (wr_bytes (\<lambda>_. 0) 0 (concat (map parm_encode example_vs))) 7 ''wsb'' no_parms = (False, r) \<and>
     parm_denotes (wr_bytes (\<lambda>_. 0) 0 (concat (map parm_encode example_vs))) (r 1) (PStruct [1, 2, 3])"
proof -
  have l: "length (concat (map parm_encode example_vs)) = 7" "map parm_format example_vs = ''wsb''"
    "example_vs ! 1 = PStruct [1, 2, 3]" "length example_vs = 3"
    by (simp_all add: example_vs_def)
  have "\<forall>v \<in> set example_vs. parm_ok v" by (simp add: example_vs_def)
  from api_parse_roundtrip [OF this, of "\<lambda>_. 0" no_parms, unfolded l] show ?thesis
    using l(3) by (auto dest!: spec [of _ 1])
qed

definition small_msg :: mem where
  "small_msg = wr_bytes (\<lambda>_. 0) 0 [2, 7, 8]"

lemma small_msg: "api_parse small_msg 3 ''s'' no_parms = (False, no_parms(0 := \<lparr>ap_length = 2, ap_info = Some 0\<rparr>))"
  by (simp add: api_parse_def parse_parm_def small_msg_def no_parms_def wr_bytes_def fun_eq_iff)

theorem api_parse_inside_witness:
  "parm_inside 3 CHR ''s'' \<lparr>ap_length = 2, ap_info = Some 0\<rparr>"
proof -
  have "small_msg p \<noteq> 0xff" for p
  proof -
    have "small_msg p \<in> {0, 2, 7, 8}"
      by (cases "p < 3") (auto simp: small_msg_def wr_bytes_def numeral_3_eq_3 less_Suc_eq)
    then show ?thesis by auto
  qed
  then have "no_wrap small_msg 3" by (simp add: no_wrap_def)
  from api_parse_inside [OF small_msg _ this, of 0] show ?thesis by simp
qed

theorem api_parse_wrap_witness:
  "fst (api_parse (wr_bytes (\<lambda>_. 0) 0 [0xff, 0xfd, 0xff]) 3 ''s'' no_parms) = False"
proof -
  let ?m = "wr_bytes (\<lambda>_. 0) 0 [0xff, 0xfd, 0xff] :: mem"
  have "?m 0 = 0xff" by (simp add: wr_bytes_def)
  moreover have "rd16 ?m 1 = 65533" by (simp add: rd16_def wr_bytes_def)
  ultimately show ?thesis using api_parse_wrap [of ?m 3 no_parms] by simp
qed

theorem api_save_compare_witness:
  "api_compare_msg (api_save_msg small_msg (no_parms(0 := \<lparr>ap_length = 2, ap_info = Some 0\<rparr>)) ''s''
     \<lparr>sv_parms = no_parms, sv_info = (\<lambda>_. 0)\<rparr>) ''s'' small_msg (no_parms(0 := \<lparr>ap_length = 2, ap_info = Some 0\<rparr>)) = 0"
  using api_save_compare [of "''s''" "no_parms(0 := \<lparr>ap_length = 2, ap_info = Some 0\<rparr>)" small_msg] by simp

end
