(* ===== verification/CapiPut.thy ===== *)
theory CapiPut
  imports CapiB3 MsgIn CapiParse "HOL-Library.Sublist"
begin

text \<open>
  The entry of CAPI messages into the message layer (\<open>api_put_reenter\<close> of \<open>kernel/message.c\<close>) and
  the loop at the end of the adapter callback that processes the messages waiting at a PLCI
  (\<open>capi_callback_suffix\<close>). A message is processed at once, stored in the message queue of its
  PLCI because the PLCI is busy, or refused; processing looks the command up in \<open>ftable\<close>, parses
  the parameters and calls the function of the entry. The functions of
  \<open>CapiData\<close> and \<open>CapiB3\<close> are called, the other functions are the parameter \<open>other\<close>; each call is recorded in \<open>calls\<close>.

  A message is a memory with the message at 0; \<open>inq\<close> is the PLCI whose message queue the message
  lies in, 0 for a message from outside. The state is that of the adapter the message addresses.
  The update of the line interconnection behind each message is left out.
\<close>

abbreviation (input) MAX_MSG_PARMS :: nat where "MAX_MSG_PARMS \<equiv> 20"
abbreviation (input) INC_CON_ALERT :: nat where "INC_CON_ALERT \<equiv> 3"
abbreviation (input) BAD_MSG :: nat where "BAD_MSG \<equiv> 0x1102"
abbreviation (input) QUEUE_FULL :: nat where "QUEUE_FULL \<equiv> 0x1103"
abbreviation (input) DATA_B3_RES :: nat where "DATA_B3_RES \<equiv> 0x8386"
abbreviation (input) DISCONNECT_RES :: nat where "DISCONNECT_RES \<equiv> 0x8304"
abbreviation (input) DISCONNECT_B3_RES :: nat where "DISCONNECT_B3_RES \<equiv> 0x8384"
abbreviation (input) MANUFACTURER_R :: nat where "MANUFACTURER_R \<equiv> 0x80ff"
abbreviation (input) MANUFACTURER_RES :: nat where "MANUFACTURER_RES \<equiv> 0x83ff"

section \<open>The table of the functions\<close>

datatype api_function =
  Data_b3_req | Data_b3_res | Info_req | Info_res | Connect_req | Connect_res | Connect_a_res
| Disconnect_req | Disconnect_res | Listen_req | Alert_req | Facility_req | Facility_res
| Connect_b3_req | Connect_b3_res | Connect_b3_a_res | Disconnect_b3_req | Disconnect_b3_res
| Reset_b3_req | Reset_b3_res | Connect_b3_t90_a_res | Select_b_req | Manufacturer_req | Manufacturer_res

definition ftable :: "(nat \<times> string \<times> api_function) list" where
  "ftable =
   [(DATA_B3_REQ, ''dwww'', Data_b3_req),
    (DATA_B3_RES, ''w'', Data_b3_res),
    (0x8008, ''ss'', Info_req),
    (0x8308, '''', Info_res),
    (0x8002, ''wsssssssssss'', Connect_req),
    (0x8002, ''wsssssssss'', Connect_req),
    (0x8302, ''wsssss'', Connect_res),
    (0x8303, '''', Connect_a_res),
    (0x8004, ''s'', Disconnect_req),
    (0x8004, '''', Disconnect_req),
    (DISCONNECT_RES, '''', Disconnect_res),
    (0x8005, ''dddss'', Listen_req),
    (0x8001, ''s'', Alert_req),
    (0x8080, ''ws'', Facility_req),
    (0x8380, ''ws'', Facility_res),
    (0x8082, ''s'', Connect_b3_req),
    (0x8382, ''ws'', Connect_b3_res),
    (0x8383, '''', Connect_b3_a_res),
    (0x8084, ''s'', Disconnect_b3_req),
    (DISCONNECT_B3_RES, '''', Disconnect_b3_res),
    (0x8087, ''s'', Reset_b3_req),
    (0x8387, '''', Reset_b3_res),
    (0x8388, ''ws'', Connect_b3_t90_a_res),
    (0x8388, '''', Connect_b3_t90_a_res),
    (0x8041, ''s'', Select_b_req),
    (MANUFACTURER_R, ''dws'', Manufacturer_req),
    (MANUFACTURER_RES, ''dws'', Manufacturer_res),
    (MANUFACTURER_RES, '''', Manufacturer_res)]"

section \<open>State\<close>

record api_call =
  call_function :: api_function
  call_plci :: nat
  call_appl :: nat
  call_queue :: nat
  call_msg :: "byte list"

record api =
  cap :: capi
  max_plci :: nat
  queues :: "nat \<Rightarrow> msg_in"
  internal_command :: "nat \<Rightarrow> nat"
  number :: "nat \<Rightarrow> nat"
  msg_parms :: api_parms
  calls :: "api_call list"

text \<open>Fields of the header of the message at 0.\<close>

definition hdr_controller :: "mem \<Rightarrow> nat" where "hdr_controller m = unat (m 8)"
definition hdr_plci :: "mem \<Rightarrow> nat" where "hdr_plci m = unat (m 9)"
definition hdr_number :: "mem \<Rightarrow> nat" where "hdr_number m = rd16 m 6"

definition msg_bytes :: "mem \<Rightarrow> byte list" where "msg_bytes m = rd_bytes m 0 (msg_length m 0)"

definition set_cap :: "capi \<Rightarrow> api \<Rightarrow> api" where "set_cap w s = s\<lparr>cap := w\<rparr>"
definition set_queue :: "nat \<Rightarrow> msg_in \<Rightarrow> api \<Rightarrow> api" where "set_queue p q s = s\<lparr>queues := (queues s)(p := q)\<rparr>"

section \<open>Where a message goes\<close>

definition bad_header :: "nat \<Rightarrow> mem \<Rightarrow> bool" where
  "bad_header max_adapter m \<longleftrightarrow>
     msg_length m 0 < 12 \<or> msg_length m 0 > MAX_MSG_SIZE \<or>
     (let c = hdr_controller m mod 128; controller = (c + 255) mod 256
      in controller \<ge> max_adapter \<and>
         (c \<noteq> 0 \<or> msg_command m 0 \<noteq> MANUFACTURER_R \<and> msg_command m 0 \<noteq> MANUFACTURER_RES))"

text \<open>The PLCI the message is for, 0 if there is none.\<close>

definition put_plci :: "mem \<Rightarrow> api \<Rightarrow> nat" where
  "put_plci m s =
     (let p = hdr_plci m; n = msg_ncci m 0; P = plci (cap s) p
      in if p \<noteq> 0 \<and> p \<le> max_plci s \<and> \<not> adapter_disabled (cap s) \<and>
            pl_Id P \<noteq> 0 \<and>
            (pl_appl P \<noteq> 0 \<or> pl_State P = INC_CON_PENDING \<or> pl_State P = INC_CON_ALERT \<or> msg_command m 0 = DISCONNECT_RES) \<and>
            (n = 0 \<or> msg_command m 0 = DISCONNECT_B3_RES \<or> n < MAX_NCCI + 1 \<and> ncci_plci (cap s) n = pl_Id P)
         then p else 0)"

definition busy :: "nat \<Rightarrow> api \<Rightarrow> bool" where
  "busy p s \<longleftrightarrow> req_in (plci (cap s) p) \<noteq> 0 \<or> internal_command s p \<noteq> 0"

text \<open>A DATA_B3 response that does not wait although the PLCI is busy.\<close>

definition res_at_once :: "nat \<Rightarrow> nat \<Rightarrow> mem \<Rightarrow> api \<Rightarrow> bool" where
  "res_at_once p x m s \<longleftrightarrow>
     (let n = rd16 m 12; A = appl (cap s) x; P = plci (cap s) p
      in msg_ncci m 0 = 0 \<or> n \<ge> MaxBuffer A \<or> DataNCCI A n \<noteq> ncci_code (cap s) (msg_ncci m 0) \<or>
         (DataFlags A n div 256) mod 256 \<noteq> pl_Id P \<or> \<not> bit (DataFlags A n) 2 \<or> \<not> bit (DataFlags A n) 4 \<or> req_in P = 0)"

text \<open>What happens to a message for PLCI \<open>p\<close>: refused with a code, stored in the queue, or
  processed (with or without a note of its command and number in the PLCI).\<close>

datatype put_way = Refuse nat | Wait | Process bool

definition put_way :: "nat \<Rightarrow> nat \<Rightarrow> nat \<Rightarrow> mem \<Rightarrow> api \<Rightarrow> put_way option" where
  "put_way p inq x m s =
     (let q = queues s p; len = msg_length m 0; cmd = msg_command m 0; n = msg_ncci m 0;
          c = (inq \<noteq> p \<and> mi_write q \<noteq> mi_read q)
      in if msg_in_full q len then Some (Refuse QUEUE_FULL)
         else if cmd = DATA_B3_REQ then
           if len < 20 then Some (Refuse BAD_MSG)
           else map_option
             (\<lambda>(d, a).
                if d \<ge> MAX_DATA_B3 \<or> a \<ge> MAX_DATA_ACK then Refuse QUEUE_FULL
                else if busy p s then (if inq = p then Refuse QUEUE_FULL else Wait)
                else if c then Wait else Process True)
             (count_queued_data n q (data_pending (ncci (cap s) n), data_ack_pending (ncci (cap s) n)))
         else if c \<or> busy p s then
           if cmd = DATA_B3_RES then
             if len < 14 then Some (Refuse BAD_MSG)
             else if res_at_once p x m s then Some (Process False) else Some Wait
           else Some Wait
         else Some (Process True))"

definition put_wait :: "nat \<Rightarrow> nat \<Rightarrow> mem \<Rightarrow> api \<Rightarrow> api" where
  "put_wait p x m s =
     (let q = queues s p; j = fst (msg_in_space q (msg_length m 0));
          (t, q') = msg_in_store j x (msg_bytes m) (xbuffers (appl (cap s) x)) q
      in set_queue p q' (set_cap (upd_appl x (\<lambda>A. A\<lparr>xbuffers := t\<rparr>) (cap s)) s))"

section \<open>Processing a message\<close>

definition clear_parms :: "api_parms \<Rightarrow> api_parms" where
  "clear_parms P = (\<lambda>i. if i < MAX_MSG_PARMS + 1 then (P i)\<lparr>ap_length := 0\<rparr> else P i)"

fun find_function :: "mem \<Rightarrow> (nat \<times> string \<times> api_function) list \<Rightarrow> api_parms \<Rightarrow> api_function option \<times> api_parms" where
  "find_function m [] P = (None, P)"
| "find_function m ((cmd, fmt, f) # fs) P =
     (if cmd = msg_command m 0 then
        case api_parse (\<lambda>i. m (i + 12)) (msg_length m 0 - 12) fmt P of
          (err, P') \<Rightarrow> if \<not> err then (Some f, P') else find_function m fs (clear_parms P')
      else find_function m fs P)"

text \<open>The function of a message; the result is 1 if a request is to be sent, 2 if the requests
  are to be dropped.\<close>

type_synonym api_handler =
  "api_function \<Rightarrow> nat \<Rightarrow> nat \<Rightarrow> nat \<Rightarrow> nat \<Rightarrow> api_parms \<Rightarrow> mem \<Rightarrow> api \<Rightarrow> (nat \<times> api) option"

definition call_result :: "api \<Rightarrow> bool \<times> capi \<Rightarrow> nat \<times> api" where
  "call_result s rw = (if fst rw then 1 else 0, set_cap (snd rw) s)"

definition run_function :: "api_handler \<Rightarrow> api_function \<Rightarrow> nat \<Rightarrow> nat \<Rightarrow> nat \<Rightarrow> mem \<Rightarrow> api \<Rightarrow> (nat \<times> api) option" where
  "run_function other f p inq x m s =
     (let msgid = rd32 m 8; P = msg_parms s; at = (\<lambda>i. 12 + the (ap_info (P i)))
      in case f of
           Data_b3_req \<Rightarrow>
             map_option (\<lambda>w. (0, set_cap w s))
               (data_b3_req (\<lambda>k. inq \<noteq> 0 \<and> k = inq) msgid (hdr_number m) p x (rd32 m (at 0)) (rd16 m (at 1)) (rd16 m (at 2))
                  (rd16 m (at 3)) (cap s))
         | Data_b3_res \<Rightarrow>
             map_option (call_result s) (data_b3_res msgid p x (rd16 m (at 0)) (cap s))
         | Connect_b3_a_res \<Rightarrow> map_option (call_result s) (connect_b3_a_res msgid p (cap s))
         | Connect_b3_t90_a_res \<Rightarrow>
             Some (call_result s (connect_b3_t90_a_res msgid p (ap_info (P 0) \<noteq> None) (ap_length (P 1)) (at 1) m (cap s)))
         | Disconnect_b3_req \<Rightarrow>
             map_option (call_result s) (disconnect_b3_req msgid (hdr_number m) p x (ap_length (P 0)) (at 0) m (cap s))
         | Reset_b3_req \<Rightarrow> map_option (call_result s) (reset_b3_req msgid (hdr_number m) p x (cap s))
         | Reset_b3_res \<Rightarrow> Some (call_result s (reset_b3_res msgid p (cap s)))
         | Connect_a_res \<Rightarrow> Some (0, s)
         | Info_res \<Rightarrow> Some (0, s)
         | _ \<Rightarrow> other f msgid (hdr_number m) p x P m s)"

definition set_command :: "nat \<Rightarrow> nat \<Rightarrow> api \<Rightarrow> api" where
  "set_command p c s = (if p = 0 then s else set_cap (upd_plci p (\<lambda>P. P\<lparr>command := c\<rparr>) (cap s)) s)"

definition log_call :: "api_function \<Rightarrow> nat \<Rightarrow> nat \<Rightarrow> nat \<Rightarrow> mem \<Rightarrow> api \<Rightarrow> api" where
  "log_call f p inq x m s =
     s\<lparr>calls := calls s @ [\<lparr>call_function = f, call_plci = p, call_appl = x, call_queue = inq, call_msg = msg_bytes m\<rparr>]\<rparr>"

text \<open>What follows the function: flow control, sending, and the end of the command.\<close>

definition after_call :: "nat \<Rightarrow> nat \<Rightarrow> api \<Rightarrow> api option" where
  "after_call c p s =
     (case channel_xmit_extended_xon p (cap s) of
        None \<Rightarrow> None
      | Some w1 \<Rightarrow>
          (case (if c = 1 then send_req p w1 else Some w1) of
             None \<Rightarrow> None
           | Some w2 \<Rightarrow>
               let w3 = (if c = 2 \<and> p \<noteq> 0 then upd_plci p (\<lambda>P. P\<lparr>req_in := 0, req_in_start := 0, req_out := 0\<rparr>) w2 else w2)
               in Some (if p \<noteq> 0 \<and> req_in (plci w3 p) = 0 then set_command p 0 (set_cap w3 s) else set_cap w3 s)))"

definition put_process :: "api_handler \<Rightarrow> nat \<Rightarrow> nat \<Rightarrow> nat \<Rightarrow> mem \<Rightarrow> api \<Rightarrow> (nat \<times> api) option" where
  "put_process other p inq x m s =
     (case find_function m ftable (clear_parms (msg_parms s)) of
        (None, P) \<Rightarrow> Some (BAD_MSG, set_command p 0 (s\<lparr>msg_parms := P\<rparr>))
      | (Some f, P) \<Rightarrow>
          (case run_function other f p inq x m (log_call f p inq x m (s\<lparr>msg_parms := P\<rparr>)) of
             None \<Rightarrow> None
           | Some (c, s1) \<Rightarrow> map_option (\<lambda>s2. (0, s2)) (after_call c p s1)))"

definition note_command :: "nat \<Rightarrow> mem \<Rightarrow> api \<Rightarrow> api" where
  "note_command p m s = (set_command p (msg_command m 0) s)\<lparr>number := (number s)(p := hdr_number m)\<rparr>"

definition api_put_reenter :: "api_handler \<Rightarrow> nat \<Rightarrow> nat \<Rightarrow> nat \<Rightarrow> mem \<Rightarrow> api \<Rightarrow> (nat \<times> api) option" where
  "api_put_reenter other max_adapter inq x m s =
     (if bad_header max_adapter m then Some (BAD_MSG, s)
      else let p = put_plci m s
           in if p = 0 then put_process other 0 inq x m s
              else case put_way p inq x m s of
                     None \<Rightarrow> None
                   | Some (Refuse r) \<Rightarrow> Some (r, s)
                   | Some Wait \<Rightarrow> Some (0, put_wait p x m s)
                   | Some (Process noted) \<Rightarrow> put_process other p inq x m (if noted then note_command p m s else s))"

section \<open>The messages waiting at a PLCI\<close>

partial_function (option) dispatch_loop :: "api_handler \<Rightarrow> nat \<Rightarrow> nat \<Rightarrow> api \<Rightarrow> api option" where
  "dispatch_loop other max_adapter p s =
     (if \<not> busy p s \<and> mi_write (queues s p) \<noteq> mi_read (queues s p) then
        (case msg_in_dequeue (queues s p) of
           (j, x, q) \<Rightarrow>
             let s1 = set_queue p q s; m = (\<lambda>i. mi_mem q (j + i))
             in if x \<noteq> 0 then
                  (case api_put_reenter other max_adapter p x m s1 of
                     None \<Rightarrow> None
                   | Some (r, s2) \<Rightarrow>
                       if r \<noteq> 0 then
                         Some (if msg_command (\<lambda>i. mi_mem (queues s2 p) (j + i)) 0 = DATA_B3_REQ
                               then set_cap (free_xbuffer x (msg_data (\<lambda>i. mi_mem (queues s2 p) (j + i)) 0) (cap s2)) s2 else s2)
                       else dispatch_loop other max_adapter p s2)
                else dispatch_loop other max_adapter p s1)
      else Some s)"

definition capi_callback_suffix :: "api_handler \<Rightarrow> nat \<Rightarrow> nat \<Rightarrow> api \<Rightarrow> api option" where
  "capi_callback_suffix other max_adapter p s =
     (case dispatch_loop other max_adapter p s of
        None \<Rightarrow> None
      | Some s1 \<Rightarrow>
          (case (if busy p s1 then Some (cap s1) else send_data p (cap s1)) of
             None \<Rightarrow> None
           | Some w \<Rightarrow> map_option (\<lambda>w'. set_cap w' s1) (send_req p w)))"


section \<open>What processing keeps\<close>

lemma set_simps [simp]:
  "cap (set_cap w s) = w" "queues (set_cap w s) = queues s" "calls (set_cap w s) = calls s"
  "max_plci (set_cap w s) = max_plci s" "internal_command (set_cap w s) = internal_command s"
  "number (set_cap w s) = number s" "msg_parms (set_cap w s) = msg_parms s"
  "queues (set_queue p q s) = (queues s)(p := q)" "cap (set_queue p q s) = cap s" "calls (set_queue p q s) = calls s"
  "internal_command (set_queue p q s) = internal_command s" "max_plci (set_queue p q s) = max_plci s"
  "queues (set_command p c s) = queues s" "calls (set_command p c s) = calls s"
  "queues (log_call f p i x m s) = queues s" "cap (log_call f p i x m s) = cap s"
  "calls (note_command p m s) = calls s" "queues (note_command p m s) = queues s"
  by (simp_all add: set_cap_def set_queue_def set_command_def log_call_def note_command_def)

text \<open>The functions of the table do not call \<open>api_put\<close> themselves and at most empty message queues
  (when they release a PLCI).\<close>

definition keeps_queues :: "api \<Rightarrow> api \<Rightarrow> bool" where
  "keeps_queues s s' \<longleftrightarrow> (\<forall>k. queues s' k = queues s k \<or> mi_rep (queues s' k) [])"

definition handler_ok :: "api_handler \<Rightarrow> bool" where
  "handler_ok other \<longleftrightarrow>
     (\<forall>f msgid n p x P m s c s'. other f msgid n p x P m s = Some (c, s') \<longrightarrow> calls s' = calls s \<and> keeps_queues s s')"

lemma keeps_same: "queues s' = queues s \<Longrightarrow> keeps_queues s s'"
  by (simp add: keeps_queues_def)

lemma handler_okD:
  "handler_ok other \<Longrightarrow> other f msgid n p x P m s = Some (c, s') \<Longrightarrow> calls s' = calls s \<and> keeps_queues s s'"
  unfolding handler_ok_def by blast

lemma run_function_keeps:
  assumes "handler_ok other" "run_function other f p inq x m s = Some (c, s')"
  shows "calls s' = calls s" "keeps_queues s s'"
proof -
  have "calls s' = calls s \<and> keeps_queues s s'"
  proof (cases "other f (rd32 m 8) (hdr_number m) p x (msg_parms s) m s = Some (c, s')")
    case False
    then have "calls s' = calls s \<and> queues s' = queues s"
      using assms(2) by (cases f) (auto simp: run_function_def Let_def call_result_def)
    then show ?thesis by (simp add: keeps_same)
  next
    case True
    from handler_okD [OF assms(1) this] show ?thesis .
  qed
  then show "calls s' = calls s" "keeps_queues s s'" by simp_all
qed

lemma after_call_keeps: "after_call c p s = Some s' \<Longrightarrow> calls s' = calls s \<and> queues s' = queues s"
  by (auto simp: after_call_def Let_def split: option.splits if_splits)

definition call_entry :: "nat \<Rightarrow> nat \<Rightarrow> mem \<Rightarrow> api_call \<Rightarrow> bool" where
  "call_entry p inq m c \<longleftrightarrow> call_plci c = p \<and> call_queue c = inq \<and> call_msg c = msg_bytes m"

lemma put_process_keeps:
  assumes "handler_ok other" "put_process other p inq x m s = Some (r, s')"
  shows "r = 0 \<and> (\<exists>c. calls s' = calls s @ [c] \<and> call_entry p inq m c \<and> call_appl c = x) \<or> r = BAD_MSG \<and> calls s' = calls s"
    "keeps_queues s s'"
proof -
  obtain fo P where f: "find_function m ftable (clear_parms (msg_parms s)) = (fo, P)" by fastforce
  let ?s = "\<lambda>f. log_call f p inq x m (s\<lparr>msg_parms := P\<rparr>)"
  have "(r = 0 \<and> (\<exists>c. calls s' = calls s @ [c] \<and> call_entry p inq m c \<and> call_appl c = x) \<or> r = BAD_MSG \<and> calls s' = calls s) \<and>
    keeps_queues s s'"
  proof (cases fo)
    case None
    then have "r = BAD_MSG" "calls s' = calls s" "queues s' = queues s"
      using assms(2) f by (auto simp: put_process_def)
    then show ?thesis by (simp add: keeps_same)
  next
    case (Some g)
    with assms(2) f obtain c s1 where r: "r = 0" and run: "run_function other g p inq x m (?s g) = Some (c, s1)"
      and af: "after_call c p s1 = Some s'"
      by (auto simp: put_process_def split: option.splits)
    note k = run_function_keeps [OF assms(1) run] and a = after_call_keeps [OF af]
    have "calls s' = calls s @ [\<lparr>call_function = g, call_plci = p, call_appl = x, call_queue = inq, call_msg = msg_bytes m\<rparr>]"
      using k(1) a by (simp add: log_call_def)
    moreover have "keeps_queues s s'" using k(2) a by (simp add: keeps_queues_def)
    ultimately show ?thesis using r by (simp add: call_entry_def)
  qed
  then show "r = 0 \<and> (\<exists>c. calls s' = calls s @ [c] \<and> call_entry p inq m c \<and> call_appl c = x) \<or> r = BAD_MSG \<and> calls s' = calls s"
    "keeps_queues s s'" by blast+
qed

text \<open>A refused message changes nothing but the note of the command.\<close>

lemma put_process_refused:
  assumes "put_process other p inq x m s = Some (r, s')" "r \<noteq> 0"
  shows "r = BAD_MSG \<and> (\<exists>P. s' = set_command p 0 (s\<lparr>msg_parms := P\<rparr>))"
  using assms by (auto simp: put_process_def split: prod.splits option.splits)

lemma put_plci_cases: "put_plci m s = 0 \<or> put_plci m s = hdr_plci m"
  by (simp add: put_plci_def Let_def)

lemma put_way_refuse: "put_way p inq x m s = Some (Refuse r) \<Longrightarrow> r = BAD_MSG \<or> r = QUEUE_FULL"
  by (auto simp: put_way_def Let_def split: if_splits)


section \<open>One message\<close>

lemma rd_bytes_shift: "rd_bytes (\<lambda>i. m (j + i)) k n = rd_bytes m (j + k) n"
  by (simp add: rd_bytes_def ac_simps)

lemma msg_bytes_at:
  assumes "msg_at m j xb"
  shows "msg_bytes (\<lambda>i. m (j + i)) = snd xb" "msg_command (\<lambda>i. m (j + i)) 0 = msg_command (\<lambda>i. snd xb ! i) 0"
    "hdr_plci (\<lambda>i. m (j + i)) = unat (snd xb ! 9)"
proof -
  have r: "rd_bytes m j (length (snd xb)) = snd xb" and v: "12 \<le> length (snd xb)"
    using assms by (simp_all add: msg_at_def msg_valid_def)
  have l: "msg_length (\<lambda>i. m (j + i)) 0 = length (snd xb)"
    using msg_fields(1) [OF assms] by (simp add: msg_length_def rd16_def)
  show "msg_bytes (\<lambda>i. m (j + i)) = snd xb" by (simp only: msg_bytes_def l rd_bytes_shift add_0_right r)
  show "msg_command (\<lambda>i. m (j + i)) 0 = msg_command (\<lambda>i. snd xb ! i) 0"
    using msg_fields(2) [OF assms] by (simp add: msg_command_def rd16_def ac_simps)
  show "hdr_plci (\<lambda>i. m (j + i)) = unat (snd xb ! 9)"
    using rd_bytes_nth [OF r, of 9] v by (simp add: hdr_plci_def)
qed

lemma msg_bytes_nth: "i < msg_length m 0 \<Longrightarrow> msg_bytes m ! i = m i"
  by (simp add: msg_bytes_def rd_bytes_def)

lemma msg_bytes_length: "length (msg_bytes m) = msg_length m 0"
  by (simp add: msg_bytes_def rd_bytes_def)

lemma msg_bytes_fields:
  assumes "12 \<le> msg_length m 0"
  shows "rd16 (\<lambda>i. msg_bytes m ! i) 0 = msg_length m 0" "msg_command (\<lambda>i. msg_bytes m ! i) 0 = msg_command m 0"
    "unat (msg_bytes m ! 9) = hdr_plci m"
proof -
  have n: "msg_bytes m ! i = m i" if "i < 12" for i using msg_bytes_nth [of i m] assms that by simp
  show "rd16 (\<lambda>i. msg_bytes m ! i) 0 = msg_length m 0" "msg_command (\<lambda>i. msg_bytes m ! i) 0 = msg_command m 0"
    "unat (msg_bytes m ! 9) = hdr_plci m"
    using n [of 0] n [of 1] n [of 4] n [of 5] n [of 9]
    by (simp_all add: msg_command_def rd16_def hdr_plci_def msg_length_def)
qed

lemma put_way_valid:
  assumes "put_way p inq x m s = Some w" "w = Wait \<or> w = Process True" "\<not> bad_header n m"
  shows "\<not> msg_in_full (queues s p) (msg_length m 0)" "msg_valid (msg_bytes m)"
proof -
  show "\<not> msg_in_full (queues s p) (msg_length m 0)"
    using assms(1,2) by (auto simp: put_way_def Let_def)
  have len: "12 \<le> msg_length m 0" "msg_length m 0 \<le> MAX_MSG_SIZE" using assms(3) by (auto simp: bad_header_def)
  have "msg_command m 0 = DATA_B3_REQ \<longrightarrow> 20 \<le> msg_length m 0"
    using assms(1,2) by (auto simp: put_way_def Let_def split: if_splits)
  then show "msg_valid (msg_bytes m)"
    using len msg_bytes_fields [OF len(1)] by (simp add: msg_valid_def msg_bytes_length)
qed

lemma put_wait_rep:
  assumes "mi_rep (queues s p) ms" "\<not> msg_in_full (queues s p) (msg_length m 0)" "msg_valid (msg_bytes m)"
    "x < 18446744073709551616"
  shows "mi_rep (queues (put_wait p x m s) p) (ms @ [(x, msg_bytes m)])" "calls (put_wait p x m s) = calls s"
proof -
  let ?j = "fst (msg_in_space (queues s p) (length (msg_bytes m)))"
  let ?t = "xbuffers (appl (cap s) x)"
  have "mi_rep (snd (msg_in_store ?j x (msg_bytes m) ?t (queues s p))) (ms @ [(x, msg_bytes m)])"
    by (rule msg_in_store_rep) (use assms in \<open>simp_all add: msg_bytes_length\<close>)
  then show "mi_rep (queues (put_wait p x m s) p) (ms @ [(x, msg_bytes m)])"
    by (simp add: put_wait_def Let_def split_beta msg_bytes_length)
  show "calls (put_wait p x m s) = calls s" by (simp add: put_wait_def Let_def split_beta)
qed

text \<open>Apart from DATA_B3 responses a message from outside is processed only if none waits.\<close>

lemma put_way_process:
  assumes "put_way p 0 x m s = Some (Process n)" "p \<noteq> 0" "msg_command m 0 \<noteq> DATA_B3_RES"
  shows "mi_write (queues s p) = mi_read (queues s p) \<and> \<not> busy p s \<and> n"
  using assms by (auto simp: put_way_def Let_def split: if_splits prod.splits)

lemma put_way_dispatch:
  assumes "put_way p p x m s = Some w" "\<not> busy p s"
  shows "w = Process True \<or> (\<exists>r. w = Refuse r)"
  using assms by (auto simp: put_way_def Let_def split: if_splits prod.splits)

text \<open>The calls for a PLCI, with the application and the message.\<close>

definition concerns :: "nat \<Rightarrow> api_call \<Rightarrow> bool" where
  "concerns p c \<longleftrightarrow> call_plci c = p \<or> call_queue c = p"

definition calls_of :: "nat \<Rightarrow> api \<Rightarrow> (nat \<times> byte list) list" where
  "calls_of p s = map (\<lambda>c. (call_appl c, call_msg c)) (filter (concerns p) (calls s))"

definition waiting_ok :: "nat \<Rightarrow> (nat \<times> byte list) list \<Rightarrow> api \<Rightarrow> bool" where
  "waiting_ok p ms s \<longleftrightarrow> mi_rep (queues s p) ms \<and> (\<forall>xb \<in> set ms. unat (snd xb ! 9) = p)"

definition waits :: "nat \<times> byte list \<Rightarrow> bool" where
  "waits xb \<longleftrightarrow> msg_command (\<lambda>i. snd xb ! i) 0 \<noteq> DATA_B3_RES"

text \<open>Processing a message of the queue appends one call or none; the other waiting messages stay
  or are all dropped.\<close>

lemma process_step:
  assumes ok: "handler_ok other" and run: "put_process other p' inq x m s = Some (r, s')"
    and p: "p' = p \<or> inq = p" and w: "waiting_ok p ms s"
  shows "\<exists>ms'. waiting_ok p ms' s' \<and> (ms' = ms \<or> ms' = []) \<and>
     (r = 0 \<and> calls_of p s' = calls_of p s @ [(x, msg_bytes m)] \<or> r = BAD_MSG \<and> calls_of p s' = calls_of p s)"
proof -
  note k = put_process_keeps [OF ok run]
  have "queues s' p = queues s p \<or> mi_rep (queues s' p) []" using k(2) by (simp add: keeps_queues_def)
  then obtain ms' where ms': "waiting_ok p ms' s'" "ms' = ms \<or> ms' = []"
    using w by (metis waiting_ok_def empty_iff list.set(1))
  from k(1) have "r = 0 \<and> calls_of p s' = calls_of p s @ [(x, msg_bytes m)] \<or> r = BAD_MSG \<and> calls_of p s' = calls_of p s"
    using p by (auto simp: calls_of_def concerns_def call_entry_def)
  with ms' show ?thesis by blast
qed

lemma waiting_ok_cong: "queues s' p = queues s p \<Longrightarrow> waiting_ok p ms s' = waiting_ok p ms s"
  by (simp add: waiting_ok_def)

lemma note_command_calls: "calls_of p (note_command p' m s) = calls_of p s"
  by (simp add: calls_of_def)

text \<open>A message taken from the queue.\<close>

lemma dispatch_step:
  assumes ok: "handler_ok other" and run: "api_put_reenter other mx p x m s = Some (r, s')"
    and w: "waiting_ok p ms s" and idle: "\<not> busy p s" and hdr: "hdr_plci m = p" "p \<noteq> 0"
  shows "\<exists>ms'. waiting_ok p ms' s' \<and> (ms' = ms \<or> ms' = []) \<and>
     (r = 0 \<and> calls_of p s' = calls_of p s @ [(x, msg_bytes m)] \<or> r \<noteq> 0 \<and> calls_of p s' = calls_of p s)"
proof (cases "bad_header mx m")
  case True
  then show ?thesis using run w by (auto simp: api_put_reenter_def)
next
  case good: False
  show ?thesis
  proof (cases "put_plci m s = 0")
    case True
    then have "put_process other 0 p x m s = Some (r, s')" using run good by (simp add: api_put_reenter_def Let_def)
    from process_step [OF ok this _ w] show ?thesis by auto
  next
    case False
    then have p: "put_plci m s = p" using put_plci_cases [of m s] hdr by simp
    then obtain way where way: "put_way p p x m s = Some way"
      using run good hdr(2) by (auto simp: api_put_reenter_def Let_def split: option.splits)
    from put_way_dispatch [OF way idle] show ?thesis
    proof
      assume "way = Process True"
      then have "put_process other p p x m (note_command p m s) = Some (r, s')"
        using run good p way hdr(2) by (simp add: api_put_reenter_def Let_def)
      from process_step [OF ok this _ , of p ms] w show ?thesis
        by (auto simp: note_command_calls waiting_ok_cong [of "note_command p m s" p s])
    next
      assume "\<exists>r. way = Refuse r"
      then have "s' = s" "r \<noteq> 0" using run good p way hdr(2) put_way_refuse [of p p x m s]
        by (auto simp: api_put_reenter_def Let_def)
      then show ?thesis using w by auto
    qed
  qed
qed


section \<open>The dispatch loop\<close>

lemma dequeue_waiting:
  assumes "waiting_ok p ms s" "mi_write (queues s p) \<noteq> mi_read (queues s p)" "msg_in_dequeue (queues s p) = (j, x, q)"
  obtains b ms' where "ms = (x, b) # ms'" "waiting_ok p ms' (set_queue p q s)" "msg_bytes (\<lambda>i. mi_mem (queues s p) (j + i)) = b"
    "hdr_plci (\<lambda>i. mi_mem (queues s p) (j + i)) = p"
proof -
  have r: "mi_rep (queues s p) ms" and a: "\<forall>xb \<in> set ms. unat (snd xb ! 9) = p" using assms(1) by (simp_all add: waiting_ok_def)
  have "ms \<noteq> []" using mi_rep_empty [OF r] assms(2) by simp
  then obtain xb ms' where ms: "ms = xb # ms'" by (cases ms) auto
  note d = msg_in_dequeue_rep [OF r [unfolded ms] assms(3)]
  note b = msg_bytes_at [OF d(2)]
  show thesis
  proof (rule that [of "snd xb" ms'])
    show "ms = (x, snd xb) # ms'" using ms d(1) by simp
    show "waiting_ok p ms' (set_queue p q s)" using d(4) a ms by (simp add: waiting_ok_def)
    show "msg_bytes (\<lambda>i. mi_mem (queues s p) (j + i)) = snd xb" by (rule b(1))
    show "hdr_plci (\<lambda>i. mi_mem (queues s p) (j + i)) = p" using b(3) a ms by simp
  qed
qed

definition keeps_order :: "nat \<Rightarrow> api \<Rightarrow> api \<Rightarrow> bool" where
  "keeps_order p s s' \<longleftrightarrow>
     (\<forall>ms. waiting_ok p ms s \<longrightarrow> (\<exists>ms'. waiting_ok p ms' s' \<and> subseq (calls_of p s' @ ms') (calls_of p s @ ms)))"

lemma keeps_orderI:
  "(\<And>ms. waiting_ok p ms s \<Longrightarrow> \<exists>ms'. waiting_ok p ms' s' \<and> subseq (calls_of p s' @ ms') (calls_of p s @ ms)) \<Longrightarrow>
   keeps_order p s s'"
  unfolding keeps_order_def by blast

lemma keeps_orderD:
  "keeps_order p s s' \<Longrightarrow> waiting_ok p ms s \<Longrightarrow>
   \<exists>ms'. waiting_ok p ms' s' \<and> subseq (calls_of p s' @ ms') (calls_of p s @ ms)"
  unfolding keeps_order_def by blast

lemma keeps_order_trans: "keeps_order p s t \<Longrightarrow> keeps_order p t u \<Longrightarrow> keeps_order p s u"
  unfolding keeps_order_def by (meson subseq_order.trans)

lemma keeps_order_same: "queues s' p = queues s p \<Longrightarrow> calls s' = calls s \<Longrightarrow> keeps_order p s s'"
  unfolding keeps_order_def waiting_ok_def calls_of_def by fastforce

text \<open>One round, in which the message may be skipped, refused or processed.\<close>

lemma round_skip:
  assumes "mi_write (queues s p) \<noteq> mi_read (queues s p)" "msg_in_dequeue (queues s p) = (j, x, q)"
  shows "keeps_order p s (set_queue p q s)"
proof (rule keeps_orderI)
  fix ms
  assume w: "waiting_ok p ms s"
  from dequeue_waiting [OF w assms] obtain b ms' where "ms = (x, b) # ms'" "waiting_ok p ms' (set_queue p q s)" by blast
  moreover have "subseq (calls_of p (set_queue p q s) @ ms') (calls_of p s @ (x, b) # ms')"
    by (simp add: calls_of_def subseq_append' list_emb_Cons)
  ultimately show "\<exists>ms'. waiting_ok p ms' (set_queue p q s) \<and> subseq (calls_of p (set_queue p q s) @ ms') (calls_of p s @ ms)"
    by blast
qed

lemma msg_in_dequeue_mem: "msg_in_dequeue q = (j, x, q') \<Longrightarrow> mi_mem q' = mi_mem q"
  by (auto simp: msg_in_dequeue_def Let_def split: if_splits)

lemma round_put:
  assumes "handler_ok other" "p \<noteq> 0" "\<not> busy p s" "mi_write (queues s p) \<noteq> mi_read (queues s p)"
    "msg_in_dequeue (queues s p) = (j, x, q)"
    "api_put_reenter other mx p x (\<lambda>i. mi_mem (queues s p) (j + i)) (set_queue p q s) = Some (r, s2)"
  shows "keeps_order p s s2"
proof (rule keeps_orderI)
  fix ms
  assume w: "waiting_ok p ms s"
  from dequeue_waiting [OF w assms(4,5)] obtain b ms1 where ms: "ms = (x, b) # ms1" "waiting_ok p ms1 (set_queue p q s)"
    "msg_bytes (\<lambda>i. mi_mem (queues s p) (j + i)) = b" "hdr_plci (\<lambda>i. mi_mem (queues s p) (j + i)) = p" by blast
  have "\<not> busy p (set_queue p q s)" using assms(3) by (simp add: busy_def)
  from dispatch_step [OF assms(1,6) ms(2) this ms(4) assms(2)] ms(3) obtain ms' where
    s2: "waiting_ok p ms' s2" "ms' = ms1 \<or> ms' = []" "calls_of p s2 = calls_of p s @ [(x, b)] \<or> calls_of p s2 = calls_of p s"
    by (auto simp: calls_of_def)
  have "subseq ms' ms1" using s2(2) by auto
  then have "subseq (calls_of p s2 @ ms') (calls_of p s @ (x, b) # ms1)"
    using s2(3) by (auto simp: subseq_append')
  then show "\<exists>ms'. waiting_ok p ms' s2 \<and> subseq (calls_of p s2 @ ms') (calls_of p s @ ms)"
    using s2(1) ms(1) by blast
qed

lemma dispatch_loop_order:
  "dispatch_loop other mx p s = Some s' \<Longrightarrow> handler_ok other \<longrightarrow> p \<noteq> 0 \<longrightarrow> keeps_order p s s'"
proof (erule dispatch_loop.raw_induct [of "\<lambda>other mx p s s'. handler_ok other \<longrightarrow> p \<noteq> 0 \<longrightarrow> keeps_order p s s'", rotated],
    goal_cases)
  case (1 loop other mx p s s')
  note IH = 1(1) and step = 1(2)
  show ?case
  proof (intro impI)
    assume ok: "handler_ok other" and p: "p \<noteq> 0"
    show "keeps_order p s s'"
    proof (cases "\<not> busy p s \<and> mi_write (queues s p) \<noteq> mi_read (queues s p)")
      case False
      then have "s' = s" using step by auto
      then show ?thesis by (simp add: keeps_order_same)
    next
      case True
      then have c: "\<not> busy p s" "mi_write (queues s p) \<noteq> mi_read (queues s p)" by simp_all
      obtain j x q where d: "msg_in_dequeue (queues s p) = (j, x, q)" by (cases "msg_in_dequeue (queues s p)")
      note run = step [unfolded if_P [OF True] d prod.case Let_def msg_in_dequeue_mem [OF d]]
      show ?thesis
      proof (cases "x = 0")
        case True
        then have "loop other mx p (set_queue p q s) = Some s'" using run by simp
        from IH [OF this] have "keeps_order p (set_queue p q s) s'" using ok p by blast
        with round_skip [OF c(2) d] show ?thesis by (rule keeps_order_trans)
      next
        case False
        then obtain r s2 where put: "api_put_reenter other mx p x (\<lambda>i. mi_mem (queues s p) (j + i)) (set_queue p q s) = Some (r, s2)"
          using run by (auto split: option.splits)
        note k = round_put [OF ok p c d put]
        show ?thesis
        proof (cases "r = 0")
          case True
          then have "loop other mx p s2 = Some s'" using run put \<open>x \<noteq> 0\<close> by simp
          from IH [OF this] ok p have "keeps_order p s2 s'" by blast
          with k show ?thesis by (rule keeps_order_trans)
        next
          case False
          then have "queues s' = queues s2 \<and> calls s' = calls s2" using run put \<open>x \<noteq> 0\<close> by (auto split: if_splits)
          then have "keeps_order p s2 s'" by (simp add: keeps_order_same)
          with k show ?thesis by (rule keeps_order_trans)
        qed
      qed
    qed
  qed
qed

lemma callback_order:
  assumes "capi_callback_suffix other mx p s = Some s'" "handler_ok other" "p \<noteq> 0"
  shows "keeps_order p s s'"
proof -
  from assms(1) obtain s1 where s1: "dispatch_loop other mx p s = Some s1" and "queues s' = queues s1" "calls s' = calls s1"
    by (auto simp: capi_callback_suffix_def split: option.splits)
  then have "keeps_order p s1 s'" by (simp add: keeps_order_same)
  with dispatch_loop_order [OF s1] assms(2,3) show ?thesis by (blast intro: keeps_order_trans)
qed


section \<open>Runs of a PLCI\<close>

text \<open>What happens at PLCI \<open>p\<close>: its messages are put from outside (accepted or refused), the callback
  dispatches waiting messages, and everything else leaves its queue alone or empties it. The list
  holds the accepted messages with their applications.\<close>

inductive plci_run :: "api_handler \<Rightarrow> nat \<Rightarrow> nat \<Rightarrow> api \<Rightarrow> (nat \<times> byte list) list \<Rightarrow> api \<Rightarrow> bool" for other mx p s where
  run_start: "plci_run other mx p s [] s"
| run_accept: "plci_run other mx p s acc t \<Longrightarrow> x < 18446744073709551616 \<Longrightarrow> put_plci m t = p \<Longrightarrow>
    api_put_reenter other mx 0 x m t = Some (0, u) \<Longrightarrow> plci_run other mx p s (acc @ [(x, msg_bytes m)]) u"
| run_refuse: "plci_run other mx p s acc t \<Longrightarrow> put_plci m t = p \<Longrightarrow>
    api_put_reenter other mx 0 x m t = Some (r, u) \<Longrightarrow> r \<noteq> 0 \<Longrightarrow> plci_run other mx p s acc u"
| run_callback: "plci_run other mx p s acc t \<Longrightarrow> capi_callback_suffix other mx p t = Some u \<Longrightarrow> plci_run other mx p s acc u"
| run_other: "plci_run other mx p s acc t \<Longrightarrow> calls_of p u = calls_of p t \<Longrightarrow>
    queues u p = queues t p \<or> mi_rep (queues u p) [] \<Longrightarrow> plci_run other mx p s acc u"

definition in_order :: "nat \<Rightarrow> (nat \<times> byte list) list \<Rightarrow> api \<Rightarrow> bool" where
  "in_order p acc t \<longleftrightarrow> (\<exists>ms. waiting_ok p ms t \<and> subseq (filter waits (calls_of p t @ ms)) (filter waits acc))"

lemma in_orderI: "waiting_ok p ms t \<Longrightarrow> subseq (filter waits (calls_of p t @ ms)) (filter waits acc) \<Longrightarrow> in_order p acc t"
  unfolding in_order_def by blast

lemma in_order_keeps: "in_order p acc t \<Longrightarrow> keeps_order p t u \<Longrightarrow> in_order p acc u"
proof -
  assume "in_order p acc t" "keeps_order p t u"
  then obtain ms ms' where "subseq (filter waits (calls_of p t @ ms)) (filter waits acc)"
    "waiting_ok p ms' u" "subseq (calls_of p u @ ms') (calls_of p t @ ms)"
    unfolding in_order_def using keeps_orderD by blast
  then show "in_order p acc u"
    by (blast intro: in_orderI subseq_order.trans [OF subseq_filter])
qed

text \<open>All that a message refused at parsing leaves behind: the result of the parser, no command at the
  PLCI and, unless it is a DATA_B3 response that does not wait, its number.\<close>

definition refused_at_parsing :: "nat \<Rightarrow> mem \<Rightarrow> api \<Rightarrow> api \<Rightarrow> bool" where
  "refused_at_parsing p m s s' \<longleftrightarrow>
     (\<exists>P. s' = (if p = 0 then s else set_command p 0 s)\<lparr>msg_parms := P\<rparr> \<or>
          p \<noteq> 0 \<and> s' = (set_command p 0 s)\<lparr>msg_parms := P, number := (number s)(p := hdr_number m)\<rparr>)"

lemma refused_effect:
  assumes "api_put_reenter other mx inq x m s = Some (r, s')" "r \<noteq> 0"
  shows "(r = BAD_MSG \<or> r = QUEUE_FULL) \<and> (s' = s \<or> r = BAD_MSG \<and> refused_at_parsing (put_plci m s) m s s')"
proof (cases "bad_header mx m")
  case True
  then show ?thesis using assms(1) by (simp add: api_put_reenter_def)
next
  case good: False
  let ?p = "put_plci m s"
  show ?thesis
  proof (cases "?p = 0")
    case True
    then have "put_process other 0 inq x m s = Some (r, s')" using assms(1) good by (simp add: api_put_reenter_def)
    from put_process_refused [OF this assms(2)] show ?thesis using True by (auto simp: refused_at_parsing_def set_command_def)
  next
    case False
    then obtain way where way: "put_way ?p inq x m s = Some way"
      using assms(1) good by (auto simp: api_put_reenter_def Let_def split: option.splits)
    show ?thesis
    proof (cases way)
      case (Refuse r')
      then show ?thesis using assms(1) good False way put_way_refuse [of ?p inq x m s r']
        by (auto simp: api_put_reenter_def Let_def)
    next
      case Wait
      then show ?thesis using assms good False way by (simp add: api_put_reenter_def Let_def)
    next
      case (Process n)
      then have "put_process other ?p inq x m (if n then note_command ?p m s else s) = Some (r, s')"
        using assms(1) good False way by (simp add: api_put_reenter_def Let_def)
      from put_process_refused [OF this assms(2)] obtain P where
        s': "r = BAD_MSG" "s' = set_command ?p 0 ((if n then note_command ?p m s else s)\<lparr>msg_parms := P\<rparr>)" by blast
      have "s' = (set_command ?p 0 s)\<lparr>msg_parms := P, number := (number s)(?p := hdr_number m)\<rparr>" if n
        unfolding s'(2) using that by (cases s) (simp add: note_command_def set_command_def set_cap_def upd_plci_def)
      moreover have "s' = (set_command ?p 0 s)\<lparr>msg_parms := P\<rparr>" if "\<not> n"
        unfolding s'(2) using that by (cases s) (simp add: set_command_def set_cap_def)
      ultimately show ?thesis using False s'(1) unfolding refused_at_parsing_def by auto
    qed
  qed
qed

lemma refused_at_parsing_keeps:
  assumes "refused_at_parsing p m s s'"
  shows "queues s' = queues s \<and> calls s' = calls s \<and> internal_command s' = internal_command s \<and> max_plci s' = max_plci s \<and>
    cap s' = (if p = 0 then cap s else upd_plci p (\<lambda>P. P\<lparr>command := 0\<rparr>) (cap s)) \<and>
    (number s' = number s \<or> p \<noteq> 0 \<and> number s' = (number s)(p := hdr_number m))"
  using assms by (auto simp: refused_at_parsing_def set_command_def set_cap_def split: if_splits)

text \<open>C24: A message that \<open>api_put\<close> refuses, with \<open>BAD_MSG\<close> or \<open>QUEUE_FULL\<close>, reaches no function of the
  table and no message queue. With \<open>QUEUE_FULL\<close> the state is the same. With \<open>BAD_MSG\<close> it is the same or
  the message was refused at parsing: then the parser's result is new, and at the PLCI the message is
  for, if any, the command noted is cleared and the message number may be that of the message.\<close>

theorem api_put_refused:
  assumes "api_put_reenter other mx inq x m s = Some (r, s')" "r \<noteq> 0"
  shows "(r = BAD_MSG \<or> r = QUEUE_FULL) \<and> (r = QUEUE_FULL \<longrightarrow> s' = s) \<and>
    queues s' = queues s \<and> calls s' = calls s \<and> internal_command s' = internal_command s \<and> max_plci s' = max_plci s \<and>
    (s' = s \<or>
     cap s' = (if put_plci m s = 0 then cap s else upd_plci (put_plci m s) (\<lambda>P. P\<lparr>command := 0\<rparr>) (cap s)) \<and>
     (number s' = number s \<or> put_plci m s \<noteq> 0 \<and> number s' = (number s)(put_plci m s := hdr_number m)))"
proof -
  have "(BAD_MSG :: nat) \<noteq> QUEUE_FULL" by simp
  with refused_effect [OF assms] refused_at_parsing_keeps [of "put_plci m s" m s s'] show ?thesis by auto
qed

lemma accept_order:
  assumes ok: "handler_ok other" and p: "p \<noteq> 0" and inv: "in_order p acc t" and x: "x < 18446744073709551616"
    and m: "put_plci m t = p" and run: "api_put_reenter other mx 0 x m t = Some (0, u)"
  shows "in_order p (acc @ [(x, msg_bytes m)]) u"
proof -
  obtain ms where ms: "waiting_ok p ms t" "subseq (filter waits (calls_of p t @ ms)) (filter waits acc)"
    using inv by (auto simp: in_order_def)
  have good: "\<not> bad_header mx m" using run by (auto simp: api_put_reenter_def)
  have hdr: "hdr_plci m = p" using put_plci_cases [of m t] m p by simp
  obtain way where way: "put_way p 0 x m t = Some way"
    using run good m p by (auto simp: api_put_reenter_def Let_def split: option.splits)
  have cmd: "waits (x, msg_bytes m) \<longleftrightarrow> msg_command m 0 \<noteq> DATA_B3_RES"
    using good msg_bytes_fields(2) [of m] by (auto simp: waits_def bad_header_def)
  show ?thesis
  proof (cases way)
    case (Refuse r)
    then show ?thesis using run good m p way put_way_refuse [of p 0 x m t r] by (auto simp: api_put_reenter_def Let_def)
  next
    case Wait
    then have u: "u = put_wait p x m t" using run good m p way by (simp add: api_put_reenter_def Let_def)
    note v = put_way_valid [OF way [unfolded Wait] _ good]
    have "mi_rep (queues t p) ms" using ms(1) by (simp add: waiting_ok_def)
    from put_wait_rep [OF this v x] have "waiting_ok p (ms @ [(x, msg_bytes m)]) u" "calls_of p u = calls_of p t"
      using ms(1) msg_bytes_fields(3) [of m] good hdr by (auto simp: u waiting_ok_def calls_of_def bad_header_def)
    moreover have "subseq (filter waits (calls_of p t @ ms @ [(x, msg_bytes m)])) (filter waits (acc @ [(x, msg_bytes m)]))"
      using ms(2) by (simp flip: append_assoc add: subseq_append)
    ultimately show ?thesis by (metis in_orderI)
  next
    case (Process n)
    then have pr: "put_process other p 0 x m (if n then note_command p m t else t) = Some (0, u)"
      using run good m p way by (simp add: api_put_reenter_def Let_def)
    have w: "waiting_ok p ms (if n then note_command p m t else t)"
      using ms(1) by (simp add: waiting_ok_cong [of "note_command p m t" p t])
    from process_step [OF ok pr _ w] obtain ms' where
      ms': "waiting_ok p ms' u" "ms' = ms \<or> ms' = []" "calls_of p u = calls_of p t @ [(x, msg_bytes m)]"
      by (auto simp: note_command_calls split: if_splits)
    show ?thesis
    proof (cases "waits (x, msg_bytes m)")
      case True
      then have "ms = []" using put_way_process [of p x m t n] way Process p cmd mi_rep_empty ms(1)
        by (auto simp: waiting_ok_def)
      then have "ms' = []" using ms'(2) by auto
      then show ?thesis using ms' ms(2) \<open>ms = []\<close> True
        by (intro in_orderI [OF ms'(1)]) simp
    next
      case False
      have "subseq ms' ms" using ms'(2) by auto
      then have "subseq (filter waits (calls_of p u @ ms')) (filter waits (calls_of p t @ ms))"
        using False ms'(3) by (simp add: subseq_append' subseq_filter)
      then show ?thesis using ms(2) False by (intro in_orderI [OF ms'(1)]) (auto intro: subseq_order.trans)
    qed
  qed
qed

text \<open>C3: The messages for a PLCI are processed in the order in which \<open>api_put\<close> accepted them:
  at any time the messages processed so far, followed by those still waiting, are a part of the
  accepted messages in the same order, none twice and none invented, whatever else happens to the
  PLCI in between. DATA_B3 responses are excepted, which may be processed while requests wait.\<close>

theorem api_put_in_order:
  assumes "handler_ok other" "p \<noteq> 0" "mi_rep (queues s p) []" "calls_of p s = []" "plci_run other mx p s acc t"
  shows "\<exists>ms. mi_rep (queues t p) ms \<and> subseq (filter waits (calls_of p t @ ms)) (filter waits acc)"
proof -
  from assms(5) have "in_order p acc t"
  proof induction
    case run_start
    show ?case by (rule in_orderI [of p "[]"]) (use assms(3,4) in \<open>simp_all add: waiting_ok_def\<close>)
  next
    case (run_accept acc t x m u)
    then show ?case using accept_order [OF assms(1,2)] by blast
  next
    case (run_refuse acc t m x r u)
    from refused_effect [OF run_refuse.hyps(3,4)] refused_at_parsing_keeps
    have "queues u = queues t \<and> calls u = calls t" by blast
    then have "keeps_order p t u" by (simp add: keeps_order_same)
    with run_refuse.IH show ?case by (rule in_order_keeps)
  next
    case (run_callback acc t u)
    from callback_order [OF run_callback.hyps(2) assms(1,2)] run_callback.IH show ?case by (blast intro: in_order_keeps)
  next
    case (run_other acc t u)
    have "keeps_order p t u"
    proof (rule keeps_orderI)
      fix ms
      assume "waiting_ok p ms t"
      then have "waiting_ok p ms u \<or> waiting_ok p [] u" using run_other.hyps(3) by (auto simp: waiting_ok_def)
      then show "\<exists>ms'. waiting_ok p ms' u \<and> subseq (calls_of p u @ ms') (calls_of p t @ ms)"
        using run_other.hyps(2) by (auto simp: subseq_append')
    qed
    with run_other.IH show ?case by (rule in_order_keeps)
  qed
  then show ?thesis by (auto simp: in_order_def waiting_ok_def)
qed


section \<open>Progress of the loop\<close>

text \<open>A round of the loop that goes on: the message at the head of the queue is dropped, as its
  application has gone, or processed.\<close>

definition dispatching :: "nat \<Rightarrow> api \<Rightarrow> bool" where
  "dispatching p s \<longleftrightarrow> \<not> busy p s \<and> mi_write (queues s p) \<noteq> mi_read (queues s p)"

definition dispatch_head :: "api_handler \<Rightarrow> nat \<Rightarrow> nat \<Rightarrow> api \<Rightarrow> (nat \<times> api) option" where
  "dispatch_head other mx p s =
     (case msg_in_dequeue (queues s p) of
        (j, x, q) \<Rightarrow> if x = 0 then Some (0, set_queue p q s)
                     else api_put_reenter other mx p x (\<lambda>i. mi_mem (queues s p) (j + i)) (set_queue p q s))"

fun dispatch_rounds :: "api_handler \<Rightarrow> nat \<Rightarrow> nat \<Rightarrow> nat \<Rightarrow> api \<Rightarrow> api \<Rightarrow> bool" where
  "dispatch_rounds other mx p 0 s t \<longleftrightarrow> t = s"
| "dispatch_rounds other mx p (Suc n) s t \<longleftrightarrow>
     dispatching p s \<and> (\<exists>u. dispatch_head other mx p s = Some (0, u) \<and> dispatch_rounds other mx p n u t)"

text \<open>The loop after the message at the head has been refused: the data of a DATA_B3 request is freed.\<close>

definition drop_head :: "nat \<Rightarrow> api \<Rightarrow> api \<Rightarrow> api" where
  "drop_head p s u =
     (case msg_in_dequeue (queues s p) of
        (j, x, q) \<Rightarrow>
          let m = (\<lambda>i. mi_mem (queues u p) (j + i))
          in if msg_command m 0 = DATA_B3_REQ then set_cap (free_xbuffer x (msg_data m 0) (cap u)) u else u)"

lemma dispatch_loop_head:
  "dispatch_loop other mx p s =
     (if dispatching p s then
        case dispatch_head other mx p s of
          None \<Rightarrow> None
        | Some (r, u) \<Rightarrow> if r = 0 then dispatch_loop other mx p u else Some (drop_head p s u)
      else Some s)"
proof (cases "dispatching p s")
  case False
  then show ?thesis by (subst dispatch_loop.simps) (auto simp: dispatching_def)
next
  case True
  then have c: "\<not> busy p s \<and> mi_write (queues s p) \<noteq> mi_read (queues s p)" by (simp add: dispatching_def)
  obtain j x q where d: "msg_in_dequeue (queues s p) = (j, x, q)" by (cases "msg_in_dequeue (queues s p)")
  show ?thesis
    by (subst dispatch_loop.simps, cases "x = 0",
        simp_all only: if_P [OF c] if_P [OF True] d prod.case Let_def msg_in_dequeue_mem [OF d] dispatch_head_def drop_head_def)
      (auto split: option.splits)
qed

lemma dispatch_head_waiting:
  assumes "handler_ok other" "p \<noteq> 0" "dispatching p s" "waiting_ok p ms s" "dispatch_head other mx p s = Some (0, u)"
  obtains ms' where "waiting_ok p ms' u" "length ms' < length ms"
proof -
  have c: "\<not> busy p s" "mi_write (queues s p) \<noteq> mi_read (queues s p)" using assms(3) by (simp_all add: dispatching_def)
  obtain j x q where d: "msg_in_dequeue (queues s p) = (j, x, q)" by (cases "msg_in_dequeue (queues s p)")
  from dequeue_waiting [OF assms(4) c(2) d] obtain b ms1 where ms: "ms = (x, b) # ms1" "waiting_ok p ms1 (set_queue p q s)"
    "hdr_plci (\<lambda>i. mi_mem (queues s p) (j + i)) = p" by blast
  show thesis
  proof (cases "x = 0")
    case True
    then have "u = set_queue p q s" using assms(5) d by (simp add: dispatch_head_def)
    then show thesis using that [of ms1] ms by simp
  next
    case False
    then have "api_put_reenter other mx p x (\<lambda>i. mi_mem (queues s p) (j + i)) (set_queue p q s) = Some (0, u)"
      using assms(5) d by (simp add: dispatch_head_def)
    moreover have "\<not> busy p (set_queue p q s)" using c(1) by (simp add: busy_def)
    ultimately obtain ms' where "waiting_ok p ms' u" "ms' = ms1 \<or> ms' = []"
      using dispatch_step [OF assms(1) _ ms(2) _ ms(3) assms(2)] by blast
    then show thesis using that [of ms'] ms(1) by auto
  qed
qed

text \<open>C19: The dispatch loop of a PLCI with \<open>k\<close> messages waiting makes at most \<open>k\<close> rounds. Then the PLCI is
  busy or its queue is empty, and the state is the result; or the message at the head of the queue is
  refused in that very state, and the loop ends with it dropped; only if the function called for this
  message does not return, the loop does not return.\<close>

theorem dispatch_loop_ends:
  assumes "handler_ok other" "p \<noteq> 0" "waiting_ok p ms s"
  shows "\<exists>n t. n \<le> length ms \<and> dispatch_rounds other mx p n s t \<and>
    (if dispatching p t then
       case dispatch_head other mx p t of
         None \<Rightarrow> dispatch_loop other mx p s = None
       | Some (r, u) \<Rightarrow> r \<noteq> 0 \<and> dispatch_loop other mx p s = Some (drop_head p t u)
     else dispatch_loop other mx p s = Some t)"
  using assms(3)
proof (induction "length ms" arbitrary: ms s rule: less_induct)
  case (less ms s)
  note eq = dispatch_loop_head [of other mx p s]
  show ?case
  proof (cases "\<exists>u. dispatching p s \<and> dispatch_head other mx p s = Some (0, u)")
    case False
    then show ?thesis using eq by (intro exI [of _ 0] exI [of _ s]) (auto split: option.splits)
  next
    case True
    then obtain u where u: "dispatching p s" "dispatch_head other mx p s = Some (0, u)" by blast
    from dispatch_head_waiting [OF assms(1,2) u(1) less.prems u(2)] obtain ms' where
      ms': "waiting_ok p ms' u" "length ms' < length ms" by blast
    have e: "dispatch_loop other mx p u = dispatch_loop other mx p s" using eq u by simp
    from less.hyps [OF ms'(2,1), unfolded e] obtain n t where n: "n \<le> length ms'" "dispatch_rounds other mx p n u t" and
      t: "if dispatching p t then
       case dispatch_head other mx p t of
         None \<Rightarrow> dispatch_loop other mx p s = None
       | Some (r, u) \<Rightarrow> r \<noteq> 0 \<and> dispatch_loop other mx p s = Some (drop_head p t u)
     else dispatch_loop other mx p s = Some t" by blast
    have "Suc n \<le> length ms" "dispatch_rounds other mx p (Suc n) s t" using n ms'(2) u by auto
    with t show ?thesis by blast
  qed
qed


section \<open>Examples\<close>

definition no_handler :: api_handler where
  "no_handler f msgid n p x P m s = Some (0, s)"

lemma no_handler_ok: "handler_ok no_handler"
  by (simp add: handler_ok_def no_handler_def keeps_queues_def)

text \<open>PLCI 1 with an internal command running.\<close>

definition busy_api :: api where
  "busy_api = \<lparr>cap = idle_capi, max_plci = 1, queues = (\<lambda>_. msg_in_init example_queue), internal_command = (\<lambda>_. 1),
     number = (\<lambda>_. 0), msg_parms = (\<lambda>_. \<lparr>ap_length = 0, ap_info = None\<rparr>), calls = []\<rparr>"

definition info_res_msg :: "byte list" where
  "info_res_msg = [12, 0, 1, 0, 0x08, 0x83, 7, 0, 1, 1, 0, 0]"

definition short_data_msg :: "byte list" where
  "short_data_msg = [12, 0, 1, 0, 0x86, 0x80, 7, 0, 1, 1, 0, 0]"

definition mem_of :: "byte list \<Rightarrow> mem" where
  "mem_of b = (\<lambda>i. if i < length b then b ! i else 0)"

lemma info_res_fields:
  "msg_length (mem_of info_res_msg) 0 = 12" "msg_command (mem_of info_res_msg) 0 = 0x8308" "msg_ncci (mem_of info_res_msg) 0 = 0"
  "hdr_plci (mem_of info_res_msg) = 1" "hdr_controller (mem_of info_res_msg) = 1" "msg_bytes (mem_of info_res_msg) = info_res_msg"
  by (simp_all add: mem_of_def info_res_msg_def msg_length_def msg_command_def msg_ncci_def hdr_plci_def hdr_controller_def
      msg_bytes_def rd16_def rd_bytes_def upt_rec)

lemma short_data_fields:
  "msg_length (mem_of short_data_msg) 0 = 12" "msg_command (mem_of short_data_msg) 0 = DATA_B3_REQ" "msg_ncci (mem_of short_data_msg) 0 = 0"
  "hdr_plci (mem_of short_data_msg) = 1" "hdr_controller (mem_of short_data_msg) = 1"
  by (simp_all add: mem_of_def short_data_msg_def msg_length_def msg_command_def msg_ncci_def hdr_plci_def hdr_controller_def rd16_def)

lemma busy_api_simps:
  "cap busy_api = idle_capi" "max_plci busy_api = 1" "queues busy_api 1 = msg_in_init example_queue"
  "internal_command busy_api 1 = 1" "calls busy_api = []"
  by (simp_all add: busy_api_def)

lemma busy_api_full: "msg_in_full (msg_in_init q) 12 = False"
  by (simp add: msg_in_full_def msg_in_space_def msg_in_init_def align_up_def Let_def)

lemma info_res_waits: "api_put_reenter no_handler 1 0 1 (mem_of info_res_msg) busy_api = Some (0, put_wait 1 1 (mem_of info_res_msg) busy_api)"
proof -
  have "put_plci (mem_of info_res_msg) busy_api = 1"
    by (simp add: put_plci_def info_res_fields busy_api_simps Let_def)
  moreover have "put_way 1 0 1 (mem_of info_res_msg) busy_api = Some Wait"
    using busy_api_simps(3,4) by (simp add: put_way_def info_res_fields busy_def busy_api_full Let_def)
  moreover have "\<not> bad_header 1 (mem_of info_res_msg)" by (simp add: bad_header_def info_res_fields Let_def)
  ultimately show ?thesis by (simp add: api_put_reenter_def Let_def)
qed

text \<open>A message of an unknown command for the idle PLCI 1 is refused at parsing; its number 7 stays behind.\<close>

definition unknown_msg :: "byte list" where
  "unknown_msg = [12, 0, 1, 0, 0xEE, 0xEE, 7, 0, 1, 1, 0, 0]"

lemma unknown_fields:
  "msg_length (mem_of unknown_msg) 0 = 12" "msg_command (mem_of unknown_msg) 0 = 0xEEEE" "msg_ncci (mem_of unknown_msg) 0 = 0"
  "hdr_plci (mem_of unknown_msg) = 1" "hdr_controller (mem_of unknown_msg) = 1" "hdr_number (mem_of unknown_msg) = 7"
  by (simp_all add: mem_of_def unknown_msg_def msg_length_def msg_command_def msg_ncci_def hdr_plci_def hdr_controller_def
      hdr_number_def rd16_def)

definition idle_api :: api where
  "idle_api = busy_api\<lparr>internal_command := (\<lambda>_. 0)\<rparr>"

lemma idle_api_simps:
  "cap idle_api = idle_capi" "max_plci idle_api = 1" "queues idle_api 1 = msg_in_init example_queue"
  "internal_command idle_api 1 = 0" "calls idle_api = []" "number idle_api = (\<lambda>_. 0)"
  by (simp_all add: idle_api_def busy_api_def)

theorem api_put_refused_witness:
  "\<exists>s'. api_put_reenter no_handler 1 0 1 (mem_of unknown_msg) idle_api = Some (BAD_MSG, s') \<and> number s' 1 = 7 \<and>
     queues s' = queues idle_api \<and> calls s' = []"
proof -
  let ?m = "mem_of unknown_msg"
  have p: "put_plci ?m idle_api = 1"
    by (simp add: put_plci_def unknown_fields idle_api_simps Let_def)
  have e: "mi_write (msg_in_init q) = mi_read (msg_in_init q)" for q
    using mi_rep_empty [OF msg_in_init_rep [of q]] by simp
  have w: "put_way 1 0 1 ?m idle_api = Some (Process True)"
    using e [of example_queue] idle_api_simps(3,4) by (simp add: put_way_def unknown_fields busy_def idle_api_simps busy_api_full Let_def)
  have h: "\<not> bad_header 1 ?m" by (simp add: bad_header_def unknown_fields Let_def)
  have f: "find_function ?m ftable P = (None, P)" for P by (simp add: ftable_def unknown_fields)
  define s' where "s' = set_command 1 0 ((note_command 1 ?m idle_api)\<lparr>msg_parms := clear_parms (msg_parms (note_command 1 ?m idle_api))\<rparr>)"
  have r: "api_put_reenter no_handler 1 0 1 ?m idle_api = Some (BAD_MSG, s')"
    using p w h by (simp add: api_put_reenter_def Let_def put_process_def f s'_def)
  have n: "number s' 1 = 7" by (simp add: s'_def set_command_def note_command_def set_cap_def unknown_fields)
  have "(BAD_MSG :: nat) \<noteq> 0" by simp
  from r n api_put_refused [OF r this] idle_api_simps show ?thesis by metis
qed

lemma busy_api_rep: "mi_rep (queues busy_api 1) []" "calls_of 1 busy_api = []"
  using busy_api_simps(3) by (simp_all add: msg_in_init_rep calls_of_def busy_api_simps(5))

theorem api_put_in_order_witness:
  "\<exists>t ms. plci_run no_handler 1 1 busy_api [(1, info_res_msg)] t \<and> mi_rep (queues t 1) ms \<and>
     subseq (filter waits (calls_of 1 t @ ms)) (filter waits [(1, info_res_msg)])"
proof -
  have "put_plci (mem_of info_res_msg) busy_api = 1"
    by (simp add: put_plci_def info_res_fields busy_api_simps Let_def)
  from run_accept [OF run_start _ this info_res_waits]
  have run: "plci_run no_handler 1 1 busy_api [(1, info_res_msg)] (put_wait 1 1 (mem_of info_res_msg) busy_api)"
    by (simp add: info_res_fields)
  have "(1 :: nat) \<noteq> 0" by simp
  from run api_put_in_order [OF no_handler_ok this busy_api_rep run] show ?thesis by blast
qed

text \<open>The PLCI is no longer busy: the message waiting is processed in one round.\<close>

definition waiting_api :: api where
  "waiting_api = (put_wait 1 1 (mem_of info_res_msg) busy_api)\<lparr>internal_command := (\<lambda>_. 0)\<rparr>"

theorem dispatch_loop_ends_witness:
  "waiting_ok 1 [(1, info_res_msg)] waiting_api \<and>
   (\<exists>n t. n \<le> 1 \<and> dispatch_rounds no_handler 1 1 n waiting_api t \<and>
    (if dispatching 1 t then
       case dispatch_head no_handler 1 1 t of
         None \<Rightarrow> dispatch_loop no_handler 1 1 waiting_api = None
       | Some (r, u) \<Rightarrow> r \<noteq> 0 \<and> dispatch_loop no_handler 1 1 waiting_api = Some (drop_head 1 t u)
     else dispatch_loop no_handler 1 1 waiting_api = Some t))"
proof -
  have f: "\<not> msg_in_full (queues busy_api 1) (msg_length (mem_of info_res_msg) 0)"
    using busy_api_simps(3) by (simp only: info_res_fields busy_api_full not_False_eq_True)
  have v: "msg_valid (msg_bytes (mem_of info_res_msg))"
    by (simp add: info_res_fields) (simp add: msg_valid_def info_res_msg_def rd16_def msg_command_def)
  have "waiting_ok 1 [(1, info_res_msg)] (put_wait 1 1 (mem_of info_res_msg) busy_api)"
    using put_wait_rep(1) [OF busy_api_rep(1) f v, of 1]
    by (simp add: waiting_ok_def info_res_fields) (simp add: info_res_msg_def)
  then have "waiting_ok 1 [(1, info_res_msg)] waiting_api" by (simp add: waiting_api_def waiting_ok_def)
  with dispatch_loop_ends [OF no_handler_ok _ this, of 1] show ?thesis by simp
qed

end
