(* ===== verification/CapiCb.thy ===== *)
theory CapiCb
  imports CapiPut
begin

text \<open>
  The callback of the network and signaling entities, \<open>callback\<close> of \<open>kernel/message.c\<close>: the
  return code of a request ends it (\<open>nl_req\<close>, \<open>sig_req\<close>), sorts out flow control, the removal
  of the entity, assignments and data, and hands the rest to \<open>control_rc\<close>; an indication goes to
  \<open>nl_ind\<close> or \<open>sig_ind\<close>; at the end the waiting messages are processed and data is sent
  (\<open>capi_callback_suffix\<close> of \<open>CapiPut\<close>). \<open>control_rc\<close>, \<open>nl_ind\<close> and \<open>sig_ind\<close> and the functions
  of the messages that are not modelled are the fields of a record of parameters.

  The entity is given by the PLCI, by \<open>net\<close> (network or signaling) and by the fields the adapter
  has filled in; its \<open>Id\<close> and \<open>ReqCh\<close> are kept in the PLCI.
\<close>

abbreviation (input) RC_OK :: nat where "RC_OK \<equiv> 0xff"
abbreviation (input) ASSIGN_OK :: nat where "ASSIGN_OK \<equiv> 0xef"
abbreviation (input) OK_FC :: nat where "OK_FC \<equiv> 0xfc"
abbreviation (input) N_DISC_ACK :: nat where "N_DISC_ACK \<equiv> 5"

section \<open>Entity and parameters\<close>

record entity_cb =
  cb_net :: bool
  cb_complete :: nat
  cb_Req :: nat
  cb_Rc :: nat
  cb_RcCh :: nat
  cb_Ind :: nat
  cb_IndCh :: nat
  cb_RNR :: nat

record cb_env =
  env_other :: api_handler
  env_control_rc :: "nat \<Rightarrow> nat \<Rightarrow> nat \<Rightarrow> nat \<Rightarrow> nat \<Rightarrow> bool \<Rightarrow> api \<Rightarrow> api option"
  env_nl_ind :: "nat \<Rightarrow> entity_cb \<Rightarrow> api \<Rightarrow> (nat \<times> api) option"
  env_sig_ind :: "nat \<Rightarrow> entity_cb \<Rightarrow> api \<Rightarrow> api option"
  env_max_adapter :: nat
  env_no_cancel_rc :: bool

definition on_cap :: "(capi \<Rightarrow> capi option) \<Rightarrow> api \<Rightarrow> api option" where
  "on_cap f s = map_option (\<lambda>w. set_cap w s) (f (cap s))"

definition bind_opt :: "'a option \<Rightarrow> ('a \<Rightarrow> 'b option) \<Rightarrow> 'b option" where
  "bind_opt x f = (case x of None \<Rightarrow> None | Some a \<Rightarrow> f a)"

lemma bind_opt_simps [simp]: "bind_opt None f = None" "bind_opt (Some a) f = f a"
  by (simp_all add: bind_opt_def)

section \<open>Return codes\<close>

definition free_rx_dma :: "nat \<Rightarrow> capi \<Rightarrow> capi" where
  "free_rx_dma p w =
     (if rx_dma_descriptor (plci w p) > 0 then
        upd_plci p (\<lambda>P. P\<lparr>rx_dma_descriptor := 0\<rparr>) (emit (FreeDmaDescriptor (rx_dma_descriptor (plci w p) - 1)) w)
      else w)"

text \<open>The return code of the \<open>REMOVE\<close> of the network entity: the PLCI gives up its NCCIs, its
  channels and the flow control entries of the entity.\<close>

definition nl_removed :: "nat \<Rightarrow> capi \<Rightarrow> capi option" where
  "nl_removed p w =
     (let w1 = upd_plci p (\<lambda>P. P\<lparr>data_sent := False\<rparr>) w; P = plci w1 p;
          w2 = (if nl_remove_ncci P = 0 \<and> pl_appl P \<noteq> 0 then ncci_free_receive_buffers w1 (pl_appl P) p 0 else w1)
      in bind_opt (ncci_remove w2 p 0 (nl_remove_ncci P \<noteq> 0))
           (\<lambda>w3. bind_opt (channel_flow_control_remove p w3)
             (\<lambda>w4. let rem = nl_remove_id (plci w4 p);
                       w5 = w4\<lparr>flow_control_id := (\<lambda>i. if i < 256 \<and> flow_control_id w4 i = rem then 0 else flow_control_id w4 i)\<rparr>
                   in Some (free_rx_dma p (upd_plci p (\<lambda>Q. Q\<lparr>nl_remove_id := 0, NL_ReqCh := 0\<rparr>) w5)))))"

text \<open>Flow control: \<open>OK_FC\<close> ends the request but blocks the channel, the next return code of the
  channel unblocks it. The first component tells that the return code is dropped.\<close>

definition nl_rc_flow :: "bool \<Rightarrow> nat \<Rightarrow> nat \<Rightarrow> nat \<Rightarrow> capi \<Rightarrow> (bool \<times> capi) option" where
  "nl_rc_flow no_cancel p rc ch w =
     (let id = NL_Id (plci w p); idle = upd_plci p (\<lambda>P. P\<lparr>nl_req := 0\<rparr>)
      in if rc = OK_FC then
           map_option (\<lambda>w1. (False, idle w1))
             (channel_flow_control_plci p ch
               (set_flow_control ch (ch_flow_control w ch OR N_OK_FC_PENDING)
                 (w\<lparr>flow_control_id := (flow_control_id w)(ch := id), flow_control_skip := (flow_control_skip w)(ch := False)\<rparr>)))
         else
           let held = (no_cancel \<and> flow_control_id w ch = id \<and> id \<noteq> 0);
               w1 = (if held then w\<lparr>flow_control_id := (flow_control_id w)(ch := 0)\<rparr> else w)
           in if held \<and> rc = RC_OK \<and> flow_control_skip w ch then Some (True, w1)
              else Some (False,
                if ch_flow_control w1 ch AND N_OK_FC_PENDING \<noteq> 0 then
                  let w2 = set_flow_control ch (ch_flow_control w1 ch AND NOT N_OK_FC_PENDING) w1
                  in if ch = NL_ReqCh (plci w2 p) then idle w2 else w2
                else idle w1))"

definition nl_rc_data :: "cb_env \<Rightarrow> nat \<Rightarrow> nat \<Rightarrow> nat \<Rightarrow> nat \<Rightarrow> api \<Rightarrow> api option" where
  "nl_rc_data E p req rc ch s =
     bind_opt (on_cap (channel_xmit_xon p) s)
       (\<lambda>s1. let w = upd_plci p (\<lambda>P. P\<lparr>data_sent := False\<rparr>) (cap s1);
                 s2 = set_cap (data_rc p ch (data_sent_ptr (plci w p)) w) s1
             in if internal_command s2 p \<noteq> 0 then env_control_rc E p req rc ch 0 True s2 else Some s2)"

definition nl_rc_assign :: "cb_env \<Rightarrow> nat \<Rightarrow> nat \<Rightarrow> nat \<Rightarrow> api \<Rightarrow> api option" where
  "nl_rc_assign E p rc ch s =
     (let g = nl_global_req (plci (cap s) p);
          w = upd_plci p (\<lambda>P. P\<lparr>nl_global_req := 0\<rparr>) (cap s);
          w1 = (if rc \<noteq> ASSIGN_OK then free_rx_dma p (upd_plci p (\<lambda>P. P\<lparr>NL_Id := 0\<rparr>) w) else w)
      in bind_opt (on_cap (channel_xmit_xon p) (set_cap w1 s)) (env_control_rc E p 0 rc ch g True))"

definition nl_rc_dispatch :: "cb_env \<Rightarrow> nat \<Rightarrow> nat \<Rightarrow> nat \<Rightarrow> nat \<Rightarrow> api \<Rightarrow> api option" where
  "nl_rc_dispatch E p req rc ch s =
     (let P = plci (cap s) p
      in if nl_req P \<noteq> 0 then env_control_rc E p 0 rc ch 0 True s
         else if req = N_XON then
           let s1 = set_cap (channel_x_on ch (cap s)) s
           in if internal_command s1 p \<noteq> 0 then env_control_rc E p req rc ch 0 True s1 else Some s1
         else if nl_global_req P \<noteq> 0 then nl_rc_assign E p rc ch s
         else if data_sent P then nl_rc_data E p req rc ch s
         else bind_opt (on_cap (channel_xmit_xon p) s) (env_control_rc E p req rc ch 0 True))"

text \<open>What follows a return code: nothing (\<open>Returned\<close>), or the rest of the callback.\<close>

datatype rc_result = Returned api | Continue entity_cb api

definition nl_rc :: "cb_env \<Rightarrow> nat \<Rightarrow> entity_cb \<Rightarrow> api \<Rightarrow> rc_result option" where
  "nl_rc E p e s =
     (let rc = cb_Rc e; ch = cb_RcCh e; req = cb_Req e; e1 = e\<lparr>cb_Rc := 0\<rparr>
      in if req = REMOVE \<and> NL_Id (plci (cap s) p) \<noteq> 0 then Some (Returned s)
         else
           let e2 = (if req = REMOVE then e1\<lparr>cb_Ind := 0, cb_IndCh := 0, cb_RcCh := 0, cb_RNR := 0\<rparr> else e1)
           in bind_opt (if req = REMOVE then on_cap (nl_removed p) s else Some s)
             (\<lambda>s1. bind_opt (nl_rc_flow (env_no_cancel_rc E) p rc ch (cap s1))
               (\<lambda>(cancelled, w). if cancelled then Some (Returned (set_cap w s1))
                  else map_option (Continue e2) (nl_rc_dispatch E p req rc ch (set_cap w s1)))))"

definition sig_rc :: "cb_env \<Rightarrow> nat \<Rightarrow> entity_cb \<Rightarrow> api \<Rightarrow> rc_result option" where
  "sig_rc E p e s =
     (let rc = cb_Rc e; ch = cb_RcCh e; req = cb_Req e; e1 = e\<lparr>cb_Rc := 0\<rparr>
      in if req = REMOVE \<and> Sig_Id (plci (cap s) p) \<noteq> 0 then Some (Returned s)
         else
           let e2 = (if req = REMOVE then e1\<lparr>cb_Ind := 0, cb_IndCh := 0, cb_RcCh := 0, cb_RNR := 0\<rparr> else e1);
               g = sig_global_req (plci (cap s) p);
               w = upd_plci p (\<lambda>P. P\<lparr>sig_remove_id := (if req = REMOVE then 0 else sig_remove_id P), sig_req := 0,
                     sig_global_req := 0, Sig_Id := (if g \<noteq> 0 \<and> rc \<noteq> ASSIGN_OK then 0 else Sig_Id P)\<rparr>) (cap s)
           in map_option (Continue e2)
                (bind_opt (on_cap (channel_xmit_xon p) (set_cap w s))
                  (if g \<noteq> 0 then env_control_rc E p 0 rc ch g False else env_control_rc E p req rc ch 0 False)))"

section \<open>Indications\<close>

definition clear_rx_flow :: "nat \<Rightarrow> capi \<Rightarrow> capi" where
  "clear_rx_flow ch w = set_flow_control ch (ch_flow_control w ch AND NOT N_RX_FLOW_CONTROL_MASK) w"

definition callback_ind :: "cb_env \<Rightarrow> nat \<Rightarrow> entity_cb \<Rightarrow> api \<Rightarrow> api option" where
  "callback_ind E p e s =
     (if cb_Ind e = 0 then Some s
      else if cb_net e then
        let ind = cb_Ind e mod 16; ch = cb_IndCh e; w = cap s;
            w1 = (if (ind = N_DISC \<or> ind = N_DISC_ACK) \<and> ch_flow_plci w ch = pl_Id (plci w p) then clear_rx_flow ch w else w)
        in map_option
             (\<lambda>(rnr, s1). let v = cap s1 in
                if rnr \<noteq> 1 \<and> ch_flow_plci v ch = pl_Id (plci v p) \<and> ch_flow_control v ch AND N_RX_FLOW_CONTROL_MASK \<noteq> 0
                then set_cap (clear_rx_flow ch v) s1 else s1)
             (env_nl_ind E p e (set_cap w1 s))
      else env_sig_ind E p e s)"

section \<open>The callback\<close>

definition has_rc :: "cb_env \<Rightarrow> entity_cb \<Rightarrow> bool" where
  "has_rc E e \<longleftrightarrow> cb_complete e = 0xff \<and> env_no_cancel_rc E \<or> cb_Rc e \<noteq> 0 \<and> \<not> env_no_cancel_rc E"

definition callback_suffix :: "cb_env \<Rightarrow> nat \<Rightarrow> api \<Rightarrow> api option" where
  "callback_suffix E p s = capi_callback_suffix (env_other E) (env_max_adapter E) p s"

definition callback_end :: "cb_env \<Rightarrow> nat \<Rightarrow> entity_cb \<Rightarrow> api \<Rightarrow> api option" where
  "callback_end E p e s =
     bind_opt (on_cap (channel_xmit_xon p) s) (\<lambda>s1. bind_opt (callback_ind E p e s1) (callback_suffix E p))"

definition callback :: "cb_env \<Rightarrow> nat \<Rightarrow> entity_cb \<Rightarrow> api \<Rightarrow> api option" where
  "callback E p e s =
     (if has_rc E e then
        bind_opt (if cb_net e then nl_rc E p e s else sig_rc E p e s)
          (\<lambda>r. case r of
                 Returned s1 \<Rightarrow> Some s1
               | Continue e1 s1 \<Rightarrow>
                   if env_no_cancel_rc E
                   then bind_opt (on_cap (channel_xmit_xon p) s1) (callback_suffix E p)
                   else callback_end E p e1 s1)
      else callback_end E p e s)"

section \<open>Data in flight\<close>

text \<open>The adapter answers the outstanding request of the network entity with \<open>OK\<close>.\<close>

definition answer_event :: "nat \<Rightarrow> capi \<Rightarrow> entity_cb" where
  "answer_event p w =
     \<lparr>cb_net = True, cb_complete = 0xff, cb_Req = nl_req (plci w p), cb_Rc = RC_OK, cb_RcCh = NL_ReqCh (plci w p),
      cb_Ind = 0, cb_IndCh = 0, cb_RNR = 0\<rparr>"

fun answers :: "cb_env \<Rightarrow> nat \<Rightarrow> nat \<Rightarrow> api \<Rightarrow> api option" where
  "answers E p 0 s = Some s"
| "answers E p (Suc k) s = bind_opt (callback E p (answer_event p (cap s)) s) (answers E p k)"

text \<open>The requests and confirmations of the queued data: each descriptor is confirmed, then the
  next one goes to the adapter.\<close>

definition packet_events :: "capi \<Rightarrow> nat \<Rightarrow> nat \<Rightarrow> data_b3_desc \<Rightarrow> capi_event list" where
  "packet_events w p n d =
     (if \<not> is_V120 (plci w p) \<and> dtmf_recv_on (plci w p) then [DtmfBlock (d_P d) (d_Length d)] else []) @
     [NL_request (NL_Id (plci w p)) (fst (data_request (plci w p) d)) (ncci_ch w n) (snd (data_request (plci w p) d))]"

fun send_trace :: "capi \<Rightarrow> nat \<Rightarrow> nat \<Rightarrow> data_b3_desc list \<Rightarrow> capi_event list" where
  "send_trace w p n [] = []"
| "send_trace w p n (d # ds) =
     data_confs w p n [d] @ (case ds of [] \<Rightarrow> [] | d' # _ \<Rightarrow> packet_events w p n d') @ send_trace w p n ds"

text \<open>What the events depend on and the transfer does not change.\<close>

definition same_line :: "nat \<Rightarrow> nat \<Rightarrow> capi \<Rightarrow> capi \<Rightarrow> bool" where
  "same_line p n w v \<longleftrightarrow>
     pl_Id (plci v p) = pl_Id (plci w p) \<and> pl_appl (plci v p) = pl_appl (plci w p) \<and> tel (plci v p) = tel (plci w p) \<and>
     NL_Id (plci v p) = NL_Id (plci w p) \<and> B2_prot (plci v p) = B2_prot (plci w p) \<and> B3_prot (plci v p) = B3_prot (plci w p) \<and>
     dtmf_recv_on (plci v p) = dtmf_recv_on (plci w p) \<and> a_Id v = a_Id w \<and> ncci_ch v n = ncci_ch w n"

lemma same_line_refl [simp]: "same_line p n w w"
  by (simp add: same_line_def)

lemma same_line_trans: "same_line p n w v \<Longrightarrow> same_line p n v u \<Longrightarrow> same_line p n w u"
  by (simp add: same_line_def)

lemma same_tables_line: "same_tables w v \<Longrightarrow> same_line p n w v"
  by (simp add: same_tables_def same_line_def)

lemma packet_events_line: "same_line p n w v \<Longrightarrow> packet_events v p n d = packet_events w p n d"
  by (simp add: packet_events_def same_line_def is_V120_def data_request_def)

lemma data_confs_line: "same_line p n w v \<Longrightarrow> data_confs v p n ds = data_confs w p n ds"
  by (simp add: data_confs_def b3_conf_def msg_id_def Let_def same_line_def)

lemma send_trace_line: "same_line p n w v \<Longrightarrow> send_trace v p n ds = send_trace w p n ds"
  by (induction ds) (simp_all add: packet_events_line data_confs_line split: list.splits)

text \<open>A connection with the first of the queued descriptors at the adapter, the only one of its PLCI,
  with no flow control and nothing else to do.\<close>

definition line_quiet :: "nat \<Rightarrow> nat \<Rightarrow> api \<Rightarrow> bool" where
  "line_quiet p n s \<longleftrightarrow>
     (let w = cap s; P = plci w p
      in p \<noteq> 0 \<and> b3_conn p n w \<and> ncci_ring_list P = n \<and> ncci_next w n = n \<and> ch_flow_ring_list P = 0 \<and>
         nl_global_req P = 0 \<and> req_in P = 0 \<and> req_out P = 0 \<and> internal_command s p = 0 \<and>
         mi_write (queues s p) = mi_read (queues s p) \<and>
         ch_flow_control w (ncci_ch w n) AND N_OK_FC_PENDING = 0 \<and> \<not> flow_control_skip w (ncci_ch w n) \<and> may_send w p n)"

definition in_flight :: "nat \<Rightarrow> nat \<Rightarrow> capi \<Rightarrow> data_b3_desc \<Rightarrow> bool" where
  "in_flight p n w d \<longleftrightarrow>
     nl_req (plci w p) = fst (data_request (plci w p) d) \<and> NL_ReqCh (plci w p) = ncci_ch w n \<and>
     data_sent (plci w p) \<and> data_sent_ptr (plci w p) = d_P d"

lemma channel_xmit_xon_nothing: "ch_flow_ring_list (plci w p) = 0 \<Longrightarrow> channel_xmit_xon p w = Some w"
  by (simp add: channel_xmit_xon_def find_channel_with_pending_x_on_def Let_def)

lemma data_request_code: "fst (data_request P d) mod 16 \<in> {8, 10}"
proof -
  have "data_req_code f mod 16 = 8" for f
  proof -
    have "take_bit 4 (take_bit 8 (push_bit 4 (f AND 7) OR 8)) = (8 :: nat)"
      by (simp add: take_bit_or take_bit_push_bit)
    then show ?thesis by (simp add: data_req_code_def take_bit_eq_mod)
  qed
  then show ?thesis by (simp add: data_request_def)
qed

lemma data_request_cong: "B2_prot Q = B2_prot P \<Longrightarrow> data_request Q d = data_request P d"
  by (simp add: data_request_def is_V120_def)

text \<open>Sending the next descriptor, or the disconnect behind the last one.\<close>

lemma send_data_single:
  assumes "ncci_ring_list (plci w p) = n" "ncci_next w n = n" "n \<noteq> 0" "nl_req (plci w p) = 0"
  shows "send_data p w = Some (upd_plci p (\<lambda>Q. Q\<lparr>ncci_ring_list := n\<rparr>) (send_data_step p n w))"
proof -
  have r: "ncci_ring_list (plci (send_data_step p n w) p) = n"
    using assms(1) by (simp add: send_data_step_def send_packet_def send_disconnect_def Let_def split: prod.splits)
  have "send_data p w = send_data_loop p n w" using assms by (simp add: send_data_def)
  then show ?thesis using assms(2) r by (subst (asm) send_data_loop.simps) (simp add: Let_def)
qed

definition request_ended :: "nat \<Rightarrow> (nat \<Rightarrow> nat) \<Rightarrow> capi \<Rightarrow> capi" where
  "request_ended p f w =
     upd_plci p (\<lambda>P. P\<lparr>data_sent := False\<rparr>) (upd_plci p (\<lambda>P. P\<lparr>nl_req := 0\<rparr>) (w\<lparr>flow_control_id := f\<rparr>))"

lemma set_cap_set_cap [simp]: "set_cap v (set_cap w s) = set_cap v s"
  by (simp add: set_cap_def)

lemma answer_flow:
  assumes "ch_flow_control w ch AND N_OK_FC_PENDING = 0" "\<not> flow_control_skip w ch"
  shows "\<exists>f. nl_rc_flow no_cancel p RC_OK ch w = Some (False, upd_plci p (\<lambda>P. P\<lparr>nl_req := 0\<rparr>) (w\<lparr>flow_control_id := f\<rparr>))"
proof -
  let ?f = "if no_cancel \<and> flow_control_id w ch = NL_Id (plci w p) \<and> NL_Id (plci w p) \<noteq> 0 then (flow_control_id w)(ch := 0)
    else flow_control_id w"
  have "nl_rc_flow no_cancel p RC_OK ch w = Some (False, upd_plci p (\<lambda>P. P\<lparr>nl_req := 0\<rparr>) (w\<lparr>flow_control_id := ?f\<rparr>))"
    using assms by (simp add: nl_rc_flow_def Let_def)
  then show ?thesis by blast
qed

lemma callback_data:
  assumes "line_quiet p n s" "in_flight p n (cap s) d"
  shows "\<exists>f. callback E p (answer_event p (cap s)) s =
    callback_suffix E p (set_cap (data_rc p (ncci_ch (cap s) n) (d_P d) (request_ended p f (cap s))) s)"
proof -
  let ?w = "cap s" and ?e = "answer_event p (cap s)"
  let ?ch = "ncci_ch ?w n"
  have q: "ch_flow_ring_list (plci ?w p) = 0" "nl_global_req (plci ?w p) = 0" "internal_command s p = 0"
    "ch_flow_control ?w ?ch AND N_OK_FC_PENDING = 0" "\<not> flow_control_skip ?w ?ch"
    using assms(1) by (simp_all add: line_quiet_def Let_def)
  have e: "cb_Rc ?e = RC_OK" "cb_RcCh ?e = ?ch" "cb_net ?e" "cb_complete ?e = 0xff" "cb_Ind ?e = 0"
    "cb_Req ?e mod 16 \<in> {8, 10}"
    using assms(2) data_request_code by (auto simp: answer_event_def in_flight_def)
  then have req: "cb_Req ?e \<noteq> REMOVE" "cb_Req ?e \<noteq> N_XON" by auto
  obtain f where f: "nl_rc_flow (env_no_cancel_rc E) p RC_OK ?ch ?w =
      Some (False, upd_plci p (\<lambda>P. P\<lparr>nl_req := 0\<rparr>) (?w\<lparr>flow_control_id := f\<rparr>))"
    using answer_flow [OF q(4,5)] by blast
  let ?u = "upd_plci p (\<lambda>P. P\<lparr>nl_req := 0\<rparr>) (?w\<lparr>flow_control_id := f\<rparr>)"
  let ?v = "data_rc p ?ch (d_P d) (request_ended p f ?w)"
  have u: "channel_xmit_xon p ?u = Some ?u" by (rule channel_xmit_xon_nothing) (simp add: q)
  have "nl_rc_data E p (cb_Req ?e) RC_OK ?ch (set_cap ?u s) = Some (set_cap ?v s)"
    using assms(2) q(3) by (simp add: nl_rc_data_def on_cap_def u request_ended_def in_flight_def Let_def)
  then have "nl_rc_dispatch E p (cb_Req ?e) RC_OK ?ch (set_cap ?u s) = Some (set_cap ?v s)"
    using req(2) assms(2) q(2) by (simp add: nl_rc_dispatch_def in_flight_def)
  then have r: "nl_rc E p ?e s = Some (Continue (?e\<lparr>cb_Rc := 0\<rparr>) (set_cap ?v s))"
    using req(1) by (simp add: nl_rc_def e f Let_def)
  have v: "channel_xmit_xon p ?v = Some ?v"
    by (rule channel_xmit_xon_nothing) (simp add: same_tablesD(1) [OF data_rc_tables] request_ended_def q)
  have "has_rc E ?e" using e by (auto simp: has_rc_def)
  then show ?thesis
    using r v e by (intro exI [of _ f]) (simp add: callback_def callback_end_def callback_ind_def on_cap_def)
qed

lemma suffix_sends:
  assumes "line_quiet p n s" "ncci_ring_list (plci v p) = n" "ncci_next v n = n" "nl_req (plci v p) = 0"
    "ch_flow_ring_list (plci v p) = 0" "req_in (plci v p) = 0" "req_out (plci v p) = 0"
  shows "callback_suffix E p (set_cap v s) =
    Some (set_cap (upd_plci p (\<lambda>Q. Q\<lparr>ncci_ring_list := n\<rparr>) (send_data_step p n v)) s)"
proof -
  let ?t = "set_cap v s" and ?u = "upd_plci p (\<lambda>Q. Q\<lparr>ncci_ring_list := n\<rparr>) (send_data_step p n v)"
  have n: "n \<noteq> 0" using assms(1) by (simp add: line_quiet_def b3_conn_def Let_def)
  have idle: "\<not> busy p ?t" "mi_write (queues ?t p) = mi_read (queues ?t p)"
    using assms(1,6) by (simp_all add: busy_def line_quiet_def Let_def)
  then have d: "dispatch_loop (env_other E) (env_max_adapter E) p ?t = Some ?t" by (subst dispatch_loop.simps) simp
  have flow: "ch_flow_ring_list (plci (send_data_step p n v) p) = 0" "req_in (plci (send_data_step p n v) p) = 0"
    "req_out (plci (send_data_step p n v) p) = 0"
    using assms(5-7) by (simp_all add: send_data_step_def send_packet_def send_disconnect_def Let_def split: prod.splits)
  then have "channel_xmit_xon p ?u = Some ?u" by (intro channel_xmit_xon_nothing) simp
  then have "send_req p ?u = Some ?u" using flow by (simp add: send_req_def)
  then show ?thesis
    using send_data_single [OF assms(2,3) n assms(4)] d idle by (simp add: callback_suffix_def capi_callback_suffix_def)
qed

definition disc_event :: "capi \<Rightarrow> nat \<Rightarrow> nat \<Rightarrow> capi_event" where
  "disc_event w p n = NL_request (NL_Id (plci w p)) N_DISC (ncci_ch w n)
     (if B3_prot (plci w p) = B3_T30_WITH_EXTENSIONS then FaxInfo else Bytes [])"

text \<open>The disconnect a deferred request has left.\<close>

definition disc_waiting :: "capi \<Rightarrow> nat \<Rightarrow> nat \<Rightarrow> bool" where
  "disc_waiting w p n \<longleftrightarrow> send_disc (plci w p) = n \<and> command (plci w p) = 0"

lemma answer_step:
  assumes quiet: "line_quiet p n s" and fl: "in_flight p n (cap s) d" and q: "b3_list (ncci (cap s) n) = d # ds"
  obtains v where "callback E p (answer_event p (cap s)) s = Some (set_cap v s)" "same_line p n (cap s) v"
    "b3_list (ncci v n) = ds"
    "ds = d' # ds' \<Longrightarrow> line_quiet p n (set_cap v s) \<and> in_flight p n v d' \<and> disc_waiting v p n = disc_waiting (cap s) p n \<and>
      events v = events (cap s) @ data_confs (cap s) p n [d] @ packet_events (cap s) p n d'"
    "ds = [] \<Longrightarrow> events v = events (cap s) @ data_confs (cap s) p n [d] @
      (if disc_waiting (cap s) p n then [disc_event (cap s) p n] else [])"
proof -
  let ?w = "cap s"
  obtain f where cb: "callback E p (answer_event p ?w) s =
      callback_suffix E p (set_cap (data_rc p (ncci_ch ?w n) (d_P d) (request_ended p f ?w)) s)"
    using callback_data [OF quiet fl] by blast
  let ?r = "request_ended p f ?w"
  let ?v = "data_rc p (ncci_ch ?w n) (d_P d) ?r"
  have conn: "b3_conn p n ?r" using quiet by (simp add: request_ended_def line_quiet_def b3_conn_def Let_def)
  have r: "ncci ?r = ncci ?w" "ncci_ch ?r = ncci_ch ?w" "events ?r = events ?w" "same_line p n ?w ?r"
    by (simp_all add: request_ended_def same_line_def)
  note dr = data_rc_step [OF conn, unfolded r, OF q, unfolded Let_def]
  have v: "same_tables ?r ?v" "b3_conn p n ?v" "b3_list (ncci ?v n) = ds"
    "events ?v = events ?w @ data_confs ?w p n [d]"
    using dr data_confs_line [OF r(4)] by simp_all
  have nx: "ncci_next ?v = ncci_next ?w" "flow_control_skip ?v = flow_control_skip ?w"
    by (simp_all add: data_rc_def Let_def free_xbuffer_def request_ended_def)
  have P: "plci ?v = (plci ?w)(p := (plci ?w p)\<lparr>nl_req := 0, data_sent := False\<rparr>)"
    using same_tablesD(1) [OF v(1)] by (simp add: request_ended_def)
  have tab: "ncci_ch ?v = ncci_ch ?w" "ncci_state ?v = ncci_state ?w" "ch_flow_control ?v = ch_flow_control ?w"
    "a_Id ?v = a_Id ?w" "ncci_plci ?v = ncci_plci ?w" "ch_ncci ?v = ch_ncci ?w"
    using v(1) by (simp_all add: same_tables_def request_ended_def)
  let ?u = "upd_plci p (\<lambda>Q. Q\<lparr>ncci_ring_list := n\<rparr>) (send_data_step p n ?v)"
  have fc: "\<not> fc_blocked ?v n" "may_send ?v p n"
    using quiet by (simp_all add: fc_blocked_def may_send_def tab P line_quiet_def Let_def)
  have "callback E p (answer_event p ?w) s = Some (set_cap ?u s)"
    unfolding cb using quiet by (intro suffix_sends [OF quiet]) (simp_all add: P nx line_quiet_def Let_def)
  moreover have line: "same_line p n ?w ?v" using r(4) v(1) same_line_trans same_tables_line by blast
  moreover have "same_line p n ?w ?u"
    using fc by (simp add: same_line_def P tab send_data_step_def send_packet_def send_disconnect_def Let_def split: prod.splits)
  moreover have "b3_list (ncci ?u n) = ds"
    using v(3) fc by (auto simp: send_data_step_def send_packet_simps send_disconnect_def)
  moreover have "line_quiet p n (set_cap ?u s) \<and> in_flight p n ?u d' \<and> disc_waiting ?u p n = disc_waiting ?w p n \<and>
      events ?u = events ?w @ data_confs ?w p n [d] @ packet_events ?w p n d'" if ds: "ds = d' # ds'"
  proof -
    have pend: "data_pending (ncci ?v n) \<noteq> 0" using v(3) ds by (metis b3_list_def list.distinct(1) ring8_0)
    have b: "b3_ok (ncci ?v n)" using v(2) by (simp add: b3_conn_def)
    have d': "DBuffer (ncci ?v n) (data_out (ncci ?v n)) = d'" using drop_data_lists(1) [OF b pend] v(3) ds by simp
    have step: "send_data_step p n ?v = send_packet p n ?v" using fc pend by (simp add: send_data_step_def)
    note sp = send_packet_simps [of p n ?v, unfolded d']
    have tabs: "ncci_ch (send_packet p n ?v) = ncci_ch ?v" "ncci_state (send_packet p n ?v) = ncci_state ?v"
      "ncci_plci (send_packet p n ?v) = ncci_plci ?v" "ch_ncci (send_packet p n ?v) = ch_ncci ?v"
      "ncci_next (send_packet p n ?v) = ncci_next ?v" "ch_flow_control (send_packet p n ?v) = ch_flow_control ?v"
      "flow_control_skip (send_packet p n ?v) = flow_control_skip ?v"
      by (simp_all add: send_packet_def Let_def split: prod.splits)
    have "line_quiet p n (set_cap ?u s)"
      using quiet v(2) by (simp add: step line_quiet_def b3_conn_def may_send_def sp tabs tab P nx Let_def)
    moreover have "in_flight p n ?u d'"
    proof -
      have c: "data_request (plci ?u p) d' = data_request (plci ?v p) d'" by (rule data_request_cong) (simp add: step sp)
      show ?thesis unfolding in_flight_def c by (simp add: step sp tabs)
    qed
    moreover have "events ?u = events ?w @ data_confs ?w p n [d] @ packet_events ?w p n d'"
      unfolding packet_events_line [OF line, symmetric] by (simp add: step sp v(4) packet_events_def)
    ultimately show ?thesis by (simp add: step sp P disc_waiting_def)
  qed
  moreover have "events ?u = events ?w @ data_confs ?w p n [d] @ (if disc_waiting ?w p n then [disc_event ?w p n] else [])"
    if "ds = []"
  proof -
    have "data_pending (ncci ?v n) = 0" using v(3) that by (simp add: b3_list_def)
    then show ?thesis using fc v(4)
      by (simp add: send_data_step_def send_disconnect_def disc_waiting_def disc_event_def P tab)
  qed
  ultimately show ?thesis using that by blast
qed

lemma answers_all:
  assumes "line_quiet p n s" "in_flight p n (cap s) d" "b3_list (ncci (cap s) n) = d # ds"
  shows "\<exists>s'. answers E p (Suc (length ds)) s = Some s' \<and> b3_list (ncci (cap s') n) = [] \<and>
    events (cap s') = events (cap s) @ send_trace (cap s) p n (d # ds) @
      (if disc_waiting (cap s) p n then [disc_event (cap s) p n] else [])"
  using assms
proof (induction ds arbitrary: s d)
  case Nil
  from answer_step [OF Nil, of E] obtain v where v: "callback E p (answer_event p (cap s)) s = Some (set_cap v s)"
    "b3_list (ncci v n) = []" "events v = events (cap s) @ data_confs (cap s) p n [d] @
      (if disc_waiting (cap s) p n then [disc_event (cap s) p n] else [])"
    by (metis list.distinct(1))
  then show ?case by simp
next
  case (Cons d' ds)
  from answer_step [OF Cons.prems, of E] obtain v where v: "callback E p (answer_event p (cap s)) s = Some (set_cap v s)"
    "same_line p n (cap s) v" "b3_list (ncci v n) = d' # ds" "line_quiet p n (set_cap v s)" "in_flight p n v d'"
    "disc_waiting v p n = disc_waiting (cap s) p n"
    "events v = events (cap s) @ data_confs (cap s) p n [d] @ packet_events (cap s) p n d'"
    by metis
  have "in_flight p n (cap (set_cap v s)) d'" "b3_list (ncci (cap (set_cap v s)) n) = d' # ds" using v(3,5) by simp_all
  from Cons.IH [OF v(4) this] obtain s' where s': "answers E p (Suc (length ds)) (set_cap v s) = Some s'"
    "b3_list (ncci (cap s') n) = []" "events (cap s') = events v @ send_trace v p n (d' # ds) @
      (if disc_waiting v p n then [disc_event v p n] else [])" by auto
  have "answers E p (Suc (length (d' # ds))) s = Some s'"
    unfolding answers.simps(2) [of E p "length (d' # ds)"] v(1) bind_opt_simps using s'(1) by simp
  moreover have "disc_event v p n = disc_event (cap s) p n" using v(2) by (simp add: disc_event_def same_line_def)
  moreover have "send_trace v p n (d' # ds) = send_trace (cap s) p n (d' # ds)" by (rule send_trace_line [OF v(2)])
  ultimately show ?case
    using s'(2,3) v(6,7) unfolding send_trace.simps(2) [of "cap s" p n d "d' # ds"] by (intro exI [of _ s']) simp
qed

lemma request_xon_blocked:
  "ch_flow_control (channel_request_xon ch w) c AND N_OK_FC_PENDING = ch_flow_control w c AND N_OK_FC_PENDING"
proof -
  have "(((x OR N_XON_REQ) AND NOT N_CH_XOFF) AND NOT N_XON_CONNECT_IND) AND N_OK_FC_PENDING = x AND N_OK_FC_PENDING" for x :: byte
    by (simp add: and.assoc bit.conj_disj_distrib2)
  then show ?thesis by (simp add: channel_request_xon_def)
qed

lemma channel_request_xon_more [simp]:
  "flow_control_skip (channel_request_xon ch w) = flow_control_skip w" "ncci_next (channel_request_xon ch w) = ncci_next w"
  "a_Id (channel_request_xon ch w) = a_Id w"
  by (simp_all add: channel_request_xon_def set_flow_control_def)

lemma fax_disconnect_bits_frame:
  "events (fax_disconnect_bits p len at m w) = events w" "ncci (fax_disconnect_bits p len at m w) = ncci w"
  "ncci_state (fax_disconnect_bits p len at m w) = ncci_state w" "ncci_ch (fax_disconnect_bits p len at m w) = ncci_ch w"
  "ch_ncci (fax_disconnect_bits p len at m w) = ch_ncci w" "ncci_plci (fax_disconnect_bits p len at m w) = ncci_plci w"
  "ncci_next (fax_disconnect_bits p len at m w) = ncci_next w" "a_Id (fax_disconnect_bits p len at m w) = a_Id w"
  "ch_flow_control (fax_disconnect_bits p len at m w) = ch_flow_control w"
  "flow_control_skip (fax_disconnect_bits p len at m w) = flow_control_skip w"
  by (simp_all add: fax_disconnect_bits_def)

lemma fax_disconnect_bits_plci:
  obtains c f where "plci (fax_disconnect_bits p len at m w) p = (plci w p)\<lparr>fax_control_bits := c, fax_feature_bits := f\<rparr>"
proof (cases "B3_prot (plci w p) = B3_T30_WITH_EXTENSIONS")
  case True
  then show ?thesis using that unfolding fax_disconnect_bits_def if_P [OF True] by simp
next
  case False
  then have "plci (fax_disconnect_bits p len at m w) p = (plci w p)
      \<lparr>fax_control_bits := fax_control_bits (plci w p), fax_feature_bits := fax_feature_bits (plci w p)\<rparr>"
    by (simp add: fax_disconnect_bits_def)
  then show ?thesis by (rule that)
qed

section \<open>Properties\<close>

text \<open>C4: A disconnect request for a connection that still has data queued (transparent or fax) is
  deferred: the application gets no answer yet and nothing is sent. When the adapter then answers
  one request after the other, every queued descriptor is still sent and confirmed, in order, and
  behind the last one, and only there, the disconnect goes to the adapter.\<close>

theorem disconnect_after_data:
  assumes "line_quiet p n s" and "in_flight p n (cap s) d" and "b3_list (ncci (cap s) n) = d # ds"
    and "ncci_state (cap s) n = CONNECTED" and "defers_disconnect (plci (cap s) p)"
    and "n = id_ncci msgid" and "n \<le> MAX_NCCI"
  shows "\<exists>w s'. disconnect_b3_req msgid num p x len at m (cap s) = Some (False, w) \<and>
     ncci_state w n = OUTG_DIS_PENDING \<and> events w = events (cap s) \<and>
     answers E p (length (d # ds)) (set_cap w s) = Some s' \<and> b3_list (ncci (cap s') n) = [] \<and>
     events (cap s') = events (cap s) @ send_trace (cap s) p n (d # ds) @ [disc_event (cap s) p n]"
proof -
  let ?w = "cap s"
  define u where "u = channel_request_xon (ncci_ch ?w n) (set_ncci_state n OUTG_DIS_PENDING ?w)"
  define f where "f = fax_disconnect_bits p len at m u"
  define v where "v = upd_plci p (\<lambda>P. P\<lparr>send_disc := n, command := 0\<rparr>) f"
  have q: "p \<noteq> 0" "n \<noteq> 0" "ch_flow_ring_list (plci ?w p) = 0" "b3_ok (ncci ?w n)"
    using assms(1) by (simp_all add: line_quiet_def b3_conn_def Let_def)
  have u: "plci u = plci ?w" "ncci u = ncci ?w" "events u = events ?w" "ncci_state u = (ncci_state ?w)(n := OUTG_DIS_PENDING)"
    "ncci_ch u = ncci_ch ?w" "ch_ncci u = ch_ncci ?w" "ncci_plci u = ncci_plci ?w" "ncci_next u = ncci_next ?w"
    "a_Id u = a_Id ?w" "flow_control_skip u = flow_control_skip ?w"
    "ch_flow_control u c AND N_OK_FC_PENDING = ch_flow_control ?w c AND N_OK_FC_PENDING" for c
    unfolding u_def by (simp_all add: set_ncci_state_def request_xon_blocked)
  obtain c b where P: "plci f p = (plci ?w p)\<lparr>fax_control_bits := c, fax_feature_bits := b\<rparr>"
    using fax_disconnect_bits_plci [of p len at m u] unfolding f_def u(1) by blast
  note f = fax_disconnect_bits_frame [of p len at m u, folded f_def]
  have x: "channel_xmit_xon p u = Some u" using q(3) by (intro channel_xmit_xon_nothing) (simp add: u)
  have pend: "data_pending (ncci ?w n) \<noteq> 0" using assms(3) by (metis b3_list_def list.distinct(1) ring8_0)
  have "data_pending (ncci f n) \<noteq> 0 \<and> defers_disconnect (plci f p)"
    using pend assms(5) by (simp add: f u P defers_disconnect_def)
  note ready = this
  have cond: "p \<noteq> 0 \<and> n \<noteq> 0 \<and> ncci_state ?w n \<in> {CONNECTED, OUTG_CON_PENDING, INC_CON_PENDING, INC_ACT_PENDING}"
    using assms(4) q(1,2) by simp
  have "n mod 256 = n" using assms(7) by simp
  with ready have dis: "disconnect_b3_req msgid num p x len at m ?w = Some (False, v)"
    unfolding disconnect_b3_req_def assms(6) [symmetric] Let_def if_P [OF cond] u_def [symmetric] x v_def f_def [symmetric]
    by (simp add: f_def [symmetric])
  have line: "same_line p n ?w v" by (simp add: same_line_def v_def P f u)
  have "line_quiet p n (set_cap v s)"
    using assms(1) by (simp add: line_quiet_def b3_conn_def may_send_def v_def P f u Let_def)
  moreover have "in_flight p n v d"
  proof -
    have "data_request (plci v p) d = data_request (plci ?w p) d" by (rule data_request_cong) (simp add: v_def P)
    then show ?thesis using assms(2) unfolding in_flight_def by (simp add: v_def P f u)
  qed
  moreover have "b3_list (ncci v n) = d # ds" using assms(3) by (simp add: v_def f u)
  moreover have "disc_waiting v p n" by (simp add: disc_waiting_def v_def)
  ultimately obtain s' where "answers E p (Suc (length ds)) (set_cap v s) = Some s'" "b3_list (ncci (cap s') n) = []"
    "events (cap s') = events v @ send_trace v p n (d # ds) @ [disc_event v p n]"
    using answers_all [of p n "set_cap v s" d ds E] by auto
  moreover have "disc_event v p n = disc_event ?w p n" using line by (simp add: disc_event_def same_line_def)
  moreover have "events v = events ?w" "ncci_state v n = OUTG_DIS_PENDING" by (simp_all add: v_def f u)
  ultimately show ?thesis
    using dis send_trace_line [OF line, of "d # ds"] by (intro exI [of _ v] exI [of _ s']) simp
qed

lemma unblock_flow:
  assumes "rc \<noteq> OK_FC" "\<not> flow_control_skip w ch" "ch_flow_control w ch AND N_OK_FC_PENDING \<noteq> 0"
  obtains f where "nl_rc_flow no_cancel p rc ch w = Some (False,
    (if ch = NL_ReqCh (plci w p) then upd_plci p (\<lambda>P. P\<lparr>nl_req := 0\<rparr>) else id)
      (set_flow_control ch (ch_flow_control w ch AND NOT N_OK_FC_PENDING) (w\<lparr>flow_control_id := f\<rparr>)))"
proof -
  let ?held = "no_cancel \<and> flow_control_id w ch = NL_Id (plci w p) \<and> NL_Id (plci w p) \<noteq> 0"
  have eq: "(if ?held then w\<lparr>flow_control_id := (flow_control_id w)(ch := 0)\<rparr> else w) =
    w\<lparr>flow_control_id := (if ?held then (flow_control_id w)(ch := 0) else flow_control_id w)\<rparr>" by simp
  show ?thesis
    by (rule that [of "if ?held then (flow_control_id w)(ch := 0) else flow_control_id w"])
      (use assms in \<open>cases "ch = NL_ReqCh (plci w p)"; simp add: nl_rc_flow_def Let_def eq set_flow_control_def\<close>)
qed

lemma channel_flow_control_plci_keeps:
  assumes "channel_flow_control_plci p ch w = Some w'"
  shows "ncci_ch w' = ncci_ch w \<and> nl_req (plci w' q) = nl_req (plci w q) \<and> NL_ReqCh (plci w' q) = NL_ReqCh (plci w q)"
proof (cases "ch_flow_plci w ch = pl_Id (plci w p)")
  case False
  with assms obtain v where v: "w' = flow_link p ch v"
    "(if ch_flow_plci w ch \<noteq> 0 then flow_unlink (ch_flow_plci w ch) ch w else Some w) = Some v"
    by (auto simp only: channel_flow_control_plci_def if_True if_False simp_thms map_option_eq_Some)
  have "ncci_ch v = ncci_ch w \<and> nl_req (plci v q) = nl_req (plci w q) \<and> NL_ReqCh (plci v q) = NL_ReqCh (plci w q)"
    using v(2) by (auto simp: flow_unlink_def Let_def split: if_splits option.splits)
  then show ?thesis unfolding v(1) by (auto simp: flow_link_def Let_def)
qed (use assms in \<open>simp add: channel_flow_control_plci_def\<close>)

lemma pending_bits:
  "(x OR N_OK_FC_PENDING) AND N_OK_FC_PENDING \<noteq> 0" "(x AND NOT N_OK_FC_PENDING) AND N_OK_FC_PENDING = 0" for x :: byte
  by (simp_all add: bit.conj_disj_distrib2 and.assoc)

text \<open>The return code \<open>OK_FC\<close>, and what the next one of the channel does.\<close>

lemma hold_channel:
  assumes "flow_inv w" and "p \<noteq> 0" and "pl_Id (plci w p) = p" and "0 < ch" and "ch \<le> MAX_NL_CHANNEL"
  obtains v where "nl_rc_flow no_cancel p OK_FC ch w = Some (False, v)" "flow_inv v"
    "ch_flow_plci v = (ch_flow_plci w)(ch := p)"
    "ch_flow_control v = (ch_flow_control w)(ch := ch_flow_control w ch OR N_OK_FC_PENDING)" "ncci_ch v = ncci_ch w"
    "\<not> flow_control_skip v ch" "nl_req (plci v p) = 0" "\<forall>q. q \<noteq> p \<longrightarrow> nl_req (plci v q) = nl_req (plci w q)"
    "NL_ReqCh (plci v p) = NL_ReqCh (plci w p)"
proof -
  let ?w = "set_flow_control ch (ch_flow_control w ch OR N_OK_FC_PENDING)
    (w\<lparr>flow_control_id := (flow_control_id w)(ch := NL_Id (plci w p)), flow_control_skip := (flow_control_skip w)(ch := False)\<rparr>)"
  have inv: "flow_inv ?w" using assms(1) by (simp add: flow_inv_def flow_ring_def)
  have pid: "pl_Id (plci ?w p) = p" using assms(3) by simp
  obtain t where t: "channel_flow_control_plci p ch ?w = Some t" "flow_inv t" "ch_flow_plci t = (ch_flow_plci ?w)(ch := p)"
    "ch_flow_control t = ch_flow_control ?w"
    using channel_flow_control_plci_inv [OF inv assms(2) pid assms(4,5)] by blast
  have skip: "flow_control_skip t = flow_control_skip ?w" using channel_flow_control_plci_pending [OF t(1)] by simp
  note k = channel_flow_control_plci_keeps [OF t(1)]
  let ?v = "upd_plci p (\<lambda>P. P\<lparr>nl_req := 0\<rparr>) t"
  have "flow_ring ?v q = flow_ring t q" for q by (rule flow_ring_cong) simp_all
  then have i: "flow_inv ?v" using t(2) by (simp add: flow_inv_def)
  show thesis
  proof (rule that [of ?v])
    show "nl_rc_flow no_cancel p OK_FC ch w = Some (False, ?v)" using t(1) by (simp add: nl_rc_flow_def Let_def)
    show "ch_flow_control ?v = (ch_flow_control w)(ch := ch_flow_control w ch OR N_OK_FC_PENDING)"
      by (simp add: t(4) set_flow_control_def)
    show "ch_flow_plci ?v = (ch_flow_plci w)(ch := p)" by (simp add: t(3) set_flow_control_def)
    show "\<not> flow_control_skip ?v ch" by (simp add: skip set_flow_control_def)
  qed (use i k in \<open>simp_all add: upd_plci_def set_flow_control_def\<close>)
qed

lemma release_channel:
  assumes "rc \<noteq> OK_FC" "\<not> flow_control_skip w ch" "ch_flow_control w ch AND N_OK_FC_PENDING \<noteq> 0"
  obtains u where "nl_rc_flow no_cancel p rc ch w = Some (False, u)" "ncci_ch u = ncci_ch w"
    "ch_flow_control u = (ch_flow_control w)(ch := ch_flow_control w ch AND NOT N_OK_FC_PENDING)"
    "nl_req (plci u p) = (if ch = NL_ReqCh (plci w p) then 0 else nl_req (plci w p))"
    "\<forall>q. q \<noteq> p \<longrightarrow> nl_req (plci u q) = nl_req (plci w q)"
proof -
  obtain f where f: "nl_rc_flow no_cancel p rc ch w = Some (False,
    (if ch = NL_ReqCh (plci w p) then upd_plci p (\<lambda>P. P\<lparr>nl_req := 0\<rparr>) else id)
      (set_flow_control ch (ch_flow_control w ch AND NOT N_OK_FC_PENDING) (w\<lparr>flow_control_id := f\<rparr>)))" (is "_ = Some (False, ?u)")
    using unblock_flow [OF assms] by blast
  show thesis
    by (rule that [OF f]) (simp_all add: upd_plci_def set_flow_control_def)
qed

text \<open>C6: A return code that says the adapter holds the request back (\<open>OK_FC\<close>) frees the network entity
  for other requests and blocks the NCCIs of the channel, and no others: the flags of the other channels
  and the requests of the other PLCIs stay as they are. The next return code of the channel lifts just
  this block and is not dropped. It frees the entity if the outstanding request is the one of
  this channel, and otherwise leaves it to its own return code.\<close>

theorem flow_control_blocks:
  assumes "flow_inv w" and "p \<noteq> 0" and "pl_Id (plci w p) = p" and "0 < ch" and "ch \<le> MAX_NL_CHANNEL"
  shows "\<exists>v. nl_rc_flow no_cancel p OK_FC ch w = Some (False, v) \<and> flow_inv v \<and> ch_flow_plci v = (ch_flow_plci w)(ch := p) \<and>
     nl_req (plci v p) = 0 \<and> (\<forall>q. q \<noteq> p \<longrightarrow> nl_req (plci v q) = nl_req (plci w q)) \<and>
     (\<forall>c. c \<noteq> ch \<longrightarrow> ch_flow_control v c = ch_flow_control w c) \<and>
     (\<forall>n. fc_blocked v n \<longleftrightarrow> ncci_ch w n = ch \<or> fc_blocked w n) \<and>
     (\<forall>rc req. rc \<noteq> OK_FC \<longrightarrow>
       (let busy = upd_plci p (\<lambda>P. P\<lparr>nl_req := req\<rparr>) v
        in \<exists>u. nl_rc_flow no_cancel p rc ch busy = Some (False, u) \<and>
          (\<forall>c. c \<noteq> ch \<longrightarrow> ch_flow_control u c = ch_flow_control w c) \<and>
          (\<forall>n. fc_blocked u n \<longleftrightarrow> ncci_ch w n \<noteq> ch \<and> fc_blocked w n) \<and>
          nl_req (plci u p) = (if ch = NL_ReqCh (plci w p) then 0 else req) \<and>
          (\<forall>q. q \<noteq> p \<longrightarrow> nl_req (plci u q) = nl_req (plci w q))))"
proof -
  from hold_channel [OF assms, of no_cancel] obtain v where v: "nl_rc_flow no_cancel p OK_FC ch w = Some (False, v)" "flow_inv v"
    "ch_flow_plci v = (ch_flow_plci w)(ch := p)"
    "ch_flow_control v = (ch_flow_control w)(ch := ch_flow_control w ch OR N_OK_FC_PENDING)" "ncci_ch v = ncci_ch w"
    "\<not> flow_control_skip v ch" "nl_req (plci v p) = 0" "\<forall>q. q \<noteq> p \<longrightarrow> nl_req (plci v q) = nl_req (plci w q)"
    "NL_ReqCh (plci v p) = NL_ReqCh (plci w p)" .
  have second: "\<exists>u. nl_rc_flow no_cancel p rc ch (upd_plci p (\<lambda>P. P\<lparr>nl_req := req\<rparr>) v) = Some (False, u) \<and>
      (\<forall>c. c \<noteq> ch \<longrightarrow> ch_flow_control u c = ch_flow_control w c) \<and>
      (\<forall>n. fc_blocked u n \<longleftrightarrow> ncci_ch w n \<noteq> ch \<and> fc_blocked w n) \<and>
      nl_req (plci u p) = (if ch = NL_ReqCh (plci w p) then 0 else req) \<and>
      (\<forall>q. q \<noteq> p \<longrightarrow> nl_req (plci u q) = nl_req (plci w q))" if rc: "rc \<noteq> OK_FC" for rc req
  proof -
    let ?b = "upd_plci p (\<lambda>P. P\<lparr>nl_req := req\<rparr>) v"
    have b: "\<not> flow_control_skip ?b ch" "ch_flow_control ?b ch AND N_OK_FC_PENDING \<noteq> 0"
      using v(4,6) pending_bits(1) by simp_all
    from release_channel [OF rc b, of no_cancel p] obtain u where u: "nl_rc_flow no_cancel p rc ch ?b = Some (False, u)"
      "ncci_ch u = ncci_ch ?b" "ch_flow_control u = (ch_flow_control ?b)(ch := ch_flow_control ?b ch AND NOT N_OK_FC_PENDING)"
      "nl_req (plci u p) = (if ch = NL_ReqCh (plci ?b p) then 0 else nl_req (plci ?b p))"
      "\<forall>q. q \<noteq> p \<longrightarrow> nl_req (plci u q) = nl_req (plci ?b q)" .
    have "fc_blocked u n \<longleftrightarrow> ncci_ch w n \<noteq> ch \<and> fc_blocked w n" for n
      using pending_bits(2) by (auto simp: fc_blocked_def u(2,3) v(4,5))
    then show ?thesis
      using u v(4,8,9) by (intro exI [of _ u]) (simp add: upd_plci_def)
  qed
  have "fc_blocked v n \<longleftrightarrow> ncci_ch w n = ch \<or> fc_blocked w n" for n
    using pending_bits(1) assms(4) by (auto simp: fc_blocked_def v(4,5))
  then show ?thesis
    unfolding Let_def using v(1-3,7,8) second by (intro exI [of _ v]) (simp add: v(4))
qed

section \<open>Examples\<close>

definition example_env :: cb_env where
  "example_env = \<lparr>env_other = no_handler, env_control_rc = (\<lambda>p req rc ch g nl s. Some s),
     env_nl_ind = (\<lambda>p e s. Some (cb_RNR e, s)), env_sig_ind = (\<lambda>p e s. Some s), env_max_adapter = 1, env_no_cancel_rc = True\<rparr>"

text \<open>The connection of \<open>data_capi\<close> with its descriptor at the adapter.\<close>

definition flight_capi :: capi where
  "flight_capi = upd_plci 1 (\<lambda>P. P\<lparr>nl_req := 0x18, NL_ReqCh := 5, data_sent := True, data_sent_ptr := 2\<rparr>) data_capi"

definition flight_api :: api where
  "flight_api = busy_api\<lparr>cap := flight_capi, internal_command := (\<lambda>_. 0)\<rparr>"

lemma flight_capi:
  "ncci flight_capi = ncci data_capi" "ncci_state flight_capi 3 = CONNECTED" "ncci_ch flight_capi 3 = 5" "events flight_capi = []"
  "plci flight_capi 1 = (plci data_capi 1)\<lparr>nl_req := 0x18, NL_ReqCh := 5, data_sent := True, data_sent_ptr := 2\<rparr>"
  "NL_Id (plci flight_capi 1) = 33" "B3_prot (plci flight_capi 1) = B3_TRANSPARENT"
  using data_capi by (simp_all add: flight_capi_def) (simp add: data_capi_def idle_plci_def)

lemma flight_quiet: "line_quiet 1 3 flight_api"
proof -
  have c: "cap flight_api = flight_capi" "internal_command flight_api 1 = 0" "queues flight_api 1 = msg_in_init example_queue"
    using busy_api_simps(3) by (simp_all add: flight_api_def)
  have m: "mi_write (msg_in_init q) = mi_read (msg_in_init q)" for q by (simp add: msg_in_init_def)
  have conn: "b3_conn 1 3 flight_capi" using data_capi by (simp add: b3_conn_def flight_capi flight_capi_def)
  have d: "ch_flow_ring_list (plci data_capi 1) = 0" "nl_global_req (plci data_capi 1) = 0" "req_in (plci data_capi 1) = 0"
    "req_out (plci data_capi 1) = 0" "\<not> flow_control_skip data_capi 5"
    by (simp_all add: data_capi_def idle_plci_def)
  show ?thesis
    unfolding line_quiet_def Let_def c using conn data_capi d
    by (simp add: flight_capi may_send_def m) (simp add: flight_capi_def)
qed

lemma flight_data: "in_flight 1 3 flight_capi data_desc"
proof -
  have "data_request (plci data_capi 1) data_desc = (0x18, TxBuffer 2 100)"
    by (simp add: data_request_def is_V120_def data_req_code_def data_capi del: One_nat_def)
  then have "fst (data_request (plci flight_capi 1) data_desc) = 0x18"
    using data_request_cong [of "plci flight_capi 1" "plci data_capi 1" data_desc] by (simp add: flight_capi(5) del: One_nat_def)
  then show ?thesis by (simp add: in_flight_def flight_capi del: One_nat_def)
qed

theorem disconnect_after_data_witness:
  "\<exists>w s'. disconnect_b3_req 0x30101 9 1 1 0 0 (\<lambda>_. 0) (cap flight_api) = Some (False, w) \<and>
     answers example_env 1 1 (set_cap w flight_api) = Some s' \<and>
     events (cap s') = [Sendf 1 0x8186 0x30101 77 [9, 0], NL_request 33 N_DISC 5 (Bytes [])]"
proof -
  have c: "cap flight_api = flight_capi" by (simp add: flight_api_def)
  have n: "3 = id_ncci 0x30101" by (simp add: id_ncci_def)
  have q: "b3_list (ncci flight_capi 3) = data_desc # []" by (simp add: flight_capi data_capi)
  have t: "defers_disconnect (plci flight_capi 1)" by (simp add: defers_disconnect_def flight_capi(7) del: One_nat_def)
  have i: "msg_id flight_capi 1 3 = 0x30101" "pl_appl (plci flight_capi 1) = 1"
    by (simp_all add: msg_id_def flight_capi_def data_capi_def upd_plci_def idle_plci_def push_bit_eq_mult)
  have e: "send_trace flight_capi 1 3 [data_desc] = [Sendf 1 0x8186 0x30101 77 [9, 0]]"
    "disc_event flight_capi 1 3 = NL_request 33 N_DISC 5 (Bytes [])"
    by (simp_all add: data_confs_def b3_conf_def i disc_event_def flight_capi(3,6,7) bit_simps del: One_nat_def)
  have "in_flight 1 3 (cap flight_api) data_desc" "b3_list (ncci (cap flight_api) 3) = data_desc # []"
    "ncci_state (cap flight_api) 3 = CONNECTED" "defers_disconnect (plci (cap flight_api) 1)" "(3 :: nat) \<le> MAX_NCCI"
    unfolding c by (rule flight_data q flight_capi(2) t)+ simp
  from disconnect_after_data [OF flight_quiet this(1-4) n this(5), of 9 1 0 0 "\<lambda>_. 0" example_env, unfolded c e flight_capi(4)]
  show ?thesis unfolding c by auto
qed

theorem flow_control_blocks_witness:
  "\<exists>v. nl_rc_flow True 1 OK_FC 5 idle_capi = Some (False, v) \<and> nl_req (plci v 1) = 0 \<and> ch_flow_plci v 5 = 1 \<and>
     (\<forall>n. fc_blocked v n \<longleftrightarrow> ncci_ch idle_capi n = 5 \<or> fc_blocked idle_capi n)"
proof -
  have "pl_Id (plci idle_capi 1) = 1" by simp
  from flow_control_blocks [OF idle_flow_inv _ this, of 5 True] show ?thesis by auto
qed

end
