(* ===== verification/CapiMask.thy ===== *)
theory CapiMask
  imports CBase
begin

text \<open>
  The applications an incoming call is offered to, in \<open>kernel/message.c\<close>: a bit table per
  PLCI (\<open>c_ind_mask_table\<close>), the functions that take applications out of it, and
  \<open>group_optimization\<close>, which offers a call only to the least busy application of each group
  with the same settings. PLCIs are numbered from 1, applications are indices into the table
  \<open>application\<close>; the application of a PLCI is its index plus 1, 0 is the null pointer. The
  resource reservation that follows each change is not part of this model.
\<close>

abbreviation (input) APPL_MASK_DWORDS :: nat where "APPL_MASK_DWORDS \<equiv> 8"
abbreviation (input) INC_CON_PENDING :: nat where "INC_CON_PENDING \<equiv> 2"
abbreviation (input) INC_CON_ALERT :: nat where "INC_CON_ALERT \<equiv> 3"
abbreviation (input) OTHER_APPL_CONNECTED :: nat where "OTHER_APPL_CONNECTED \<equiv> 0x3304"

type_synonym appl_mask = "nat \<Rightarrow> dword"

record call_plci =
  cp_State :: nat
  cp_appl :: nat
  c_ind_mask_table :: appl_mask

record call_appl =
  MaxNCCI :: nat
  MaxNCCIData :: nat
  MaxDataLength :: nat

record calls =
  call_plcis :: "nat \<Rightarrow> call_plci"
  max_plci :: nat
  max_appl :: nat
  application :: "nat \<Rightarrow> call_appl"
  CIP_Mask :: "nat \<Rightarrow> nat"
  Info_Mask :: "nat \<Rightarrow> nat"
  group_opt :: nat
  disc_ind :: "(nat \<times> nat \<times> nat) list"

section \<open>Bit tables\<close>

definition clear_appl_mask :: "appl_mask \<Rightarrow> appl_mask" where
  "clear_appl_mask m = fold (\<lambda>i m. m(i := 0)) [0..<APPL_MASK_DWORDS] m"

definition appl_mask_empty :: "appl_mask \<Rightarrow> bool" where
  "appl_mask_empty m \<longleftrightarrow> scan_up (\<lambda>i. m i \<noteq> 0) APPL_MASK_DWORDS 0 = APPL_MASK_DWORDS"

definition set_appl_mask_bit :: "appl_mask \<Rightarrow> nat \<Rightarrow> appl_mask" where
  "set_appl_mask_bit m b = m(b div 32 := m (b div 32) OR push_bit (b mod 32) 1)"

definition clear_appl_mask_bit :: "appl_mask \<Rightarrow> nat \<Rightarrow> appl_mask" where
  "clear_appl_mask_bit m b = m(b div 32 := m (b div 32) AND NOT (push_bit (b mod 32) 1))"

definition test_appl_mask_bit :: "appl_mask \<Rightarrow> nat \<Rightarrow> bool" where
  "test_appl_mask_bit m b \<longleftrightarrow> m (b div 32) AND push_bit (b mod 32) 1 \<noteq> 0"

lemma test_appl_mask_bit_iff: "test_appl_mask_bit m b \<longleftrightarrow> bit (m (b div 32)) (b mod 32)"
  by (simp add: test_appl_mask_bit_def and_exp_eq_0_iff_not_bit)

lemma div_mod_eq: "b div 32 = k div 32 \<Longrightarrow> b mod 32 = k mod 32 \<Longrightarrow> b = (k :: nat)"
  by (metis div_mult_mod_eq)

lemma test_clear [simp]: "test_appl_mask_bit (clear_appl_mask_bit m b) k \<longleftrightarrow> test_appl_mask_bit m k \<and> k \<noteq> b"
  using div_mod_eq [of b k] by (auto simp: test_appl_mask_bit_iff clear_appl_mask_bit_def bit_simps)

lemma test_set [simp]: "test_appl_mask_bit (set_appl_mask_bit m b) k \<longleftrightarrow> test_appl_mask_bit m k \<or> k = b"
  using div_mod_eq [of b k] by (auto simp: test_appl_mask_bit_iff set_appl_mask_bit_def bit_simps)

lemma clear_appl_mask_at: "clear_appl_mask m = (\<lambda>i. if i < APPL_MASK_DWORDS then 0 else m i)"
  by (rule ext) (auto simp: clear_appl_mask_def upt_rec)

lemma test_clear_all [simp]: "k < 256 \<Longrightarrow> \<not> test_appl_mask_bit (clear_appl_mask m) k"
  by (simp add: clear_appl_mask_at test_appl_mask_bit_iff div_less_iff_less_mult)

lemma appl_mask_empty_iff: "appl_mask_empty m \<longleftrightarrow> (\<forall>k < 256. \<not> test_appl_mask_bit m k)"
proof -
  let ?s = "scan_up (\<lambda>i. m i \<noteq> 0) 8 0"
  have s: "?s \<le> 8" "?s < 8 \<Longrightarrow> m ?s \<noteq> 0" "\<And>j. j < ?s \<Longrightarrow> m j = 0"
  proof -
    show "?s \<le> 8" by (rule scan_up_props(2)) simp
    show "?s < 8 \<Longrightarrow> m ?s \<noteq> 0" using scan_up_props(4) [of "\<lambda>i. m i \<noteq> 0" 8 0] .
    show "\<And>j. j < ?s \<Longrightarrow> m j = 0" using scan_up_props(3) [of 0 _ "\<lambda>i. m i \<noteq> 0" 8] by blast
  qed
  have "appl_mask_empty m \<longleftrightarrow> (\<forall>i < 8. m i = 0)"
    unfolding appl_mask_empty_def
  proof
    assume "?s = 8"
    with s(3) show "\<forall>i < 8. m i = 0" by simp
  next
    assume "\<forall>i < 8. m i = 0"
    with s(2) have "\<not> ?s < 8" by blast
    with s(1) show "?s = 8" by simp
  qed
  also have "\<dots> \<longleftrightarrow> (\<forall>k < 256. \<not> test_appl_mask_bit m k)"
  proof
    assume z: "\<forall>i < 8. m i = 0"
    then show "\<forall>k < 256. \<not> test_appl_mask_bit m k"
      by (auto simp: test_appl_mask_bit_iff div_less_iff_less_mult)
  next
    assume z: "\<forall>k < 256. \<not> test_appl_mask_bit m k"
    show "\<forall>i < 8. m i = 0"
    proof (intro allI impI bit_eqI)
      fix i n assume "i < (8 :: nat)" and n: "possible_bit TYPE(dword) n"
      then have "\<not> test_appl_mask_bit m (32 * i + n)" using z by (simp add: possible_bit_def)
      then show "bit (m i) n = bit 0 n" using n by (simp add: test_appl_mask_bit_iff possible_bit_def)
    qed
  qed
  finally show ?thesis .
qed

section \<open>Taking applications out of a call\<close>

definition upd_call :: "nat \<Rightarrow> (call_plci \<Rightarrow> call_plci) \<Rightarrow> calls \<Rightarrow> calls" where
  "upd_call p f w = w\<lparr>call_plcis := (call_plcis w)(p := f (call_plcis w p))\<rparr>"

definition clear_c_ind_mask_bit :: "nat \<Rightarrow> nat \<Rightarrow> calls \<Rightarrow> calls" where
  "clear_c_ind_mask_bit p b = upd_call p (\<lambda>P. P\<lparr>c_ind_mask_table := clear_appl_mask_bit (c_ind_mask_table P) b\<rparr>)"

definition set_c_ind_mask_bit :: "nat \<Rightarrow> nat \<Rightarrow> calls \<Rightarrow> calls" where
  "set_c_ind_mask_bit p b = upd_call p (\<lambda>P. P\<lparr>c_ind_mask_table := set_appl_mask_bit (c_ind_mask_table P) b\<rparr>)"

definition test_c_ind_mask_bit :: "calls \<Rightarrow> nat \<Rightarrow> nat \<Rightarrow> bool" where
  "test_c_ind_mask_bit w p b \<longleftrightarrow> test_appl_mask_bit (c_ind_mask_table (call_plcis w p)) b"

definition disc_others :: "nat \<Rightarrow> nat \<Rightarrow> calls \<Rightarrow> calls" where
  "disc_others p reason w =
     foldl (\<lambda>w i. if test_c_ind_mask_bit w p i then w\<lparr>disc_ind := disc_ind w @ [(i, p, reason)]\<rparr> else w) w [0..<max_appl w]"

definition clear_incoming_call :: "nat \<Rightarrow> bool \<Rightarrow> nat \<Rightarrow> calls \<Rightarrow> calls" where
  "clear_incoming_call p others reason w = (if others then disc_others p reason w else w)"

definition assign_incoming_call :: "nat \<Rightarrow> nat \<Rightarrow> bool \<Rightarrow> calls \<Rightarrow> calls" where
  "assign_incoming_call p i others w =
     (let w1 = clear_c_ind_mask_bit p i (upd_call p (\<lambda>P. P\<lparr>cp_appl := i + 1\<rparr>) w)
      in if others then disc_others p OTHER_APPL_CONNECTED w1 else w1)"

definition ignore_incoming_call :: "nat \<Rightarrow> nat \<Rightarrow> calls \<Rightarrow> calls" where
  "ignore_incoming_call p i w = clear_c_ind_mask_bit p i w"

section \<open>Counting busy applications\<close>

text \<open>The inner \<open>do\<close> loop over the bits of one word of the table.\<close>

function count_word :: "appl_mask \<Rightarrow> nat \<Rightarrow> nat \<Rightarrow> (nat \<Rightarrow> nat) \<Rightarrow> nat \<times> (nat \<Rightarrow> nat)" where
  "count_word m mx j busy =
     (let b = (if test_appl_mask_bit m j then busy(j := busy j + 1) else busy)
      in if j + 1 < mx \<and> (j + 1) mod 32 \<noteq> 0 then count_word m mx (j + 1) b else (j + 1, b))"
  by pat_completeness auto

termination
  by (relation "measure (\<lambda>(m, mx, j, busy). mx - j)") auto

declare count_word.simps [simp del]

lemma count_word_gt: "j < fst (count_word m mx j busy)"
proof (induction m mx j busy rule: count_word.induct)
  case (1 m mx j busy)
  then show ?case by (subst count_word.simps) (force simp: Let_def)
qed

function count_mask :: "appl_mask \<Rightarrow> nat \<Rightarrow> nat \<Rightarrow> (nat \<Rightarrow> nat) \<Rightarrow> (nat \<Rightarrow> nat)" where
  "count_mask m mx j busy =
     (if j < mx then
        if m (j div 32) = 0 then count_mask m mx (j + 32) busy
        else count_mask m mx (fst (count_word m mx j busy)) (snd (count_word m mx j busy))
      else busy)"
  by pat_completeness auto

termination
proof (relation "measure (\<lambda>(m, mx, j, busy). mx - j)")
  fix m :: appl_mask and mx j :: nat and busy :: "nat \<Rightarrow> nat"
  assume "j < mx"
  then show "((m, mx, fst (count_word m mx j busy), snd (count_word m mx j busy)), m, mx, j, busy)
      \<in> measure (\<lambda>(m, mx, j, busy). mx - j)"
    using count_word_gt [of j m mx busy] by (cases "count_word m mx j busy") auto
qed auto

declare count_mask.simps [simp del]

definition count_plci :: "nat \<Rightarrow> calls \<Rightarrow> (nat \<Rightarrow> nat) \<Rightarrow> nat \<Rightarrow> (nat \<Rightarrow> nat)" where
  "count_plci p w busy t =
     (let T = call_plcis w t
      in if t \<noteq> p then
           if cp_State T = INC_CON_PENDING \<or> cp_State T = INC_CON_ALERT
           then count_mask (c_ind_mask_table T) (max_appl w) 0 busy
           else if cp_State T \<noteq> 0 \<and> cp_appl T \<noteq> 0 then busy(cp_appl T - 1 := busy (cp_appl T - 1) + 1)
           else busy
         else busy)"

definition appl_busy_plcis :: "nat \<Rightarrow> calls \<Rightarrow> nat \<Rightarrow> nat" where
  "appl_busy_plcis p w = foldl (count_plci p w) (\<lambda>_. 0) [1..<max_plci w + 1]"

section \<open>group_optimization\<close>

definition same_group :: "calls \<Rightarrow> nat \<Rightarrow> nat \<Rightarrow> bool" where
  "same_group w a j \<longleftrightarrow> CIP_Mask w j = CIP_Mask w a \<and> Info_Mask w j = Info_Mask w a \<and>
     MaxNCCI (application w j) = MaxNCCI (application w a) \<and>
     MaxNCCIData (application w j) = MaxNCCIData (application w a) \<and>
     MaxDataLength (application w j) = MaxDataLength (application w a)"

definition find_least :: "(nat \<Rightarrow> nat) \<Rightarrow> (nat \<Rightarrow> bool) \<Rightarrow> nat \<times> nat \<times> nat \<Rightarrow> nat \<Rightarrow> nat \<times> nat \<times> nat" where
  "find_least busy P s j =
     (case s of (i, la, lb) \<Rightarrow> if P j then if busy j < lb then (i + 1, j, busy j) else (i + 1, la, lb) else s)"

definition clear_member :: "calls \<Rightarrow> nat \<Rightarrow> nat \<times> nat \<times> nat \<Rightarrow> appl_mask \<times> appl_mask \<Rightarrow> nat \<Rightarrow> appl_mask \<times> appl_mask" where
  "clear_member w app l s j =
     (case s of (next, cm) \<Rightarrow> case l of (i, la, lb) \<Rightarrow>
        if test_appl_mask_bit next j \<and> same_group w app j then
          (clear_appl_mask_bit next j,
           if (i > 1 \<or> bit (group_opt w) 2) \<and>
              (j \<noteq> la \<or> lb \<ge> MaxNCCI (application w app) \<or> (lb \<noteq> 0 \<and> group_opt w AND 3 = 2))
           then clear_appl_mask_bit cm j else cm)
        else s)"

definition group_enabled :: "calls \<Rightarrow> nat \<Rightarrow> bool" where
  "group_enabled w app \<longleftrightarrow> MaxNCCI (application w app) = 1 \<or> group_opt w AND 3 \<noteq> 1"

definition group_step :: "calls \<Rightarrow> (nat \<Rightarrow> nat) \<Rightarrow> appl_mask \<times> appl_mask \<Rightarrow> nat \<Rightarrow> appl_mask \<times> appl_mask" where
  "group_step w busy s app =
     (if test_appl_mask_bit (fst s) app \<and> group_enabled w app then
        let l = foldl (find_least busy (\<lambda>j. test_appl_mask_bit (fst s) j \<and> same_group w app j)) (0, app, busy app) [app..<max_appl w]
        in foldl (clear_member w app l) s [app..<max_appl w]
      else s)"

definition group_optimization :: "nat \<Rightarrow> calls \<Rightarrow> calls" where
  "group_optimization p w =
     (let m = c_ind_mask_table (call_plcis w p);
          (next, cm) = foldl (group_step w (appl_busy_plcis p w)) (m, m) [0..<max_appl w]
      in upd_call p (\<lambda>P. P\<lparr>c_ind_mask_table := cm\<rparr>) w)"

section \<open>Counting, specified\<close>

definition count_range :: "appl_mask \<Rightarrow> nat \<Rightarrow> nat \<Rightarrow> (nat \<Rightarrow> nat) \<Rightarrow> (nat \<Rightarrow> nat)" where
  "count_range m a e busy = (\<lambda>k. busy k + (if a \<le> k \<and> k < e \<and> test_appl_mask_bit m k then 1 else 0))"

lemma count_range_append: "a \<le> b \<Longrightarrow> b \<le> e \<Longrightarrow> count_range m b e (count_range m a b busy) = count_range m a e busy"
  by (auto simp: count_range_def fun_eq_iff)

lemma count_range_none: "(\<And>k. a \<le> k \<Longrightarrow> k < e \<Longrightarrow> \<not> test_appl_mask_bit m k) \<Longrightarrow> count_range m a e busy = busy"
  by (auto simp: count_range_def fun_eq_iff)

lemma count_range_1: "count_range m j (j + 1) busy = (if test_appl_mask_bit m j then busy(j := busy j + 1) else busy)"
  by (auto simp: count_range_def fun_eq_iff less_Suc_eq_le)

lemma count_word_range:
  assumes "j < mx"
  shows "\<exists>e. count_word m mx j busy = (e, count_range m j e busy) \<and> j < e \<and> e \<le> mx \<and> (e mod 32 = 0 \<or> e = mx)"
  using assms
proof (induction m mx j busy rule: count_word.induct)
  case (1 m mx j busy)
  let ?b = "count_range m j (j + 1) busy"
  have u: "count_word m mx j busy = (if j + 1 < mx \<and> (j + 1) mod 32 \<noteq> 0 then count_word m mx (j + 1) ?b else (j + 1, ?b))"
    unfolding count_range_1 by (subst count_word.simps) (simp only: Let_def)
  show ?case
  proof (cases "j + 1 < mx \<and> (j + 1) mod 32 \<noteq> 0")
    case True
    then obtain e where e: "count_word m mx (j + 1) ?b = (e, count_range m (j + 1) e ?b)" "j + 1 < e" "e \<le> mx" "e mod 32 = 0 \<or> e = mx"
      using "1.IH" [of ?b] count_range_1 by auto
    then show ?thesis using u True count_range_append [of j "j + 1" e m busy] by (intro exI [of _ e]) auto
  next
    case False
    then show ?thesis using u "1.prems" by (intro exI [of _ "j + 1"]) auto
  qed
qed

lemma count_mask_range:
  "j mod 32 = 0 \<or> mx \<le> j \<Longrightarrow> count_mask m mx j busy = (if j \<le> mx then count_range m j mx busy else busy)"
proof (induction m mx j busy rule: count_mask.induct)
  case (1 m mx j busy)
  show ?case
  proof (cases "j < mx")
    case False
    then show ?thesis by (subst count_mask.simps) (auto intro: count_range_none [symmetric])
  next
    case j: True
    then have j32: "j mod 32 = 0" using "1.prems" by simp
    show ?thesis
    proof (cases "m (j div 32) = 0")
      case True
      have z: "\<not> test_appl_mask_bit m k" if "j \<le> k" "k < j + 32" for k
      proof -
        obtain i where i: "j = 32 * i" using j32 by (auto simp: mod_eq_0_iff_dvd elim!: dvdE)
        then have "k div 32 = i" using that by (simp add: div_nat_eqI)
        then show ?thesis using True i by (simp add: test_appl_mask_bit_iff)
      qed
      have "count_mask m mx j busy = count_mask m mx (j + 32) busy" using j True by (subst count_mask.simps) simp
      also have "\<dots> = (if j + 32 \<le> mx then count_range m (j + 32) mx busy else busy)"
        using "1.IH"(1) [OF j True] j32 by simp
      also have "\<dots> = count_range m j mx busy"
      proof (cases "j + 32 \<le> mx")
        case True
        then show ?thesis using count_range_append [of j "j + 32" mx m busy] count_range_none [of j "j + 32" m busy, OF z] by simp
      next
        case False
        then show ?thesis using count_range_none [of j mx m busy, OF z] by simp
      qed
      finally show ?thesis using j by simp
    next
      case False
      obtain e where e: "count_word m mx j busy = (e, count_range m j e busy)" "j < e" "e \<le> mx" "e mod 32 = 0 \<or> e = mx"
        using count_word_range [OF j, of m busy] that by (elim exE conjE)
      have "count_mask m mx j busy = count_mask m mx e (count_range m j e busy)"
        using j False e(1) by (subst count_mask.simps) simp
      also have "\<dots> = count_range m e mx (count_range m j e busy)" 
      proof -
        have "e mod 32 = 0 \<or> mx \<le> e" using e(4) by blast
        from "1.IH"(2) [OF j False, unfolded e(1) fst_conv snd_conv, OF this] show ?thesis unfolding if_P [OF e(3)] .
      qed
      finally show ?thesis using count_range_append [of j e mx m busy] e j by simp
    qed
  qed
qed

text \<open>The busy count of an application is the number of other PLCIs that offer it a call or
  belong to it.\<close>

definition uses_appl :: "calls \<Rightarrow> nat \<Rightarrow> nat \<Rightarrow> bool" where
  "uses_appl w t k \<longleftrightarrow>
     (if cp_State (call_plcis w t) \<in> {INC_CON_PENDING, INC_CON_ALERT} then k < max_appl w \<and> test_c_ind_mask_bit w t k
      else cp_State (call_plcis w t) \<noteq> 0 \<and> cp_appl (call_plcis w t) = k + 1)"

lemma count_plci_eq: "count_plci p w busy t k = busy k + (if t \<noteq> p \<and> uses_appl w t k then 1 else 0)"
  by (auto simp: count_plci_def Let_def count_mask_range count_range_def uses_appl_def test_c_ind_mask_bit_def)

lemma appl_busy_count: "appl_busy_plcis p w k = card {t. 1 \<le> t \<and> t \<le> max_plci w \<and> t \<noteq> p \<and> uses_appl w t k}"
proof -
  have "foldl (count_plci p w) (\<lambda>_. 0) [1..<n + 1] k = card {t. 1 \<le> t \<and> t \<le> n \<and> t \<noteq> p \<and> uses_appl w t k}" for n
  proof (induction n)
    case (Suc n)
    let ?S = "\<lambda>n. {t. 1 \<le> t \<and> t \<le> n \<and> t \<noteq> p \<and> uses_appl w t k}"
    have fin: "finite (?S n)" by (rule finite_subset [of _ "{..n}"]) auto
    have "?S (Suc n) = (if Suc n \<noteq> p \<and> uses_appl w (Suc n) k then insert (Suc n) (?S n) else ?S n)"
      by (auto simp: le_Suc_eq)
    moreover have "card (insert (Suc n) (?S n)) = card (?S n) + 1" using fin by (subst card_insert_disjoint) auto
    moreover have "[1..<Suc n + 1] = [1..<n + 1] @ [Suc n]" by simp
    ultimately show ?case using Suc by (simp add: count_plci_eq del: upt_Suc)
  qed simp
  then show ?thesis by (simp add: appl_busy_plcis_def)
qed

section \<open>One group at a time\<close>

definition members :: "calls \<Rightarrow> appl_mask \<Rightarrow> nat \<Rightarrow> nat list" where
  "members w m a = [j \<leftarrow> [a..<max_appl w]. test_appl_mask_bit m j \<and> same_group w a j]"

definition least_of :: "(nat \<Rightarrow> nat) \<Rightarrow> nat \<times> nat \<Rightarrow> nat \<Rightarrow> nat \<times> nat" where
  "least_of busy s j = (if busy j < snd s then (j, busy j) else s)"

lemma find_least_filter:
  "foldl (find_least busy P) (i, s) xs = (i + length (filter P xs), foldl (least_of busy) s (filter P xs))"
  by (induction xs arbitrary: i s) (auto simp: find_least_def least_of_def split: prod.splits)

lemma least_of_props:
  assumes "snd s = busy (fst s)"
  shows "let r = foldl (least_of busy) s xs in
    snd r = busy (fst r) \<and> fst r \<in> insert (fst s) (set xs) \<and> snd r \<le> snd s \<and> (\<forall>j \<in> set xs. snd r \<le> busy j)"
  using assms
proof (induction xs arbitrary: s)
  case (Cons x xs)
  let ?s = "least_of busy s x"
  have s: "snd ?s = busy (fst ?s)" "fst ?s \<in> {fst s, x}" "snd ?s \<le> snd s" "snd ?s \<le> busy x"
    using Cons.prems by (auto simp: least_of_def)
  from Cons.IH [OF s(1)] s show ?case by (auto simp: Let_def)
qed (simp add: Let_def)

text \<open>Whether member \<open>j\<close> of the group of \<open>a\<close> is taken out.\<close>

definition dropped :: "calls \<Rightarrow> nat \<Rightarrow> nat \<times> nat \<times> nat \<Rightarrow> nat \<Rightarrow> bool" where
  "dropped w a l j \<longleftrightarrow> (case l of (i, la, lb) \<Rightarrow> (i > 1 \<or> bit (group_opt w) 2) \<and>
     (j \<noteq> la \<or> lb \<ge> MaxNCCI (application w a) \<or> (lb \<noteq> 0 \<and> group_opt w AND 3 = 2)))"

lemma clear_member_eq:
  "clear_member w a l (next, cm) j =
     (if test_appl_mask_bit next j \<and> same_group w a j
      then (clear_appl_mask_bit next j, if dropped w a l j then clear_appl_mask_bit cm j else cm) else (next, cm))"
  by (cases l) (simp add: clear_member_def dropped_def)

lemma clear_member_fold:
  assumes "distinct xs"
  shows "(test_appl_mask_bit (fst (foldl (clear_member w a l) (nm, cm) xs)) k \<longleftrightarrow>
      test_appl_mask_bit nm k \<and> \<not> (k \<in> set xs \<and> same_group w a k)) \<and>
    (test_appl_mask_bit (snd (foldl (clear_member w a l) (nm, cm) xs)) k \<longleftrightarrow>
      test_appl_mask_bit cm k \<and> \<not> (k \<in> set xs \<and> test_appl_mask_bit nm k \<and> same_group w a k \<and> dropped w a l k))"
  using assms
proof (induction xs arbitrary: nm cm)
  case (Cons x xs)
  obtain n' c' where s: "clear_member w a l (nm, cm) x = (n', c')" by (cases "clear_member w a l (nm, cm) x")
  have t: "test_appl_mask_bit n' k \<longleftrightarrow> test_appl_mask_bit nm k \<and> \<not> (k = x \<and> same_group w a k)"
    "test_appl_mask_bit c' k \<longleftrightarrow> test_appl_mask_bit cm k \<and> \<not> (k = x \<and> test_appl_mask_bit nm k \<and> same_group w a k \<and> dropped w a l k)" for k
    using s by (cases "test_appl_mask_bit nm x \<and> same_group w a x"; cases "dropped w a l x"; auto simp: clear_member_eq)+
  have d: "distinct xs" "x \<notin> set xs" using Cons.prems by simp_all
  note IH = Cons.IH [OF d(1), of n' c', unfolded t]
  show ?case unfolding foldl_Cons s using IH [THEN conjunct1] IH [THEN conjunct2] d(2)
    by (simp only:) auto
qed simp

text \<open>The result for one application: its group is decided by the first member.\<close>

definition group_result :: "calls \<Rightarrow> (nat \<Rightarrow> nat) \<Rightarrow> appl_mask \<Rightarrow> nat \<Rightarrow> nat \<times> nat \<times> nat" where
  "group_result w busy m a =
     (length (members w m a), foldl (least_of busy) (a, busy a) (members w m a))"

lemma group_step_test:
  assumes "a < max_appl w"
  shows "test_appl_mask_bit (fst (group_step w busy s a)) k \<longleftrightarrow>
      test_appl_mask_bit (fst s) k \<and>
      \<not> (test_appl_mask_bit (fst s) a \<and> group_enabled w a \<and> a \<le> k \<and> k < max_appl w \<and> same_group w a k)"
    "test_appl_mask_bit (snd (group_step w busy s a)) k \<longleftrightarrow>
      test_appl_mask_bit (snd s) k \<and>
      \<not> (test_appl_mask_bit (fst s) a \<and> group_enabled w a \<and> a \<le> k \<and> k < max_appl w \<and> test_appl_mask_bit (fst s) k \<and>
         same_group w a k \<and> dropped w a (group_result w busy (fst s) a) k)"
proof -
  have l: "foldl (find_least busy (\<lambda>j. test_appl_mask_bit (fst s) j \<and> same_group w a j)) (0, a, busy a) [a..<max_appl w]
      = group_result w busy (fst s) a"
    by (simp add: find_least_filter group_result_def members_def)
  note clear_member_fold [of "[a..<max_appl w]" w a "group_result w busy (fst s) a" "fst s" "snd s" k,
      unfolded prod.collapse, OF distinct_upt, unfolded set_upt]
  note c = this [THEN conjunct1] this [THEN conjunct2]
  have "group_step w busy s a = (if test_appl_mask_bit (fst s) a \<and> group_enabled w a
      then foldl (clear_member w a (group_result w busy (fst s) a)) s [a..<max_appl w] else s)"
    unfolding group_step_def l Let_def ..
  note g = this
  show "test_appl_mask_bit (fst (group_step w busy s a)) k \<longleftrightarrow>
      test_appl_mask_bit (fst s) k \<and>
      \<not> (test_appl_mask_bit (fst s) a \<and> group_enabled w a \<and> a \<le> k \<and> k < max_appl w \<and> same_group w a k)"
  proof (cases "test_appl_mask_bit (fst s) a \<and> group_enabled w a")
    case True
    then show ?thesis unfolding g if_P [OF True] c(1) by auto
  next
    case False
    then show ?thesis unfolding g if_not_P [OF False] by auto
  qed
  show "test_appl_mask_bit (snd (group_step w busy s a)) k \<longleftrightarrow>
      test_appl_mask_bit (snd s) k \<and>
      \<not> (test_appl_mask_bit (fst s) a \<and> group_enabled w a \<and> a \<le> k \<and> k < max_appl w \<and> test_appl_mask_bit (fst s) k \<and>
         same_group w a k \<and> dropped w a (group_result w busy (fst s) a) k)"
  proof (cases "test_appl_mask_bit (fst s) a \<and> group_enabled w a")
    case True
    then show ?thesis unfolding g if_P [OF True] c(2) by auto
  next
    case False
    then show ?thesis unfolding g if_not_P [OF False] by auto
  qed
qed

lemma same_group_equiv:
  "same_group w a a" "same_group w a b \<Longrightarrow> same_group w b a" "same_group w a b \<Longrightarrow> same_group w b c \<Longrightarrow> same_group w a c"
  "same_group w a b \<Longrightarrow> group_enabled w a = group_enabled w b"
  by (auto simp: same_group_def group_enabled_def)

definition first_of :: "calls \<Rightarrow> appl_mask \<Rightarrow> nat \<Rightarrow> bool" where
  "first_of w m a \<longleftrightarrow> test_appl_mask_bit m a \<and> (\<forall>b < a. test_appl_mask_bit m b \<longrightarrow> \<not> same_group w b a)"

lemma first_of_ex:
  assumes "test_appl_mask_bit m k"
  obtains a where "first_of w m a" "a \<le> k" "same_group w a k"
proof -
  let ?P = "\<lambda>a. test_appl_mask_bit m a \<and> same_group w a k"
  have k: "?P k" using assms same_group_equiv(1) by blast
  define a where "a = (LEAST a. ?P a)"
  have a: "?P a" unfolding a_def by (rule LeastI [of ?P, OF k])
  have le: "b < a \<Longrightarrow> \<not> ?P b" for b unfolding a_def by (rule not_less_Least)
  have "first_of w m a" using a le same_group_equiv(3) unfolding first_of_def by blast
  moreover have "a \<le> k" using le k by (meson not_less)
  ultimately show ?thesis using a that by blast
qed

lemma group_fold_next:
  assumes "n \<le> max_appl w"
  shows "test_appl_mask_bit (fst (foldl (group_step w busy) (m, m) [0..<n])) k \<longleftrightarrow>
     test_appl_mask_bit m k \<and>
     \<not> (\<exists>a < n. test_appl_mask_bit m a \<and> group_enabled w a \<and> a \<le> k \<and> k < max_appl w \<and> same_group w a k)"
  using assms
proof (induction n arbitrary: k)
  case (Suc n)
  let ?s = "foldl (group_step w busy) (m, m) [0..<n]"
  have n: "n < max_appl w" using Suc.prems by simp
  have step: "foldl (group_step w busy) (m, m) [0..<Suc n] = group_step w busy ?s n" by simp
  note IH = Suc.IH [OF order_less_imp_le [OF n]]
  have same: "\<exists>a < n. test_appl_mask_bit m a \<and> group_enabled w a \<and> a \<le> k \<and> k < max_appl w \<and> same_group w a k"
    if "test_appl_mask_bit m n" "\<not> test_appl_mask_bit (fst ?s) n" "n \<le> k" "k < max_appl w" "same_group w n k"
    using that IH [of n] same_group_equiv(3) [of w _ n k] by (meson le_trans)
  show ?case
    unfolding step group_step_test(1) [OF n] using IH [of k] IH [of n] same by (auto simp: less_Suc_eq)
qed simp

lemma group_fold_mask:
  assumes "n \<le> max_appl w" "first_of w m a" "a \<le> k" "k < max_appl w" "same_group w a k" "test_appl_mask_bit m k"
  shows "test_appl_mask_bit (snd (foldl (group_step w busy) (m, m) [0..<n])) k \<longleftrightarrow>
     \<not> (a < n \<and> group_enabled w a \<and> dropped w a (group_result w busy m a) k)"
  using assms(1)
proof (induction n)
  case 0
  then show ?case using assms(6) by simp
next
  case (Suc n)
  let ?s = "foldl (group_step w busy) (m, m) [0..<n]"
  have n: "n < max_appl w" using Suc.prems by simp
  have step: "foldl (group_step w busy) (m, m) [0..<Suc n] = group_step w busy ?s n" by simp
  note nx = group_fold_next [OF order_less_imp_le [OF n], of busy m]
  note IH = Suc.IH [OF order_less_imp_le [OF n]]
  have fa: "test_appl_mask_bit m a" "\<And>b. b < a \<Longrightarrow> test_appl_mask_bit m b \<Longrightarrow> \<not> same_group w b a"
    using assms(2) by (auto simp: first_of_def)
  show ?case
  proof (cases "n = a")
    case True
    have open_group: "test_appl_mask_bit (fst ?s) j \<longleftrightarrow> test_appl_mask_bit m j" if "same_group w a j" for j
    proof -
      have "\<not> same_group w b j" if "b < n" "test_appl_mask_bit m b" for b
        using fa(2) [of b] that True \<open>same_group w a j\<close> same_group_equiv(2,3) by blast
      then show ?thesis unfolding nx by blast
    qed
    have "members w (fst ?s) a = members w m a"
      unfolding members_def using open_group by (intro filter_cong) auto
    then have g: "group_result w busy (fst ?s) n = group_result w busy m a" by (simp add: group_result_def True)
    have "test_appl_mask_bit (fst ?s) n" "test_appl_mask_bit (fst ?s) k"
      using open_group [of a] open_group [of k] same_group_equiv(1) fa(1) assms(5,6) True by simp_all
    moreover have "n \<le> k" "same_group w n k" "\<not> a < n" "a < Suc n" using assms(3,5) True by simp_all
    ultimately show ?thesis unfolding step group_step_test(2) [OF n] g IH using assms(4) True by blast
  next
    case False
    have "\<not> (test_appl_mask_bit (fst ?s) n \<and> group_enabled w n \<and> n \<le> k \<and> same_group w n k)"
    proof
      assume a: "test_appl_mask_bit (fst ?s) n \<and> group_enabled w n \<and> n \<le> k \<and> same_group w n k"
      then have t: "test_appl_mask_bit m n" unfolding nx by blast
      have na: "same_group w n a" "same_group w a n" using a assms(5) same_group_equiv(2,3) by blast+
      then have "\<not> n < a" using fa(2) [of n] t by blast
      then have "a < n" using False by simp
      moreover have "group_enabled w a" using a same_group_equiv(4) [OF na(1)] by simp
      ultimately have "\<exists>b < n. test_appl_mask_bit m b \<and> group_enabled w b \<and> b \<le> n \<and> n < max_appl w \<and> same_group w b n"
        using fa(1) na(2) n by (intro exI [of _ a]) simp
      then have "\<not> test_appl_mask_bit (fst ?s) n" unfolding nx by blast
      then show False using a by blast
    qed
    moreover have "a < Suc n \<longleftrightarrow> a < n" using False by auto
    ultimately show ?thesis unfolding step group_step_test(2) [OF n] IH by blast
  qed
qed

lemma group_fold_other:
  assumes "n \<le> max_appl w" "max_appl w \<le> k"
  shows "test_appl_mask_bit (snd (foldl (group_step w busy) (m, m) [0..<n])) k \<longleftrightarrow> test_appl_mask_bit m k"
  using assms(1)
proof (induction n)
  case (Suc n)
  then have n: "n < max_appl w" by simp
  then show ?case using Suc group_step_test(2) [OF n, of busy "foldl (group_step w busy) (m, m) [0..<n]" k] assms(2) by auto
qed simp

lemma group_fold_subset:
  "n \<le> max_appl w \<Longrightarrow> test_appl_mask_bit (snd (foldl (group_step w busy) (m, m) [0..<n])) k \<Longrightarrow> test_appl_mask_bit m k"
proof (induction n)
  case (Suc n)
  then have n: "n < max_appl w" by simp
  then show ?case using Suc group_step_test(2) [OF n, of busy "foldl (group_step w busy) (m, m) [0..<n]" k] by auto
qed simp

lemma group_optimization_mask:
  "c_ind_mask_table (call_plcis (group_optimization p w) p) =
     snd (foldl (group_step w (appl_busy_plcis p w)) (c_ind_mask_table (call_plcis w p), c_ind_mask_table (call_plcis w p)) [0..<max_appl w])"
  by (simp add: group_optimization_def Let_def upd_call_def split: prod.splits)

lemma group_pair:
  fixes w :: calls and p :: nat
  defines "before \<equiv> test_c_ind_mask_bit w p" and "after \<equiv> test_c_ind_mask_bit (group_optimization p w) p"
    and "busy \<equiv> appl_busy_plcis p w"
  assumes j: "before j" "j < max_appl w" and k: "before k" "k < max_appl w" and "j \<noteq> k" and "same_group w j k"
    and "group_enabled w j"
  shows "\<not> (after j \<and> after k)" and "after j \<Longrightarrow> busy j \<le> busy k \<and> busy j < MaxNCCI (application w j)"
proof -
  let ?m = "c_ind_mask_table (call_plcis w p)"
  have m: "test_appl_mask_bit ?m j" "test_appl_mask_bit ?m k" using j k by (simp_all add: before_def test_c_ind_mask_bit_def)
  obtain a where a: "first_of w ?m a" "a \<le> j" "same_group w a j" using first_of_ex [OF m(1)] .
  have ak: "same_group w a k" using a(3) assms(9) same_group_equiv(3) by blast
  have "a \<le> k"
  proof (rule ccontr)
    assume "\<not> a \<le> k"
    then have "\<not> same_group w k a" using a(1) m(2) by (simp add: first_of_def)
    then show False using ak same_group_equiv(2) by blast
  qed
  let ?r = "group_result w busy ?m a"
  have en: "group_enabled w a" using a(3) assms(10) same_group_equiv(4) by blast
  have al: "a < max_appl w" using a(2) j(2) by simp
  have af: "after x \<longleftrightarrow> \<not> dropped w a ?r x" if "a \<le> x" "x < max_appl w" "same_group w a x" "test_appl_mask_bit ?m x" for x
    unfolding after_def test_c_ind_mask_bit_def group_optimization_mask busy_def
    using group_fold_mask [OF order_refl a(1) that] en al by simp
  obtain la lb where r: "?r = (length (members w ?m a), la, lb)" by (simp add: group_result_def) (metis prod.collapse)
  have "snd (a, busy a) = busy (fst (a, busy a))" by simp
  note least = least_of_props [of "(a, busy a)" busy "members w ?m a", OF this, unfolded Let_def]
  have lb: "lb = busy la" "\<forall>x \<in> set (members w ?m a). lb \<le> busy x"
    using least r by (auto simp: group_result_def)
  have mem: "{j, k} \<subseteq> set (members w ?m a)"
    using a ak m j(2) k(2) \<open>a \<le> k\<close> by (auto simp: members_def)
  then have "1 < length (members w ?m a)"
    using assms(8) card_length [of "members w ?m a"] card_mono [of "set (members w ?m a)" "{j, k}"] by simp
  then have d: "dropped w a ?r x \<longleftrightarrow> x \<noteq> la \<or> lb \<ge> MaxNCCI (application w a) \<or> lb \<noteq> 0 \<and> group_opt w AND 3 = 2" for x
    by (simp add: dropped_def r)
  have "after j \<longleftrightarrow> \<not> dropped w a ?r j" "after k \<longleftrightarrow> \<not> dropped w a ?r k"
    using af [OF a(2) j(2) a(3) m(1)] af [OF \<open>a \<le> k\<close> k(2) ak m(2)] .
  then show "\<not> (after j \<and> after k)" "after j \<Longrightarrow> busy j \<le> busy k \<and> busy j < MaxNCCI (application w j)"
    using assms(8) d lb mem a(3) by (auto simp: same_group_def)
qed

text \<open>An application alone in its group, when individuals are not optimised.\<close>

lemma group_single:
  fixes w :: calls and p :: nat
  defines "before \<equiv> test_c_ind_mask_bit w p" and "after \<equiv> test_c_ind_mask_bit (group_optimization p w) p"
  assumes x: "before x"
    and kept: "max_appl w \<le> x \<or> \<not> group_enabled w x \<or>
      \<not> bit (group_opt w) 2 \<and> (\<forall>y < max_appl w. before y \<and> y \<noteq> x \<longrightarrow> \<not> same_group w x y)"
  shows "after x"
proof (cases "max_appl w \<le> x")
  case True
  then show ?thesis
    using x group_fold_other [OF order_refl True]
    by (simp add: after_def before_def test_c_ind_mask_bit_def group_optimization_mask)
next
  case False
  let ?m = "c_ind_mask_table (call_plcis w p)" and ?busy = "appl_busy_plcis p w"
  have m: "test_appl_mask_bit ?m x" using x by (simp add: before_def test_c_ind_mask_bit_def)
  obtain a where a: "first_of w ?m a" "a \<le> x" "same_group w a x" using first_of_ex [OF m] .
  have "after x \<longleftrightarrow> \<not> (a < max_appl w \<and> group_enabled w a \<and> dropped w a (group_result w ?busy ?m a) x)"
    unfolding after_def test_c_ind_mask_bit_def group_optimization_mask
    using group_fold_mask [OF order_refl a(1,2) _ a(3) m] False by simp
  moreover have "\<not> dropped w a (group_result w ?busy ?m a) x" if "group_enabled w a"
  proof -
    have s: "\<not> bit (group_opt w) 2" "\<forall>y < max_appl w. before y \<and> y \<noteq> x \<longrightarrow> \<not> same_group w x y"
      using kept False same_group_equiv(4) [OF a(3)] that by auto
    have "set (members w ?m a) \<subseteq> {x}"
    proof
      fix y assume "y \<in> set (members w ?m a)"
      then have y: "y < max_appl w" "test_appl_mask_bit ?m y" "same_group w a y" by (auto simp: members_def)
      then have "same_group w x y" using a(3) same_group_equiv(2,3) by blast
      then show "y \<in> {x}" using s(2) y by (auto simp: before_def test_c_ind_mask_bit_def)
    qed
    moreover have "distinct (members w ?m a)" by (simp add: members_def)
    ultimately have "length (members w ?m a) \<le> 1"
      using card_mono [of "{x}" "set (members w ?m a)"] by (simp add: distinct_card)
    then show ?thesis using s(1) by (simp add: dropped_def group_result_def split: prod.splits)
  qed
  ultimately show ?thesis by blast
qed

section \<open>Properties\<close>

text \<open>Of the applications with the same settings that a call is offered to, group
  optimisation keeps at most one, and only one whose number of busy PLCIs is the smallest of
  the group and below the number of connections it allows. It never offers the call to an
  application that was not in the table, and keeps every application that is alone in its
  group (when individuals are not optimised) or whose group is not optimised.\<close>

theorem group_optimization_keeps_least_busy:
  "let before = test_c_ind_mask_bit w p; after = test_c_ind_mask_bit (group_optimization p w) p; busy = appl_busy_plcis p w
   in (\<forall>x. after x \<longrightarrow> before x) \<and>
      (\<forall>j k. before j \<and> before k \<and> j < max_appl w \<and> k < max_appl w \<and> j \<noteq> k \<and> same_group w j k \<and> group_enabled w j \<longrightarrow>
         \<not> (after j \<and> after k) \<and> (after j \<longrightarrow> busy j \<le> busy k \<and> busy j < MaxNCCI (application w j))) \<and>
      (\<forall>x. before x \<and> (max_appl w \<le> x \<or> \<not> group_enabled w x \<or>
         \<not> bit (group_opt w) 2 \<and> (\<forall>y < max_appl w. before y \<and> y \<noteq> x \<longrightarrow> \<not> same_group w x y)) \<longrightarrow> after x)"
proof -
  have sub: "test_c_ind_mask_bit w p x" if "test_c_ind_mask_bit (group_optimization p w) p x" for x
    using that unfolding test_c_ind_mask_bit_def group_optimization_mask by (rule group_fold_subset [OF order_refl])
  show ?thesis unfolding Let_def
  proof (intro conjI allI impI)
    fix x
    show "test_c_ind_mask_bit (group_optimization p w) p x \<Longrightarrow> test_c_ind_mask_bit w p x" by (rule sub)
  next
    fix j k
    assume a: "test_c_ind_mask_bit w p j \<and> test_c_ind_mask_bit w p k \<and> j < max_appl w \<and> k < max_appl w \<and> j \<noteq> k \<and>
      same_group w j k \<and> group_enabled w j"
    note g = group_pair [of w p j k]
    show "\<not> (test_c_ind_mask_bit (group_optimization p w) p j \<and> test_c_ind_mask_bit (group_optimization p w) p k)"
      by (rule g(1)) (use a in simp_all)
    assume "test_c_ind_mask_bit (group_optimization p w) p j"
    then have "appl_busy_plcis p w j \<le> appl_busy_plcis p w k \<and> appl_busy_plcis p w j < MaxNCCI (application w j)"
      by (intro g(2)) (use a in simp_all)
    then show "appl_busy_plcis p w j \<le> appl_busy_plcis p w k" "appl_busy_plcis p w j < MaxNCCI (application w j)" by simp_all
  next
    fix x
    assume a: "test_c_ind_mask_bit w p x \<and> (max_appl w \<le> x \<or> \<not> group_enabled w x \<or>
         \<not> bit (group_opt w) 2 \<and> (\<forall>y < max_appl w. test_c_ind_mask_bit w p y \<and> y \<noteq> x \<longrightarrow> \<not> same_group w x y))"
    show "test_c_ind_mask_bit (group_optimization p w) p x"
      by (rule group_single [OF a [THEN conjunct1] a [THEN conjunct2]])
  qed
qed

text \<open>The number of busy PLCIs that group optimisation compares is exactly the number of
  other PLCIs that offer the application a waiting call or belong to it, although the code
  skips empty words of the table.\<close>

theorem busy_plcis_counted:
  "appl_busy_plcis p w k = card {t. 1 \<le> t \<and> t \<le> max_plci w \<and> t \<noteq> p \<and> uses_appl w t k}"
  by (rule appl_busy_count)

text \<open>Two applications with equal settings and a waiting call for both.\<close>

definition two_calls :: calls where
  "two_calls = \<lparr>call_plcis = (\<lambda>_. \<lparr>cp_State = 2, cp_appl = 0, c_ind_mask_table = (\<lambda>_. 0)(0 := 3)\<rparr>), max_plci = 1,
     max_appl = 2, application = (\<lambda>_. \<lparr>MaxNCCI = 1, MaxNCCIData = 7, MaxDataLength = 2048\<rparr>), CIP_Mask = (\<lambda>_. 1),
     Info_Mask = (\<lambda>_. 0), group_opt = 1, disc_ind = []\<rparr>"

theorem group_optimization_keeps_least_busy_witness:
  "\<not> (test_c_ind_mask_bit (group_optimization 1 two_calls) 1 0 \<and> test_c_ind_mask_bit (group_optimization 1 two_calls) 1 1)"
proof -
  have "test_c_ind_mask_bit two_calls 1 0" "test_c_ind_mask_bit two_calls 1 1" "max_appl two_calls = 2"
    "same_group two_calls 0 1" "group_enabled two_calls 0"
    by (simp_all add: two_calls_def test_c_ind_mask_bit_def test_appl_mask_bit_def same_group_def group_enabled_def)
  then show ?thesis
    using group_optimization_keeps_least_busy [of two_calls 1, unfolded Let_def, THEN conjunct2, THEN conjunct1,
        THEN spec [of _ 0], THEN spec [of _ 1], THEN mp, THEN conjunct1] by simp
qed

text \<open>When a call is assigned to an application, exactly the other applications still in
  the table are told that it is taken, in order, each once; the application itself leaves the
  table and becomes the owner.\<close>

theorem assign_incoming_call_others:
  "let w' = assign_incoming_call p i True w in
     disc_ind w' = disc_ind w @ map (\<lambda>k. (k, p, OTHER_APPL_CONNECTED))
       [k \<leftarrow> [0..<max_appl w]. test_c_ind_mask_bit w p k \<and> k \<noteq> i] \<and>
     cp_appl (call_plcis w' p) = i + 1 \<and>
     (\<forall>k. test_c_ind_mask_bit w' p k = (test_c_ind_mask_bit w p k \<and> k \<noteq> i))"
proof -
  have d: "foldl (\<lambda>w i. if test_c_ind_mask_bit w p i then w\<lparr>disc_ind := disc_ind w @ [(i, p, r)]\<rparr> else w) v xs =
      v\<lparr>disc_ind := disc_ind v @ map (\<lambda>k. (k, p, r)) (filter (test_c_ind_mask_bit v p) xs)\<rparr>" for v xs r
  proof (induction xs arbitrary: v)
    case (Cons x xs)
    have "test_c_ind_mask_bit (v\<lparr>disc_ind := l\<rparr>) p = test_c_ind_mask_bit v p" for l
      by (rule ext) (simp add: test_c_ind_mask_bit_def)
    then show ?case by (simp add: Cons.IH)
  qed simp
  define v where "v = clear_c_ind_mask_bit p i (upd_call p (\<lambda>P. P\<lparr>cp_appl := i + 1\<rparr>) w)"
  have t: "test_c_ind_mask_bit v p = (\<lambda>k. test_c_ind_mask_bit w p k \<and> k \<noteq> i)"
    by (rule ext) (simp add: test_c_ind_mask_bit_def clear_c_ind_mask_bit_def upd_call_def v_def)
  have e: "max_appl v = max_appl w" "disc_ind v = disc_ind w" "cp_appl (call_plcis v p) = i + 1"
    by (simp_all add: clear_c_ind_mask_bit_def upd_call_def v_def)
  have "test_c_ind_mask_bit (v\<lparr>disc_ind := l\<rparr>) p = test_c_ind_mask_bit v p" for l
    by (rule ext) (simp add: test_c_ind_mask_bit_def)
  then show ?thesis
    unfolding assign_incoming_call_def Let_def v_def [symmetric] if_True disc_others_def d by (simp add: t e)
qed

end
