(* ===== verification/Hdlc.thy ===== *)
theory Hdlc
  imports CBase
begin

text \<open>
  The HDLC receiver that searches frames in a transparent bit stream
  (\<open>tty_module/hdlc.c\<close>). The residual bits are a 32 bit word with the oldest bit lowest, of
  which \<open>resid_bit_count\<close> are valid; the five oldest bits are kept as context for removing
  the stuffed zeros. \<open>word\<close> expressions of C are 16 bit words, with the integer promotion of
  \<open>~hdlc_new_data_bits >> 1\<close> written out. The frame buffer is the list of the bytes stored.
  The states are a datatype, the pointers for the trace output are numbers.
\<close>

type_synonym u16 = "16 word"

definition ddal_hdlc_crc_table :: "u16 list" where
  "ddal_hdlc_crc_table =
   [0x0000, 0x1189, 0x2312, 0x329b, 0x4624, 0x57ad, 0x6536, 0x74bf,
    0x8c48, 0x9dc1, 0xaf5a, 0xbed3, 0xca6c, 0xdbe5, 0xe97e, 0xf8f7,
    0x1081, 0x0108, 0x3393, 0x221a, 0x56a5, 0x472c, 0x75b7, 0x643e,
    0x9cc9, 0x8d40, 0xbfdb, 0xae52, 0xdaed, 0xcb64, 0xf9ff, 0xe876,
    0x2102, 0x308b, 0x0210, 0x1399, 0x6726, 0x76af, 0x4434, 0x55bd,
    0xad4a, 0xbcc3, 0x8e58, 0x9fd1, 0xeb6e, 0xfae7, 0xc87c, 0xd9f5,
    0x3183, 0x200a, 0x1291, 0x0318, 0x77a7, 0x662e, 0x54b5, 0x453c,
    0xbdcb, 0xac42, 0x9ed9, 0x8f50, 0xfbef, 0xea66, 0xd8fd, 0xc974,
    0x4204, 0x538d, 0x6116, 0x709f, 0x0420, 0x15a9, 0x2732, 0x36bb,
    0xce4c, 0xdfc5, 0xed5e, 0xfcd7, 0x8868, 0x99e1, 0xab7a, 0xbaf3,
    0x5285, 0x430c, 0x7197, 0x601e, 0x14a1, 0x0528, 0x37b3, 0x263a,
    0xdecd, 0xcf44, 0xfddf, 0xec56, 0x98e9, 0x8960, 0xbbfb, 0xaa72,
    0x6306, 0x728f, 0x4014, 0x519d, 0x2522, 0x34ab, 0x0630, 0x17b9,
    0xef4e, 0xfec7, 0xcc5c, 0xddd5, 0xa96a, 0xb8e3, 0x8a78, 0x9bf1,
    0x7387, 0x620e, 0x5095, 0x411c, 0x35a3, 0x242a, 0x16b1, 0x0738,
    0xffcf, 0xee46, 0xdcdd, 0xcd54, 0xb9eb, 0xa862, 0x9af9, 0x8b70,
    0x8408, 0x9581, 0xa71a, 0xb693, 0xc22c, 0xd3a5, 0xe13e, 0xf0b7,
    0x0840, 0x19c9, 0x2b52, 0x3adb, 0x4e64, 0x5fed, 0x6d76, 0x7cff,
    0x9489, 0x8500, 0xb79b, 0xa612, 0xd2ad, 0xc324, 0xf1bf, 0xe036,
    0x18c1, 0x0948, 0x3bd3, 0x2a5a, 0x5ee5, 0x4f6c, 0x7df7, 0x6c7e,
    0xa50a, 0xb483, 0x8618, 0x9791, 0xe32e, 0xf2a7, 0xc03c, 0xd1b5,
    0x2942, 0x38cb, 0x0a50, 0x1bd9, 0x6f66, 0x7eef, 0x4c74, 0x5dfd,
    0xb58b, 0xa402, 0x9699, 0x8710, 0xf3af, 0xe226, 0xd0bd, 0xc134,
    0x39c3, 0x284a, 0x1ad1, 0x0b58, 0x7fe7, 0x6e6e, 0x5cf5, 0x4d7c,
    0xc60c, 0xd785, 0xe51e, 0xf497, 0x8028, 0x91a1, 0xa33a, 0xb2b3,
    0x4a44, 0x5bcd, 0x6956, 0x78df, 0x0c60, 0x1de9, 0x2f72, 0x3efb,
    0xd68d, 0xc704, 0xf59f, 0xe416, 0x90a9, 0x8120, 0xb3bb, 0xa232,
    0x5ac5, 0x4b4c, 0x79d7, 0x685e, 0x1ce1, 0x0d68, 0x3ff3, 0x2e7a,
    0xe70e, 0xf687, 0xc41c, 0xd595, 0xa12a, 0xb0a3, 0x8238, 0x93b1,
    0x6b46, 0x7acf, 0x4854, 0x59dd, 0x2d62, 0x3ceb, 0x0e70, 0x1ff9,
    0xf78f, 0xe606, 0xd49d, 0xc514, 0xb1ab, 0xa022, 0x92b9, 0x8330,
    0x7bc7, 0x6a4e, 0x58d5, 0x495c, 0x3de3, 0x2c6a, 0x1ef1, 0x0f78]"

definition ddal_trailing_zeroes_table :: "nat list" where
  "ddal_trailing_zeroes_table =
   [8, 0, 1, 0, 2, 0, 1, 0, 3, 0, 1, 0, 2, 0, 1, 0,
    4, 0, 1, 0, 2, 0, 1, 0, 3, 0, 1, 0, 2, 0, 1, 0,
    5, 0, 1, 0, 2, 0, 1, 0, 3, 0, 1, 0, 2, 0, 1, 0,
    4, 0, 1, 0, 2, 0, 1, 0, 3, 0, 1, 0, 2, 0, 1, 0,
    6, 0, 1, 0, 2, 0, 1, 0, 3, 0, 1, 0, 2, 0, 1, 0,
    4, 0, 1, 0, 2, 0, 1, 0, 3, 0, 1, 0, 2, 0, 1, 0,
    5, 0, 1, 0, 2, 0, 1, 0, 3, 0, 1, 0, 2, 0, 1, 0,
    4, 0, 1, 0, 2, 0, 1, 0, 3, 0, 1, 0, 2, 0, 1, 0,
    7, 0, 1, 0, 2, 0, 1, 0, 3, 0, 1, 0, 2, 0, 1, 0,
    4, 0, 1, 0, 2, 0, 1, 0, 3, 0, 1, 0, 2, 0, 1, 0,
    5, 0, 1, 0, 2, 0, 1, 0, 3, 0, 1, 0, 2, 0, 1, 0,
    4, 0, 1, 0, 2, 0, 1, 0, 3, 0, 1, 0, 2, 0, 1, 0,
    6, 0, 1, 0, 2, 0, 1, 0, 3, 0, 1, 0, 2, 0, 1, 0,
    4, 0, 1, 0, 2, 0, 1, 0, 3, 0, 1, 0, 2, 0, 1, 0,
    5, 0, 1, 0, 2, 0, 1, 0, 3, 0, 1, 0, 2, 0, 1, 0,
    4, 0, 1, 0, 2, 0, 1, 0, 3, 0, 1, 0, 2, 0, 1, 0]"

datatype hdlc_state = Search_Flag | Search_Data | Data

record hdlc =
  resid_data_bits :: dword
  resid_bit_count :: nat
  rx_state :: hdlc_state
  rx_flag_counter :: nat
  rx_crc :: u16
  rx_message :: "nat \<Rightarrow> byte"
  rx_message_size :: nat
  rx_message_pos :: nat
  hC :: nat
  hP :: nat

abbreviation (input) DDALFAX_MAX_HDLC_FRAME_LENGTH :: nat where "DDALFAX_MAX_HDLC_FRAME_LENGTH \<equiv> 2057"
abbreviation (input) RX_MESSAGE_SIZEOF :: nat where "RX_MESSAGE_SIZEOF \<equiv> 2061"
abbreviation (input) CRC_INIT :: u16 where "CRC_INIT \<equiv> 0xffff"
abbreviation (input) CRC_OK :: u16 where "CRC_OK \<equiv> 0xf0b8"

section \<open>Operations\<close>

definition word_trailing_zeroes :: "u16 \<Rightarrow> nat" where
  "word_trailing_zeroes w =
     (if w AND 0xff \<noteq> 0 then ddal_trailing_zeroes_table ! unat (w AND 0xff)
      else ddal_trailing_zeroes_table ! unat (drop_bit 8 w) + 8)"

definition rx_begin_message :: "nat \<Rightarrow> hdlc \<Rightarrow> hdlc" where
  "rx_begin_message n h =
     h\<lparr>rx_message_pos := 0, rx_message_size := (if RX_MESSAGE_SIZEOF < n then RX_MESSAGE_SIZEOF else n)\<rparr>"

definition diva_init_hdlc_rx_process :: "nat \<Rightarrow> nat \<Rightarrow> hdlc \<Rightarrow> hdlc" where
  "diva_init_hdlc_rx_process C P h =
     h\<lparr>resid_data_bits := 0, resid_bit_count := 0, rx_state := Search_Flag, rx_flag_counter := 0, rx_crc := 0,
       rx_message_size := 0, rx_message_pos := 0, hC := C, hP := C\<rparr>"

definition crc_step :: "u16 \<Rightarrow> u16 \<Rightarrow> u16" where
  "crc_step crc w = drop_bit 8 crc XOR ddal_hdlc_crc_table ! unat ((crc XOR w) AND 0xff)"

text \<open>Bit \<open>k\<close> of the result: a complete flag with its last one at \<open>k\<close>.\<close>

definition find_flag :: "u16 \<Rightarrow> u16" where
  "find_flag d =
     (let w1 = d AND 0x7ffe;
          w2 = w1 AND push_bit 1 w1;
          w3 = w2 AND push_bit 2 w2;
          w4 = w3 AND push_bit 2 w3;
          w5 = w4 AND push_bit 6 (NOT d)
      in w5 AND ucast (signed_drop_bit 1 (NOT (ucast d :: dword))))"

text \<open>Bit \<open>k\<close> of the result: five ones up to \<open>k\<close>.\<close>

definition five_ones :: "u16 \<Rightarrow> u16" where
  "five_ones d =
     (let w1 = d AND push_bit 1 d; w2 = w1 AND push_bit 2 w1 in w2 AND push_bit 1 w2)"

text \<open>Removing the stuffed zeros in front of the next eight data bits: the shifted window and
  the number of bits used.\<close>

definition unstuff :: "u16 \<Rightarrow> u16 \<Rightarrow> u16 \<times> nat" where
  "unstuff d w =
     (let x = w XOR (w - 1); d1 = d + (d AND x); w1 = w AND NOT x
      in if w1 AND 0x1fff = 0 then (d1, 9)
         else let x1 = w1 XOR (w1 - 1) in (d1 + (d1 AND x1), 10))"

definition drop_bits :: "nat \<Rightarrow> hdlc \<Rightarrow> hdlc" where
  "drop_bits n h = h\<lparr>resid_data_bits := drop_bit n (resid_data_bits h), resid_bit_count := resid_bit_count h - n\<rparr>"

text \<open>A complete frame is returned when the checksum is right and data remains.\<close>

definition frame_of :: "hdlc \<Rightarrow> byte list option" where
  "frame_of h =
     (if rx_crc h = CRC_OK \<and> rx_message_pos h > 2 then Some (map (rx_message h) [0..<rx_message_pos h - 2]) else None)"

definition store_byte :: "u16 \<Rightarrow> hdlc \<Rightarrow> hdlc" where
  "store_byte w h =
     (let h1 = h\<lparr>rx_crc := crc_step (rx_crc h) w\<rparr>
      in if rx_message_pos h + 2 < rx_message_size h
         then h1\<lparr>rx_message := (rx_message h)(rx_message_pos h := ucast w), rx_message_pos := rx_message_pos h + 1\<rparr>
         else h1\<lparr>rx_state := Search_Flag\<rparr>)"

text \<open>What one round of the loop decides: wait for more bits, return a frame, or go on after
  dropping some bits.\<close>

datatype hdlc_round = Wait hdlc | Frame "byte list" hdlc | Next nat hdlc

definition end_frame :: "nat \<Rightarrow> hdlc_state \<Rightarrow> hdlc \<Rightarrow> hdlc_round" where
  "end_frame n st h =
     (case frame_of h of Some f \<Rightarrow> Frame f h | None \<Rightarrow> Next n (h\<lparr>rx_state := st, rx_flag_counter := 0\<rparr>))"

definition data_step :: "u16 \<Rightarrow> hdlc \<Rightarrow> hdlc_round" where
  "data_step d h =
     (if resid_bit_count h < 16 then
        if resid_bit_count h < 13 then Wait h
        else if resid_bit_count h > 13 \<and> d AND 0x3fff = 0x1f9f then end_frame 9 Search_Data h
        else if d AND 0x1fe0 = 0x0fc0 then end_frame 8 Search_Data h
        else Wait h
      else
        let w = five_ones d
        in if w AND 0x0fff = 0 then Next 8 (store_byte (drop_bit 5 d) h)
           else if w AND push_bit 1 w \<noteq> 0 then
             if d AND 0x3fff = 0x1f9f then end_frame 9 Search_Data h
             else if d AND 0x1fe0 = 0x0fc0 then end_frame 8 Search_Data h
             else Next 8 (h\<lparr>rx_state := Search_Flag, rx_flag_counter := 0\<rparr>)
           else case unstuff d w of (d1, n) \<Rightarrow> Next n (store_byte (drop_bit (n - 3) d1) h))"

definition hdlc_step :: "hdlc \<Rightarrow> hdlc_round" where
  "hdlc_step h =
     (let d = ucast (resid_data_bits h) :: u16
      in case rx_state h of
        Search_Flag \<Rightarrow>
          if resid_bit_count h < 16 then Wait h
          else let w = find_flag d
               in if w = 0 then Next 9 h
                  else Next (word_trailing_zeroes w - 3) (h\<lparr>rx_flag_counter := 0, rx_state := Search_Data\<rparr>)
      | Search_Data \<Rightarrow>
          if resid_bit_count h < 13 then Wait h
          else if d AND 0x1fe0 = 0x0fc0 then
            Next 8 (if rx_flag_counter h < 0xff then h\<lparr>rx_flag_counter := rx_flag_counter h + 1\<rparr> else h)
          else data_step d ((rx_begin_message (DDALFAX_MAX_HDLC_FRAME_LENGTH + 2) h)\<lparr>rx_crc := CRC_INIT, rx_state := Data\<rparr>)
      | Data \<Rightarrow> data_step d h)"

text \<open>An initialised receiver.\<close>

definition hdlc_idle :: hdlc where
  "hdlc_idle = diva_init_hdlc_rx_process 0 0 \<lparr>resid_data_bits = 0, resid_bit_count = 0, rx_state = Data, rx_flag_counter = 0,
        rx_crc = 0, rx_message = (\<lambda>_. 0), rx_message_size = 0, rx_message_pos = 0, hC = 0, hP = 0\<rparr>"

section \<open>The tables\<close>

lemma tz_table:
  "list_all2 (\<lambda>i z. z < 8 \<and> i div 2 ^ z mod 2 = 1 \<and> i mod 2 ^ z = (0 :: int)) [1..255] (tl ddal_trailing_zeroes_table)"
  by code_simp

lemma tz_length: "length ddal_trailing_zeroes_table = 256"
  by (simp add: ddal_trailing_zeroes_table_def)

lemma and_ff: "w AND 0xff = take_bit 8 (w :: u16)"
  by (simp add: take_bit_eq_mask mask_eq_exp_minus_1)

lemma low_byte_bit: "bit (unat (w AND 0xff :: u16)) k \<longleftrightarrow> bit w k \<and> k < 8"
  unfolding and_ff by (auto simp: bit_simps)

lemma low_byte_less: "unat (w AND 0xff :: u16) < 256"
proof -
  have "unat (take_bit 8 w) = take_bit 8 (unat w)" by (rule bit_eqI) (auto simp: bit_simps)
  then show ?thesis unfolding and_ff by (simp add: take_bit_eq_mod)
qed

lemma high_byte_less: "unat (drop_bit 8 w :: u16) < 256"
proof -
  have "unat w < 65536" using unsigned_less [of w] by simp
  moreover have "unat (drop_bit 8 w) = drop_bit 8 (unat w)" by (rule bit_eqI) (auto simp: bit_simps)
  ultimately show ?thesis by (simp add: drop_bit_eq_div div_less_iff_less_mult)
qed

lemma tz_at:
  assumes "0 < i" "i < 256"
  shows "bit i (ddal_trailing_zeroes_table ! i)" "ddal_trailing_zeroes_table ! i < 8"
    "j < ddal_trailing_zeroes_table ! i \<Longrightarrow> \<not> bit i j"
proof -
  let ?z = "ddal_trailing_zeroes_table ! i"
  have n: "tl ddal_trailing_zeroes_table ! (i - 1) = ?z" using assms by (simp add: nth_tl tz_length)
  have "[1..255 :: int] ! (i - 1) = int i" using assms by (simp add: nth_upto)
  then have a: "?z < 8" "int i div 2 ^ ?z mod 2 = 1" "int i mod 2 ^ ?z = 0"
    using list_all2_nthD [OF tz_table, of "i - 1"] assms n by auto
  have "int (i div 2 ^ ?z mod 2) = 1" using a(2) by (simp add: zdiv_int zmod_int)
  then show "bit i ?z" "?z < 8" using a(1) by (simp_all add: bit_iff_odd odd_iff_mod_2_eq_one)
  have "int (i mod 2 ^ ?z) = 0" using a(3) by (simp add: zmod_int)
  then have "take_bit ?z i = 0" by (simp add: take_bit_eq_mod)
  then show "j < ?z \<Longrightarrow> \<not> bit i j" by (metis bit_0_eq bit_take_bit_iff bot_apply bot_bool_def)
qed

text \<open>\<open>ddal_word_trailing_zeroes\<close> finds the lowest bit.\<close>

lemma word_trailing_zeroes_bit:
  assumes "w \<noteq> 0"
  shows "bit w (word_trailing_zeroes w) \<and> word_trailing_zeroes w < 16"
proof (cases "w AND 0xff = 0")
  case False
  then have "0 < unat (w AND 0xff)" by (simp add: unat_gt_0)
  note t = tz_at [OF this low_byte_less]
  then show ?thesis using False low_byte_bit [of w] by (simp add: word_trailing_zeroes_def)
next
  case True
  have "drop_bit 8 w \<noteq> 0"
  proof
    assume z: "drop_bit 8 w = 0"
    have "\<not> bit w k" for k
    proof (cases "k < 8")
      case True
      then show ?thesis using low_byte_bit [of w k] \<open>w AND 0xff = 0\<close> by simp
    next
      case False
      then have "bit (drop_bit 8 w) (k - 8) = bit w k" by (simp add: bit_simps)
      then show ?thesis using z by simp
    qed
    then show False using assms by (simp add: bit_eq_iff)
  qed
  then have "0 < unat (drop_bit 8 w)" by (simp add: unat_gt_0)
  note t = tz_at [OF this high_byte_less]
  have "bit w (ddal_trailing_zeroes_table ! unat (drop_bit 8 w) + 8)"
    using t(1) by (simp add: bit_simps add.commute)
  then show ?thesis using True t(2) by (simp add: word_trailing_zeroes_def)
qed

lemma find_flag_bit:
  "bit (find_flag d) k \<Longrightarrow> 6 \<le> k \<and> k < 15 \<and> \<not> bit d (k - 6) \<and> (\<forall>i. k - 5 \<le> i \<and> i \<le> k \<longrightarrow> bit d i) \<and> \<not> bit d (k + 1)"
proof -
  assume a: "bit (find_flag d) k"
  have m: "bit (0x7ffe :: u16) i \<Longrightarrow> 1 \<le> i \<and> i < 15" for i
  proof -
    assume b: "bit (0x7ffe :: u16) i"
    then have "i < 16" by (auto dest: bit_imp_le_length)
    moreover have "i \<noteq> 0"
    proof
      assume "i = 0"
      with b show False by simp
    qed
    moreover have "i \<noteq> 15"
    proof
      assume "i = 15"
      with b show False by simp
    qed
    ultimately show "1 \<le> i \<and> i < 15" by simp
  qed
  define w1 where "w1 = d AND 0x7ffe"
  define w2 where "w2 = w1 AND push_bit 1 w1"
  define w3 where "w3 = w2 AND push_bit 2 w2"
  define w4 where "w4 = w3 AND push_bit 2 w3"
  have 1: "bit w1 j \<Longrightarrow> bit d j \<and> 1 \<le> j \<and> j < 15" for j
    using m [of j] unfolding w1_def bit_and_iff by blast
  have 2: "bit w2 j \<Longrightarrow> bit w1 j \<and> bit w1 (j - 1)" for j
    unfolding w2_def bit_and_iff bit_push_bit_iff by blast
  have 3: "bit w3 j \<Longrightarrow> bit w2 j \<and> 2 \<le> j \<and> bit w2 (j - 2)" for j
    unfolding w3_def bit_and_iff bit_push_bit_iff by blast
  have 4: "bit w4 j \<Longrightarrow> bit w3 j \<and> bit w3 (j - 2)" for j
    unfolding w4_def bit_and_iff bit_push_bit_iff by blast
  have f: "find_flag d = (w4 AND push_bit 6 (NOT d)) AND ucast (signed_drop_bit 1 (NOT (ucast d :: dword)))"
    by (simp only: find_flag_def Let_def w1_def w2_def w3_def w4_def)
  have k: "bit w4 k" "6 \<le> k" "\<not> bit d (k - 6)" "bit (ucast (signed_drop_bit 1 (NOT (ucast d :: dword))) :: u16) k"
    using a unfolding f bit_and_iff bit_push_bit_iff bit_not_iff_eq by (simp_all add: bit_not_iff)
  have w3: "bit w3 k" "bit w3 (k - 2)" using 4 [OF k(1)] by simp_all
  have w2: "bit w2 k" "bit w2 (k - 2)" "bit w2 (k - 2 - 2)" using 3 [OF w3(1)] 3 [OF w3(2)] by simp_all
  have w1: "bit w1 k" "bit w1 (k - 1)" "bit w1 (k - 2)" "bit w1 (k - 3)" "bit w1 (k - 4)" "bit w1 (k - 5)"
    using 2 [OF w2(1)] 2 [OF w2(2)] 2 [OF w2(3)] by simp_all
  have lt: "k < 15" using 1 [OF w1(1)] by simp
  have "\<not> bit (ucast d :: dword) (Suc k)" using k(4) lt by (simp add: bit_simps)
  then have "\<not> bit d (k + 1)" using lt by (simp add: bit_simps)
  moreover have "bit d i" if "k - 5 \<le> i" "i \<le> k" for i
  proof -
    have "i \<in> {k, k - 1, k - 2, k - 3, k - 4, k - 5}" using that k(2) by auto
    then show ?thesis using 1 [OF w1(1)] 1 [OF w1(2)] 1 [OF w1(3)] 1 [OF w1(4)] 1 [OF w1(5)] 1 [OF w1(6)] by auto
  qed
  ultimately show ?thesis using k(2,3) lt by blast
qed

section \<open>The loop\<close>

lemma end_frame_Next: "end_frame n st h = Next m h' \<Longrightarrow> m = n \<and> resid_bit_count h' = resid_bit_count h"
  by (auto simp: end_frame_def split: option.splits)

lemma store_byte_count [simp]: "resid_bit_count (store_byte w h) = resid_bit_count h"
  by (simp add: store_byte_def Let_def)

lemma unstuff_count: "snd (unstuff d w) = 9 \<or> snd (unstuff d w) = 10"
  by (simp add: unstuff_def Let_def)

lemma data_step_Next: "data_step d h = Next n h' \<Longrightarrow> 0 < n \<and> n \<le> resid_bit_count h \<and> resid_bit_count h' = resid_bit_count h"
  using unstuff_count [of d "five_ones d"]
  by (auto simp: data_step_def Let_def dest!: end_frame_Next split: if_splits prod.splits)

lemma hdlc_step_Next:
  assumes "hdlc_step h = Next n h'"
  shows "0 < n \<and> n \<le> resid_bit_count h \<and> resid_bit_count h' = resid_bit_count h"
proof (cases "rx_state h")
  case Search_Flag
  let ?w = "find_flag (ucast (resid_data_bits h))"
  have "?w \<noteq> 0 \<Longrightarrow> 6 \<le> word_trailing_zeroes ?w \<and> word_trailing_zeroes ?w < 15"
    using word_trailing_zeroes_bit [of ?w] find_flag_bit [of "ucast (resid_data_bits h)" "word_trailing_zeroes ?w"] by blast
  then show ?thesis using assms Search_Flag by (auto simp: hdlc_step_def Let_def split: if_splits)
next
  case Search_Data
  then show ?thesis
    using assms by (auto simp: hdlc_step_def Let_def rx_begin_message_def dest!: data_step_Next split: if_splits)
next
  case Data
  then show ?thesis using assms by (auto simp: hdlc_step_def Let_def dest!: data_step_Next)
qed

function hdlc_loop :: "hdlc \<Rightarrow> byte list option \<times> hdlc" where
  "hdlc_loop h =
     (case hdlc_step h of
        Wait h' \<Rightarrow> (None, h')
      | Frame f h' \<Rightarrow> (Some f, h')
      | Next n h' \<Rightarrow> hdlc_loop (drop_bits n h'))"
  by pat_completeness auto

termination
  by (relation "measure resid_bit_count") (auto dest!: hdlc_step_Next simp: drop_bits_def)

declare hdlc_loop.simps [simp del]

definition diva_hdlc_rx_process :: "byte \<Rightarrow> hdlc \<Rightarrow> byte list option \<times> hdlc" where
  "diva_hdlc_rx_process b h =
     hdlc_loop (h\<lparr>resid_data_bits := resid_data_bits h OR push_bit (resid_bit_count h) (ucast b),
                  resid_bit_count := resid_bit_count h + 8\<rparr>)"

section \<open>The checksum\<close>

text \<open>One bit of the CRC with the polynomial \<open>0x8408\<close>, lowest bit first.\<close>

definition crc_bit :: "u16 \<Rightarrow> u16" where
  "crc_bit c = (if bit c 0 then drop_bit 1 c XOR 0x8408 else drop_bit 1 c)"

text \<open>The same on integers, to check the table.\<close>

definition crc_int :: "int \<Rightarrow> int" where
  "crc_int c = (if c mod 2 = 1 then (c div 2) XOR 0x8408 else c div 2)"

lemma crc_table:
  "map uint ddal_hdlc_crc_table =
     map (\<lambda>i. crc_int (crc_int (crc_int (crc_int (crc_int (crc_int (crc_int (crc_int i)))))))) [0..255]"
  by code_simp

lemma crc_length: "length ddal_hdlc_crc_table = 256"
  by (simp add: ddal_hdlc_crc_table_def)

lemma uint_crc_bit: "uint (crc_bit c) = crc_int (uint c)"
proof -
  have "bit c 0 \<longleftrightarrow> uint c mod 2 = 1" by (metis bit_0 bit_uint_iff odd_iff_mod_2_eq_one bit_imp_le_length)
  moreover have "uint (drop_bit 1 c) = uint c div 2"
  proof -
    have "uint (drop_bit 1 c) = drop_bit 1 (uint c)" by (rule bit_eqI) (auto simp: bit_simps)
    then show ?thesis by (simp add: drop_bit_eq_div)
  qed
  moreover have "uint (drop_bit 1 c XOR 0x8408) = uint (drop_bit 1 c) XOR 0x8408"
    by (simp add: unsigned_xor_eq)
  ultimately show ?thesis by (simp only: crc_bit_def crc_int_def split: if_split) simp
qed

definition crc_byte :: "u16 \<Rightarrow> u16" where
  "crc_byte c = crc_bit (crc_bit (crc_bit (crc_bit (crc_bit (crc_bit (crc_bit (crc_bit c)))))))"

lemma crc_table_nth:
  assumes "i < 256"
  shows "ddal_hdlc_crc_table ! i = crc_byte (word_of_nat i)"
proof -
  have "uint (ddal_hdlc_crc_table ! i) = map uint ddal_hdlc_crc_table ! i" using assms by (simp add: crc_length)
  also have "\<dots> = crc_int (crc_int (crc_int (crc_int (crc_int (crc_int (crc_int (crc_int (int i))))))))"
    unfolding crc_table using assms by (simp add: nth_upto)
  also have "int i = uint (word_of_nat i :: u16)" using assms by (simp add: uint_nat unat_of_nat)
  also have "crc_int (crc_int (crc_int (crc_int (crc_int (crc_int (crc_int (crc_int \<dots>))))))) = uint (crc_byte (word_of_nat i))"
    by (simp add: crc_byte_def uint_crc_bit)
  finally show ?thesis by (rule word_uint_eqI)
qed

lemma crc_bit_xor: "crc_bit (a XOR b) = crc_bit a XOR crc_bit b"
proof -
  have d: "drop_bit 1 (a XOR b) = drop_bit 1 a XOR drop_bit 1 b" by (rule drop_bit_xor)
  have b: "bit (a XOR b) 0 \<longleftrightarrow> bit a 0 \<noteq> bit b 0" by (simp add: bit_xor_iff)
  show ?thesis unfolding crc_bit_def d b
    by (cases "bit a 0"; cases "bit b 0") (simp_all add: xor.assoc xor.left_commute xor.commute)
qed

lemma crc_byte_xor: "crc_byte (a XOR b) = crc_byte a XOR crc_byte b"
  by (simp only: crc_byte_def crc_bit_xor)

lemma crc_byte_high: "crc_byte (push_bit 8 (drop_bit 8 c)) = drop_bit 8 c"
proof -
  have s: "crc_bit (push_bit (Suc n) x) = push_bit n x" if "n < 8" "\<And>k. 8 \<le> k \<Longrightarrow> \<not> bit x k" for n x
  proof -
    have "drop_bit 1 (push_bit (Suc n) x) = push_bit n x"
    proof (rule bit_eqI)
      fix k :: nat
      show "bit (drop_bit 1 (push_bit (Suc n) x)) k = bit (push_bit n x) k"
        unfolding bit_drop_bit_eq o_apply bit_push_bit_iff
        using that(1) that(2) [of "k - n"] by (cases "k < 15") (auto dest: bit_imp_le_length)
    qed
    moreover have "\<not> bit (push_bit (Suc n) x) 0" unfolding bit_push_bit_iff by simp
    ultimately show ?thesis by (simp only: crc_bit_def if_False)
  qed
  let ?x = "drop_bit 8 c"
  have x: "8 \<le> k \<Longrightarrow> \<not> bit ?x k" for k using bit_imp_le_length [of c "8 + k"] by (auto simp: bit_simps)
  have "crc_byte (push_bit 8 ?x) = crc_byte (push_bit (Suc (Suc (Suc (Suc (Suc (Suc (Suc (Suc 0)))))))) ?x)"
    by (simp only: numeral_eq_Suc pred_numeral_simps BitM.simps numeral_One One_nat_def)
  also have "\<dots> = push_bit 0 ?x"
  proof -
    have m: "m < 8 \<Longrightarrow> crc_bit (push_bit (Suc m) ?x) = push_bit m ?x" for m by (rule s) (use x in simp_all)
    have l: "0 < (8 :: nat)" "Suc 0 < 8" "Suc (Suc 0) < 8" "Suc (Suc (Suc 0)) < 8" "Suc (Suc (Suc (Suc 0))) < 8"
      "Suc (Suc (Suc (Suc (Suc 0)))) < 8" "Suc (Suc (Suc (Suc (Suc (Suc 0))))) < 8"
      "Suc (Suc (Suc (Suc (Suc (Suc (Suc 0)))))) < 8" by simp_all
    show ?thesis unfolding crc_byte_def by (simp only: m l)
  qed
  finally show ?thesis by simp
qed


text \<open>C34: the table driven step of the checksum is the shift register of the polynomial run over
  the eight bits of the byte.\<close>

theorem crc_step_is_bitwise: "crc_step crc w = crc_byte (crc XOR (w AND 0xff))"
proof -
  let ?i = "(crc XOR w) AND 0xff"
  have "ddal_hdlc_crc_table ! unat ?i = crc_byte (word_of_nat (unat ?i))"
    by (rule crc_table_nth) (rule low_byte_less)
  then have t: "ddal_hdlc_crc_table ! unat ?i = crc_byte ?i" by simp
  have p: "crc XOR (w AND 0xff) = push_bit 8 (drop_bit 8 crc) XOR ?i"
  proof (rule bit_eqI)
    fix k :: nat
    show "bit (crc XOR (w AND 0xff)) k = bit (push_bit 8 (drop_bit 8 crc) XOR ?i) k"
      unfolding and_ff bit_xor_iff bit_take_bit_iff bit_push_bit_iff bit_drop_bit_eq o_apply
      by (cases "k < 8") (auto dest: bit_imp_le_length)
  qed
  show ?thesis unfolding p crc_byte_xor crc_byte_high crc_step_def t by simp
qed


section \<open>Frames\<close>

definition store_bytes :: "byte list \<Rightarrow> hdlc \<Rightarrow> hdlc" where
  "store_bytes bs h = foldl (\<lambda>h b. store_byte (ucast b) h) h bs"

definition crc_bytes :: "byte list \<Rightarrow> u16" where
  "crc_bytes bs = foldl (\<lambda>c b. crc_step c (ucast b)) CRC_INIT bs"

text \<open>The frame check sequence a sender appends: the complement of the checksum, low byte first.\<close>

definition fcs :: "byte list \<Rightarrow> byte list" where
  "fcs bs = (let c = NOT (crc_bytes bs) in [ucast c, ucast (drop_bit 8 c)])"

lemma ucast_low: "ucast (ucast w :: byte) = (w :: u16) AND 0xff"
  unfolding and_ff by (rule bit_eqI) (auto simp: bit_simps)

lemma crc_fcs: "crc_step (crc_step c (ucast (ucast (NOT c) :: byte))) (ucast (ucast (drop_bit 8 (NOT c)) :: byte)) = CRC_OK"
proof -
  have t1: "ddal_hdlc_crc_table ! 255 = 0x0f78" and t2: "ddal_hdlc_crc_table ! 0x87 = 0xf0b7"
    by (simp_all add: ddal_hdlc_crc_table_def)
  have i1: "(c XOR ucast (ucast (NOT c) :: byte)) AND 0xff = (0xff :: u16)"
  proof -
    have "(c XOR take_bit 8 (NOT c)) AND mask 8 = (mask 8 :: u16)" by (rule bit_eqI) (auto simp: bit_simps)
    then show ?thesis unfolding ucast_low and_ff by (simp add: mask_eq_exp_minus_1 take_bit_eq_mask)
  qed
  have c1: "crc_step c (ucast (ucast (NOT c) :: byte)) = drop_bit 8 c XOR 0x0f78"
    unfolding crc_step_def i1 by (simp add: t1)
  have "ucast (ucast (drop_bit 8 (NOT c)) :: byte) = drop_bit 8 c XOR (0xff :: u16)"
  proof -
    have "take_bit 8 (drop_bit 8 (NOT c)) = drop_bit 8 c XOR (mask 8 :: u16)"
    proof (rule bit_eqI)
      fix k :: nat
      show "bit (take_bit 8 (drop_bit 8 (NOT c))) k = bit (drop_bit 8 c XOR (mask 8 :: u16)) k"
        using bit_imp_le_length [of c "8 + k"] by (auto simp: bit_simps)
    qed
    then show ?thesis unfolding ucast_low and_ff by (simp add: mask_eq_exp_minus_1)
  qed
  then have "(drop_bit 8 c XOR 0x0f78) XOR ucast (ucast (drop_bit 8 (NOT c)) :: byte) = (0x0f87 :: u16)"
    by (simp add: xor.assoc xor.left_commute)
  then have "((drop_bit 8 c XOR 0x0f78) XOR ucast (ucast (drop_bit 8 (NOT c)) :: byte)) AND 0xff = (0x87 :: u16)"
    by simp
  then have "crc_step (drop_bit 8 c XOR 0x0f78) (ucast (ucast (drop_bit 8 (NOT c)) :: byte)) =
      drop_bit 8 (drop_bit 8 c XOR 0x0f78) XOR 0xf0b7"
    by (simp add: crc_step_def t2)
  also have "drop_bit 8 (drop_bit 8 c XOR 0x0f78) = (0x0f :: u16)"
  proof -
    have "drop_bit 8 (drop_bit 8 c) = (0 :: u16)"
    proof (rule bit_eqI)
      fix k :: nat
      show "bit (drop_bit 8 (drop_bit 8 c)) k = bit (0 :: u16) k"
        using bit_imp_le_length [of c "8 + (8 + k)"] by (auto simp: bit_simps)
    qed
    then show ?thesis by (simp add: drop_bit_xor)
  qed
  finally show ?thesis unfolding c1 by simp
qed

section \<open>Bounds\<close>

text \<open>The state between two calls.\<close>

definition hdlc_ok :: "hdlc \<Rightarrow> bool" where
  "hdlc_ok h \<longleftrightarrow> rx_message_pos h \<le> rx_message_size h \<and> rx_message_size h \<le> 2059"

lemma store_byte_ok: "hdlc_ok h \<Longrightarrow> hdlc_ok (store_byte w h)"
  by (simp add: hdlc_ok_def store_byte_def Let_def)

text \<open>A store is always inside the frame buffer.\<close>

lemma store_byte_inside:
  "hdlc_ok h \<Longrightarrow> rx_message (store_byte w h) i \<noteq> rx_message h i \<Longrightarrow> i + 2 < RX_MESSAGE_SIZEOF"
  by (auto simp: hdlc_ok_def store_byte_def Let_def split: if_splits)

text \<open>What a round may do: the result and the bits kept while waiting.\<close>

definition step_ok :: "hdlc_round \<Rightarrow> bool" where
  "step_ok s \<longleftrightarrow>
     (case s of Wait h \<Rightarrow> hdlc_ok h \<and> resid_bit_count h < 16
      | Frame f h \<Rightarrow> hdlc_ok h \<and> f \<noteq> [] \<and> length f \<le> 2057
      | Next n h \<Rightarrow> hdlc_ok h)"

lemma end_frame_ok: "hdlc_ok h \<Longrightarrow> step_ok (end_frame n st h)"
  by (auto simp: end_frame_def step_ok_def frame_of_def hdlc_ok_def split: if_splits)

lemma data_step_ok:
  assumes "hdlc_ok h"
  shows "step_ok (data_step d h)"
proof -
  have w: "resid_bit_count h < 16 \<Longrightarrow> step_ok (Wait h)" using assms by (simp add: step_ok_def)
  have n: "step_ok (Next k (store_byte x h))" for k x using store_byte_ok [OF assms] by (simp add: step_ok_def)
  have f: "step_ok (Next k (h\<lparr>rx_state := st, rx_flag_counter := c\<rparr>))" for k st c
    using assms by (simp add: step_ok_def hdlc_ok_def)
  show ?thesis
    unfolding data_step_def Let_def using w n f end_frame_ok [OF assms] by (simp split: prod.split)
qed

lemma hdlc_step_ok:
  assumes "hdlc_ok h"
  shows "step_ok (hdlc_step h)"
proof (cases "rx_state h")
  case Search_Flag
  then show ?thesis using assms by (simp add: hdlc_step_def Let_def step_ok_def hdlc_ok_def)
next
  case Search_Data
  let ?h = "(rx_begin_message (DDALFAX_MAX_HDLC_FRAME_LENGTH + 2) h)\<lparr>rx_crc := CRC_INIT, rx_state := Data\<rparr>"
  have "hdlc_ok ?h" by (simp add: hdlc_ok_def rx_begin_message_def)
  note d = data_step_ok [OF this]
  have "step_ok (Next 8 (if rx_flag_counter h < 0xff then h\<lparr>rx_flag_counter := rx_flag_counter h + 1\<rparr> else h))"
    using assms by (simp add: step_ok_def hdlc_ok_def)
  moreover have "resid_bit_count h < 13 \<Longrightarrow> step_ok (Wait h)" using assms by (simp add: step_ok_def)
  ultimately show ?thesis
    unfolding hdlc_step_def Let_def Search_Data hdlc_state.case using d by (simp only: split: if_split) blast
next
  case Data
  then show ?thesis using data_step_ok [OF assms] by (simp add: hdlc_step_def Let_def)
qed

lemma hdlc_loop_ok:
  "hdlc_ok h \<Longrightarrow> case hdlc_loop h of
     (None, h') \<Rightarrow> hdlc_ok h' \<and> resid_bit_count h' < 16
   | (Some f, h') \<Rightarrow> hdlc_ok h' \<and> f \<noteq> [] \<and> length f \<le> 2057"
proof (induction h rule: hdlc_loop.induct)
  case (1 h)
  have s: "step_ok (hdlc_step h)" by (rule hdlc_step_ok [OF 1(2)])
  show ?case
  proof (cases "hdlc_step h")
    case (Next n h')
    then have "hdlc_ok (drop_bits n h')" using s by (simp add: step_ok_def hdlc_ok_def drop_bits_def)
    from 1(1) [OF Next this] show ?thesis using Next by (simp add: hdlc_loop.simps [of h])
  qed (use s in \<open>simp_all add: hdlc_loop.simps [of h] step_ok_def\<close>)
qed

text \<open>One more byte of the stream: the loop ends with less than 16 bits waiting, so the next
  eight bits still fit into the 32 bit word, and the frame buffer is not left; a frame that is
  returned has 1 to 2057 bytes.\<close>

theorem hdlc_rx_bounds:
  assumes "hdlc_ok h"
  shows "case diva_hdlc_rx_process b h of
     (None, h') \<Rightarrow> hdlc_ok h' \<and> resid_bit_count h' < 16
   | (Some f, h') \<Rightarrow> hdlc_ok h' \<and> f \<noteq> [] \<and> length f \<le> 2057"
  unfolding diva_hdlc_rx_process_def
  by (rule hdlc_loop_ok) (use assms in \<open>simp add: hdlc_ok_def\<close>)

lemma hdlc_rx_bounds_witness:
  "hdlc_ok hdlc_idle \<and> (case diva_hdlc_rx_process 0x7e hdlc_idle of
     (None, h') \<Rightarrow> hdlc_ok h' \<and> resid_bit_count h' < 16
   | (Some f, h') \<Rightarrow> hdlc_ok h' \<and> f \<noteq> [] \<and> length f \<le> 2057)"
proof -
  have "hdlc_ok hdlc_idle" by (simp add: hdlc_idle_def diva_init_hdlc_rx_process_def hdlc_ok_def)
  with hdlc_rx_bounds [OF this, of "0x7e"] show ?thesis by blast
qed

end
