(* ===== verification/Ppp.thy ===== *)
theory Ppp
  imports Hdlc
begin

text \<open>
  The conversion of PPP frames to and from the stream of an asynchronous line
  (\<open>tty_module/ppp.c\<close>, RFC 1662): \<open>pppExplode\<close> adds frame marks, escapes and the checksum,
  \<open>pppImplode\<close> takes them off.

  \<open>PPP_STREAM\<close> serves both directions with other meanings of its fields; here each direction has
  a record. Of an output buffer the bytes written so far are kept, of an input buffer the bytes from
  the current position on. The receiver keeps the number of bytes it takes the stream to hold apart
  from the bytes, as the code does; a read behind the last byte is \<open>None\<close>.
\<close>

section \<open>Checksum\<close>

definition fcstab :: "u16 list" where
  "fcstab =
   [
    0x0000, 0x1189, 0x2312, 0x329b, 0x4624, 0x57ad, 0x6536, 0x74bf,
    0x8c48, 0x9dc1, 0xaf5a, 0xbed3, 0xca6c, 0xdbe5, 0xe97e, 0xf8f7,
    0x1081, 0x0108, 0x3393, 0x221a, 0x56a5, 0x472c, 0x75b7, 0x643e,
    0x9cc9, 0x8d40, 0xbfdb, 0xae52, 0xdaed, 0xcb64, 0xf9ff, 0xe876,
    0x2102, 0x308b, 0x0210, 0x1399, 0x6726, 0x76af, 0x4434, 0x55bd,
    0xad4a, 0xbcc3, 0x8e58, 0x9fd1, 0xeb6e, 0xfae7, 0xc87c, 0xd9f5,
    0x3183, 0x200a, 0x1291, 0x0318, 0x77a7, 0x662e, 0x54b5, 0x453c,
    0xbdcb, 0xac42, 0x9ed9, 0x8f50, 0xfbef, 0xea66, 0xd8fd, 0xc974,
    0x4204, 0x538d, 0x6116, 0x709f, 0x0420, 0x15a9, 0x2732, 0x36bb,
    0xce4c, 0xdfc5, 0xed5e, 0xfcd7, 0x8868, 0x99e1, 0xab7a, 0xbaf3,
    0x5285, 0x430c, 0x7197, 0x601e, 0x14a1, 0x0528, 0x37b3, 0x263a,
    0xdecd, 0xcf44, 0xfddf, 0xec56, 0x98e9, 0x8960, 0xbbfb, 0xaa72,
    0x6306, 0x728f, 0x4014, 0x519d, 0x2522, 0x34ab, 0x0630, 0x17b9,
    0xef4e, 0xfec7, 0xcc5c, 0xddd5, 0xa96a, 0xb8e3, 0x8a78, 0x9bf1,
    0x7387, 0x620e, 0x5095, 0x411c, 0x35a3, 0x242a, 0x16b1, 0x0738,
    0xffcf, 0xee46, 0xdcdd, 0xcd54, 0xb9eb, 0xa862, 0x9af9, 0x8b70,
    0x8408, 0x9581, 0xa71a, 0xb693, 0xc22c, 0xd3a5, 0xe13e, 0xf0b7,
    0x0840, 0x19c9, 0x2b52, 0x3adb, 0x4e64, 0x5fed, 0x6d76, 0x7cff,
    0x9489, 0x8500, 0xb79b, 0xa612, 0xd2ad, 0xc324, 0xf1bf, 0xe036,
    0x18c1, 0x0948, 0x3bd3, 0x2a5a, 0x5ee5, 0x4f6c, 0x7df7, 0x6c7e,
    0xa50a, 0xb483, 0x8618, 0x9791, 0xe32e, 0xf2a7, 0xc03c, 0xd1b5,
    0x2942, 0x38cb, 0x0a50, 0x1bd9, 0x6f66, 0x7eef, 0x4c74, 0x5dfd,
    0xb58b, 0xa402, 0x9699, 0x8710, 0xf3af, 0xe226, 0xd0bd, 0xc134,
    0x39c3, 0x284a, 0x1ad1, 0x0b58, 0x7fe7, 0x6e6e, 0x5cf5, 0x4d7c,
    0xc60c, 0xd785, 0xe51e, 0xf497, 0x8028, 0x91a1, 0xa33a, 0xb2b3,
    0x4a44, 0x5bcd, 0x6956, 0x78df, 0x0c60, 0x1de9, 0x2f72, 0x3efb,
    0xd68d, 0xc704, 0xf59f, 0xe416, 0x90a9, 0x8120, 0xb3bb, 0xa232,
    0x5ac5, 0x4b4c, 0x79d7, 0x685e, 0x1ce1, 0x0d68, 0x3ff3, 0x2e7a,
    0xe70e, 0xf687, 0xc41c, 0xd595, 0xa12a, 0xb0a3, 0x8238, 0x93b1,
    0x6b46, 0x7acf, 0x4854, 0x59dd, 0x2d62, 0x3ceb, 0x0e70, 0x1ff9,
    0xf78f, 0xe606, 0xd49d, 0xc514, 0xb1ab, 0xa022, 0x92b9, 0x8330,
    0x7bc7, 0x6a4e, 0x58d5, 0x495c, 0x3de3, 0x2c6a, 0x1ef1, 0x0f78]"

definition PPPINITFCS16 :: u16 where "PPPINITFCS16 = 0xffff"

definition PPPGOODFCS16 :: u16 where "PPPGOODFCS16 = 0xf0b8"

primrec pppfcs16 :: "u16 \<Rightarrow> byte list \<Rightarrow> u16" where
  "pppfcs16 c [] = c"
| "pppfcs16 c (b # bs) = pppfcs16 (drop_bit 8 c XOR fcstab ! unat ((c XOR ucast b) AND 0xff)) bs"

section \<open>Sending\<close>

datatype exp_state = EXP_START | EXP_AGAIN | EXP_CHECK

record ppp_exp =
  xState :: exp_state
  xChecksum :: "byte list"
  xFrame :: "byte list"
  xStream :: "byte list"
  xSize :: nat

text \<open>A control character that the ACCM names.\<close>

definition masked :: "dword \<Rightarrow> byte \<Rightarrow> bool" where
  "masked ACCM c \<longleftrightarrow> c < 0x20 \<and> ACCM AND push_bit (unat c) 1 \<noteq> 0"

definition must_escape :: "dword \<Rightarrow> byte \<Rightarrow> bool" where
  "must_escape ACCM c \<longleftrightarrow> (ACCM \<noteq> 0 \<and> masked ACCM c) \<or> c \<in> {0x7e, 0x7d, 0x11, 0x13, 0x91, 0x93}"

text \<open>The loop of \<open>explode\<close> over the frame. Two bytes are kept free at the end of the stream buffer,
  so that the final mark fits. The result tells whether all is done; only if not, the position in the
  frame is stored.\<close>

fun explode_loop :: "dword \<Rightarrow> nat \<Rightarrow> byte list \<Rightarrow> byte list \<Rightarrow> bool \<times> byte list \<times> byte list" where
  "explode_loop ACCM sz [] out = (True, [], out)"
| "explode_loop ACCM sz (c # cs) out =
     (if must_escape ACCM c then
        if sz \<le> length out + 2 then (False, c # cs, out)
        else explode_loop ACCM sz cs (out @ [0x7d, c XOR 0x20])
      else if sz < length out + 2 then (False, c # cs, out)
      else explode_loop ACCM sz cs (out @ [c]))"

definition explode :: "dword \<Rightarrow> ppp_exp \<Rightarrow> bool \<times> ppp_exp" where
  "explode ACCM S =
     (case explode_loop ACCM (xSize S) (xFrame S) (xStream S) of
        (True, _, out) \<Rightarrow> (True, S\<lparr>xStream := out\<rparr>)
      | (False, rest, out) \<Rightarrow> (False, S\<lparr>xFrame := rest, xStream := out\<rparr>))"

definition exp_begin :: "ppp_exp \<Rightarrow> ppp_exp" where
  "exp_begin S =
     (if xState S = EXP_START then
        let fcs = pppfcs16 PPPINITFCS16 (xFrame S) XOR PPPINITFCS16
        in S\<lparr>xChecksum := [ucast fcs, ucast (drop_bit 8 fcs)], xStream := xStream S @ [0x7e]\<rparr>
      else S)"

definition pppExplode :: "dword \<Rightarrow> ppp_exp \<Rightarrow> ppp_exp" where
  "pppExplode ACCM S0 =
     (case explode ACCM (exp_begin S0) of
        (True, S) \<Rightarrow>
          if xState S \<noteq> EXP_CHECK then
            (case explode ACCM (S\<lparr>xState := EXP_CHECK, xFrame := xChecksum S\<rparr>) of
               (True, S1) \<Rightarrow> S1\<lparr>xState := EXP_START, xStream := xStream S1 @ [0x7e]\<rparr>
             | (False, S1) \<Rightarrow> S1)
          else S
      | (False, S) \<Rightarrow> if xState S = EXP_START then S\<lparr>xState := EXP_AGAIN\<rparr> else S)"

section \<open>Receiving\<close>

datatype imp_state = IMP_START | IMP_MORE | IMP_ESCAPE | IMP_SCAN

record ppp_imp =
  iState :: imp_state
  iCheck :: bool
  iFrame :: "byte list"
  iSizeFrame :: nat
  iStream :: "byte list"
  iSizeStream :: nat

text \<open>The loops that skip bytes.\<close>

fun skip_bytes :: "(byte \<Rightarrow> bool) \<Rightarrow> byte list \<Rightarrow> nat \<Rightarrow> (byte list \<times> nat) option" where
  "skip_bytes P ds 0 = Some (ds, 0)"
| "skip_bytes P [] (Suc n) = None"
| "skip_bytes P (c # cs) (Suc n) = (if P c then skip_bytes P cs n else Some (c # cs, Suc n))"

text \<open>Where the code goes next: into the loop (or on in it), to \<open>restart\<close>, or to \<open>done\<close>.\<close>

datatype imp_next = Loop ppp_imp | Again ppp_imp | Finish ppp_imp

definition imp_restart :: "ppp_imp \<Rightarrow> imp_next" where
  "imp_restart S = (if iSizeStream S = 0 then Finish (S\<lparr>iFrame := []\<rparr>) else Again (S\<lparr>iFrame := []\<rparr>))"

definition imp_put :: "byte \<Rightarrow> ppp_imp \<Rightarrow> imp_next" where
  "imp_put c S =
     (if iSizeFrame S \<le> length (iFrame S) then imp_restart (S\<lparr>iState := IMP_SCAN\<rparr>)
      else Loop (S\<lparr>iFrame := iFrame S @ [c]\<rparr>))"

definition imp_skip_marks :: "ppp_imp \<Rightarrow> imp_next option" where
  "imp_skip_marks S =
     (case skip_bytes (\<lambda>c. c = 0x7e) (iStream S) (iSizeStream S) of
        None \<Rightarrow> None
      | Some (ds, n) \<Rightarrow>
          let S1 = S\<lparr>iStream := ds, iSizeStream := n\<rparr>
          in Some (if n = 0 then Finish S1 else Loop (S1\<lparr>iState := IMP_MORE\<rparr>)))"

text \<open>The switch on the state. After an escape the code reads a byte without counting it.\<close>

definition imp_switch :: "dword \<Rightarrow> ppp_imp \<Rightarrow> imp_next option" where
  "imp_switch ACCM S =
     (case iState S of
        IMP_SCAN \<Rightarrow>
          (case skip_bytes (\<lambda>c. c \<noteq> 0x7e) (iStream S) (iSizeStream S) of
             None \<Rightarrow> None
           | Some (ds, n) \<Rightarrow>
               let S1 = S\<lparr>iStream := ds, iSizeStream := n\<rparr>
               in if n = 0 then Some (Finish S1) else imp_skip_marks (S1\<lparr>iState := IMP_START\<rparr>))
      | IMP_START \<Rightarrow> imp_skip_marks S
      | IMP_ESCAPE \<Rightarrow>
          (case skip_bytes (masked ACCM) (iStream S) (iSizeStream S) of
             None \<Rightarrow> None
           | Some (ds, n) \<Rightarrow>
               let S1 = S\<lparr>iStream := ds, iSizeStream := n\<rparr>
               in if n = 0 then Some (Finish S1)
                  else (case ds of
                          [] \<Rightarrow> None
                        | c # cs \<Rightarrow>
                            let S2 = S1\<lparr>iStream := cs\<rparr>
                            in Some (if c = 0x7e then imp_restart (S2\<lparr>iState := IMP_START\<rparr>)
                                     else imp_put (c XOR 0x20) (S2\<lparr>iState := IMP_MORE\<rparr>))))
      | IMP_MORE \<Rightarrow> Some (Loop S))"

text \<open>A byte in the loop, taken from the stream before. The count is a C \<open>word\<close>: when the stream ends
  after an escape its decrement wraps and the loop goes on.\<close>

definition imp_byte :: "dword \<Rightarrow> byte \<Rightarrow> ppp_imp \<Rightarrow> imp_next option" where
  "imp_byte ACCM c S =
     (if c = 0x7e then
        if length (iFrame S) < 4 then Some (imp_restart (S\<lparr>iState := IMP_START\<rparr>))
        else if iCheck S \<and> pppfcs16 PPPINITFCS16 (iFrame S) \<noteq> PPPGOODFCS16 then Some (imp_restart (S\<lparr>iState := IMP_START\<rparr>))
        else Some (Finish (S\<lparr>iState := IMP_START, iFrame := take (length (iFrame S) - 2) (iFrame S)\<rparr>))
      else if c = 0x7d then
        (case skip_bytes (masked ACCM) (iStream S) (iSizeStream S) of
           None \<Rightarrow> None
         | Some (ds, n) \<Rightarrow>
             if n = 0 then Some (Loop (S\<lparr>iStream := ds, iSizeStream := 65535, iState := IMP_ESCAPE\<rparr>))
             else (case ds of
                     [] \<Rightarrow> None
                   | b # cs \<Rightarrow>
                       let S1 = S\<lparr>iStream := cs, iSizeStream := n - 1\<rparr>
                       in Some (if b = 0x7e then imp_restart (S1\<lparr>iState := IMP_START\<rparr>) else imp_put (b XOR 0x20) S1)))
      else if ACCM \<noteq> 0 \<and> masked ACCM c then Some (Loop S)
      else Some (imp_put c S))"

lemma skip_bytes_length: "skip_bytes P ds n = Some (ds1, n1) \<Longrightarrow> length ds1 \<le> length ds"
  by (induction P ds n rule: skip_bytes.induct) (auto split: if_splits)

lemma imp_put_stream: "imp_put c S = Loop S1 \<Longrightarrow> iStream S1 = iStream S"
  "imp_put c S = Again S1 \<Longrightarrow> iStream S1 = iStream S"
  "imp_restart S = Again S1 \<Longrightarrow> iStream S1 = iStream S"
  by (auto simp: imp_put_def imp_restart_def split: if_splits)

lemma imp_byte_length:
  assumes "imp_byte ACCM c S = Some r" "r = Loop S1 \<or> r = Again S1"
  shows "length (iStream S1) \<le> length (iStream S)"
proof -
  have sk: "length (ds :: byte list) \<le> length (iStream S)" if "skip_bytes (masked ACCM) (iStream S) (iSizeStream S) = Some (ds, n)" for ds n
    using skip_bytes_length [OF that] .
  show ?thesis using assms
    by (auto simp: imp_byte_def imp_restart_def imp_put_def Let_def dest!: sk split: if_splits option.splits prod.splits list.splits)
qed

text \<open>The loop; the first component tells that the code goes to \<open>again\<close>.\<close>

function imp_loop :: "dword \<Rightarrow> ppp_imp \<Rightarrow> (bool \<times> ppp_imp) option" where
  "imp_loop ACCM S =
     (if iSizeStream S = 0 then Some (False, S)
      else case iStream S of
             [] \<Rightarrow> None
           | c # cs \<Rightarrow>
               (case imp_byte ACCM c (S\<lparr>iStream := cs, iSizeStream := iSizeStream S - 1\<rparr>) of
                  None \<Rightarrow> None
                | Some (Loop S1) \<Rightarrow> imp_loop ACCM S1
                | Some (Again S1) \<Rightarrow> Some (True, S1)
                | Some (Finish S1) \<Rightarrow> Some (False, S1)))"
  by pat_completeness auto
termination
proof (relation "measure (\<lambda>(A, S). length (iStream S))", goal_cases)
  case 1
  show ?case by simp
next
  case (2 ACCM S c cs r S1)
  then show ?case using imp_byte_length [of ACCM c _ r S1] by fastforce
qed

declare imp_loop.simps [simp del]

definition imp_pass :: "dword \<Rightarrow> ppp_imp \<Rightarrow> (bool \<times> ppp_imp) option" where
  "imp_pass ACCM S =
     (case imp_switch ACCM S of
        None \<Rightarrow> None
      | Some (Loop S1) \<Rightarrow> imp_loop ACCM S1
      | Some (Again S1) \<Rightarrow> Some (True, S1)
      | Some (Finish S1) \<Rightarrow> Some (False, S1))"

lemma imp_loop_shorter: "imp_loop ACCM S = Some (b, S1) \<Longrightarrow> iSizeStream S \<noteq> 0 \<Longrightarrow> length (iStream S1) < length (iStream S)"
  "imp_loop ACCM S = Some (b, S1) \<Longrightarrow> length (iStream S1) \<le> length (iStream S)"
proof -
  have "(iSizeStream S \<noteq> 0 \<longrightarrow> length (iStream S1) < length (iStream S)) \<and> length (iStream S1) \<le> length (iStream S)"
    if "imp_loop ACCM S = Some (b, S1)" using that
  proof (induction ACCM S rule: imp_loop.induct)
    case (1 ACCM S)
    note IH = 1(1) and run = 1(2)
    show ?case
    proof (cases "iSizeStream S = 0")
      case True
      then show ?thesis using run by (subst (asm) imp_loop.simps) simp
    next
      case False
      then obtain c cs where c: "iStream S = c # cs"
        using run by (subst (asm) imp_loop.simps) (auto split: list.splits)
      let ?S = "S\<lparr>iStream := cs, iSizeStream := iSizeStream S - 1\<rparr>"
      obtain r where r: "imp_byte ACCM c ?S = Some r"
        using run False c by (subst (asm) imp_loop.simps) (auto split: option.splits)
      have fin: "length (iStream S2) \<le> length (iStream ?S)" if "imp_byte ACCM c ?S = Some (Finish S2)" for S2
        using that
        by (auto simp: imp_byte_def imp_restart_def imp_put_def Let_def dest!: skip_bytes_length split: if_splits option.splits prod.splits list.splits)
      show ?thesis
      proof (cases r)
        case (Loop S2)
        then have "imp_loop ACCM S2 = Some (b, S1)" using run False c r by (subst (asm) imp_loop.simps) simp
        from IH [OF False c r Loop this] imp_byte_length [OF r, of S2] Loop c show ?thesis by simp
      next
        case (Again S2)
        then have "S1 = S2" using run False c r by (subst (asm) imp_loop.simps) simp
        then show ?thesis using imp_byte_length [OF r, of S2] Again c by simp
      next
        case (Finish S2)
        then have "S1 = S2" using run False c r by (subst (asm) imp_loop.simps) simp
        then show ?thesis using fin [of S2] Finish r c by simp
      qed
    qed
  qed
  then show "imp_loop ACCM S = Some (b, S1) \<Longrightarrow> iSizeStream S \<noteq> 0 \<Longrightarrow> length (iStream S1) < length (iStream S)"
    "imp_loop ACCM S = Some (b, S1) \<Longrightarrow> length (iStream S1) \<le> length (iStream S)" by blast+
qed

lemma skip_bytes_count: "skip_bytes P ds n = Some (ds1, n1) \<Longrightarrow> length ds1 + n = length ds + n1 \<and> n1 \<le> n"
  by (induction P ds n rule: skip_bytes.induct) (auto split: if_splits)

lemma imp_skip_marks_shorter:
  assumes "imp_skip_marks T = Some r"
  shows "r = Loop S1 \<Longrightarrow> iSizeStream S1 \<noteq> 0 \<and> length (iStream S1) \<le> length (iStream T)"
    "r \<noteq> Again S1" "r = Finish S1 \<Longrightarrow> iSizeStream T \<noteq> 0 \<Longrightarrow> length (iStream S1) < length (iStream T)"
  using assms by (auto simp: imp_skip_marks_def Let_def dest!: skip_bytes_count split: option.splits if_splits)

lemma imp_switch_shorter:
  assumes "imp_switch ACCM S = Some r" "iSizeStream S \<noteq> 0"
  shows "r = Loop S1 \<Longrightarrow> length (iStream S1) < length (iStream S) \<or> length (iStream S1) \<le> length (iStream S) \<and> iSizeStream S1 \<noteq> 0"
    "r = Again S1 \<or> r = Finish S1 \<Longrightarrow> length (iStream S1) < length (iStream S)"
proof -
  have "(r = Loop S1 \<longrightarrow> length (iStream S1) < length (iStream S) \<or> length (iStream S1) \<le> length (iStream S) \<and> iSizeStream S1 \<noteq> 0) \<and>
    (r = Again S1 \<or> r = Finish S1 \<longrightarrow> length (iStream S1) < length (iStream S))"
  proof (cases "iState S")
    case IMP_START
    then show ?thesis using assms imp_skip_marks_shorter [of S r S1] by (auto simp: imp_switch_def)
  next
    case IMP_MORE
    then show ?thesis using assms by (auto simp: imp_switch_def)
  next
    case IMP_ESCAPE
    then show ?thesis using assms
      by (auto simp: imp_switch_def imp_put_def imp_restart_def Let_def dest!: skip_bytes_count
        split: option.splits list.splits if_splits)
  next
    case IMP_SCAN
    obtain ds n where sk: "skip_bytes (\<lambda>c. c \<noteq> 0x7e) (iStream S) (iSizeStream S) = Some (ds, n)"
      using assms(1) IMP_SCAN by (auto simp: imp_switch_def split: option.splits)
    let ?T = "S\<lparr>iStream := ds, iSizeStream := n, iState := IMP_START\<rparr>"
    show ?thesis
    proof (cases "n = 0")
      case True
      then show ?thesis using assms IMP_SCAN sk skip_bytes_count [OF sk] by (auto simp: imp_switch_def)
    next
      case False
      then have "imp_skip_marks ?T = Some r" using assms(1) IMP_SCAN sk by (simp add: imp_switch_def)
      from imp_skip_marks_shorter [OF this, of S1] False skip_bytes_length [OF sk] show ?thesis by auto
    qed
  qed
  then show "r = Loop S1 \<Longrightarrow> length (iStream S1) < length (iStream S) \<or> length (iStream S1) \<le> length (iStream S) \<and> iSizeStream S1 \<noteq> 0"
    "r = Again S1 \<or> r = Finish S1 \<Longrightarrow> length (iStream S1) < length (iStream S)" by blast+
qed

lemma imp_pass_shorter:
  assumes "imp_pass ACCM S = Some (b, S1)" "iSizeStream S \<noteq> 0"
  shows "length (iStream S1) < length (iStream S)"
proof -
  obtain r where r: "imp_switch ACCM S = Some r" using assms(1) by (auto simp: imp_pass_def split: option.splits)
  show ?thesis
  proof (cases r)
    case (Loop S2)
    then have "imp_loop ACCM S2 = Some (b, S1)" using assms(1) r by (simp add: imp_pass_def)
    note imp_loop_shorter [OF this]
    with imp_switch_shorter(1) [OF r assms(2) Loop] show ?thesis by auto
  next
    case (Again S2)
    then show ?thesis using assms r imp_switch_shorter(2) [OF r assms(2), of S2] by (simp add: imp_pass_def)
  next
    case (Finish S2)
    then show ?thesis using assms r imp_switch_shorter(2) [OF r assms(2), of S2] by (simp add: imp_pass_def)
  qed
qed

lemma imp_pass_empty: "imp_pass ACCM S = Some (b, S1) \<Longrightarrow> iSizeStream S = 0 \<Longrightarrow> \<not> b"
  by (auto simp: imp_pass_def imp_switch_def imp_skip_marks_def imp_loop.simps split: imp_state.splits)

function pppImplode :: "dword \<Rightarrow> ppp_imp \<Rightarrow> ppp_imp option" where
  "pppImplode ACCM S =
     (case imp_pass ACCM S of
        None \<Rightarrow> None
      | Some (again, S1) \<Rightarrow> if again then pppImplode ACCM S1 else Some S1)"
  by pat_completeness auto
termination
  by (relation "measure (\<lambda>(A, S). length (iStream S))") (auto dest: imp_pass_shorter imp_pass_empty)

declare pppImplode.simps [simp del]

section \<open>The receiver as an automaton over bytes\<close>

definition rx_put :: "nat \<Rightarrow> byte list \<Rightarrow> byte \<Rightarrow> imp_state \<times> byte list" where
  "rx_put sz fr c = (if sz \<le> length fr then (IMP_SCAN, []) else (IMP_MORE, fr @ [c]))"

definition rx_good :: "bool \<Rightarrow> byte list \<Rightarrow> bool" where
  "rx_good chk fr \<longleftrightarrow> 4 \<le> length fr \<and> (chk \<longrightarrow> pppfcs16 PPPINITFCS16 fr = PPPGOODFCS16)"

definition rx_more :: "dword \<Rightarrow> bool \<Rightarrow> nat \<Rightarrow> byte list \<Rightarrow> byte \<Rightarrow> (imp_state \<times> byte list) \<times> byte list option" where
  "rx_more A chk sz fr c =
     (if c = 0x7e then ((IMP_START, []), if rx_good chk fr then Some (take (length fr - 2) fr) else None)
      else if c = 0x7d then ((IMP_ESCAPE, fr), None)
      else if masked A c then ((IMP_MORE, fr), None)
      else (rx_put sz fr c, None))"

fun rx_step :: "dword \<Rightarrow> bool \<Rightarrow> nat \<Rightarrow> imp_state \<times> byte list \<Rightarrow> byte \<Rightarrow> (imp_state \<times> byte list) \<times> byte list option" where
  "rx_step A chk sz (IMP_SCAN, fr) c = ((if c = 0x7e then IMP_START else IMP_SCAN, fr), None)"
| "rx_step A chk sz (IMP_START, fr) c = (if c = 0x7e then ((IMP_START, fr), None) else rx_more A chk sz fr c)"
| "rx_step A chk sz (IMP_MORE, fr) c = rx_more A chk sz fr c"
| "rx_step A chk sz (IMP_ESCAPE, fr) c =
     (if masked A c then ((IMP_ESCAPE, fr), None)
      else if c = 0x7e then ((IMP_START, []), None)
      else (rx_put sz fr (c XOR 0x20), None))"

text \<open>Up to the first complete frame; the frame and the bytes left.\<close>

fun rx_until ::
  "dword \<Rightarrow> bool \<Rightarrow> nat \<Rightarrow> imp_state \<times> byte list \<Rightarrow> byte list \<Rightarrow> (imp_state \<times> byte list) \<times> byte list option \<times> byte list" where
  "rx_until A chk sz a [] = (a, None, [])"
| "rx_until A chk sz a (c # cs) =
     (case rx_step A chk sz a c of
        (a1, Some f) \<Rightarrow> (a1, Some f, cs)
      | (a1, None) \<Rightarrow> rx_until A chk sz a1 cs)"

lemma skip_bytes_all: "skip_bytes P ds (length ds) = Some (dropWhile P ds, length (dropWhile P ds))"
  by (induction ds) simp_all

lemma masked_small [simp]: "\<not> masked A 0x7e" "\<not> masked A 0x7d" "masked A c \<Longrightarrow> A \<noteq> 0"
  by (auto simp: masked_def)

lemma masked_zero [simp]: "\<not> masked 0 c"
  by (simp add: masked_def)

lemma rx_until_marks: "rx_until A chk sz (IMP_START, fr) ds = rx_until A chk sz (IMP_START, fr) (dropWhile (\<lambda>c. c = 0x7e) ds)"
  by (induction ds) auto

lemma rx_until_scan:
  "rx_until A chk sz (IMP_SCAN, fr) ds =
     (case dropWhile (\<lambda>c. c \<noteq> 0x7e) ds of [] \<Rightarrow> ((IMP_SCAN, fr), None, []) | c # cs \<Rightarrow> rx_until A chk sz (IMP_START, fr) (c # cs))"
  by (induction ds) auto

lemma rx_until_escape:
  "rx_until A chk sz (IMP_ESCAPE, fr) ds =
     (case dropWhile (masked A) ds of
        [] \<Rightarrow> ((IMP_ESCAPE, fr), None, [])
      | c # cs \<Rightarrow> rx_until A chk sz (if c = 0x7e then (IMP_START, []) else rx_put sz fr (c XOR 0x20)) cs)"
  by (induction ds) auto

lemma rx_until_first: "c \<noteq> 0x7e \<Longrightarrow> rx_until A chk sz (IMP_START, fr) (c # cs) = rx_until A chk sz (IMP_MORE, fr) (c # cs)"
  by simp

section \<open>The code implements the automaton\<close>

definition imp_ok :: "ppp_imp \<Rightarrow> bool" where
  "imp_ok S \<longleftrightarrow> iState S \<noteq> IMP_ESCAPE \<and> (iState S \<noteq> IMP_MORE \<longrightarrow> iFrame S = []) \<and> iSizeStream S = length (iStream S)"

definition imp_run :: "dword \<Rightarrow> ppp_imp \<Rightarrow> (imp_state \<times> byte list) \<times> byte list option \<times> byte list" where
  "imp_run A S = rx_until A (iCheck S) (iSizeFrame S) (iState S, iFrame S) (iStream S)"

definition imp_result :: "ppp_imp \<Rightarrow> (imp_state \<times> byte list) \<times> byte list option \<times> byte list \<Rightarrow> ppp_imp option" where
  "imp_result S r =
     (case r of
        (a, Some f, ds) \<Rightarrow> Some (S\<lparr>iState := IMP_START, iFrame := f, iStream := ds, iSizeStream := length ds\<rparr>)
      | (a, None, ds) \<Rightarrow>
          if fst a = IMP_ESCAPE then None
          else Some (S\<lparr>iState := fst a, iFrame := snd a, iStream := ds, iSizeStream := length ds\<rparr>))"

definition imp_after :: "dword \<Rightarrow> (bool \<times> ppp_imp) option \<Rightarrow> ppp_imp option" where
  "imp_after A x = (case x of None \<Rightarrow> None | Some (again, S) \<Rightarrow> if again then pppImplode A S else Some S)"

definition imp_then :: "dword \<Rightarrow> imp_next option \<Rightarrow> ppp_imp option" where
  "imp_then A x =
     (case x of None \<Rightarrow> None | Some (Loop S) \<Rightarrow> imp_after A (imp_loop A S) | Some (Again S) \<Rightarrow> pppImplode A S | Some (Finish S) \<Rightarrow> Some S)"

lemma pppImplode_switch: "pppImplode A S = imp_then A (imp_switch A S)"
  by (subst pppImplode.simps) (auto simp: imp_pass_def imp_then_def imp_after_def split: option.splits imp_next.splits)

lemma imp_loop_byte:
  "iStream S = c # cs \<Longrightarrow> iSizeStream S = Suc n \<Longrightarrow>
     imp_after A (imp_loop A S) = imp_then A (imp_byte A c (S\<lparr>iStream := cs, iSizeStream := n\<rparr>))"
  by (subst imp_loop.simps) (auto simp: imp_then_def imp_after_def split: option.splits imp_next.splits)

lemma rx_until_result:
  "imp_result (S\<lparr>iState := a, iFrame := b, iStream := c, iSizeStream := d\<rparr>) r = imp_result S r"
  by (auto simp: imp_result_def split: prod.splits option.splits)

lemma imp_result_cong: "iCheck S = iCheck T \<Longrightarrow> iSizeFrame S = iSizeFrame T \<Longrightarrow> imp_result S r = imp_result T r"
  by (cases S; cases T) (auto simp: imp_result_def split: prod.splits option.splits)

lemma imp_result_more: "imp_result S (a, None, ds) = (if fst a = IMP_ESCAPE then None
    else Some (S\<lparr>iState := fst a, iFrame := snd a, iStream := ds, iSizeStream := length ds\<rparr>))"
  "imp_result S (a, Some f, ds) = Some (S\<lparr>iState := IMP_START, iFrame := f, iStream := ds, iSizeStream := length ds\<rparr>)"
  by (simp_all add: imp_result_def)

lemma restart_result:
  assumes "\<And>T. length (iStream T) < n \<Longrightarrow> imp_ok T \<Longrightarrow> pppImplode A T = imp_result T (imp_run A T)"
    and "length (iStream S) < n" "iSizeStream S = length (iStream S)" "iState S = IMP_START \<or> iState S = IMP_SCAN"
  shows "imp_then A (Some (imp_restart S)) =
    imp_result S (rx_until A (iCheck S) (iSizeFrame S) (iState S, []) (iStream S))"
proof (cases "iStream S")
  case Nil
  then show ?thesis using assms(3,4) by (auto simp: imp_restart_def imp_then_def imp_result_more)
next
  case Cons
  then have "imp_then A (Some (imp_restart S)) = pppImplode A (S\<lparr>iFrame := []\<rparr>)"
    using assms(3) by (simp add: imp_restart_def imp_then_def)
  also have "\<dots> = imp_result (S\<lparr>iFrame := []\<rparr>) (imp_run A (S\<lparr>iFrame := []\<rparr>))"
    using assms by (intro assms(1)) (auto simp: imp_ok_def)
  finally show ?thesis by (simp add: imp_run_def imp_result_cong [of "S\<lparr>iFrame := []\<rparr>" S])
qed

lemma put_result:
  assumes "\<And>T. length (iStream T) < n \<Longrightarrow> imp_ok T \<Longrightarrow> pppImplode A T = imp_result T (imp_run A T)"
    and "\<And>T. length (iStream T) < n \<Longrightarrow> imp_ok T \<Longrightarrow> iState T = IMP_MORE \<Longrightarrow>
      imp_after A (imp_loop A T) = imp_result T (imp_run A T)"
    and "length (iStream S) < n" "iSizeStream S = length (iStream S)" "iState S = IMP_MORE"
  shows "imp_then A (Some (imp_put c S)) =
    imp_result S (rx_until A (iCheck S) (iSizeFrame S) (rx_put (iSizeFrame S) (iFrame S) c) (iStream S))"
proof (cases "iSizeFrame S \<le> length (iFrame S)")
  case True
  then show ?thesis using restart_result [of n A "S\<lparr>iState := IMP_SCAN\<rparr>"] assms(1,3,4)
    by (simp add: imp_put_def rx_put_def imp_result_cong [of "S\<lparr>iState := IMP_SCAN\<rparr>" S])
next
  case False
  let ?T = "S\<lparr>iFrame := iFrame S @ [c]\<rparr>"
  have "imp_after A (imp_loop A ?T) = imp_result ?T (imp_run A ?T)" by (rule assms(2)) (use assms(3-5) in \<open>simp_all add: imp_ok_def\<close>)
  then show ?thesis using False assms(5) by (simp add: imp_put_def rx_put_def imp_then_def imp_run_def imp_result_cong [of ?T S])
qed

lemma loop_result:
  assumes I: "\<And>T. length (iStream T) < n \<Longrightarrow> imp_ok T \<Longrightarrow> pppImplode A T = imp_result T (imp_run A T)"
    and L: "\<And>T. length (iStream T) < n \<Longrightarrow> imp_ok T \<Longrightarrow> iState T = IMP_MORE \<Longrightarrow>
      imp_after A (imp_loop A T) = imp_result T (imp_run A T)"
    and "length (iStream S) = n" "imp_ok S" "iState S = IMP_MORE"
  shows "imp_after A (imp_loop A S) = imp_result S (imp_run A S)"
proof (cases "iStream S")
  case Nil
  then have "iSizeStream S = 0" using assms(4) by (simp add: imp_ok_def)
  then show ?thesis using Nil assms(5)
    by (subst imp_loop.simps) (cases S, simp add: imp_after_def imp_run_def imp_result_more)
next
  case (Cons c cs)
  let ?S = "S\<lparr>iStream := cs, iSizeStream := length cs\<rparr>"
  let ?r = "rx_until A (iCheck S) (iSizeFrame S)"
  have len: "length cs < n" using Cons assms(3) by simp
  have run: "imp_after A (imp_loop A S) = imp_then A (imp_byte A c ?S)"
    using assms(4) Cons by (intro imp_loop_byte) (simp_all add: imp_ok_def)
  have spec: "imp_run A S = (case rx_more A (iCheck S) (iSizeFrame S) (iFrame S) c of
        (a1, Some f) \<Rightarrow> (a1, Some f, cs) | (a1, None) \<Rightarrow> ?r a1 cs)"
    by (simp add: imp_run_def Cons assms(5))
  have res: "imp_result (S\<lparr>iStream := ds, iSizeStream := k, iState := st\<rparr>) r = imp_result S r"
    "imp_result (S\<lparr>iStream := ds, iSizeStream := k\<rparr>) r = imp_result S r" for ds k st r
    by (simp_all add: imp_result_cong [of "S\<lparr>iStream := ds, iSizeStream := k, iState := st\<rparr>" S]
      imp_result_cong [of "S\<lparr>iStream := ds, iSizeStream := k\<rparr>" S])
  have restart: "imp_then A (Some (imp_restart (S\<lparr>iStream := ds, iSizeStream := length ds, iState := IMP_START\<rparr>))) =
      imp_result S (?r (IMP_START, []) ds)" if "length ds < n" for ds
    using restart_result [of n A "S\<lparr>iStream := ds, iSizeStream := length ds, iState := IMP_START\<rparr>"] I that by (simp add: res)
  have put: "imp_then A (Some (imp_put x (S\<lparr>iStream := ds, iSizeStream := length ds\<rparr>))) =
      imp_result S (?r (rx_put (iSizeFrame S) (iFrame S) x) ds)" if "length ds < n" for ds x
    using put_result [of n A "S\<lparr>iStream := ds, iSizeStream := length ds\<rparr>" x] I L that assms(5) by (simp add: res)
  consider (flag) "c = 0x7e" | (esc) "c = 0x7d" | (masked) "masked A c" "c \<noteq> 0x7e" "c \<noteq> 0x7d"
    | (plain) "\<not> masked A c" "c \<noteq> 0x7e" "c \<noteq> 0x7d" by blast
  then show ?thesis
  proof cases
    case flag
    show ?thesis
    proof (cases "rx_good (iCheck S) (iFrame S)")
      case True
      then show ?thesis
        by (auto simp: run spec flag rx_more_def imp_byte_def rx_good_def imp_then_def imp_result_more)
    next
      case False
      then have "imp_byte A c ?S = Some (imp_restart (?S\<lparr>iState := IMP_START\<rparr>))"
        by (auto simp: imp_byte_def flag rx_good_def)
      then show ?thesis using restart [OF len] False by (simp add: run spec flag rx_more_def)
    qed
  next
    case esc
    have sk: "skip_bytes (masked A) (iStream ?S) (iSizeStream ?S) = Some (dropWhile (masked A) cs, length (dropWhile (masked A) cs))"
      by (simp add: skip_bytes_all)
    show ?thesis
    proof (cases "dropWhile (masked A) cs")
      case Nil
      then have "imp_byte A c ?S = Some (Loop (S\<lparr>iStream := [], iSizeStream := 65535, iState := IMP_ESCAPE\<rparr>))"
        using sk by (simp add: imp_byte_def esc)
      then have "imp_after A (imp_loop A S) = None"
        by (simp add: run imp_then_def) (subst imp_loop.simps, simp add: imp_after_def)
      then show ?thesis by (simp add: spec esc rx_more_def rx_until_escape Nil imp_result_more)
    next
      case (Cons b ds)
      have "length ds < n" using len length_dropWhile_le [of "masked A" cs] Cons by simp
      moreover have "imp_byte A c ?S =
          Some (if b = 0x7e then imp_restart (S\<lparr>iStream := ds, iSizeStream := length ds, iState := IMP_START\<rparr>)
                else imp_put (b XOR 0x20) (S\<lparr>iStream := ds, iSizeStream := length ds\<rparr>))"
        using sk Cons by (simp add: imp_byte_def esc)
      ultimately show ?thesis using restart [of ds] put [of ds "b XOR 0x20"]
        by (simp add: run spec esc rx_more_def rx_until_escape Cons)
    qed
  next
    case masked
    let ?T = "S\<lparr>iStream := cs, iSizeStream := length cs\<rparr>"
    have "imp_after A (imp_loop A ?T) = imp_result ?T (imp_run A ?T)" by (rule L) (use len assms(4,5) in \<open>simp_all add: imp_ok_def\<close>)
    moreover have "imp_byte A c ?S = Some (Loop ?T)" using masked by (auto simp: imp_byte_def)
    moreover have "imp_run A ?T = ?r (IMP_MORE, iFrame S) cs" by (simp add: imp_run_def assms(5))
    ultimately show ?thesis using masked assms(5) by (simp add: run spec imp_then_def rx_more_def res)
  next
    case plain
    then have "imp_byte A c ?S = Some (imp_put c ?S)" by (simp add: imp_byte_def)
    then show ?thesis using put [OF len, of c] plain by (simp add: run spec rx_more_def)
  qed
qed

lemma marks_result:
  assumes L: "\<And>T. length (iStream T) \<le> n \<Longrightarrow> imp_ok T \<Longrightarrow> iState T = IMP_MORE \<Longrightarrow>
      imp_after A (imp_loop A T) = imp_result T (imp_run A T)"
    and "length (iStream S) \<le> n" "imp_ok S" "iState S = IMP_START"
  shows "imp_then A (imp_skip_marks S) = imp_result S (imp_run A S)"
proof -
  let ?ds = "dropWhile (\<lambda>c. c = 0x7e) (iStream S)"
  have f: "iFrame S = []" using assms(3,4) by (simp add: imp_ok_def)
  have sk: "skip_bytes (\<lambda>c. c = 0x7e) (iStream S) (iSizeStream S) = Some (?ds, length ?ds)"
    using assms(3) by (simp add: imp_ok_def skip_bytes_all)
  have run: "imp_run A S = rx_until A (iCheck S) (iSizeFrame S) (IMP_START, []) ?ds"
    using rx_until_marks f assms(4) by (simp add: imp_run_def)
  show ?thesis
  proof (cases ?ds)
    case Nil
    show ?thesis using sk [unfolded Nil] run [unfolded Nil] f assms(4)
      by (cases S) (simp add: imp_skip_marks_def imp_then_def imp_result_more)
  next
    case (Cons c cs)
    then have c: "c \<noteq> 0x7e" using hd_dropWhile [of "\<lambda>c. c = 0x7e" "iStream S"] by auto
    let ?T = "S\<lparr>iStream := ?ds, iSizeStream := length ?ds, iState := IMP_MORE\<rparr>"
    have len: "length ?ds \<le> length (iStream S)" by (rule length_dropWhile_le)
    have "imp_after A (imp_loop A ?T) = imp_result ?T (imp_run A ?T)"
    proof (rule L)
      show "length (iStream ?T) \<le> n" using len assms(2) by simp
    qed (simp_all add: imp_ok_def)
    moreover have "imp_run A ?T = imp_run A S" using run f Cons c by (simp add: imp_run_def)
    moreover have "imp_result ?T = imp_result S" by (intro ext imp_result_cong) simp_all
    ultimately show ?thesis using sk Cons by (simp add: imp_skip_marks_def imp_then_def)
  qed
qed

lemma implode_result:
  "(imp_ok S \<longrightarrow> iState S = IMP_MORE \<longrightarrow> imp_after A (imp_loop A S) = imp_result S (imp_run A S)) \<and>
   (imp_ok S \<longrightarrow> pppImplode A S = imp_result S (imp_run A S))"
proof (induction "length (iStream S)" arbitrary: S rule: less_induct)
  case less
  let ?n = "length (iStream S)"
  have I: "\<And>T. length (iStream T) < ?n \<Longrightarrow> imp_ok T \<Longrightarrow> pppImplode A T = imp_result T (imp_run A T)"
    and L: "\<And>T. length (iStream T) < ?n \<Longrightarrow> imp_ok T \<Longrightarrow> iState T = IMP_MORE \<Longrightarrow>
      imp_after A (imp_loop A T) = imp_result T (imp_run A T)"
    using less by blast+
  have L1: "imp_after A (imp_loop A T) = imp_result T (imp_run A T)"
    if "length (iStream T) \<le> ?n" "imp_ok T" "iState T = IMP_MORE" for T
  proof (cases "length (iStream T) < ?n")
    case False
    then show ?thesis using that loop_result [of ?n A T] I L by simp
  qed (use L that in blast)
  have M: "imp_then A (imp_skip_marks T) = imp_result T (imp_run A T)"
    if "length (iStream T) \<le> ?n" "imp_ok T" "iState T = IMP_START" for T
    using marks_result [OF L1 that] by blast
  have "pppImplode A S = imp_result S (imp_run A S)" if ok: "imp_ok S"
  proof (cases "iState S")
    case IMP_START
    then show ?thesis using M [of S] ok by (simp add: pppImplode_switch imp_switch_def)
  next
    case IMP_MORE
    then show ?thesis using L1 [of S] ok by (simp add: pppImplode_switch imp_switch_def imp_then_def)
  next
    case IMP_ESCAPE
    then show ?thesis using ok by (simp add: imp_ok_def)
  next
    case IMP_SCAN
    let ?ds = "dropWhile (\<lambda>c. c \<noteq> 0x7e) (iStream S)"
    have f: "iFrame S = []" using ok IMP_SCAN by (simp add: imp_ok_def)
    have sk: "skip_bytes (\<lambda>c. c \<noteq> 0x7e) (iStream S) (iSizeStream S) = Some (?ds, length ?ds)"
      using ok by (simp add: imp_ok_def skip_bytes_all)
    have run: "imp_run A S = (case ?ds of [] \<Rightarrow> ((IMP_SCAN, []), None, [])
        | c # cs \<Rightarrow> rx_until A (iCheck S) (iSizeFrame S) (IMP_START, []) (c # cs))"
      unfolding imp_run_def IMP_SCAN f by (rule rx_until_scan)
    show ?thesis
    proof (cases ?ds)
      case Nil
      show ?thesis using sk [unfolded Nil] run [unfolded Nil] f IMP_SCAN
        by (cases S) (simp add: pppImplode_switch imp_switch_def imp_then_def imp_result_more)
    next
      case (Cons c cs)
      let ?T = "S\<lparr>iStream := ?ds, iSizeStream := length ?ds, iState := IMP_START\<rparr>"
      have "length ?ds \<le> ?n" by (rule length_dropWhile_le)
      then have "imp_then A (imp_skip_marks ?T) = imp_result ?T (imp_run A ?T)"
        using f by (intro M) (simp_all add: imp_ok_def)
      moreover have "imp_run A ?T = imp_run A S" using run Cons f by (simp add: imp_run_def)
      moreover have "imp_result ?T = imp_result S" by (intro ext imp_result_cong) simp_all
      ultimately show ?thesis using sk Cons IMP_SCAN by (simp add: pppImplode_switch imp_switch_def)
    qed
  qed
  then show ?case using L1 [of S] by simp
qed

section \<open>A stream in blocks\<close>

lemma pppImplode_shorter:
  assumes "pppImplode ACCM S = Some S1" "iSizeStream S \<noteq> 0"
  shows "length (iStream S1) < length (iStream S)"
  using assms
proof (induction ACCM S rule: pppImplode.induct)
  case (1 ACCM S)
  then obtain b S2 where p: "imp_pass ACCM S = Some (b, S2)"
    by (subst (asm) (2) pppImplode.simps) (auto split: option.splits)
  have less: "length (iStream S2) < length (iStream S)" using imp_pass_shorter [OF p 1(3)] .
  show ?case
  proof (cases b)
    case True
    then have run: "pppImplode ACCM S2 = Some S1" using 1(2) p by (subst (asm) pppImplode.simps) simp
    show ?thesis
    proof (cases "iSizeStream S2 = 0")
      case True
      then have "\<not> fst (the (imp_pass ACCM S2))" using imp_pass_empty [of ACCM S2]
        by (cases "imp_pass ACCM S2") (use run in \<open>auto simp: pppImplode.simps\<close>)
      then have "imp_pass ACCM S2 = Some (False, S1)" using run
        by (subst (asm) pppImplode.simps) (auto split: option.splits if_splits)
      then have "length (iStream S1) \<le> length (iStream S2)" using True
        by (auto simp: imp_pass_def imp_switch_def imp_skip_marks_def imp_loop.simps split: imp_state.splits)
      then show ?thesis using less by simp
    next
      case False
      from 1(1) [OF p refl \<open>b\<close> run False] less show ?thesis by simp
    qed
  next
    case False
    then have "S1 = S2" using 1(2) p by (subst (asm) pppImplode.simps) simp
    then show ?thesis using less by simp
  qed
qed

text \<open>What the comment of \<open>pppImplode\<close> asks of its caller: call it until the stream buffer is empty, take
  each complete frame and start the next one in an empty buffer.\<close>

function imp_feed :: "dword \<Rightarrow> ppp_imp \<Rightarrow> (byte list list \<times> ppp_imp) option" where
  "imp_feed A S =
     (if iSizeStream S = 0 then Some ([], S)
      else case pppImplode A S of
             None \<Rightarrow> None
           | Some S1 \<Rightarrow>
               if iFrame S1 \<noteq> [] \<and> iState S1 = IMP_START then
                 map_option (\<lambda>(fs, S2). (iFrame S1 # fs, S2)) (imp_feed A (S1\<lparr>iFrame := []\<rparr>))
               else imp_feed A S1)"
  by pat_completeness auto
termination
  by (relation "measure (\<lambda>(A, S). length (iStream S))") (auto dest: pppImplode_shorter)

declare imp_feed.simps [simp del]

fun imp_feeds :: "dword \<Rightarrow> ppp_imp \<Rightarrow> byte list list \<Rightarrow> (byte list list \<times> ppp_imp) option" where
  "imp_feeds A S [] = Some ([], S)"
| "imp_feeds A S (ds # dss) =
     (case imp_feed A (S\<lparr>iStream := ds, iSizeStream := length ds\<rparr>) of
        None \<Rightarrow> None
      | Some (fs, S1) \<Rightarrow> map_option (\<lambda>(gs, S2). (fs @ gs, S2)) (imp_feeds A S1 dss))"

text \<open>All frames of a stream.\<close>

fun rx_all :: "dword \<Rightarrow> bool \<Rightarrow> nat \<Rightarrow> imp_state \<times> byte list \<Rightarrow> byte list \<Rightarrow> (imp_state \<times> byte list) \<times> byte list list" where
  "rx_all A chk sz a [] = (a, [])"
| "rx_all A chk sz a (c # cs) =
     (case rx_step A chk sz a c of
        (a1, fo) \<Rightarrow> (case rx_all A chk sz a1 cs of (a2, fs) \<Rightarrow> (a2, case fo of None \<Rightarrow> fs | Some f \<Rightarrow> f # fs)))"

lemma rx_all_append:
  "rx_all A chk sz a (xs @ ys) =
     (case rx_all A chk sz a xs of (a1, fs) \<Rightarrow> (case rx_all A chk sz a1 ys of (a2, gs) \<Rightarrow> (a2, fs @ gs)))"
  by (induction xs arbitrary: a) (auto split: prod.splits option.splits)

definition rx_ok :: "imp_state \<times> byte list \<Rightarrow> bool" where
  "rx_ok a \<longleftrightarrow> (fst a = IMP_START \<or> fst a = IMP_SCAN \<longrightarrow> snd a = [])"

lemma rx_step_ok:
  assumes "rx_step A chk sz a c = (a1, fo)" "rx_ok a"
  shows "rx_ok a1" "fo = Some f \<Longrightarrow> a1 = (IMP_START, []) \<and> f \<noteq> []"
proof -
  obtain st fr where a: "a = (st, fr)" by (cases a)
  show "rx_ok a1" using assms unfolding a
    by (cases st) (auto simp: rx_ok_def rx_more_def rx_put_def split: if_splits)
  show "a1 = (IMP_START, []) \<and> f \<noteq> []" if "fo = Some f" using assms that unfolding a
    by (cases st) (auto simp: rx_more_def rx_put_def rx_good_def split: if_splits)
qed

lemma rx_all_ok: "rx_ok a \<Longrightarrow> rx_ok (fst (rx_all A chk sz a ds))"
proof (induction ds arbitrary: a)
  case (Cons c cs)
  obtain b fo where s: "rx_step A chk sz a c = (b, fo)" by (cases "rx_step A chk sz a c")
  show ?case using Cons.IH [OF rx_step_ok(1) [OF s Cons.prems]] s by (cases "rx_all A chk sz b cs") simp
qed simp

lemma rx_until_all:
  "rx_ok a \<Longrightarrow> rx_until A chk sz a ds = (a1, fo, rest) \<Longrightarrow>
     (case fo of None \<Rightarrow> rest = [] \<and> rx_all A chk sz a ds = (a1, [])
      | Some f \<Rightarrow> f \<noteq> [] \<and> a1 = (IMP_START, []) \<and> length rest < length ds \<and>
          rx_all A chk sz a ds = (case rx_all A chk sz a1 rest of (a2, fs) \<Rightarrow> (a2, f # fs)))"
proof (induction ds arbitrary: a)
  case Nil
  then show ?case by auto
next
  case (Cons c cs)
  obtain b go where s: "rx_step A chk sz a c = (b, go)" by (cases "rx_step A chk sz a c")
  note ok = rx_step_ok [OF s Cons.prems(1)]
  show ?case
  proof (cases go)
    case None
    then show ?thesis using Cons.IH [OF ok(1)] Cons.prems(2) s by (auto split: option.splits prod.splits)
  next
    case (Some g)
    then show ?thesis using Cons.prems(2) s ok(2) [OF Some] by (auto split: prod.splits)
  qed
qed

lemma imp_feed_run:
  assumes "imp_ok S" "rx_all A (iCheck S) (iSizeFrame S) (iState S, iFrame S) (iStream S) = (a, fs)" "fst a \<noteq> IMP_ESCAPE"
  shows "imp_feed A S = Some (fs, S\<lparr>iState := fst a, iFrame := snd a, iStream := [], iSizeStream := 0\<rparr>)"
  using assms
proof (induction "length (iStream S)" arbitrary: S fs rule: less_induct)
  case less
  show ?case
  proof (cases "iStream S = []")
    case True
    then show ?thesis using less.prems by (subst imp_feed.simps) (cases S, auto simp: imp_ok_def)
  next
    case False
    then have n: "iSizeStream S \<noteq> 0" using less.prems(1) by (simp add: imp_ok_def)
    obtain a1 fo rest where u: "imp_run A S = (a1, fo, rest)" by (cases "imp_run A S") auto
    have ok: "rx_ok (iState S, iFrame S)" using less.prems(1) by (auto simp: imp_ok_def rx_ok_def)
    note U = rx_until_all [OF ok u [unfolded imp_run_def]]
    have I: "pppImplode A S = imp_result S (a1, fo, rest)" using implode_result [of S A] less.prems(1) u by simp
    show ?thesis
    proof (cases fo)
      case None
      then have e: "rest = []" "a1 = a" "fs = []" using U less.prems(2) by auto
      let ?S = "S\<lparr>iState := fst a, iFrame := snd a, iStream := [], iSizeStream := 0\<rparr>"
      have "rx_ok a" using rx_all_ok [OF ok, of A "iCheck S" "iSizeFrame S" "iStream S"] less.prems(2) by simp
      moreover have "imp_feed A ?S = Some ([], ?S)" by (subst imp_feed.simps) simp
      ultimately show ?thesis using I None e less.prems(3) n
        by (subst imp_feed.simps) (auto simp: imp_result_more rx_ok_def)
    next
      case (Some f)
      let ?S = "S\<lparr>iState := IMP_START, iFrame := f, iStream := rest, iSizeStream := length rest\<rparr>"
      obtain gs where gs: "rx_all A (iCheck S) (iSizeFrame S) (IMP_START, []) rest = (a, gs)" "fs = f # gs"
        using U Some less.prems(2) by (auto split: prod.splits)
      have "imp_feed A (?S\<lparr>iFrame := []\<rparr>) =
          Some (gs, ?S\<lparr>iFrame := [], iState := fst a, iFrame := snd a, iStream := [], iSizeStream := 0\<rparr>)"
        using U Some gs less.prems(3) by (intro less.hyps) (auto simp: imp_ok_def)
      moreover have "pppImplode A S = Some ?S" using I Some by (simp add: imp_result_more)
      ultimately show ?thesis using U Some n gs by (subst imp_feed.simps) simp
    qed
  qed
qed

section \<open>What is sent\<close>

definition stuff :: "dword \<Rightarrow> byte list \<Rightarrow> byte list" where
  "stuff A bs = concat (map (\<lambda>c. if must_escape A c then [0x7d, c XOR 0x20] else [c]) bs)"

lemma stuff_simps [simp]:
  "stuff A [] = []" "stuff A (c # cs) = (if must_escape A c then [0x7d, c XOR 0x20] else [c]) @ stuff A cs"
  "stuff A (xs @ ys) = stuff A xs @ stuff A ys"
  by (simp_all add: stuff_def)

text \<open>The frame with its checksum, escaped, between two marks.\<close>

definition ppp_stream :: "dword \<Rightarrow> byte list \<Rightarrow> byte list" where
  "ppp_stream A f = 0x7e # stuff A f @ stuff A (fcs f) @ [0x7e]"

lemma explode_loop_done:
  "explode_loop A z cs out = (True, rest, out1) \<Longrightarrow>
     out1 = out @ stuff A cs \<and> (cs \<noteq> [] \<longrightarrow> length out + length (stuff A cs) < z) \<and> rest = []"
  by (induction A z cs out rule: explode_loop.induct) (fastforce split: if_splits)+

lemma explode_loop_full:
  "explode_loop A z cs out = (False, rest, out1) \<Longrightarrow>
     \<exists>k < length cs. rest = drop k cs \<and> out1 = out @ stuff A (take k cs) \<and> z \<le> length out + length (stuff A cs) \<and>
       (k = 0 \<longrightarrow> z \<le> length out + 2)"
proof (induction A z cs out rule: explode_loop.induct)
  case (2 A z c cs out)
  let ?e = "if must_escape A c then [0x7d, c XOR 0x20] else [c]"
  show ?case
  proof (cases "if must_escape A c then z \<le> length out + 2 else z < length out + 2")
    case True
    then show ?thesis using "2.prems" by (intro exI [of _ 0]) (auto split: if_splits)
  next
    case False
    then have "explode_loop A z cs (out @ ?e) = (False, rest, out1)" using "2.prems" by (auto split: if_splits)
    moreover have "\<exists>k < length cs. rest = drop k cs \<and> out1 = (out @ ?e) @ stuff A (take k cs) \<and>
        z \<le> length (out @ ?e) + length (stuff A cs) \<and> (k = 0 \<longrightarrow> z \<le> length (out @ ?e) + 2)"
      using 2 calculation False by (cases "must_escape A c") auto
    ultimately obtain k where k: "k < length cs" "rest = drop k cs" "out1 = (out @ ?e) @ stuff A (take k cs)"
      "z \<le> length (out @ ?e) + length (stuff A cs)" by blast
    then show ?thesis by (intro exI [of _ "Suc k"]) auto
  qed
qed simp

lemma explode_loop_fits: "length out + length (stuff A cs) < z \<Longrightarrow> fst (explode_loop A z cs out)"
  using explode_loop_full [of A z cs out] by (cases "explode_loop A z cs out") (auto simp: not_le)

lemma fcstab_is_crc: "fcstab = ddal_hdlc_crc_table"
  by (simp add: fcstab_def ddal_hdlc_crc_table_def)

lemma pppfcs16_crc: "pppfcs16 c bs = foldl (\<lambda>c b. crc_step c (ucast b)) c bs"
  by (induction bs arbitrary: c) (simp_all add: crc_step_def fcstab_is_crc)

lemma xor_all_ones: "(c :: u16) XOR 0xffff = NOT c"
proof -
  have m: "(0xffff :: u16) = - 1" by simp
  show ?thesis unfolding m by simp
qed

lemma checksum_fcs: "[ucast (pppfcs16 PPPINITFCS16 f XOR PPPINITFCS16), ucast (drop_bit 8 (pppfcs16 PPPINITFCS16 f XOR PPPINITFCS16))] = fcs f"
  unfolding fcs_def PPPINITFCS16_def xor_all_ones pppfcs16_crc crc_bytes_def Let_def ..

lemma fcs_good: "pppfcs16 PPPINITFCS16 (f @ fcs f) = PPPGOODFCS16"
  using crc_fcs [of "crc_bytes f"]
  by (simp add: pppfcs16_crc fcs_def Let_def crc_bytes_def PPPINITFCS16_def PPPGOODFCS16_def)

definition exp_new :: "byte list \<Rightarrow> nat \<Rightarrow> ppp_exp" where
  "exp_new f z = \<lparr>xState = EXP_START, xChecksum = [0, 0], xFrame = f, xStream = [], xSize = z\<rparr>"

lemma fcs_length [simp]: "length (fcs f) = 2" "fcs f \<noteq> []"
  by (simp_all add: fcs_def Let_def)

lemma explode_eq:
  "explode A S = (let (done, rest, out) = explode_loop A (xSize S) (xFrame S) (xStream S)
     in (done, if done then S\<lparr>xStream := out\<rparr> else S\<lparr>xFrame := rest, xStream := out\<rparr>))"
  by (auto simp: explode_def split: prod.splits bool.splits)

text \<open>The checksum behind the frame.\<close>

lemma explode_checksum:
  assumes "explode A S = (d, S1)" "xFrame S = fcs f"
  shows "d \<Longrightarrow> xStream S1 = xStream S @ stuff A (fcs f) \<and> length (xStream S) + length (stuff A (fcs f)) < xSize S"
    "\<not> d \<Longrightarrow> xSize S \<le> length (xStream S) + length (stuff A (fcs f))" "xState S1 = xState S"
proof -
  obtain rest out where l: "explode_loop A (xSize S) (fcs f) (xStream S) = (d, rest, out)"
    using assms by (auto simp: explode_eq Let_def split: prod.splits)
  have S1: "S1 = (if d then S\<lparr>xStream := out\<rparr> else S\<lparr>xFrame := rest, xStream := out\<rparr>)"
    using assms l by (auto simp: explode_eq Let_def)
  show "d \<Longrightarrow> xStream S1 = xStream S @ stuff A (fcs f) \<and> length (xStream S) + length (stuff A (fcs f)) < xSize S"
    using explode_loop_done [of A "xSize S" "fcs f" "xStream S" rest out] l S1 by simp
  show "\<not> d \<Longrightarrow> xSize S \<le> length (xStream S) + length (stuff A (fcs f))"
    using explode_loop_full [of A "xSize S" "fcs f" "xStream S" rest out] l by auto
  show "xState S1 = xState S" using S1 by simp
qed

text \<open>A call that continues a frame: it ends it, or stops inside the frame, or inside the checksum.\<close>

lemma explode_continues:
  fixes A :: dword and S :: ppp_exp
  assumes "xState S \<noteq> EXP_CHECK" "xChecksum S = fcs f" "exp_begin S = S"
  defines "S1 \<equiv> pppExplode A S" and "all \<equiv> stuff A (xFrame S) @ stuff A (fcs f) @ [0x7e]"
  shows "(xState S1 = EXP_START \<and> length (xStream S) + length all \<le> xSize S \<and> xStream S1 = xStream S @ all) \<or>
     (xState S1 = EXP_CHECK \<and> xSize S < length (xStream S) + length all) \<or>
     (xState S1 = EXP_AGAIN \<and> xSize S < length (xStream S) + length all \<and> xChecksum S1 = fcs f \<and>
       (\<exists>k < length (xFrame S). xFrame S1 = drop k (xFrame S) \<and> xStream S1 = xStream S @ stuff A (take k (xFrame S)) \<and>
          (k = 0 \<longrightarrow> xSize S \<le> length (xStream S) + 2)))"
proof -
  obtain d rest out where l: "explode_loop A (xSize S) (xFrame S) (xStream S) = (d, rest, out)"
    by (cases "explode_loop A (xSize S) (xFrame S) (xStream S)")
  show ?thesis
  proof (cases d)
    case True
    let ?S = "S\<lparr>xStream := out, xState := EXP_CHECK, xFrame := fcs f\<rparr>"
    obtain e S2 where e: "explode A ?S = (e, S2)" by (cases "explode A ?S")
    have run: "S1 = (if e then S2\<lparr>xState := EXP_START, xStream := xStream S2 @ [0x7e]\<rparr> else S2)"
      using l True assms(1-3) e by (simp add: S1_def pppExplode_def explode_eq [of A S])
    have out: "out = xStream S @ stuff A (xFrame S)" using explode_loop_done [of A "xSize S" "xFrame S" "xStream S" rest out] l True by simp
    show ?thesis using explode_checksum [OF e, of f] run out by (cases e) (simp_all add: all_def)
  next
    case False
    then have l0: "explode_loop A (xSize S) (xFrame S) (xStream S) = (False, rest, out)" using l by simp
    obtain k where k: "k < length (xFrame S)" "rest = drop k (xFrame S)" "out = xStream S @ stuff A (take k (xFrame S))"
      "xSize S \<le> length (xStream S) + length (stuff A (xFrame S))" "k = 0 \<longrightarrow> xSize S \<le> length (xStream S) + 2"
      using explode_loop_full [OF l0] by blast
    have "S1 = S\<lparr>xFrame := rest, xStream := out, xState := EXP_AGAIN\<rparr>"
      using l False assms(1,3) by (cases "xState S"; cases S) (simp_all add: S1_def pppExplode_def explode_eq)
    then show ?thesis using k assms(2) by (simp add: all_def) blast
  qed
qed

lemma pppExplode_begin: "exp_begin (exp_new f z) = (exp_new f z)\<lparr>xChecksum := fcs f, xStream := [0x7e]\<rparr>"
  using checksum_fcs [of f] by (simp add: exp_begin_def exp_new_def Let_def)

lemma pppExplode_first:
  "pppExplode A (exp_new f z) = pppExplode A ((exp_new f z)\<lparr>xChecksum := fcs f, xStream := [0x7e], xState := EXP_AGAIN\<rparr>)"
proof -
  let ?S = "(exp_new f z)\<lparr>xChecksum := fcs f, xStream := [0x7e]\<rparr>"
  show ?thesis unfolding pppExplode_def [of A "exp_new f z"] pppExplode_begin
    by (auto simp: pppExplode_def exp_begin_def exp_new_def explode_eq split: prod.splits)
qed

lemma explode_exact:
  "(xState (pppExplode A (exp_new f z)) = EXP_START \<longleftrightarrow> length (ppp_stream A f) \<le> z) \<and>
   (length (ppp_stream A f) \<le> z \<longrightarrow> xStream (pppExplode A (exp_new f z)) = ppp_stream A f)"
proof -
  let ?S = "(exp_new f z)\<lparr>xChecksum := fcs f, xStream := [0x7e], xState := EXP_AGAIN\<rparr>"
  have s: "xState ?S \<noteq> EXP_CHECK" "xChecksum ?S = fcs f" "exp_begin ?S = ?S" by (simp_all add: exp_begin_def)
  have "pppExplode A (exp_new f z) = pppExplode A ?S" using pppExplode_first by simp
  moreover have "xFrame ?S = f" "xStream ?S = [0x7e]" "xSize ?S = z" by (simp_all add: exp_new_def)
  ultimately show ?thesis using explode_continues [OF s, of A] by (auto simp: ppp_stream_def)
qed

lemma explode_fits: "xState (pppExplode A (exp_new f z)) = EXP_START \<Longrightarrow> xStream (pppExplode A (exp_new f z)) = ppp_stream A f"
  using explode_exact [of A f z] by blast

text \<open>Calls with one stream buffer after the other; all that was written and the last state.\<close>

fun exp_calls :: "dword \<Rightarrow> ppp_exp \<Rightarrow> nat list \<Rightarrow> byte list \<times> ppp_exp" where
  "exp_calls A S [] = ([], S)"
| "exp_calls A S (z # zs) =
     (let S1 = pppExplode A (S\<lparr>xStream := [], xSize := z\<rparr>)
      in if xState S1 = EXP_START then (xStream S1, S1)
         else (case exp_calls A S1 zs of (out, S2) \<Rightarrow> (xStream S1 @ out, S2)))"

text \<open>Once the checksum is split, a call repeats what is left of it and never ends the frame.\<close>

lemma check_repeats:
  assumes "xState S = EXP_CHECK"
  shows "xState (pppExplode A S) = EXP_CHECK"
    "length (xStream S) + length (stuff A (xFrame S)) < xSize S \<Longrightarrow>
       xStream (pppExplode A S) = xStream S @ stuff A (xFrame S) \<and> xFrame (pppExplode A S) = xFrame S"
proof -
  have b: "exp_begin S = S" using assms by (simp add: exp_begin_def)
  obtain d rest out where l: "explode_loop A (xSize S) (xFrame S) (xStream S) = (d, rest, out)"
    by (cases "explode_loop A (xSize S) (xFrame S) (xStream S)")
  show "xState (pppExplode A S) = EXP_CHECK" using l assms by (cases d) (simp_all add: pppExplode_def b explode_eq)
  assume "length (xStream S) + length (stuff A (xFrame S)) < xSize S"
  then have d using explode_loop_fits [of "xStream S" A "xFrame S" "xSize S"] l by simp
  then show "xStream (pppExplode A S) = xStream S @ stuff A (xFrame S) \<and> xFrame (pppExplode A S) = xFrame S"
    using l assms explode_loop_done [of A "xSize S" "xFrame S" "xStream S" rest out] by (simp add: pppExplode_def b explode_eq)
qed

lemma check_calls: "xState S = EXP_CHECK \<Longrightarrow> xState (snd (exp_calls A S zs)) = EXP_CHECK"
proof (induction zs arbitrary: S)
  case (Cons z zs)
  have c: "xState (pppExplode A (S\<lparr>xStream := [], xSize := z\<rparr>)) = EXP_CHECK" by (rule check_repeats(1)) (simp add: Cons.prems)
  then show ?case using Cons.IH [OF c] by (simp add: Let_def split_beta)
qed simp

text \<open>Calls that continue a frame: what they write when the frame is completed.\<close>

lemma exp_calls_continue:
  assumes "xState S = EXP_AGAIN" "xChecksum S = fcs f" "exp_calls A S zs = (out, S2)" "xState S2 = EXP_START"
  shows "out = stuff A (xFrame S) @ stuff A (fcs f) @ [0x7e]"
  using assms
proof (induction zs arbitrary: S out)
  case (Cons z zs)
  let ?S = "S\<lparr>xStream := [], xSize := z\<rparr>"
  let ?S1 = "pppExplode A ?S"
  have s: "xState ?S \<noteq> EXP_CHECK" "xChecksum ?S = fcs f" "exp_begin ?S = ?S"
    using Cons.prems by (simp_all add: exp_begin_def)
  from explode_continues [OF s, of A] consider
      (start) "xState ?S1 = EXP_START" "xStream ?S1 = stuff A (xFrame S) @ stuff A (fcs f) @ [0x7e]"
    | (check) "xState ?S1 = EXP_CHECK"
    | (again) k where "xState ?S1 = EXP_AGAIN" "xChecksum ?S1 = fcs f" "xFrame ?S1 = drop k (xFrame S)"
        "xStream ?S1 = stuff A (take k (xFrame S))" by auto
  then show ?case
  proof cases
    case start
    then show ?thesis using Cons.prems(3) by (simp add: Let_def)
  next
    case check
    then show ?thesis using Cons.prems(3,4) check_calls [OF check, of A zs] by (auto simp: Let_def split: prod.splits)
  next
    case again
    obtain o2 where o2: "exp_calls A ?S1 zs = (o2, S2)" "out = xStream ?S1 @ o2"
      using Cons.prems(3) again(1) by (auto simp: Let_def split: prod.splits)
    have "out = stuff A (take k (xFrame S) @ drop k (xFrame S)) @ stuff A (fcs f) @ [0x7e]"
      using Cons.IH [OF again(1,2) o2(1) Cons.prems(4)] o2(2) again(3,4) by (simp only: stuff_simps append_assoc)
    then show ?thesis by simp
  qed
qed simp

text \<open>A frame sent through any sequence of stream buffers is, once it is completed, the stream of
  the frame; a buffer of at least four bytes always takes a part of the frame.\<close>

theorem ppp_explode_streams:
  assumes "exp_calls A (exp_new f z) zs = (out, S)" "zs \<noteq> []"
  shows "(xState S = EXP_START \<longrightarrow> out = ppp_stream A f) \<and>
    (\<forall>T. xState T = EXP_AGAIN \<and> xChecksum T = fcs f \<and> xState (pppExplode A T) = EXP_AGAIN \<and> length (xStream T) + 2 < xSize T \<longrightarrow>
       length (xFrame (pppExplode A T)) < length (xFrame T))"
proof (intro conjI allI impI)
  assume st: "xState S = EXP_START"
  obtain y ys where zs: "zs = y # ys" using assms(2) by (cases zs) auto
  let ?T = "(exp_new f y)\<lparr>xChecksum := fcs f, xStream := [0x7e], xState := EXP_AGAIN\<rparr>"
  let ?T1 = "pppExplode A ?T"
  have new: "(exp_new f z)\<lparr>xStream := [], xSize := y\<rparr> = exp_new f y" by (simp add: exp_new_def)
  have run: "(out, S) = (if xState ?T1 = EXP_START then (xStream ?T1, ?T1)
      else (case exp_calls A ?T1 ys of (o2, S2) \<Rightarrow> (xStream ?T1 @ o2, S2)))"
    using assms(1) unfolding zs exp_calls.simps new pppExplode_first Let_def by simp
  have s: "xState ?T \<noteq> EXP_CHECK" "xChecksum ?T = fcs f" "exp_begin ?T = ?T" "xFrame ?T = f" "xStream ?T = [0x7e]"
    by (simp_all add: exp_begin_def exp_new_def)
  from explode_continues [OF s(1-3), of A] consider
      (start) "xState ?T1 = EXP_START" "xStream ?T1 = ppp_stream A f"
    | (check) "xState ?T1 = EXP_CHECK"
    | (again) k where "xState ?T1 = EXP_AGAIN" "xChecksum ?T1 = fcs f" "xFrame ?T1 = drop k f"
        "xStream ?T1 = 0x7e # stuff A (take k f)" unfolding s(4,5) by (auto simp: ppp_stream_def)
  then show "out = ppp_stream A f"
  proof cases
    case start
    then show ?thesis using run by simp
  next
    case check
    then show ?thesis using run st check_calls [OF check, of A ys] by (auto split: prod.splits)
  next
    case again
    obtain o2 where o2: "exp_calls A ?T1 ys = (o2, S)" "out = xStream ?T1 @ o2" using run again(1) by (auto split: prod.splits)
    have "out = 0x7e # stuff A (take k f @ drop k f) @ stuff A (fcs f) @ [0x7e]"
      using exp_calls_continue [OF again(1,2) o2(1) st] o2(2) again(3,4) by (simp only: stuff_simps append_assoc append_Cons)
    then show ?thesis by (simp add: ppp_stream_def)
  qed
next
  fix T
  assume T: "xState T = EXP_AGAIN \<and> xChecksum T = fcs f \<and> xState (pppExplode A T) = EXP_AGAIN \<and> length (xStream T) + 2 < xSize T"
  then have "xState T \<noteq> EXP_CHECK" "xChecksum T = fcs f" "exp_begin T = T" by (simp_all add: exp_begin_def)
  from explode_continues [OF this, of A] T obtain k where "k < length (xFrame T)" "xFrame (pppExplode A T) = drop k (xFrame T)" "k \<noteq> 0"
    by auto
  then show "length (xFrame (pppExplode A T)) < length (xFrame T)" by simp
qed

section \<open>Round trip\<close>

lemma escaped_plain:
  assumes "must_escape A c"
  shows "\<not> masked R (c XOR 0x20)" "c XOR 0x20 \<noteq> 0x7e"
proof -
  have e: "\<forall>n\<in>set [0..<32]. \<not> (word_of_nat n XOR 0x20 :: byte) < 0x20 \<and> (word_of_nat n XOR 0x20 :: byte) \<noteq> 0x7e"
    by (simp add: upt_rec)
  have "\<not> c XOR 0x20 < 0x20 \<and> c XOR 0x20 \<noteq> 0x7e"
  proof (cases "c < 0x20")
    case True
    then have "unat c \<in> set [0..<32]" by (simp add: word_less_nat_alt)
    then show ?thesis using e [rule_format, of "unat c"] by simp
  next
    case False
    then have "c \<in> {0x7e, 0x7d, 0x11, 0x13, 0x91, 0x93}" using assms by (auto simp: must_escape_def masked_def)
    then show ?thesis by auto
  qed
  then show "\<not> masked R (c XOR 0x20)" "c XOR 0x20 \<noteq> 0x7e" by (simp_all add: masked_def)
qed

lemma plain_byte:
  assumes "\<not> must_escape A c" "\<forall>c. masked R c \<longrightarrow> masked A c"
  shows "c \<noteq> 0x7e" "c \<noteq> 0x7d" "\<not> masked R c"
  using assms masked_small(3) [of A c] masked_small(3) [of R c] by (auto simp: must_escape_def)

lemma rx_stuff:
  assumes "\<forall>c. masked R c \<longrightarrow> masked A c" "length fr + length bs \<le> z"
  shows "rx_all R chk z (IMP_MORE, fr) (stuff A bs) = ((IMP_MORE, fr @ bs), [])"
  using assms(2)
proof (induction bs arbitrary: fr)
  case (Cons c cs)
  have I: "rx_all R chk z (IMP_MORE, fr @ [c]) (stuff A cs) = ((IMP_MORE, fr @ c # cs), [])"
    using Cons.IH [of "fr @ [c]"] Cons.prems by simp
  show ?case
  proof (cases "must_escape A c")
    case True
    then show ?thesis using I escaped_plain [OF True] Cons.prems by (simp add: rx_more_def rx_put_def xor.assoc)
  next
    case False
    note p = plain_byte [OF False assms(1)]
    show ?thesis using I False p Cons.prems by (simp add: rx_more_def rx_put_def)
  qed
qed simp

lemma stuff_first:
  assumes "bs \<noteq> []" "\<forall>c. masked R c \<longrightarrow> masked A c"
  obtains x xs where "stuff A bs = x # xs" "x \<noteq> 0x7e"
proof -
  obtain c cs where "bs = c # cs" using assms(1) by (cases bs) auto
  then show ?thesis using that plain_byte(1) [OF _ assms(2), of c] by (cases "must_escape A c") auto
qed

lemma rx_stream:
  assumes "\<forall>c. masked R c \<longrightarrow> masked A c" "2 \<le> length f" "length f + 2 \<le> z"
  shows "rx_all R chk z (IMP_START, []) (ppp_stream A f) = ((IMP_START, []), [f])"
proof -
  have "f @ fcs f \<noteq> []" by simp
  then obtain x xs where x: "stuff A (f @ fcs f) = x # xs" "x \<noteq> 0x7e" using stuff_first [OF _ assms(1), of "f @ fcs f"] by metis
  have "rx_all R chk z (IMP_START, []) (stuff A (f @ fcs f)) = rx_all R chk z (IMP_MORE, []) (stuff A (f @ fcs f))"
    unfolding x using x(2) by simp
  also have "\<dots> = ((IMP_MORE, f @ fcs f), [])" using rx_stuff [OF assms(1), of "[]" "f @ fcs f" z chk] assms(3) by simp
  finally have "rx_all R chk z (IMP_START, []) (stuff A (f @ fcs f)) = ((IMP_MORE, f @ fcs f), [])" .
  then have "rx_all R chk z (IMP_START, []) (stuff A (f @ fcs f) @ [0x7e]) = ((IMP_START, []), [f])"
    using assms(2) fcs_good by (simp add: rx_all_append rx_more_def rx_good_def del: stuff_simps)
  then show ?thesis by (simp add: ppp_stream_def)
qed

lemma rx_streams:
  assumes "\<forall>c. masked R c \<longrightarrow> masked A c" "\<forall>f\<in>set fs. 2 \<le> length f \<and> length f + 2 \<le> z"
  shows "rx_all R chk z (IMP_START, []) (concat (map (ppp_stream A) fs)) = ((IMP_START, []), fs)"
  using assms(2) by (induction fs) (simp_all add: rx_all_append rx_stream [OF assms(1)])

text \<open>No character of a stream is one the receiver discards.\<close>

lemma stream_unmasked:
  assumes "\<forall>c. masked R c \<longrightarrow> masked A c" "b \<in> set (ppp_stream A f)"
  shows "\<not> masked R b"
proof -
  have "\<not> masked R b" if "b \<in> set (stuff A bs)" for bs
    using that by (induction bs) (auto split: if_splits dest: escaped_plain(1) plain_byte(3) [OF _ assms(1)])
  then show ?thesis using assms(2) by (auto simp: ppp_stream_def)
qed

lemma rx_escape_last:
  assumes "ds \<noteq> []" "last ds \<noteq> 0x7d" "\<forall>b\<in>set ds. \<not> masked R b"
  shows "fst (fst (rx_all R chk z a ds)) \<noteq> IMP_ESCAPE"
proof -
  obtain xs c where ds: "ds = xs @ [c]" using assms(1) by (cases ds rule: rev_cases) auto
  have "c \<noteq> 0x7d" "\<not> masked R c" using assms(2,3) ds by auto
  then have step: "fst (fst (rx_step R chk z b c)) \<noteq> IMP_ESCAPE" for b
    by (cases b, cases "fst b") (auto simp: rx_more_def rx_put_def)
  show ?thesis unfolding ds rx_all_append using step by (auto split: prod.splits) (metis fst_conv)
qed

lemma imp_feeds_run:
  assumes "rx_ok (iState S, iFrame S)" "iState S \<noteq> IMP_ESCAPE" "iStream S = []" "iSizeStream S = 0"
    "\<forall>ds\<in>set dss. (ds \<noteq> [] \<longrightarrow> last ds \<noteq> 0x7d) \<and> (\<forall>b\<in>set ds. \<not> masked A b)"
    "rx_all A (iCheck S) (iSizeFrame S) (iState S, iFrame S) (concat dss) = (a, fs)"
  shows "imp_feeds A S dss = Some (fs, S\<lparr>iState := fst a, iFrame := snd a\<rparr>)"
  using assms
proof (induction dss arbitrary: S fs)
  case Nil
  then show ?case by (cases S) auto
next
  case (Cons ds dss)
  let ?rx = "rx_all A (iCheck S) (iSizeFrame S)" and ?T = "S\<lparr>iStream := ds, iSizeStream := length ds\<rparr>"
  obtain a1 gs where d: "?rx (iState S, iFrame S) ds = (a1, gs)" by (cases "?rx (iState S, iFrame S) ds")
  obtain hs where h: "?rx a1 (concat dss) = (a, hs)" "fs = gs @ hs"
    using Cons.prems(6) d by (auto simp: rx_all_append split: prod.splits)
  have e: "fst a1 \<noteq> IMP_ESCAPE"
  proof (cases "ds = []")
    case True
    then show ?thesis using d Cons.prems(2) by auto
  next
    case False
    then show ?thesis using rx_escape_last [of ds A "iCheck S" "iSizeFrame S" "(iState S, iFrame S)"] d Cons.prems(5) by simp
  qed
  have ok: "rx_ok a1" using rx_all_ok [OF Cons.prems(1), of A "iCheck S" "iSizeFrame S" ds] d by simp
  have "imp_ok ?T" using Cons.prems(1,2) by (cases "iState S") (auto simp: imp_ok_def rx_ok_def)
  then have f: "imp_feed A ?T = Some (gs, ?T\<lparr>iState := fst a1, iFrame := snd a1, iStream := [], iSizeStream := 0\<rparr>)"
    using d e by (intro imp_feed_run) simp_all
  let ?U = "S\<lparr>iState := fst a1, iFrame := snd a1\<rparr>"
  have u: "?T\<lparr>iState := fst a1, iFrame := snd a1, iStream := [], iSizeStream := 0\<rparr> = ?U"
    using Cons.prems(3,4) by (cases S) simp
  have "imp_feeds A ?U dss = Some (hs, ?U\<lparr>iState := fst a, iFrame := snd a\<rparr>)"
    by (rule Cons.IH) (use ok e h Cons.prems(3-5) in simp_all)
  then show ?case using f h(2) unfolding u by simp
qed

definition imp_new :: "bool \<Rightarrow> nat \<Rightarrow> ppp_imp" where
  "imp_new chk z = \<lparr>iState = IMP_START, iCheck = chk, iFrame = [], iSizeFrame = z, iStream = [], iSizeStream = 0\<rparr>"

text \<open>C8: frames that are sent one after the other are received as they were, with or without test of
  the checksum, in whatever blocks the stream arrives, if no block ends with an escape. The ACCM of
  the receiver may name no character the one of the sender does not.\<close>

theorem ppp_frames_delivered:
  assumes "\<forall>c. masked R c \<longrightarrow> masked A c" "\<forall>f\<in>set fs. 2 \<le> length f \<and> length f + 2 \<le> z"
    and "\<forall>f\<in>set fs. xState (pppExplode A (exp_new f y)) = EXP_START"
    and "concat dss = concat (map (\<lambda>f. xStream (pppExplode A (exp_new f y))) fs)"
    and "\<forall>ds\<in>set dss. ds \<noteq> [] \<longrightarrow> last ds \<noteq> 0x7d"
  shows "\<exists>S. imp_feeds R (imp_new chk z) dss = Some (fs, S) \<and> iState S = IMP_START \<and> iFrame S = []"
proof -
  have s: "concat dss = concat (map (ppp_stream A) fs)"
  proof -
    have "map (\<lambda>f. xStream (pppExplode A (exp_new f y))) fs = map (ppp_stream A) fs"
      using assms(3) explode_fits by (intro map_cong) auto
    then show ?thesis using assms(4) by (simp only:)
  qed
  have um: "\<not> masked R b" if "b \<in> set ds" "ds \<in> set dss" for b ds
  proof -
    have "b \<in> set (concat dss)" using that by auto
    then show ?thesis using stream_unmasked [OF assms(1)] unfolding s by auto
  qed
  have "imp_feeds R (imp_new chk z) dss = Some (fs, (imp_new chk z)\<lparr>iState := IMP_START, iFrame := []\<rparr>)"
    using imp_feeds_run [of "imp_new chk z" dss R "(IMP_START, [])" fs] assms(5) um rx_streams [OF assms(1,2), of chk]
    by (simp add: imp_new_def rx_ok_def s)
  then show ?thesis by (intro exI [of _ "(imp_new chk z)\<lparr>iState := IMP_START, iFrame := []\<rparr>"]) simp
qed

lemma example_fcs: "fcs [0xff, 0x7e, 0xc0, 0x21] = [0xee, 0x53]"
proof -
  have t: "ddal_hdlc_crc_table ! 0 = 0" "ddal_hdlc_crc_table ! 0x81 = 0x9581" "ddal_hdlc_crc_table ! 0x41 = 0x538d" "ddal_hdlc_crc_table ! 0x39 = 0xac42"
    by (simp_all add: ddal_hdlc_crc_table_def)
  show ?thesis by (simp add: fcs_def crc_bytes_def crc_step_def t Let_def)
qed

lemma ppp_frames_delivered_witness:
  "\<exists>S. imp_feeds 0 (imp_new True 6) [[0x7e, 0xff, 0x7d, 0x5e, 0xc0], [0x21, 0xee, 0x53, 0x7e]] = Some ([[0xff, 0x7e, 0xc0, 0x21]], S) \<and>
     iState S = IMP_START \<and> iFrame S = []"
proof -
  let ?f = "[0xff, 0x7e, 0xc0, 0x21] :: byte list"
  have s: "ppp_stream 0 ?f = [0x7e, 0xff, 0x7d, 0x5e, 0xc0, 0x21, 0xee, 0x53, 0x7e]"
    by (simp add: ppp_stream_def example_fcs must_escape_def)
  have e: "xState (pppExplode 0 (exp_new ?f 9)) = EXP_START" "xStream (pppExplode 0 (exp_new ?f 9)) = ppp_stream 0 ?f"
    using explode_exact [of 0 ?f 9] s by simp_all
  show ?thesis
    using ppp_frames_delivered [of 0 0 "[?f]" 6 9 "[[0x7e, 0xff, 0x7d, 0x5e, 0xc0], [0x21, 0xee, 0x53, 0x7e]]" True] e s by simp
qed

lemma ppp_explode_streams_witness:
  "\<exists>out S. exp_calls 0 (exp_new [0xff, 0x7e, 0xc0, 0x21] 5) [5, 20] = (out, S) \<and> xState S = EXP_START \<and>
     out = ppp_stream 0 [0xff, 0x7e, 0xc0, 0x21]"
proof -
  let ?f = "[0xff, 0x7e, 0xc0, 0x21] :: byte list"
  obtain out S where c: "exp_calls 0 (exp_new ?f 5) [5, 20] = (out, S)" by (cases "exp_calls 0 (exp_new ?f 5) [5, 20]")
  have new: "(exp_new ?f 5)\<lparr>xStream := [], xSize := 5\<rparr> = exp_new ?f 5" by (simp add: exp_new_def)
  have "pppExplode 0 (exp_new ?f 5) = \<lparr>xState = EXP_AGAIN, xChecksum = fcs ?f, xFrame = [0xc0, 0x21], xStream = [0x7e, 0xff, 0x7d, 0x5e], xSize = 5\<rparr>"
    unfolding pppExplode_first by (simp add: pppExplode_def exp_begin_def exp_new_def explode_eq must_escape_def)
  moreover have "xState (pppExplode 0 \<lparr>xState = EXP_AGAIN, xChecksum = fcs ?f, xFrame = [0xc0, 0x21], xStream = [], xSize = 20\<rparr>) = EXP_START"
    by (simp add: pppExplode_def exp_begin_def explode_eq must_escape_def example_fcs)
  ultimately have "xState (snd (exp_calls 0 (exp_new ?f 5) [5, 20])) = EXP_START" by (simp add: new Let_def)
  then have "xState S = EXP_START" using c by simp
  then show ?thesis using ppp_explode_streams [OF c] c by simp
qed

section \<open>Limits\<close>

text \<open>C31: the receiver reads behind the stream exactly when the stream ends within an escape. A sender
  whose stream buffer is full within the checksum never ends the frame.\<close>

theorem ppp_split_limits:
  "(imp_ok S \<longrightarrow> (pppImplode A S = None \<longleftrightarrow> fst (fst (imp_run A S)) = IMP_ESCAPE)) \<and>
   (xState (pppExplode A (exp_new f z)) = EXP_CHECK \<longrightarrow>
      xState (snd (exp_calls A (pppExplode A (exp_new f z)) zs)) = EXP_CHECK)"
proof (intro conjI impI)
  assume ok: "imp_ok S"
  obtain a1 fo rest where u: "imp_run A S = (a1, fo, rest)" by (cases "imp_run A S") auto
  have "rx_ok (iState S, iFrame S)" using ok by (auto simp: imp_ok_def rx_ok_def)
  then have "fo \<noteq> None \<longrightarrow> a1 = (IMP_START, [])" using rx_until_all [OF _ u [unfolded imp_run_def]] by auto
  then show "pppImplode A S = None \<longleftrightarrow> fst (fst (imp_run A S)) = IMP_ESCAPE"
    using implode_result [of S A] ok u by (cases fo) (auto simp: imp_result_more)
qed (rule check_calls)

lemma ppp_split_limits_witness:
  "pppImplode 0 ((imp_new False 9)\<lparr>iStream := [0x7e, 0x41, 0x7d], iSizeStream := 3\<rparr>) = None \<and>
   xState (snd (exp_calls 0 (pppExplode 0 (exp_new [0xff, 0x7e, 0xc0, 0x21] 8)) [100, 100])) = EXP_CHECK"
proof -
  let ?S = "(imp_new False 9)\<lparr>iStream := [0x7e, 0x41, 0x7d], iSizeStream := 3\<rparr>"
  have "imp_ok ?S" "fst (fst (imp_run 0 ?S)) = IMP_ESCAPE"
    by (simp_all add: imp_ok_def imp_new_def imp_run_def rx_more_def rx_put_def)
  moreover have "xState (pppExplode 0 (exp_new [0xff, 0x7e, 0xc0, 0x21] 8)) = EXP_CHECK"
    unfolding pppExplode_def [of 0 "exp_new _ _"] pppExplode_begin by (simp add: example_fcs exp_new_def explode_eq must_escape_def)
  ultimately show ?thesis using ppp_split_limits [of ?S 0 "[0xff, 0x7e, 0xc0, 0x21]" 8 "[100, 100]"] by blast
qed

text \<open>The bytes of the frame never exceed its buffer.\<close>

definition imp_bounded :: "nat \<Rightarrow> ppp_imp \<Rightarrow> bool" where
  "imp_bounded z S \<longleftrightarrow> length (iFrame S) \<le> z \<and> iSizeFrame S = z"

definition next_bounded :: "nat \<Rightarrow> imp_next \<Rightarrow> bool" where
  "next_bounded z r = (case r of Loop S \<Rightarrow> imp_bounded z S | Again S \<Rightarrow> imp_bounded z S | Finish S \<Rightarrow> imp_bounded z S)"

lemma next_bounded_simps:
  "imp_bounded z S \<Longrightarrow> next_bounded z (imp_restart (S\<lparr>iState := st\<rparr>))"
  "imp_bounded z S \<Longrightarrow> next_bounded z (imp_put c S)"
  by (auto simp: next_bounded_def imp_bounded_def imp_restart_def imp_put_def)

lemma imp_bounded_update:
  "imp_bounded z S \<Longrightarrow> imp_bounded z (S\<lparr>iStream := ds, iSizeStream := n\<rparr>)" "imp_bounded z S \<Longrightarrow> imp_bounded z (S\<lparr>iState := st\<rparr>)"
  "imp_bounded z S \<Longrightarrow> imp_bounded z (S\<lparr>iStream := ds\<rparr>)"
  "imp_bounded z S \<Longrightarrow> imp_bounded z (S\<lparr>iSizeStream := n\<rparr>)"
  by (simp_all add: imp_bounded_def)

lemma imp_byte_bounded:
  assumes "imp_byte A c S = Some r" "imp_bounded z S"
  shows "next_bounded z r"
proof -
  have "imp_bounded z (S\<lparr>iState := st, iFrame := take n (iFrame S)\<rparr>)" for st n
    using assms(2) by (simp add: imp_bounded_def min.coboundedI1)
  then show ?thesis using assms
    by (auto simp: imp_byte_def Let_def next_bounded_def [of z "Loop _"] next_bounded_def [of z "Finish _"]
      split: if_splits option.splits list.splits intro!: next_bounded_simps imp_bounded_update)
qed

lemma imp_switch_bounded:
  assumes "imp_switch A S = Some r" "imp_bounded z S"
  shows "next_bounded z r"
proof -
  have m: "next_bounded z r" if "imp_skip_marks T = Some r" "imp_bounded z T" for T r
    using that by (auto simp: imp_skip_marks_def Let_def next_bounded_def imp_bounded_update split: option.splits if_splits)
  show ?thesis
  proof (cases "iState S")
    case IMP_SCAN
    then show ?thesis using assms
      by (auto simp: imp_switch_def Let_def next_bounded_def [of z "Finish _"] imp_bounded_update
        split: option.splits if_splits dest!: m)
  next
    case IMP_ESCAPE
    then show ?thesis using assms
      by (auto simp: imp_switch_def Let_def next_bounded_def [of z "Finish _"]
        split: option.splits if_splits list.splits intro!: next_bounded_simps imp_bounded_update)
  next
    case IMP_START
    then show ?thesis using assms by (auto simp: imp_switch_def intro: m)
  next
    case IMP_MORE
    then show ?thesis using assms by (auto simp: imp_switch_def next_bounded_def)
  qed
qed

lemma imp_loop_bounded: "imp_loop A S = Some (b, S1) \<Longrightarrow> imp_bounded z S \<Longrightarrow> imp_bounded z S1"
proof (induction A S rule: imp_loop.induct)
  case (1 A S)
  note IH = 1(1) and run = 1(2) and bd = 1(3)
  show ?case
  proof (cases "iSizeStream S = 0")
    case True
    then show ?thesis using run bd by (subst (asm) imp_loop.simps) simp
  next
    case False
    then obtain c cs where c: "iStream S = c # cs"
      using run by (subst (asm) imp_loop.simps) (auto split: list.splits)
    let ?S = "S\<lparr>iStream := cs, iSizeStream := iSizeStream S - 1\<rparr>"
    obtain r where r: "imp_byte A c ?S = Some r"
      using run False c by (subst (asm) imp_loop.simps) (auto split: option.splits)
    have nb: "next_bounded z r" by (rule imp_byte_bounded [OF r]) (use bd in \<open>simp add: imp_bounded_def\<close>)
    show ?thesis
    proof (cases r)
      case (Loop S2)
      then have "imp_loop A S2 = Some (b, S1)" using run False c r by (subst (asm) imp_loop.simps) simp
      from IH [OF False c r Loop this] nb Loop show ?thesis by (simp add: next_bounded_def)
    qed (use run False c r nb in \<open>subst (asm) imp_loop.simps, simp add: next_bounded_def\<close>)+
  qed
qed

text \<open>C32: no stream, whatever it holds, makes the receiver write behind the frame buffer.\<close>

theorem ppp_frame_bounded:
  assumes "length (iFrame S) \<le> iSizeFrame S" "pppImplode A S = Some S1"
  shows "length (iFrame S1) \<le> iSizeFrame S"
proof -
  have "imp_bounded z S1" if "imp_bounded z S" "pppImplode A S = Some S1" for z S using that
  proof (induction A S rule: pppImplode.induct)
    case (1 A S)
    then obtain b S2 where p: "imp_pass A S = Some (b, S2)"
      by (subst (asm) (2) pppImplode.simps) (auto split: option.splits)
    have b2: "imp_bounded z S2" using p imp_switch_bounded [of A S _ z] imp_loop_bounded [of A _ b S2 z] 1(2)
      by (auto simp: imp_pass_def next_bounded_def split: option.splits imp_next.splits)
    show ?case
    proof (cases b)
      case True
      then show ?thesis using 1(1) [OF p refl True b2] 1(3) p by (subst (asm) (2) pppImplode.simps) simp
    next
      case False
      then show ?thesis using 1(3) p b2 by (subst (asm) pppImplode.simps) simp
    qed
  qed
  from this [of "iSizeFrame S" S] assms show ?thesis by (simp add: imp_bounded_def)
qed

lemma ppp_frame_bounded_witness:
  "\<exists>S1. pppImplode 0 ((imp_new False 1)\<lparr>iStream := [0x41, 0x42, 0x43], iSizeStream := 3\<rparr>) = Some S1 \<and> length (iFrame S1) \<le> 1"
proof -
  let ?S = "(imp_new False 1)\<lparr>iStream := [0x41, 0x42, 0x43], iSizeStream := 3\<rparr>"
  have "imp_ok ?S" "fst (fst (imp_run 0 ?S)) = IMP_SCAN" "fst (snd (imp_run 0 ?S)) = None"
    by (simp_all add: imp_ok_def imp_new_def imp_run_def rx_more_def rx_put_def)
  then obtain S1 where S1: "pppImplode 0 ?S = Some S1"
    using implode_result [of ?S 0] by (cases "imp_run 0 ?S") (auto simp: imp_result_more)
  have "length (iFrame ?S) \<le> iSizeFrame ?S" by (simp add: imp_new_def)
  from ppp_frame_bounded [OF this S1] S1 show ?thesis by (auto simp: imp_new_def)
qed


end
