(* ===== verification/PppLcp.thy ===== *)
theory PppLcp
  imports Ppp
begin

text \<open>
  Tracking of the PPP configuration (\<open>tty_module/ppp.c\<close>): requests that name an ACCM or an address
  are changed on their way to the peer, and the answers are changed back, so that the side that sent
  the request sees the answer to what it sent.

  A frame is the list of its bytes (\<open>sizeData\<close> is the length), a position in it an offset. The driver
  is built with \<open>UNIX\<close>, so that \<open>CFG_HDR\<close> has 9 bytes. The saved frames are lists of
  \<open>LCP_FRAME_MAX\<close> bytes. What the code must not do is a fault: a search that never ends, a write
  behind a buffer. Trace output is left out.
\<close>

datatype ppp_fault = Endless | Write_behind | Read_behind

section \<open>Frames\<close>

definition LCP_FRAME_MAX :: nat where "LCP_FRAME_MAX = 96"
definition MAX_CFG_HDR_LEN :: nat where "MAX_CFG_HDR_LEN = 4"
definition sizeof_CFG_HDR :: nat where "sizeof_CFG_HDR = 9"
definition LCP_OPT_ACCM :: byte where "LCP_OPT_ACCM = 2"
definition LCP_OPT_ACCM_LEN :: nat where "LCP_OPT_ACCM_LEN = 6"
definition CFG_REQ :: byte where "CFG_REQ = 1"
definition CFG_ACK :: byte where "CFG_ACK = 2"
definition CFG_NAK :: byte where "CFG_NAK = 3"
definition CFG_REJ :: byte where "CFG_REJ = 4"

lemmas cfg_sizes = LCP_FRAME_MAX_def MAX_CFG_HDR_LEN_def sizeof_CFG_HDR_def LCP_OPT_ACCM_LEN_def
lemmas cfg_types = CFG_REQ_def CFG_ACK_def CFG_NAK_def CFG_REJ_def LCP_OPT_ACCM_def

definition ntohs :: "byte list \<Rightarrow> nat \<Rightarrow> nat" where
  "ntohs d i = unat (d ! i) * 256 + unat (d ! (i + 1))"

definition ntohl :: "byte list \<Rightarrow> nat \<Rightarrow> dword" where
  "ntohl d i = word_of_nat (ntohs d i * 65536 + ntohs d (i + 2))"

text \<open>\<open>htons\<close> and \<open>htonl\<close> take the value modulo its width.\<close>

definition htons :: "nat \<Rightarrow> nat \<Rightarrow> byte list \<Rightarrow> byte list" where
  "htons i w d = d[i := word_of_nat (w div 256), i + 1 := word_of_nat w]"

definition htonl :: "dword \<Rightarrow> byte list" where
  "htonl a = [ucast (drop_bit 24 a), ucast (drop_bit 16 a), ucast (drop_bit 8 a), ucast a]"

definition pppSyncLcpFrame :: "byte list \<Rightarrow> bool" where
  "pppSyncLcpFrame d \<longleftrightarrow>
     sizeof_CFG_HDR \<le> length d \<and> take 4 d = [0xff, 0x03, 0xc0, 0x21] \<and> d ! 4 \<le> 13 \<and> ntohs d 6 + MAX_CFG_HDR_LEN \<le> length d"

text \<open>1 for a known pattern, -1 for a beginning that may become one.\<close>

definition pppAsyncLcpFrame :: "byte list \<Rightarrow> int" where
  "pppAsyncLcpFrame d =
     (let p1 = [0x7e, 0x7d, 0xdf, 0x7d, 0x23, 0xc0, 0x21]; p2 = [0x7e, 0xff, 0x7d, 0x23, 0xc0, 0x21];
          p3 = [0x7e, 0xff, 0x03, 0xc0, 0x21]
      in if (length p1 < length d \<and> take (length p1) d = p1) \<or> (length p2 < length d \<and> take (length p2) d = p2) \<or>
            (length p3 < length d \<and> take (length p3) d = p3) then 1
         else if d \<noteq> [] \<and> d ! 0 = 0x7e \<and> length d \<le> length p3 then - 1 else 0)"

text \<open>The search for an option; \<open>None\<close> when it does not return.\<close>

partial_function (option) pppFindOpt :: "byte list \<Rightarrow> nat \<Rightarrow> nat \<Rightarrow> byte \<Rightarrow> nat option option" where
  "pppFindOpt d Opt endOpts OptId =
     (if Opt + 2 \<le> endOpts \<and> Opt + unat (d ! (Opt + 1)) \<le> endOpts then
        if d ! Opt = OptId then Some (Some Opt)
        else pppFindOpt d (Opt + unat (d ! (Opt + 1))) endOpts OptId
      else Some None)"

section \<open>State\<close>

record lcp_track =
  tFlags :: byte
  caughtReq :: byte
  caughtRej :: byte
  tReq :: "byte list"
  SavACCM :: dword
  AckACCM :: dword
  DefACCM :: dword

record ppp_config =
  TxTrack :: lcp_track
  RxTrack :: lcp_track
  ModCfg :: "byte list"

definition LCP_FLAG_ADD_ACCM :: byte where "LCP_FLAG_ADD_ACCM = 1"
definition LCP_FLAG_DEL_ACCM :: byte where "LCP_FLAG_DEL_ACCM = 2"
definition IPCP_FLAG_NUL_CFG :: byte where "IPCP_FLAG_NUL_CFG = 0x10"

lemmas lcp_flags = LCP_FLAG_ADD_ACCM_def LCP_FLAG_DEL_ACCM_def IPCP_FLAG_NUL_CFG_def

definition pppInit :: "dword \<Rightarrow> byte \<Rightarrow> dword \<Rightarrow> byte \<Rightarrow> ppp_config \<Rightarrow> ppp_config" where
  "pppInit RxACCM RxFlags TxACCM TxFlags ppp =
     ppp\<lparr>RxTrack := (RxTrack ppp)\<lparr>tFlags := RxFlags, caughtReq := 0, caughtRej := 0, AckACCM := RxACCM, DefACCM := RxACCM\<rparr>,
         TxTrack := (TxTrack ppp)\<lparr>tFlags := TxFlags, caughtReq := 0, caughtRej := 0, AckACCM := TxACCM, DefACCM := TxACCM\<rparr>\<rparr>"

text \<open>Whether a frame travels to the peer (\<open>'>'\<close>) or comes from it (\<open>'<'\<close>).\<close>

datatype direction = To_peer | From_peer

text \<open>A request is tracked by the direction it travels in, an answer by the other one.\<close>

definition req_track :: "direction \<Rightarrow> ppp_config \<Rightarrow> lcp_track" where
  "req_track dir ppp = (case dir of To_peer \<Rightarrow> TxTrack ppp | From_peer \<Rightarrow> RxTrack ppp)"

definition set_req_track :: "direction \<Rightarrow> lcp_track \<Rightarrow> ppp_config \<Rightarrow> ppp_config" where
  "set_req_track dir t ppp = (case dir of To_peer \<Rightarrow> ppp\<lparr>TxTrack := t\<rparr> | From_peer \<Rightarrow> ppp\<lparr>RxTrack := t\<rparr>)"

definition reverse :: "direction \<Rightarrow> direction" where
  "reverse dir = (case dir of To_peer \<Rightarrow> From_peer | From_peer \<Rightarrow> To_peer)"

definition copy_to :: "byte list \<Rightarrow> byte list \<Rightarrow> byte list" where
  "copy_to buf bs = bs @ drop (length bs) buf"

section \<open>LCP\<close>

text \<open>A frame without the option at an offset, as it is put together in \<open>ModCfg\<close>.\<close>

definition without_accm :: "byte list \<Rightarrow> nat \<Rightarrow> nat \<Rightarrow> byte list" where
  "without_accm d p e = htons 6 (ntohs d 6 - LCP_OPT_ACCM_LEN) (take p d @ take (e - (p + LCP_OPT_ACCM_LEN)) (drop (p + LCP_OPT_ACCM_LEN) d))"

definition lcp_request :: "direction \<Rightarrow> byte list \<Rightarrow> nat option \<Rightarrow> dword \<Rightarrow> ppp_config \<Rightarrow> byte list \<times> ppp_config" where
  "lcp_request dir d OptAccm ACCM ppp =
     (let t = (req_track dir ppp)\<lparr>caughtReq := 0\<rparr>; ppp0 = set_req_track dir t ppp; e = MAX_CFG_HDR_LEN + ntohs d 6
      in case OptAccm of
           Some p \<Rightarrow>
             if tFlags t AND LCP_FLAG_DEL_ACCM = 0 \<or> LCP_FRAME_MAX < length d then (d, ppp0)
             else
               let m = copy_to (ModCfg ppp) (without_accm d p e)
               in (take (length d - LCP_OPT_ACCM_LEN) m,
                   set_req_track dir (t\<lparr>tReq := copy_to (tReq t) d, caughtReq := LCP_FLAG_DEL_ACCM, SavACCM := ACCM\<rparr>)
                     (ppp0\<lparr>ModCfg := m\<rparr>))
         | None \<Rightarrow>
             if tFlags t AND LCP_FLAG_ADD_ACCM = 0 \<or> LCP_FRAME_MAX - LCP_OPT_ACCM_LEN < length d then (d, ppp0)
             else
               let accm = (if caughtRej t \<noteq> 0 then SavACCM t else 0);
                   f = htons 6 (ntohs d 6 + LCP_OPT_ACCM_LEN) (d @ [LCP_OPT_ACCM, 6] @ htonl accm)
               in (f, set_req_track dir (t\<lparr>tReq := copy_to (tReq t) d, caughtReq := LCP_FLAG_ADD_ACCM\<rparr>)
                        (ppp0\<lparr>ModCfg := copy_to (ModCfg ppp) f\<rparr>)))"

definition lcp_ack :: "direction \<Rightarrow> byte list \<Rightarrow> nat option \<Rightarrow> dword \<Rightarrow> ppp_config \<Rightarrow> byte list \<times> ppp_config" where
  "lcp_ack dir d OptAccm ACCM ppp =
     (let t0 = req_track (reverse dir) ppp; t = t0\<lparr>caughtReq := 0, caughtRej := 0\<rparr>
      in if caughtReq t0 = 0 then
           (d, set_req_track (reverse dir) (t\<lparr>AckACCM := (if OptAccm \<noteq> None then ACCM else DefACCM t)\<rparr>) ppp)
         else
           let r = (tReq t)[4 := CFG_ACK]
           in (take (MAX_CFG_HDR_LEN + ntohs r 6) r,
               set_req_track (reverse dir)
                 (t\<lparr>AckACCM := (if OptAccm \<noteq> None then ACCM else if caughtReq t0 = LCP_FLAG_DEL_ACCM then SavACCM t else DefACCM t),
                    tReq := r\<rparr>) ppp))"

text \<open>The only copy to \<open>ModCfg\<close> that is not preceded by a test of the length.\<close>

definition lcp_nak :: "direction \<Rightarrow> byte list \<Rightarrow> nat option \<Rightarrow> dword \<Rightarrow> ppp_config \<Rightarrow> ppp_fault + byte list \<times> ppp_config" where
  "lcp_nak dir d OptAccm ACCM ppp =
     (let t0 = req_track (reverse dir) ppp; t = t0\<lparr>caughtReq := 0\<rparr>; e = MAX_CFG_HDR_LEN + ntohs d 6
      in case OptAccm of
           Some p \<Rightarrow>
             if caughtReq t0 \<noteq> LCP_FLAG_ADD_ACCM then Inr (d, set_req_track (reverse dir) t ppp)
             else if p \<noteq> 8 \<or> e \<noteq> p + LCP_OPT_ACCM_LEN then
               if LCP_FRAME_MAX < e - LCP_OPT_ACCM_LEN then Inl Write_behind
               else if LCP_FRAME_MAX < length d - LCP_OPT_ACCM_LEN then Inl Read_behind
               else
                 let m = copy_to (ModCfg ppp) (without_accm d p e)
                 in Inr (take (length d - LCP_OPT_ACCM_LEN) m,
                         set_req_track (reverse dir) (t\<lparr>SavACCM := ACCM, caughtRej := 1\<rparr>) (ppp\<lparr>ModCfg := m\<rparr>))
             else Inr ([], set_req_track (reverse dir) (t\<lparr>tFlags := LCP_FLAG_DEL_ACCM\<rparr>) ppp)
         | None \<Rightarrow> Inr (d, set_req_track (reverse dir) t ppp))"

definition lcp_rej :: "direction \<Rightarrow> byte list \<Rightarrow> nat option \<Rightarrow> ppp_config \<Rightarrow> byte list \<times> ppp_config" where
  "lcp_rej dir d OptAccm ppp =
     (let t = (req_track (reverse dir) ppp)\<lparr>caughtReq := 0\<rparr>
      in (d, set_req_track (reverse dir) (if OptAccm = None then t else t\<lparr>tFlags := LCP_FLAG_DEL_ACCM\<rparr>) ppp))"

text \<open>The frame to pass on, \<open>[]\<close> if it is to be forgotten.\<close>

definition pppTrackLcp :: "ppp_config \<Rightarrow> byte list \<Rightarrow> direction \<Rightarrow> ppp_fault + byte list \<times> ppp_config" where
  "pppTrackLcp ppp d dir =
     (if \<not> pppSyncLcpFrame d \<or> d ! 4 < CFG_REQ \<or> CFG_REJ < d ! 4 then Inr (d, ppp)
      else case pppFindOpt d 8 (MAX_CFG_HDR_LEN + ntohs d 6) LCP_OPT_ACCM of
             None \<Rightarrow> Inl Endless
           | Some OptAccm \<Rightarrow>
               if OptAccm \<noteq> None \<and> unat (d ! (the OptAccm + 1)) \<noteq> LCP_OPT_ACCM_LEN then Inr (d, ppp)
               else
                 let ACCM = (case OptAccm of Some p \<Rightarrow> ntohl d (p + 2) | None \<Rightarrow> 0)
                 in if d ! 4 = CFG_REQ then Inr (lcp_request dir d OptAccm ACCM ppp)
                    else if d ! 4 = CFG_ACK then Inr (lcp_ack dir d OptAccm ACCM ppp)
                    else if d ! 4 = CFG_NAK then lcp_nak dir d OptAccm ACCM ppp
                    else Inr (lcp_rej dir d OptAccm ppp))"

section \<open>IPCP\<close>

text \<open>The address and control bytes of the header may be missing: the fields of \<open>CFG_HDR\<close> then lie
  \<open>Adj = 2\<close> bytes before their offset. Only what the client sends and what it gets in answer is
  tracked.\<close>

definition IPCP_OPT_ADDRS :: byte where "IPCP_OPT_ADDRS = 1"
definition IPCP_OPT_ADDR :: byte where "IPCP_OPT_ADDR = 3"
definition IPCP_OPT_ADDR_LEN :: nat where "IPCP_OPT_ADDR_LEN = 6"
definition MIN_CFG_OPT_LEN :: nat where "MIN_CFG_OPT_LEN = 4"

definition find_addr :: "byte list \<Rightarrow> nat \<Rightarrow> nat \<Rightarrow> nat option option" where
  "find_addr d opts e =
     (case pppFindOpt d opts e IPCP_OPT_ADDR of
        None \<Rightarrow> None
      | Some (Some p) \<Rightarrow> Some (Some p)
      | Some None \<Rightarrow> pppFindOpt d opts e IPCP_OPT_ADDRS)"

definition ipcp_request :: "nat \<Rightarrow> byte list \<Rightarrow> dword \<Rightarrow> byte \<Rightarrow> lcp_track \<Rightarrow> ppp_config \<Rightarrow> byte list \<times> ppp_config" where
  "ipcp_request Adj d ADDR rej t ppp =
     (if ADDR = 0 \<or> LCP_FRAME_MAX < length d then (d, ppp\<lparr>TxTrack := t\<rparr>)
      else if tFlags t AND IPCP_FLAG_NUL_CFG \<noteq> 0 \<or> rej \<noteq> 0 then
        let m = htons (6 - Adj) 4 (copy_to (ModCfg ppp) d)
        in (take (sizeof_CFG_HDR - Adj) m, ppp\<lparr>TxTrack := t\<lparr>tReq := copy_to (tReq t) d, caughtReq := 2\<rparr>, ModCfg := m\<rparr>)
      else (d, ppp\<lparr>TxTrack := t\<lparr>tReq := copy_to (tReq t) d, caughtReq := 1\<rparr>\<rparr>))"

definition ipcp_ack :: "nat \<Rightarrow> byte list \<Rightarrow> byte \<Rightarrow> lcp_track \<Rightarrow> ppp_config \<Rightarrow> ppp_fault + byte list \<times> ppp_config" where
  "ipcp_ack Adj d caught t ppp =
     (if caught \<noteq> 2 then Inr (d, ppp\<lparr>TxTrack := t\<rparr>)
      else
        let r = (tReq t)[4 - Adj := CFG_ACK]; n = MAX_CFG_HDR_LEN - Adj + ntohs r (6 - Adj)
        in if LCP_FRAME_MAX < n then Inl Read_behind else Inr (take n r, ppp\<lparr>TxTrack := t\<lparr>tReq := r\<rparr>\<rparr>))"

definition ipcp_refused :: "nat \<Rightarrow> byte list \<Rightarrow> dword \<Rightarrow> byte \<Rightarrow> lcp_track \<Rightarrow> ppp_config \<Rightarrow> byte list \<times> ppp_config" where
  "ipcp_refused Adj d ADDR caught t ppp =
     (let t1 = (if d ! (4 - Adj) = CFG_REJ \<and> ADDR \<noteq> 0 \<and> caught = 1 \<and> ntohs d (6 - Adj) = ntohs (tReq t) (6 - Adj)
                then t\<lparr>caughtRej := 1\<rparr> else t)
      in (d, ppp\<lparr>TxTrack := t1\<lparr>tFlags := tFlags t1 AND NOT IPCP_FLAG_NUL_CFG\<rparr>\<rparr>))"

definition pppTrackIpcp :: "ppp_config \<Rightarrow> byte list \<Rightarrow> direction \<Rightarrow> ppp_fault + byte list \<times> ppp_config" where
  "pppTrackIpcp ppp d dir =
     (let Adj = (if d ! 0 = 0xff then 0 else 2); sizeOpts = ntohs d (6 - Adj); e = MAX_CFG_HDR_LEN + sizeOpts - Adj;
          ty = d ! (4 - Adj)
      in if sizeOpts < MIN_CFG_OPT_LEN \<or> length d < e \<or> ty < CFG_REQ \<or> CFG_REJ < ty then Inr (d, ppp)
         else case find_addr d (8 - Adj) e of
                None \<Rightarrow> Inl Endless
              | Some OptAddr \<Rightarrow>
                  if OptAddr \<noteq> None \<and> unat (d ! (the OptAddr + 1)) < IPCP_OPT_ADDR_LEN then Inr (d, ppp)
                  else
                    let ADDR = (case OptAddr of Some p \<Rightarrow> ntohl d (p + 2) | None \<Rightarrow> 0)
                    in if (ty = CFG_REQ) = (dir = From_peer) then Inr (d, ppp)
                       else
                         let t0 = TxTrack ppp; t = t0\<lparr>caughtReq := 0, caughtRej := 0\<rparr>
                         in if ty = CFG_REQ then Inr (ipcp_request Adj d ADDR (caughtRej t0) t ppp)
                            else if ty = CFG_ACK then ipcp_ack Adj d (caughtReq t0) t ppp
                            else Inr (ipcp_refused Adj d ADDR (caughtReq t0) t ppp))"

section \<open>Frames with options\<close>

type_synonym cfg_opt = "byte \<times> byte list"

definition opt_bytes :: "cfg_opt \<Rightarrow> byte list" where
  "opt_bytes x = fst x # word_of_nat (length (snd x) + 2) # snd x"

definition opts_bytes :: "cfg_opt list \<Rightarrow> byte list" where
  "opts_bytes os = concat (map opt_bytes os)"

definition lcp_frame :: "byte \<Rightarrow> byte \<Rightarrow> cfg_opt list \<Rightarrow> byte list" where
  "lcp_frame t i os =
     [0xff, 0x03, 0xc0, 0x21, t, i, word_of_nat ((4 + length (opts_bytes os)) div 256), word_of_nat (4 + length (opts_bytes os))] @
     opts_bytes os"

definition opts_ok :: "cfg_opt list \<Rightarrow> bool" where
  "opts_ok os \<longleftrightarrow> (\<forall>x\<in>set os. length (snd x) \<le> 253) \<and> length (opts_bytes os) < 65532"

lemma opts_bytes_simps [simp]:
  "opts_bytes [] = []" "opts_bytes (x # os) = opt_bytes x @ opts_bytes os" "opts_bytes (os @ os') = opts_bytes os @ opts_bytes os'"
  by (simp_all add: opts_bytes_def)

lemma opt_bytes_length [simp]: "length (opt_bytes x) = length (snd x) + 2"
  by (simp add: opt_bytes_def)

lemma unat_byte: "unat (word_of_nat n :: byte) = n mod 256"
  by (simp add: unat_of_nat)

lemma be16: "n < 65536 \<Longrightarrow> unat (word_of_nat (n div 256) :: byte) * 256 + unat (word_of_nat n :: byte) = n"
  by (simp add: unat_byte div_mult_mod_eq)

lemma lcp_frame_parts [simp]:
  "length (lcp_frame t i os) = 8 + length (opts_bytes os)" "lcp_frame t i os ! 4 = t" "take 4 (lcp_frame t i os) = [0xff, 0x03, 0xc0, 0x21]"
  "(lcp_frame t i os)[4 := t'] = lcp_frame t' i os" "drop 8 (lcp_frame t i os) = opts_bytes os"
  by (simp_all add: lcp_frame_def)

lemma lcp_frame_size: "opts_ok os \<Longrightarrow> ntohs (lcp_frame t i os) 6 = 4 + length (opts_bytes os)"
  using be16 [of "4 + length (opts_bytes os)"] by (simp add: ntohs_def lcp_frame_def opts_ok_def)

lemma lcp_frame_sync: "opts_ok os \<Longrightarrow> t \<le> 13 \<Longrightarrow> pppSyncLcpFrame (lcp_frame t i os) \<longleftrightarrow> os \<noteq> []"
  by (cases os) (auto simp: pppSyncLcpFrame_def lcp_frame_size cfg_sizes)

text \<open>The position of the first option with an id, from an offset.\<close>

fun opt_pos :: "byte \<Rightarrow> nat \<Rightarrow> cfg_opt list \<Rightarrow> nat option" where
  "opt_pos v p [] = None"
| "opt_pos v p (x # os) = (if fst x = v then Some p else opt_pos v (p + length (snd x) + 2) os)"

lemma find_opt_frame:
  assumes "drop p d = opts_bytes os" "p + length (opts_bytes os) = e" "p \<le> length d" "\<forall>x\<in>set os. length (snd x) \<le> 253"
  shows "pppFindOpt d p e v = Some (opt_pos v p os)"
  using assms
proof (induction os arbitrary: p)
  case Nil
  then show ?case by (subst pppFindOpt.simps) simp
next
  case (Cons x os)
  have n0: "d ! p = fst x" and n1: "d ! (p + 1) = word_of_nat (length (snd x) + 2)"
  proof -
    have "drop p d ! 0 = fst x" "drop p d ! 1 = word_of_nat (length (snd x) + 2)"
      unfolding Cons.prems(1) by (simp_all add: opt_bytes_def)
    then show "d ! p = fst x" "d ! (p + 1) = word_of_nat (length (snd x) + 2)" using Cons.prems(3)
      by (simp_all only: nth_drop) simp_all
  qed
  have l: "unat (word_of_nat (length (snd x) + 2) :: byte) = length (snd x) + 2"
    using Cons.prems(4) by (simp only: unat_byte) simp
  have step: "pppFindOpt d p e v = (if fst x = v then Some (Some p) else pppFindOpt d (p + (length (snd x) + 2)) e v)"
    using Cons.prems(2) by (subst pppFindOpt.simps) (simp only: n0 n1 l, simp)
  have "drop (p + (length (snd x) + 2)) d = opts_bytes os"
  proof -
    have "drop (p + (length (snd x) + 2)) d = drop (length (snd x) + 2) (drop p d)" by (simp add: add.commute)
    then show ?thesis unfolding Cons.prems(1) by (simp add: opt_bytes_def)
  qed
  moreover have "p + (length (snd x) + 2) \<le> length d"
  proof -
    have "length (drop p d) = length (opts_bytes (x # os))" using Cons.prems(1) by simp
    then show ?thesis using Cons.prems(3) by simp
  qed
  ultimately have "pppFindOpt d (p + (length (snd x) + 2)) e v = Some (opt_pos v (p + (length (snd x) + 2)) os)"
    using Cons.prems(2,4) by (intro Cons.IH) simp_all
  then show ?case by (simp add: step add.assoc)
qed

lemma find_in_frame:
  assumes "opts_ok os"
  shows "pppFindOpt (lcp_frame t i os) 8 (MAX_CFG_HDR_LEN + ntohs (lcp_frame t i os) 6) v = Some (opt_pos v 8 os)"
  by (rule find_opt_frame) (use assms in \<open>simp_all add: lcp_frame_size cfg_sizes opts_ok_def\<close>)

lemma opt_pos_split:
  "opt_pos v p os = Some k \<Longrightarrow>
     \<exists>os1 x os2. os = os1 @ x # os2 \<and> fst x = v \<and> k = p + length (opts_bytes os1) \<and> (\<forall>y\<in>set os1. fst y \<noteq> v)"
proof (induction os arbitrary: p)
  case (Cons y os)
  show ?case
  proof (cases "fst y = v")
    case True
    then show ?thesis using Cons.prems by (intro exI [of _ "[]"] exI [of _ y] exI [of _ os]) simp
  next
    case False
    then obtain os1 x os2 where "os = os1 @ x # os2" "fst x = v" "k = p + length (snd y) + 2 + length (opts_bytes os1)"
      "\<forall>z\<in>set os1. fst z \<noteq> v" using Cons by fastforce
    then show ?thesis using False by (intro exI [of _ "y # os1"] exI [of _ x] exI [of _ os2]) simp
  qed
qed simp

lemma opt_pos_none: "opt_pos v p os = None \<longleftrightarrow> (\<forall>y\<in>set os. fst y \<noteq> v)"
  by (induction os arbitrary: p) auto

section \<open>A changed request is answered as if it had not been changed\<close>

lemma req_track_simps [simp]:
  "req_track dir (set_req_track dir t ppp) = t" "reverse (reverse dir) = dir"
  "set_req_track dir t (set_req_track dir t' ppp) = set_req_track dir t ppp"
  "req_track dir (ppp\<lparr>ModCfg := m\<rparr>) = req_track dir ppp"
  by (cases dir; simp add: req_track_def set_req_track_def reverse_def)+

lemma lcp_header_update:
  "htons 6 n ([a, b, c, e, f, g, h, k] @ xs) = [a, b, c, e, f, g, word_of_nat (n div 256), word_of_nat n] @ xs"
proof -
  have s: "(6 :: nat) = Suc (Suc (Suc (Suc (Suc (Suc 0)))))" "Suc (Suc (Suc (Suc (Suc (Suc 0))))) + 1 = Suc (Suc (Suc (Suc (Suc (Suc (Suc 0))))))"
    by simp_all
  show ?thesis unfolding htons_def s by simp
qed

lemma lcp_frame_without:
  fixes t i :: byte
  assumes "opts_ok (os1 @ x # os2)" "length (snd x) = 4"
  defines "d \<equiv> lcp_frame t i (os1 @ x # os2)"
  shows "without_accm d (8 + length (opts_bytes os1)) (8 + length (opts_bytes (os1 @ x # os2))) = lcp_frame t i (os1 @ os2)"
proof -
  let ?h = "[0xff, 0x03, 0xc0, 0x21, t, i, word_of_nat ((4 + length (opts_bytes (os1 @ x # os2))) div 256),
      word_of_nat (4 + length (opts_bytes (os1 @ x # os2)))] :: byte list"
  have d: "d = (?h @ opts_bytes os1) @ opt_bytes x @ opts_bytes os2" by (simp add: d_def lcp_frame_def)
  have p: "8 + length (opts_bytes os1) = length (?h @ opts_bytes os1)" by simp
  have tk: "take (length zs) (zs @ ws) = zs" and dr: "drop (length zs) (zs @ ws) = ws" for zs ws :: "byte list" by simp_all
  have t: "take (8 + length (opts_bytes os1)) d = ?h @ opts_bytes os1" unfolding d p by (rule tk)
  have q: "8 + length (opts_bytes os1) + LCP_OPT_ACCM_LEN = length ((?h @ opts_bytes os1) @ opt_bytes x)"
    using assms(2) by (simp add: cfg_sizes)
  have "d = ((?h @ opts_bytes os1) @ opt_bytes x) @ opts_bytes os2" by (simp only: d append_assoc)
  then have r: "drop (8 + length (opts_bytes os1) + LCP_OPT_ACCM_LEN) d = opts_bytes os2" unfolding q by (simp only: dr)
  have n: "ntohs d 6 - LCP_OPT_ACCM_LEN = 4 + length (opts_bytes (os1 @ os2))"
    using lcp_frame_size [OF assms(1)] assms(2) by (simp add: d_def cfg_sizes)
  show ?thesis unfolding without_accm_def t r n using assms(2)
    by (simp only: append_assoc lcp_header_update) (simp add: lcp_frame_def cfg_sizes)
qed

lemma ntohl_drop: "ntohl d (n + k) = ntohl (drop n d) k" if "n + k + 3 < length d"
  using that by (simp add: ntohl_def ntohs_def nth_drop add.assoc)

lemma ntohl_htonl: "ntohl (htonl a) 0 = a"
proof -
  have lt: "unat a < 2 ^ 32" using unsigned_less [of a, where 'a = nat] by simp
  have b: "unat (ucast (drop_bit n a) :: byte) = unat a div 2 ^ n mod 256" for n
  proof -
    have "unat (drop_bit n a) = unat a div 2 ^ n"
      using take_bit_nat_eq_self [OF lt] unfolding unsigned_drop_bit_eq unfolding drop_bit_eq_div by simp
    then show ?thesis by (simp only: unsigned_ucast_eq take_bit_eq_mod) simp
  qed
  have two: "m div 256 mod 256 * 256 + m mod 256 = m mod 65536" for m :: nat
    using mod_mult2_eq [of m 256 256] by (simp add: mult.commute)
  have "unat a div 16777216 = unat a div 65536 div 256" by (simp add: div_mult2_eq [symmetric])
  then have "(unat a div 16777216 mod 256 * 256 + unat a div 65536 mod 256) * 65536 +
      (unat a div 256 mod 256 * 256 + unat a mod 256) = (unat a div 65536 mod 65536) * 65536 + unat a mod 65536"
    by (simp only: two)
  also have "unat a div 65536 mod 65536 = unat a div 65536" using lt by (intro mod_less) (simp add: less_mult_imp_div_less)
  finally have "(unat a div 16777216 mod 256 * 256 + unat a div 65536 mod 256) * 65536 +
      (unat a div 256 mod 256 * 256 + unat a mod 256) = unat a" by (simp only: div_mult_mod_eq)
  moreover have "unat a div 16777216 mod 256 = unat a div 16777216" using lt by (intro mod_less) (simp add: less_mult_imp_div_less)
  ultimately show ?thesis using b [of 24] b [of 16] b [of 8] b [of 0]
    by (simp add: ntohl_def ntohs_def htonl_def)
qed

text \<open>The ACCM of an option, and of the options of a frame.\<close>

definition accm_of :: "cfg_opt list \<Rightarrow> dword" where
  "accm_of os = (case find (\<lambda>x. fst x = LCP_OPT_ACCM) os of None \<Rightarrow> 0 | Some x \<Rightarrow> ntohl (snd x) 0)"

lemma accm_in_frame:
  assumes "length (snd x) = 4"
  shows "ntohl (lcp_frame t i (os1 @ x # os2)) (8 + length (opts_bytes os1) + 2) = ntohl (snd x) 0"
proof -
  let ?d = "lcp_frame t i (os1 @ x # os2)"
  have "ntohl ?d (8 + (length (opts_bytes os1) + 2)) = ntohl (drop 8 ?d) (length (opts_bytes os1) + 2)"
    by (rule ntohl_drop) (simp add: assms)
  also have "\<dots> = ntohl (drop (length (opts_bytes os1)) (drop 8 ?d)) 2"
    unfolding lcp_frame_parts by (rule ntohl_drop) (simp add: assms)
  also have "\<dots> = ntohl (opt_bytes x @ opts_bytes os2) (2 + 0)" by simp
  also have "\<dots> = ntohl (drop 2 (opt_bytes x @ opts_bytes os2)) 0" by (rule ntohl_drop) (simp add: assms)
  also have "\<dots> = ntohl (snd x) 0"
    using assms by (simp add: opt_bytes_def ntohl_def ntohs_def nth_append)
  finally show ?thesis by (simp add: add.assoc)
qed

lemma find_split: "\<forall>y\<in>set os1. \<not> P y \<Longrightarrow> P x \<Longrightarrow> find P (os1 @ x # os2) = Some x"
  by (induction os1) auto

text \<open>What the tracking of an answer finds in it.\<close>

lemma track_frame:
  fixes t i :: byte
  assumes "opts_ok os" "os \<noteq> []" "t \<in> {CFG_REQ, CFG_ACK, CFG_NAK, CFG_REJ}"
    and "\<forall>x\<in>set os. fst x = LCP_OPT_ACCM \<longrightarrow> length (snd x) = 4"
  defines "d \<equiv> lcp_frame t i os" and "p \<equiv> opt_pos LCP_OPT_ACCM 8 os"
  shows "pppTrackLcp ppp d dir =
    (if t = CFG_REQ then Inr (lcp_request dir d p (accm_of os) ppp) else if t = CFG_ACK then Inr (lcp_ack dir d p (accm_of os) ppp)
     else if t = CFG_NAK then lcp_nak dir d p (accm_of os) ppp else Inr (lcp_rej dir d p ppp))"
proof -
  have "t \<le> 13" using assms(3) by (auto simp: cfg_types)
  then have sync: "pppSyncLcpFrame d" using lcp_frame_sync [OF assms(1)] assms(2) by (simp add: d_def)
  have ty: "\<not> (d ! 4 < CFG_REQ \<or> CFG_REJ < d ! 4)" using assms(3) by (auto simp: d_def cfg_types)
  have f: "pppFindOpt d 8 (MAX_CFG_HDR_LEN + ntohs d 6) LCP_OPT_ACCM = Some p"
    unfolding d_def p_def by (rule find_in_frame [OF assms(1)])
  have a: "(p \<noteq> None \<longrightarrow> unat (d ! (the p + 1)) = LCP_OPT_ACCM_LEN) \<and> (case p of Some p \<Rightarrow> ntohl d (p + 2) | None \<Rightarrow> 0) = accm_of os"
  proof (cases p)
    case None
    then have "find (\<lambda>x. fst x = LCP_OPT_ACCM) os = None" using opt_pos_none [of LCP_OPT_ACCM 8 os] by (auto simp: p_def find_None_iff)
    then show ?thesis using None by (simp add: accm_of_def)
  next
    case (Some k)
    then obtain os1 x os2 where os: "os = os1 @ x # os2" "fst x = LCP_OPT_ACCM" "k = 8 + length (opts_bytes os1)"
      "\<forall>y\<in>set os1. fst y \<noteq> LCP_OPT_ACCM" using opt_pos_split [of LCP_OPT_ACCM 8 os k] unfolding p_def by blast
    have x: "length (snd x) = 4" using assms(4) os(1,2) by simp
    have kd: "drop k d = opt_bytes x @ opts_bytes os2"
    proof -
      have "drop k d = drop (length (opts_bytes os1)) (drop 8 d)" by (simp only: drop_drop os(3) add.commute)
      then show ?thesis unfolding d_def lcp_frame_parts os(1) by simp
    qed
    have "k \<le> length d" by (simp add: d_def os(1,3))
    then have "d ! (k + 1) = drop k d ! 1" by (simp only: nth_drop)
    then have "d ! (k + 1) = (opt_bytes x @ opts_bytes os2) ! 1" by (simp only: kd)
    then have "d ! (k + 1) = word_of_nat 6" using x by (simp add: opt_bytes_def)
    moreover have "accm_of os = ntohl (snd x) 0" using find_split [OF os(4) [unfolded atomize_not], of x os2] os(1,2) by (simp add: accm_of_def)
    ultimately show ?thesis using accm_in_frame [OF x, of t i os1 os2] Some os(1,3) by (simp add: d_def cfg_sizes)
  qed
  show ?thesis using sync ty f a assms(3) unfolding pppTrackLcp_def by (auto simp: Let_def d_def cfg_types)
qed

lemma lcp_ack_result:
  assumes "caughtReq (req_track dir c) \<noteq> 0" "tReq (req_track dir c) = copy_to b (lcp_frame CFG_REQ i os)" "opts_ok os"
  shows "fst (lcp_ack (reverse dir) d p a c) = lcp_frame CFG_ACK i os"
    "AckACCM (req_track dir (snd (lcp_ack (reverse dir) d p a c))) =
       (if p \<noteq> None then a else if caughtReq (req_track dir c) = LCP_FLAG_DEL_ACCM then SavACCM (req_track dir c)
        else DefACCM (req_track dir c))"
proof -
  let ?q = "lcp_frame CFG_REQ i os" and ?a = "lcp_frame CFG_ACK i os"
  have r: "(tReq (req_track dir c))[4 := CFG_ACK] = ?a @ drop (length ?q) b"
    unfolding assms(2) copy_to_def by (simp add: list_update_append1)
  have n: "ntohs (?a @ xs) 6 = ntohs ?a 6" for xs
    by (simp add: ntohs_def nth_append)
  show "fst (lcp_ack (reverse dir) d p a c) = ?a" using assms(1) lcp_frame_size [OF assms(3), of CFG_ACK i]
    by (simp add: lcp_ack_def Let_def r n cfg_sizes)
  show "AckACCM (req_track dir (snd (lcp_ack (reverse dir) d p a c))) =
       (if p \<noteq> None then a else if caughtReq (req_track dir c) = LCP_FLAG_DEL_ACCM then SavACCM (req_track dir c)
        else DefACCM (req_track dir c))"
    using assms(1) by (simp add: lcp_ack_def Let_def)
qed

lemma opts_ok_filter: "opts_ok os \<Longrightarrow> opts_ok (filter P os)"
proof -
  have "length (opts_bytes (filter P os)) \<le> length (opts_bytes os)" by (induction os) auto
  then show "opts_ok os \<Longrightarrow> opts_ok (filter P os)" by (auto simp: opts_ok_def)
qed

lemma lcp_request_removes:
  fixes i :: byte
  assumes "opts_ok (os1 @ x # os2)" "length (snd x) = 4" "tFlags (req_track dir c) AND LCP_FLAG_DEL_ACCM \<noteq> 0"
    and "8 + length (opts_bytes (os1 @ x # os2)) \<le> LCP_FRAME_MAX"
  defines "d \<equiv> lcp_frame CFG_REQ i (os1 @ x # os2)"
  obtains c1 where "lcp_request dir d (Some (8 + length (opts_bytes os1))) a c = (lcp_frame CFG_REQ i (os1 @ os2), c1)"
    "caughtReq (req_track dir c1) = LCP_FLAG_DEL_ACCM" "SavACCM (req_track dir c1) = a"
    "\<exists>b. tReq (req_track dir c1) = copy_to b d"
proof -
  have e: "MAX_CFG_HDR_LEN + ntohs d 6 = 8 + length (opts_bytes (os1 @ x # os2))"
    unfolding d_def lcp_frame_size [OF assms(1)] by (simp add: cfg_sizes)
  have w: "without_accm d (8 + length (opts_bytes os1)) (8 + length (opts_bytes (os1 @ x # os2))) = lcp_frame CFG_REQ i (os1 @ os2)"
    unfolding d_def by (rule lcp_frame_without [OF assms(1,2)])
  have l: "length d - LCP_OPT_ACCM_LEN = length (lcp_frame CFG_REQ i (os1 @ os2))" "\<not> LCP_FRAME_MAX < length d"
    using assms(2,4) by (simp_all add: d_def cfg_sizes)
  have t: "take (length f) (copy_to m f) = f" for m f by (simp add: copy_to_def)
  have "fst (lcp_request dir d (Some (8 + length (opts_bytes os1))) a c) = lcp_frame CFG_REQ i (os1 @ os2)"
    using assms(3) l(2) by (simp only: lcp_request_def Let_def e w l(1) t option.case if_False fst_conv lcp_track.simps req_track_simps) simp
  moreover have "caughtReq (req_track dir (snd (lcp_request dir d (Some (8 + length (opts_bytes os1))) a c))) = LCP_FLAG_DEL_ACCM"
    "SavACCM (req_track dir (snd (lcp_request dir d (Some (8 + length (opts_bytes os1))) a c))) = a"
    "tReq (req_track dir (snd (lcp_request dir d (Some (8 + length (opts_bytes os1))) a c))) = copy_to (tReq (req_track dir c)) d"
    using assms(3) l(2) by (simp_all add: lcp_request_def Let_def)
  ultimately show ?thesis
    by (intro that [of "snd (lcp_request dir d (Some (8 + length (opts_bytes os1))) a c)"]) (auto simp: prod_eq_iff)
qed

lemma lcp_request_adds:
  fixes i :: byte
  assumes "opts_ok os" "tFlags (req_track dir c) AND LCP_FLAG_ADD_ACCM \<noteq> 0" "8 + length (opts_bytes os) \<le> LCP_FRAME_MAX - LCP_OPT_ACCM_LEN"
  defines "d \<equiv> lcp_frame CFG_REQ i os" and "accm \<equiv> (if caughtRej (req_track dir c) \<noteq> 0 then SavACCM (req_track dir c) else 0)"
  obtains c1 where "lcp_request dir d None a c = (lcp_frame CFG_REQ i (os @ [(LCP_OPT_ACCM, htonl accm)]), c1)"
    "caughtReq (req_track dir c1) = LCP_FLAG_ADD_ACCM" "\<exists>b. tReq (req_track dir c1) = copy_to b d"
proof -
  have "d @ [LCP_OPT_ACCM, 6] @ htonl accm =
      [0xff, 0x03, 0xc0, 0x21, CFG_REQ, i, word_of_nat ((4 + length (opts_bytes os)) div 256), word_of_nat (4 + length (opts_bytes os))] @
      (opts_bytes os @ [LCP_OPT_ACCM, 6] @ htonl accm)" by (simp add: d_def lcp_frame_def)
  moreover have "ntohs d 6 + LCP_OPT_ACCM_LEN = 4 + length (opts_bytes (os @ [(LCP_OPT_ACCM, htonl accm)]))"
    using lcp_frame_size [OF assms(1)] by (simp add: d_def cfg_sizes htonl_def)
  ultimately have f: "htons 6 (ntohs d 6 + LCP_OPT_ACCM_LEN) (d @ [LCP_OPT_ACCM, 6] @ htonl accm) =
      lcp_frame CFG_REQ i (os @ [(LCP_OPT_ACCM, htonl accm)])"
    by (simp only: lcp_header_update) (simp add: lcp_frame_def opt_bytes_def htonl_def)
  have l: "\<not> LCP_FRAME_MAX - LCP_OPT_ACCM_LEN < length d" using assms(3) by (simp add: d_def)
  have "fst (lcp_request dir d None a c) = lcp_frame CFG_REQ i (os @ [(LCP_OPT_ACCM, htonl accm)])"
    using assms(2) l f by (cases "caughtRej (req_track dir c) = 0") (simp_all add: lcp_request_def Let_def accm_def)
  moreover have "caughtReq (req_track dir (snd (lcp_request dir d None a c))) = LCP_FLAG_ADD_ACCM"
    "tReq (req_track dir (snd (lcp_request dir d None a c))) = copy_to (tReq (req_track dir c)) d"
    using assms(2) l by (simp_all add: lcp_request_def Let_def)
  ultimately show ?thesis by (intro that [of "snd (lcp_request dir d None a c)"]) (auto simp: prod_eq_iff)
qed

text \<open>C9: a Configure-Request whose ACCM is removed, or to which one is added, on its way to the peer:
  when the peer acknowledges the request it got, the sender of the request sees the acknowledgement of the
  request it sent, and the ACCM in force is the one of that request, or the one added. (An acknowledgement
  without options is not recognised, see below.)\<close>

theorem lcp_ack_restored:
  assumes "opts_ok os" "os \<noteq> []" "\<forall>x\<in>set os. fst x = LCP_OPT_ACCM \<longrightarrow> length (snd x) = 4"
    and "length (filter (\<lambda>x. fst x = LCP_OPT_ACCM) os) \<le> 1"
    and "pppTrackLcp c (lcp_frame CFG_REQ i os) dir = Inr (q, c1)" "q \<noteq> lcp_frame CFG_REQ i os"
  shows "\<exists>os' accm. q = lcp_frame CFG_REQ i os' \<and>
    (os' = filter (\<lambda>x. fst x \<noteq> LCP_OPT_ACCM) os \<and> accm = accm_of os \<or> os' = os @ [(LCP_OPT_ACCM, htonl accm)]) \<and>
    (os' \<noteq> [] \<longrightarrow> (\<exists>c2. pppTrackLcp c1 (lcp_frame CFG_ACK i os') (reverse dir) = Inr (lcp_frame CFG_ACK i os, c2) \<and>
       AckACCM (req_track dir c2) = accm))"
proof -
  let ?d = "lcp_frame CFG_REQ i os" and ?p = "opt_pos LCP_OPT_ACCM 8 os"
  have req: "lcp_request dir ?d ?p (accm_of os) c = (q, c1)"
    using assms(5) track_frame [OF assms(1,2) _ assms(3), of CFG_REQ c i dir] by simp
  have ack: "pppTrackLcp c1 (lcp_frame CFG_ACK i os') (reverse dir) =
      Inr (lcp_ack (reverse dir) (lcp_frame CFG_ACK i os') (opt_pos LCP_OPT_ACCM 8 os') (accm_of os') c1)"
    if "opts_ok os'" "os' \<noteq> []" "\<forall>x\<in>set os'. fst x = LCP_OPT_ACCM \<longrightarrow> length (snd x) = 4" for os'
    using track_frame [OF that(1,2) _ that(3), of CFG_ACK c1 i "reverse dir"] by (simp add: cfg_types)
  have ch: "fst (lcp_request dir ?d ?p (accm_of os) c) \<noteq> ?d" using req assms(6) by simp
  show ?thesis
  proof (cases ?p)
    case (Some k)
    then obtain os1 x os2 where os: "os = os1 @ x # os2" "fst x = LCP_OPT_ACCM" "k = 8 + length (opts_bytes os1)"
      "\<forall>y\<in>set os1. fst y \<noteq> LCP_OPT_ACCM" using opt_pos_split [of LCP_OPT_ACCM 8 os k] by blast
    have no2: "\<forall>y\<in>set os2. fst y \<noteq> LCP_OPT_ACCM" using assms(4) os(1,2) by (auto simp: filter_empty_conv)
    have fl: "filter (\<lambda>x. fst x \<noteq> LCP_OPT_ACCM) os = os1 @ os2" using os no2 by (simp add: filter_id_conv [THEN iffD2])
    have x: "length (snd x) = 4" using assms(3) os(1,2) by simp
    have fg: "tFlags (req_track dir c) AND LCP_FLAG_DEL_ACCM \<noteq> 0" "8 + length (opts_bytes os) \<le> LCP_FRAME_MAX"
      using ch Some by (auto simp: lcp_request_def Let_def not_less [symmetric])
    obtain c' where c': "lcp_request dir ?d (Some k) (accm_of os) c = (lcp_frame CFG_REQ i (os1 @ os2), c')"
      "caughtReq (req_track dir c') = LCP_FLAG_DEL_ACCM" "SavACCM (req_track dir c') = accm_of os"
      "\<exists>b. tReq (req_track dir c') = copy_to b ?d"
      using lcp_request_removes [of os1 x os2 dir c i "accm_of os"] assms(1) x fg unfolding os(1,3) by metis
    then have q: "q = lcp_frame CFG_REQ i (os1 @ os2)" "c' = c1" using req Some by simp_all
    obtain b where b: "tReq (req_track dir c1) = copy_to b ?d" using c'(4) q(2) by blast
    have np: "opt_pos LCP_OPT_ACCM 8 (os1 @ os2) = None" using os(4) no2 by (auto simp: opt_pos_none)
    have nz: "caughtReq (req_track dir c1) \<noteq> 0" using c'(2) q(2) by (simp add: lcp_flags)
    note L = lcp_ack_result [OF nz b assms(1), of "lcp_frame CFG_ACK i (os1 @ os2)" None "accm_of (os1 @ os2)"]
    have "os1 @ os2 \<noteq> [] \<longrightarrow> (\<exists>c2. pppTrackLcp c1 (lcp_frame CFG_ACK i (os1 @ os2)) (reverse dir) = Inr (lcp_frame CFG_ACK i os, c2) \<and>
       AckACCM (req_track dir c2) = accm_of os)"
    proof
      assume ne: "os1 @ os2 \<noteq> []"
      have ok: "opts_ok (os1 @ os2)" using opts_ok_filter [OF assms(1)] fl by metis
      have "\<forall>x\<in>set (os1 @ os2). fst x = LCP_OPT_ACCM \<longrightarrow> length (snd x) = 4" using os(4) no2 by auto
      from ack [OF ok ne this] np L c'(2,3) q(2)
      show "\<exists>c2. pppTrackLcp c1 (lcp_frame CFG_ACK i (os1 @ os2)) (reverse dir) = Inr (lcp_frame CFG_ACK i os, c2) \<and>
         AckACCM (req_track dir c2) = accm_of os" by (auto simp: prod_eq_iff)
    qed
    then show ?thesis unfolding q(1) fl by blast
  next
    case None
    let ?a = "if caughtRej (req_track dir c) \<noteq> 0 then SavACCM (req_track dir c) else 0"
    let ?os = "os @ [(LCP_OPT_ACCM, htonl ?a)]"
    have fg: "tFlags (req_track dir c) AND LCP_FLAG_ADD_ACCM \<noteq> 0" "8 + length (opts_bytes os) \<le> LCP_FRAME_MAX - LCP_OPT_ACCM_LEN"
      using ch None by (auto simp: lcp_request_def Let_def not_less [symmetric])
    obtain c' where c': "lcp_request dir ?d None (accm_of os) c = (lcp_frame CFG_REQ i ?os, c')"
      "caughtReq (req_track dir c') = LCP_FLAG_ADD_ACCM" "\<exists>b. tReq (req_track dir c') = copy_to b ?d"
      using lcp_request_adds [OF assms(1) fg, of i "accm_of os"] by metis
    then have q: "q = lcp_frame CFG_REQ i ?os" "c' = c1" using req None by simp_all
    obtain b where b: "tReq (req_track dir c1) = copy_to b ?d" using c'(3) q(2) by blast
    have none: "\<forall>y\<in>set os. fst y \<noteq> LCP_OPT_ACCM" using None by (simp add: opt_pos_none)
    have sp: "opt_pos LCP_OPT_ACCM 8 ?os \<noteq> None" by (simp add: opt_pos_none del: not_None_eq)
    have nz: "caughtReq (req_track dir c1) \<noteq> 0" using c'(2) q(2) by (simp add: lcp_flags)
    have ok: "opts_ok ?os" using assms(1) fg(2) by (auto simp: opts_ok_def htonl_def cfg_sizes)
    have ac: "accm_of ?os = ?a" using find_split [of os "\<lambda>x. fst x = LCP_OPT_ACCM" "(LCP_OPT_ACCM, htonl ?a)" "[]"] none
      by (simp add: accm_of_def ntohl_htonl)
    note L = lcp_ack_result [OF nz b assms(1), of "lcp_frame CFG_ACK i ?os" "opt_pos LCP_OPT_ACCM 8 ?os" "accm_of ?os"]
    have "\<forall>x\<in>set ?os. fst x = LCP_OPT_ACCM \<longrightarrow> length (snd x) = 4" using none by (simp add: htonl_def)
    from ack [OF ok _ this] L sp ac
    have "\<exists>c2. pppTrackLcp c1 (lcp_frame CFG_ACK i ?os) (reverse dir) = Inr (lcp_frame CFG_ACK i os, c2) \<and>
       AckACCM (req_track dir c2) = ?a" by (auto simp: prod_eq_iff)
    then show ?thesis unfolding q(1) by blast
  qed
qed

definition new_track :: lcp_track where
  "new_track = \<lparr>tFlags = 0, caughtReq = 0, caughtRej = 0, tReq = replicate 96 0, SavACCM = 0, AckACCM = 0, DefACCM = 0\<rparr>"

definition new_config :: "byte \<Rightarrow> byte \<Rightarrow> ppp_config" where
  "new_config rx tx = pppInit 0xffffffff rx 0 tx \<lparr>TxTrack = new_track, RxTrack = new_track, ModCfg = replicate 96 0\<rparr>"

lemma new_config_track:
  "req_track From_peer (new_config rx tx) = new_track\<lparr>tFlags := rx, AckACCM := 0xffffffff, DefACCM := 0xffffffff\<rparr>"
  "req_track To_peer (new_config rx tx) = new_track\<lparr>tFlags := tx\<rparr>"
  by (simp_all add: new_config_def pppInit_def req_track_def new_track_def)

lemma lcp_ack_restored_witness:
  "\<exists>q c1 os' c2. pppTrackLcp (new_config LCP_FLAG_ADD_ACCM 0) (lcp_frame CFG_REQ 7 [(1, [5, 220])]) From_peer = Inr (q, c1) \<and>
     q = lcp_frame CFG_REQ 7 os' \<and>
     pppTrackLcp c1 (lcp_frame CFG_ACK 7 os') To_peer = Inr (lcp_frame CFG_ACK 7 [(1, [5, 220])], c2)"
proof -
  let ?os = "[(1, [5, 220])] :: cfg_opt list" and ?c = "new_config LCP_FLAG_ADD_ACCM 0"
  have ok: "opts_ok ?os" by (simp add: opts_ok_def)
  have no: "\<forall>x\<in>set ?os. fst x = LCP_OPT_ACCM \<longrightarrow> length (snd x) = 4" by (simp add: cfg_types)
  have ne: "?os \<noteq> []" and one: "length (filter (\<lambda>x. fst x = LCP_OPT_ACCM) ?os) \<le> 1" by simp_all
  have t: "tFlags (req_track From_peer ?c) AND LCP_FLAG_ADD_ACCM \<noteq> 0" by (simp add: new_config_track lcp_flags)
  have sz: "8 + length (opts_bytes ?os) \<le> LCP_FRAME_MAX - LCP_OPT_ACCM_LEN" by (simp add: cfg_sizes)
  obtain a c1 where r: "lcp_request From_peer (lcp_frame CFG_REQ 7 ?os) None 0 ?c = (lcp_frame CFG_REQ 7 (?os @ [(LCP_OPT_ACCM, htonl a)]), c1)"
    using lcp_request_adds [OF ok t sz, of 7 0] by metis
  have run: "pppTrackLcp ?c (lcp_frame CFG_REQ 7 ?os) From_peer = Inr (lcp_frame CFG_REQ 7 (?os @ [(LCP_OPT_ACCM, htonl a)]), c1)"
    using track_frame [OF ok ne _ no, of CFG_REQ ?c 7 From_peer] r by (simp add: cfg_types accm_of_def)
  have "length (lcp_frame CFG_REQ 7 (?os @ [(LCP_OPT_ACCM, htonl a)])) \<noteq> length (lcp_frame CFG_REQ 7 ?os)" by simp
  then have "lcp_frame CFG_REQ 7 (?os @ [(LCP_OPT_ACCM, htonl a)]) \<noteq> lcp_frame CFG_REQ 7 ?os" by metis
  from lcp_ack_restored [OF ok ne no one run this] obtain os' accm c2 where
    o: "lcp_frame CFG_REQ 7 (?os @ [(LCP_OPT_ACCM, htonl a)]) = lcp_frame CFG_REQ 7 os'" "os' \<noteq> [] \<longrightarrow>
      pppTrackLcp c1 (lcp_frame CFG_ACK 7 os') (reverse From_peer) = Inr (lcp_frame CFG_ACK 7 ?os, c2)" by blast
  have "os' \<noteq> []" using arg_cong [OF o(1), of length] by auto
  then show ?thesis using run o by (intro exI conjI) (auto simp: reverse_def)
qed

section \<open>An address request\<close>

text \<open>An IPCP frame, with or without address and control bytes.\<close>

definition ipcp_adj :: "bool \<Rightarrow> nat" where "ipcp_adj z = (if z then 2 else 0)"

definition ipcp_frame :: "bool \<Rightarrow> byte \<Rightarrow> byte \<Rightarrow> cfg_opt list \<Rightarrow> byte list" where
  "ipcp_frame z t i os =
     (if z then [] else [0xff, 0x03]) @
     [0x80, 0x21, t, i, word_of_nat ((4 + length (opts_bytes os)) div 256), word_of_nat (4 + length (opts_bytes os))] @ opts_bytes os"

lemma ipcp_frame_parts:
  "length (ipcp_frame z t i os) = 8 - ipcp_adj z + length (opts_bytes os)" "ipcp_frame z t i os ! (4 - ipcp_adj z) = t"
  "(ipcp_frame z t i os)[4 - ipcp_adj z := t'] = ipcp_frame z t' i os" "drop (8 - ipcp_adj z) (ipcp_frame z t i os) = opts_bytes os"
  "(if ipcp_frame z t i os ! 0 = 0xff then 0 else 2) = ipcp_adj z" "ipcp_adj z \<le> 2"
  by (simp_all add: ipcp_frame_def ipcp_adj_def)

lemma ipcp_frame_size: "opts_ok os \<Longrightarrow> ntohs (ipcp_frame z t i os @ xs) (6 - ipcp_adj z) = 4 + length (opts_bytes os)"
  using be16 [of "4 + length (opts_bytes os)"] by (cases z) (simp_all add: ntohs_def ipcp_frame_def ipcp_adj_def opts_ok_def)

lemma find_addr_frame:
  assumes "opts_ok os"
  shows "find_addr (ipcp_frame z t i os) (8 - ipcp_adj z) (8 - ipcp_adj z + length (opts_bytes os)) \<noteq> None"
    "os = [] \<Longrightarrow> find_addr (ipcp_frame z t i os) (8 - ipcp_adj z) (8 - ipcp_adj z + length (opts_bytes os)) = Some None"
proof -
  have f: "pppFindOpt (ipcp_frame z t i os) (8 - ipcp_adj z) (8 - ipcp_adj z + length (opts_bytes os)) v = Some (opt_pos v (8 - ipcp_adj z) os)" for v
    by (rule find_opt_frame) (use assms in \<open>simp_all add: ipcp_frame_parts opts_ok_def\<close>)
  show "find_addr (ipcp_frame z t i os) (8 - ipcp_adj z) (8 - ipcp_adj z + length (opts_bytes os)) \<noteq> None"
    "os = [] \<Longrightarrow> find_addr (ipcp_frame z t i os) (8 - ipcp_adj z) (8 - ipcp_adj z + length (opts_bytes os)) = Some None"
    unfolding find_addr_def f by (auto split: option.splits)
qed

lemma track_ipcp_frame:
  fixes z :: bool and t i :: byte and c :: ppp_config
  assumes "opts_ok os" "t \<in> {CFG_REQ, CFG_ACK}" "dir = (if t = CFG_REQ then To_peer else From_peer)"
  defines "d \<equiv> ipcp_frame z t i os" and "tr \<equiv> (TxTrack c)\<lparr>caughtReq := 0, caughtRej := 0\<rparr>"
  shows "pppTrackIpcp c d dir = Inr (d, c) \<or>
    (\<exists>ADDR. pppTrackIpcp c d dir =
      (if t = CFG_REQ then Inr (ipcp_request (ipcp_adj z) d ADDR (caughtRej (TxTrack c)) tr c)
       else ipcp_ack (ipcp_adj z) d (caughtReq (TxTrack c)) tr c))"
    "os = [] \<Longrightarrow> pppTrackIpcp c d dir =
      (if t = CFG_REQ then Inr (ipcp_request (ipcp_adj z) d 0 (caughtRej (TxTrack c)) tr c)
       else ipcp_ack (ipcp_adj z) d (caughtReq (TxTrack c)) tr c)"
proof -
  have n: "ntohs d (6 - ipcp_adj z) = 4 + length (opts_bytes os)" using ipcp_frame_size [OF assms(1), of z t i "[]"] by (simp add: d_def)
  have e: "MAX_CFG_HDR_LEN + (4 + length (opts_bytes os)) - ipcp_adj z = 8 - ipcp_adj z + length (opts_bytes os)"
    using ipcp_frame_parts(6) [of z] by (simp add: cfg_sizes)
  have g: "\<not> (4 + length (opts_bytes os) < MIN_CFG_OPT_LEN \<or> length d < 8 - ipcp_adj z + length (opts_bytes os) \<or> t < CFG_REQ \<or> CFG_REJ < t)"
    using assms(2) by (auto simp: d_def ipcp_frame_parts MIN_CFG_OPT_LEN_def cfg_types)
  have dr: "(t = CFG_REQ) \<noteq> (dir = From_peer)" using assms(2,3) by (auto simp: cfg_types)
  have ty: "t \<noteq> CFG_REQ \<Longrightarrow> t = CFG_ACK" using assms(2) by auto
  have run: "pppTrackIpcp c d dir = (case find_addr d (8 - ipcp_adj z) (8 - ipcp_adj z + length (opts_bytes os)) of
      None \<Rightarrow> Inl Endless
    | Some OptAddr \<Rightarrow>
        if OptAddr \<noteq> None \<and> unat (d ! (the OptAddr + 1)) < IPCP_OPT_ADDR_LEN then Inr (d, c)
        else if t = CFG_REQ then Inr (ipcp_request (ipcp_adj z) d (case OptAddr of Some p \<Rightarrow> ntohl d (p + 2) | None \<Rightarrow> 0) (caughtRej (TxTrack c)) tr c)
        else ipcp_ack (ipcp_adj z) d (caughtReq (TxTrack c)) tr c)"
    unfolding pppTrackIpcp_def Let_def d_def ipcp_frame_parts(2,5) n [unfolded d_def] e
    using g [unfolded d_def] dr ty by (auto simp: tr_def split: option.splits)
  show "pppTrackIpcp c d dir = Inr (d, c) \<or>
    (\<exists>ADDR. pppTrackIpcp c d dir =
      (if t = CFG_REQ then Inr (ipcp_request (ipcp_adj z) d ADDR (caughtRej (TxTrack c)) tr c)
       else ipcp_ack (ipcp_adj z) d (caughtReq (TxTrack c)) tr c))"
    unfolding run using find_addr_frame(1) [OF assms(1), of z t i, folded d_def] by (auto split: option.splits)
  show "os = [] \<Longrightarrow> pppTrackIpcp c d dir =
      (if t = CFG_REQ then Inr (ipcp_request (ipcp_adj z) d 0 (caughtRej (TxTrack c)) tr c)
       else ipcp_ack (ipcp_adj z) d (caughtReq (TxTrack c)) tr c)"
    unfolding run using find_addr_frame(2) [OF assms(1), of z t i, folded d_def] by simp
qed

text \<open>A request for an address that is replaced by an empty request is answered, when the peer
  acknowledges the empty request, by the acknowledgement of the request itself. The empty request has one
  byte more than its header says.\<close>

theorem ipcp_ack_restored:
  assumes "opts_ok os" "pppTrackIpcp c (ipcp_frame z CFG_REQ i os) To_peer = Inr (q, c1)" "q \<noteq> ipcp_frame z CFG_REQ i os"
  shows "\<exists>x. q = ipcp_frame z CFG_REQ i [] @ [x] \<and>
    (\<exists>c2. pppTrackIpcp c1 (ipcp_frame z CFG_ACK i []) From_peer = Inr (ipcp_frame z CFG_ACK i os, c2))"
proof -
  let ?d = "ipcp_frame z CFG_REQ i os" and ?a = "ipcp_adj z"
  let ?tr = "(TxTrack c)\<lparr>caughtReq := 0, caughtRej := 0\<rparr>"
  obtain ADDR where r: "ipcp_request ?a ?d ADDR (caughtRej (TxTrack c)) ?tr c = (q, c1)"
    using track_ipcp_frame(1) [OF assms(1), of CFG_REQ To_peer c z i] assms(2,3) by auto
  then have fit: "length ?d \<le> LCP_FRAME_MAX" and q: "q = take (sizeof_CFG_HDR - ?a) (htons (6 - ?a) 4 (copy_to (ModCfg c) ?d))"
    and c1: "TxTrack c1 = ?tr\<lparr>tReq := copy_to (tReq (TxTrack c)) ?d, caughtReq := 2\<rparr>"
    using assms(3) by (auto simp: ipcp_request_def Let_def split: if_splits)
  have ne: "os \<noteq> []"
  proof
    assume "os = []"
    then have "pppTrackIpcp c ?d To_peer = Inr (ipcp_request ?a ?d 0 (caughtRej (TxTrack c)) ?tr c)"
      using track_ipcp_frame(2) [OF assms(1), of CFG_REQ To_peer c z i] by simp
    then show False using assms(2,3) by (simp add: ipcp_request_def)
  qed
  obtain x xs where x: "opts_bytes os = x # xs" using ne by (cases os) (simp_all add: opt_bytes_def)
  have q1: "q = ipcp_frame z CFG_REQ i [] @ [x]" unfolding q copy_to_def ipcp_frame_def x
    by (cases z) (simp_all add: htons_def ipcp_adj_def sizeof_CFG_HDR_def)
  let ?f = "ipcp_frame z CFG_ACK i os"
  have up: "(copy_to (tReq (TxTrack c)) ?d)[4 - ?a := CFG_ACK] = ?f @ drop (length ?d) (tReq (TxTrack c))"
  proof -
    have "4 - ?a < length ?d" by (simp add: ipcp_frame_parts ipcp_adj_def)
    then show ?thesis unfolding copy_to_def by (simp add: list_update_append1 ipcp_frame_parts(3))
  qed
  have n: "MAX_CFG_HDR_LEN - ?a + ntohs (?f @ drop (length ?d) (tReq (TxTrack c))) (6 - ?a) = length ?f"
    unfolding ipcp_frame_size [OF assms(1)] using ipcp_frame_parts(6) [of z] by (simp add: ipcp_frame_parts(1) cfg_sizes)
  have lf: "length ?f = length ?d" by (simp add: ipcp_frame_parts(1))
  have "pppTrackIpcp c1 (ipcp_frame z CFG_ACK i []) From_peer =
      ipcp_ack ?a (ipcp_frame z CFG_ACK i []) (caughtReq (TxTrack c1)) ((TxTrack c1)\<lparr>caughtReq := 0, caughtRej := 0\<rparr>) c1"
    using track_ipcp_frame(2) [of "[]" CFG_ACK From_peer c1 z i] by (simp add: opts_ok_def cfg_types)
  also have "\<dots> = Inr (?f, c1\<lparr>TxTrack := (TxTrack c1)\<lparr>caughtReq := 0, caughtRej := 0, tReq := ?f @ drop (length ?d) (tReq (TxTrack c))\<rparr>\<rparr>)"
    using c1 fit lf unfolding ipcp_ack_def by (simp add: up n Let_def)
  finally show ?thesis using q1 by blast
qed

lemma ipcp_ack_restored_witness:
  "\<exists>q c1 x c2. pppTrackIpcp (new_config 0 IPCP_FLAG_NUL_CFG) (ipcp_frame True CFG_REQ 7 [(3, [10, 0, 0, 1])]) To_peer = Inr (q, c1) \<and>
     q = ipcp_frame True CFG_REQ 7 [] @ [x] \<and>
     pppTrackIpcp c1 (ipcp_frame True CFG_ACK 7 []) From_peer = Inr (ipcp_frame True CFG_ACK 7 [(3, [10, 0, 0, 1])], c2)"
proof -
  let ?os = "[(3, [10, 0, 0, 1])] :: cfg_opt list" and ?c = "new_config 0 IPCP_FLAG_NUL_CFG"
  have ok: "opts_ok ?os" by (simp add: opts_ok_def)
  have "pppTrackIpcp ?c (ipcp_frame True CFG_REQ 7 ?os) To_peer =
      Inr (let p = ipcp_request 2 (ipcp_frame True CFG_REQ 7 ?os) 0x0a000001 0 (new_track\<lparr>tFlags := IPCP_FLAG_NUL_CFG\<rparr>) ?c in p)"
    by (simp add: pppTrackIpcp_def ipcp_frame_def opt_bytes_def ntohs_def ntohl_def cfg_sizes cfg_types MIN_CFG_OPT_LEN_def find_addr_def
      pppFindOpt.simps IPCP_OPT_ADDR_def IPCP_OPT_ADDR_LEN_def new_config_def pppInit_def new_track_def Let_def)
  then obtain q c1 where run: "pppTrackIpcp ?c (ipcp_frame True CFG_REQ 7 ?os) To_peer = Inr (q, c1)" and
    "q = fst (ipcp_request 2 (ipcp_frame True CFG_REQ 7 ?os) 0x0a000001 0 (new_track\<lparr>tFlags := IPCP_FLAG_NUL_CFG\<rparr>) ?c)"
    by (cases "ipcp_request 2 (ipcp_frame True CFG_REQ 7 ?os) 0x0a000001 0 (new_track\<lparr>tFlags := IPCP_FLAG_NUL_CFG\<rparr>) ?c") simp
  then have "length q \<le> 7" by (simp add: ipcp_request_def Let_def lcp_flags cfg_sizes ipcp_frame_def opt_bytes_def)
  then have "q \<noteq> ipcp_frame True CFG_REQ 7 ?os" by (auto simp: ipcp_frame_def opt_bytes_def)
  from ipcp_ack_restored [OF ok run this] run show ?thesis by blast
qed

section \<open>Limits\<close>

lemma find_opt_endless:
  assumes "p + 2 \<le> e" "d ! p \<noteq> v" "d ! (p + 1) = 0"
  shows "pppFindOpt d p e v = None"
proof -
  have "pppFindOpt d p e v = Some y \<Longrightarrow> p + 2 \<le> e \<longrightarrow> d ! p \<noteq> v \<longrightarrow> d ! (p + 1) = 0 \<longrightarrow> False" for y
    by (rule pppFindOpt.raw_induct [of "\<lambda>d p e v y. p + 2 \<le> e \<longrightarrow> d ! p \<noteq> v \<longrightarrow> d ! (p + 1) = 0 \<longrightarrow> False"])
      (auto split: if_splits)
  then show ?thesis using assms by (cases "pppFindOpt d p e v") auto
qed

text \<open>C11: a configuration frame with an option of length 0 makes the search never end, so that the driver
  hangs; a Configure-Nak with enough options is copied behind the end of \<open>ModCfg\<close>; and when the ACCM was the
  only option of a request, the acknowledgement is not changed back, as frames of 8 bytes are not tracked.\<close>

theorem lcp_limits:
  "(pppSyncLcpFrame d \<longrightarrow> CFG_REQ \<le> d ! 4 \<and> d ! 4 \<le> CFG_REJ \<longrightarrow> 6 \<le> ntohs d 6 \<longrightarrow> d ! 8 \<noteq> LCP_OPT_ACCM \<longrightarrow> d ! 9 = 0 \<longrightarrow>
      pppTrackLcp c d dir = Inl Endless) \<and>
   (opts_ok os \<longrightarrow> os \<noteq> [] \<longrightarrow> (\<forall>x\<in>set os. fst x = LCP_OPT_ACCM \<longrightarrow> length (snd x) = 4) \<longrightarrow> (\<exists>x\<in>set os. fst x = LCP_OPT_ACCM) \<longrightarrow>
      94 < length (opts_bytes os) \<longrightarrow> caughtReq (req_track dir c) = LCP_FLAG_ADD_ACCM \<longrightarrow>
      pppTrackLcp c (lcp_frame CFG_NAK i os) (reverse dir) = Inl Write_behind) \<and>
   pppTrackLcp c (lcp_frame CFG_ACK i []) dir = Inr (lcp_frame CFG_ACK i [], c)"
proof (intro conjI impI)
  assume d: "pppSyncLcpFrame d" "CFG_REQ \<le> d ! 4 \<and> d ! 4 \<le> CFG_REJ" "6 \<le> ntohs d 6" "d ! 8 \<noteq> LCP_OPT_ACCM" "d ! 9 = 0"
  have "pppFindOpt d 8 (MAX_CFG_HDR_LEN + ntohs d 6) LCP_OPT_ACCM = None"
    by (rule find_opt_endless) (use d(3-5) in \<open>simp_all add: cfg_sizes\<close>)
  then show "pppTrackLcp c d dir = Inl Endless" using d(1,2) by (simp add: pppTrackLcp_def not_less)
next
  assume o: "opts_ok os" "os \<noteq> []" "\<forall>x\<in>set os. fst x = LCP_OPT_ACCM \<longrightarrow> length (snd x) = 4" "\<exists>x\<in>set os. fst x = LCP_OPT_ACCM"
    "94 < length (opts_bytes os)" "caughtReq (req_track dir c) = LCP_FLAG_ADD_ACCM"
  obtain p where p: "opt_pos LCP_OPT_ACCM 8 os = Some p" using o(4) opt_pos_none [of LCP_OPT_ACCM 8 os] by (cases "opt_pos LCP_OPT_ACCM 8 os") auto
  have e: "MAX_CFG_HDR_LEN + ntohs (lcp_frame CFG_NAK i os) 6 = 8 + length (opts_bytes os)"
    unfolding lcp_frame_size [OF o(1)] by (simp add: cfg_sizes)
  have "lcp_nak (reverse dir) (lcp_frame CFG_NAK i os) (Some p) (accm_of os) c = Inl Write_behind"
    unfolding lcp_nak_def e using o(5,6) by (simp add: cfg_sizes)
  then show "pppTrackLcp c (lcp_frame CFG_NAK i os) (reverse dir) = Inl Write_behind"
    using track_frame [OF o(1,2) _ o(3), of CFG_NAK c i "reverse dir"] p by (simp add: cfg_types)
next
  show "pppTrackLcp c (lcp_frame CFG_ACK i []) dir = Inr (lcp_frame CFG_ACK i [], c)"
    by (simp add: pppTrackLcp_def pppSyncLcpFrame_def cfg_sizes)
qed

lemma lcp_limits_witness:
  "pppTrackLcp ((new_config 0 0)\<lparr>RxTrack := new_track\<lparr>caughtReq := LCP_FLAG_ADD_ACCM\<rparr>\<rparr>)
     [0xff, 3, 0xc0, 0x21, 1, 7, 0, 6, 1, 0] From_peer = Inl Endless \<and>
   pppTrackLcp ((new_config 0 0)\<lparr>RxTrack := new_track\<lparr>caughtReq := LCP_FLAG_ADD_ACCM\<rparr>\<rparr>)
     (lcp_frame CFG_NAK 7 [(LCP_OPT_ACCM, [0, 0, 0, 0]), (17, replicate 100 0)]) To_peer = Inl Write_behind"
proof -
  let ?d = "[0xff, 3, 0xc0, 0x21, 1, 7, 0, 6, 1, 0] :: byte list" and ?os = "[(LCP_OPT_ACCM, [0, 0, 0, 0]), (17, replicate 100 0)] :: cfg_opt list"
    and ?c = "(new_config 0 0)\<lparr>RxTrack := new_track\<lparr>caughtReq := LCP_FLAG_ADD_ACCM\<rparr>\<rparr>"
  have "pppSyncLcpFrame ?d" "CFG_REQ \<le> ?d ! 4 \<and> ?d ! 4 \<le> CFG_REJ" "6 \<le> ntohs ?d 6" "?d ! 8 \<noteq> LCP_OPT_ACCM" "?d ! 9 = 0"
    by (simp_all add: pppSyncLcpFrame_def ntohs_def cfg_sizes cfg_types)
  moreover have "opts_ok ?os" "?os \<noteq> []" "\<forall>x\<in>set ?os. fst x = LCP_OPT_ACCM \<longrightarrow> length (snd x) = 4" "\<exists>x\<in>set ?os. fst x = LCP_OPT_ACCM"
    "94 < length (opts_bytes ?os)" "caughtReq (req_track From_peer ?c) = LCP_FLAG_ADD_ACCM"
    by (simp_all add: opts_ok_def cfg_types req_track_def)
  ultimately show ?thesis using lcp_limits [of ?d ?c From_peer ?os 7] by (simp add: reverse_def)
qed

end
