(* ===== verification/Rna.thy ===== *)
theory Rna
  imports PppLcp
begin

text \<open>
  The conversion between the asynchronous frames of a RAS client and the synchronous frames of the
  B-channel (\<open>tty_module/rna.c\<close>): PPP, by the functions of \<open>Ppp\<close> and \<open>PppLcp\<close>, and the older RAS
  protocol. \<open>*Data\<close> with \<open>sizeData\<close> is a list, \<open>[]\<close> when nothing is to be passed on; the state of the
  two streams is set up anew in every call and not kept. Trace output is left out.
\<close>

section \<open>The checksum of the RAS protocol\<close>

definition crctab :: "u16 list" where
  "crctab =
   [
    0x0000, 0x1021, 0x2042, 0x3063, 0x4084, 0x50a5, 0x60c6, 0x70e7,
    0x8108, 0x9129, 0xa14a, 0xb16b, 0xc18c, 0xd1ad, 0xe1ce, 0xf1ef,
    0x1231, 0x0210, 0x3273, 0x2252, 0x52b5, 0x4294, 0x72f7, 0x62d6,
    0x9339, 0x8318, 0xb37b, 0xa35a, 0xd3bd, 0xc39c, 0xf3ff, 0xe3de,
    0x2462, 0x3443, 0x0420, 0x1401, 0x64e6, 0x74c7, 0x44a4, 0x5485,
    0xa56a, 0xb54b, 0x8528, 0x9509, 0xe5ee, 0xf5cf, 0xc5ac, 0xd58d,
    0x3653, 0x2672, 0x1611, 0x0630, 0x76d7, 0x66f6, 0x5695, 0x46b4,
    0xb75b, 0xa77a, 0x9719, 0x8738, 0xf7df, 0xe7fe, 0xd79d, 0xc7bc,
    0x48c4, 0x58e5, 0x6886, 0x78a7, 0x0840, 0x1861, 0x2802, 0x3823,
    0xc9cc, 0xd9ed, 0xe98e, 0xf9af, 0x8948, 0x9969, 0xa90a, 0xb92b,
    0x5af5, 0x4ad4, 0x7ab7, 0x6a96, 0x1a71, 0x0a50, 0x3a33, 0x2a12,
    0xdbfd, 0xcbdc, 0xfbbf, 0xeb9e, 0x9b79, 0x8b58, 0xbb3b, 0xab1a,
    0x6ca6, 0x7c87, 0x4ce4, 0x5cc5, 0x2c22, 0x3c03, 0x0c60, 0x1c41,
    0xedae, 0xfd8f, 0xcdec, 0xddcd, 0xad2a, 0xbd0b, 0x8d68, 0x9d49,
    0x7e97, 0x6eb6, 0x5ed5, 0x4ef4, 0x3e13, 0x2e32, 0x1e51, 0x0e70,
    0xff9f, 0xefbe, 0xdfdd, 0xcffc, 0xbf1b, 0xaf3a, 0x9f59, 0x8f78,
    0x9188, 0x81a9, 0xb1ca, 0xa1eb, 0xd10c, 0xc12d, 0xf14e, 0xe16f,
    0x1080, 0x00a1, 0x30c2, 0x20e3, 0x5004, 0x4025, 0x7046, 0x6067,
    0x83b9, 0x9398, 0xa3fb, 0xb3da, 0xc33d, 0xd31c, 0xe37f, 0xf35e,
    0x02b1, 0x1290, 0x22f3, 0x32d2, 0x4235, 0x5214, 0x6277, 0x7256,
    0xb5ea, 0xa5cb, 0x95a8, 0x8589, 0xf56e, 0xe54f, 0xd52c, 0xc50d,
    0x34e2, 0x24c3, 0x14a0, 0x0481, 0x7466, 0x6447, 0x5424, 0x4405,
    0xa7db, 0xb7fa, 0x8799, 0x97b8, 0xe75f, 0xf77e, 0xc71d, 0xd73c,
    0x26d3, 0x36f2, 0x0691, 0x16b0, 0x6657, 0x7676, 0x4615, 0x5634,
    0xd94c, 0xc96d, 0xf90e, 0xe92f, 0x99c8, 0x89e9, 0xb98a, 0xa9ab,
    0x5844, 0x4865, 0x7806, 0x6827, 0x18c0, 0x08e1, 0x3882, 0x28a3,
    0xcb7d, 0xdb5c, 0xeb3f, 0xfb1e, 0x8bf9, 0x9bd8, 0xabbb, 0xbb9a,
    0x4a75, 0x5a54, 0x6a37, 0x7a16, 0x0af1, 0x1ad0, 0x2ab3, 0x3a92,
    0xfd2e, 0xed0f, 0xdd6c, 0xcd4d, 0xbdaa, 0xad8b, 0x9de8, 0x8dc9,
    0x7c26, 0x6c07, 0x5c64, 0x4c45, 0x3ca2, 0x2c83, 0x1ce0, 0x0cc1,
    0xef1f, 0xff3e, 0xcf5d, 0xdf7c, 0xaf9b, 0xbfba, 0x8fd9, 0x9ff8,
    0x6e17, 0x7e36, 0x4e55, 0x5e74, 0x2e93, 0x3eb2, 0x0ed1, 0x1ef0]"

primrec rasCRC :: "u16 \<Rightarrow> byte list \<Rightarrow> u16" where
  "rasCRC crc [] = crc"
| "rasCRC crc (b # bs) = rasCRC (push_bit 8 crc XOR crctab ! unat (drop_bit 8 crc XOR ucast b)) bs"

text \<open>One bit, highest first, with the polynomial of CCITT; and eight of them.\<close>

definition ras_bit :: "u16 \<Rightarrow> u16" where
  "ras_bit c = (if bit c 15 then push_bit 1 c XOR 0x1021 else push_bit 1 c)"

definition ras_byte :: "u16 \<Rightarrow> u16" where
  "ras_byte c = ras_bit (ras_bit (ras_bit (ras_bit (ras_bit (ras_bit (ras_bit (ras_bit c)))))))"

definition ras_int :: "int \<Rightarrow> int" where
  "ras_int c = (if 32768 \<le> c then (2 * c - 65536) XOR 0x1021 else 2 * c)"

text \<open>The table doubles: an entry follows from the one at half its index by one step.\<close>

lemma crctab_ints:
  "map uint crctab = concat (map (\<lambda>t. [ras_int t, ras_int t XOR 0x1021]) (map uint (take 128 crctab)))"
  by code_simp

lemma crctab_length: "length crctab = 256"
  by (simp add: crctab_def)

lemma uint_ras_bit: "uint (ras_bit c) = ras_int (uint c)"
proof -
  have r: "0 \<le> uint c" "uint c < 65536" using uint_ge_0 [of c] uint_lt2p [of c] by simp_all
  have b: "bit c 15 \<longleftrightarrow> 32768 \<le> uint c"
  proof -
    have "bit c 15 \<longleftrightarrow> bit (uint c) 15" by (simp add: bit_uint_iff)
    also have "\<dots> \<longleftrightarrow> odd (uint c div 2 ^ 15)" by (rule bit_iff_odd)
    finally have "bit c 15 \<longleftrightarrow> odd (uint c div 32768)" by simp
    moreover have "uint c div 32768 = (if 32768 \<le> uint c then 1 else 0)" using r by auto
    ultimately show ?thesis by simp
  qed
  have p: "uint (push_bit 1 c) = (if 32768 \<le> uint c then 2 * uint c - 65536 else 2 * uint c)"
  proof -
    have "uint (push_bit 1 c) = (2 * uint c) mod 65536" by (simp add: push_bit_eq_mult uint_word_ariths mult.commute)
    moreover have "(2 * uint c) mod 65536 = 2 * uint c - 65536" if "32768 \<le> uint c"
    proof -
      have "(2 * uint c) mod 65536 = (2 * uint c - 65536) mod 65536" by (rule mod_pos_geq) (use that in simp_all)
      also have "\<dots> = 2 * uint c - 65536" by (rule mod_pos_pos_trivial) (use that r in simp_all)
      finally show ?thesis .
    qed
    ultimately show ?thesis using r by auto
  qed
  show ?thesis unfolding ras_bit_def ras_int_def b
    by (simp only: if_distrib [of uint] p unsigned_xor_eq) simp
qed

lemma ras_bit_xor: "ras_bit (a XOR b) = ras_bit a XOR ras_bit b"
proof -
  have d: "push_bit 1 (a XOR b) = push_bit 1 a XOR push_bit 1 b" by (rule push_bit_xor)
  have b: "bit (a XOR b) 15 \<longleftrightarrow> bit a 15 \<noteq> bit b 15" by (simp add: bit_xor_iff)
  show ?thesis unfolding ras_bit_def d b
    by (cases "bit a 15"; cases "bit b 15") (simp_all add: xor.assoc xor.left_commute xor.commute)
qed

lemma ras_byte_xor: "ras_byte (a XOR b) = ras_byte a XOR ras_byte b"
  by (simp only: ras_byte_def ras_bit_xor)

lemma ras_byte_low: "ras_byte (take_bit 8 c) = push_bit 8 (take_bit 8 c)"
proof -
  have s: "ras_bit (push_bit n (take_bit 8 c)) = push_bit (Suc n) (take_bit 8 c)" if "n < 8" for n
  proof -
    have "\<not> bit (push_bit n (take_bit 8 c)) 15" using that by (auto simp: bit_push_bit_iff bit_take_bit_iff)
    then show ?thesis by (simp add: ras_bit_def)
  qed
  have l: "0 < (8 :: nat)" "Suc 0 < 8" "Suc (Suc 0) < 8" "Suc (Suc (Suc 0)) < 8" "Suc (Suc (Suc (Suc 0))) < 8"
    "Suc (Suc (Suc (Suc (Suc 0)))) < 8" "Suc (Suc (Suc (Suc (Suc (Suc 0))))) < 8"
    "Suc (Suc (Suc (Suc (Suc (Suc (Suc 0)))))) < 8" by simp_all
  have "ras_byte (push_bit 0 (take_bit 8 c)) = push_bit (Suc (Suc (Suc (Suc (Suc (Suc (Suc (Suc 0)))))))) (take_bit 8 c)"
    unfolding ras_byte_def by (simp only: s l)
  then show ?thesis by (simp add: numeral_eq_Suc)
qed

lemma concat_pairs_nth:
  "i < length xs \<Longrightarrow> concat (map (\<lambda>x. [f x, g x]) xs) ! (2 * i) = f (xs ! i) \<and> concat (map (\<lambda>x. [f x, g x]) xs) ! (2 * i + 1) = g (xs ! i)"
proof (induction xs arbitrary: i)
  case (Cons x xs)
  then show ?case by (cases i) auto
qed simp

lemma crctab_step:
  assumes "i < 128"
  shows "crctab ! (2 * i) = ras_bit (crctab ! i)" "crctab ! (2 * i + 1) = ras_bit (crctab ! i) XOR 0x1021"
proof -
  have n: "map uint crctab ! k = uint (crctab ! k)" if "k < 256" for k using that by (simp add: crctab_length)
  have l: "i < length (map uint (take 128 crctab))" using assms by (simp add: crctab_length)
  have t: "map uint (take 128 crctab) ! i = uint (crctab ! i)" using assms by (simp add: crctab_length)
  note P = concat_pairs_nth [OF l, of ras_int "\<lambda>t. ras_int t XOR 0x1021", folded crctab_ints, unfolded t]
  have "uint (crctab ! (2 * i)) = uint (ras_bit (crctab ! i))" using P n [of "2 * i"] assms by (simp add: uint_ras_bit)
  then show "crctab ! (2 * i) = ras_bit (crctab ! i)" by (rule word_uint_eqI)
  have "uint (crctab ! (2 * i + 1)) = uint (ras_bit (crctab ! i)) XOR 0x1021" using P n [of "2 * i + 1"] assms by (simp add: uint_ras_bit)
  then have "uint (crctab ! (2 * i + 1)) = uint (ras_bit (crctab ! i) XOR 0x1021)" by (simp add: unsigned_xor_eq)
  then show "crctab ! (2 * i + 1) = ras_bit (crctab ! i) XOR 0x1021" by (rule word_uint_eqI)
qed

lemma push_double:
  assumes "i < 128"
  shows "ras_bit (push_bit 8 (word_of_nat i)) = push_bit 8 (word_of_nat (2 * i))"
    "push_bit 8 (word_of_nat (2 * i + 1) :: u16) = push_bit 8 (word_of_nat (2 * i)) XOR 0x100"
proof -
  have w: "word_of_nat (2 * i) = push_bit 1 (word_of_nat i :: u16)" by (simp add: push_bit_eq_mult mult.commute)
  have small: "\<not> bit (word_of_nat i :: u16) 7"
  proof -
    have "\<not> odd (i div 2 ^ 7)" using assms by simp
    then have "\<not> bit i 7" by (simp add: bit_iff_odd)
    moreover have "bit (word_of_nat i :: u16) 7 \<longleftrightarrow> bit (unat (word_of_nat i :: u16)) 7" by (simp add: bit_unsigned_iff)
    moreover have "unat (word_of_nat i :: u16) = i" using assms by (simp add: unat_of_nat)
    ultimately show ?thesis by simp
  qed
  have "\<not> bit (push_bit 8 (word_of_nat i) :: u16) 15" using small by (simp add: bit_push_bit_iff)
  moreover have "push_bit 1 (push_bit 8 (word_of_nat i)) = push_bit 8 (push_bit 1 (word_of_nat i :: u16))"
    by (simp only: push_bit_push_bit add.commute)
  ultimately show "ras_bit (push_bit 8 (word_of_nat i)) = push_bit 8 (word_of_nat (2 * i))"
    unfolding ras_bit_def w by (simp only: if_False)
  have "word_of_nat (2 * i + 1) = push_bit 1 (word_of_nat i :: u16) XOR 1"
  proof -
    have "push_bit 1 (word_of_nat i :: u16) AND 1 = 0" 
    proof (rule bit_eqI)
      fix k :: nat
      show "bit (push_bit 1 (word_of_nat i :: u16) AND 1) k = bit (0 :: u16) k"
        unfolding bit_and_iff bit_push_bit_iff bit_1_iff by auto
    qed
    then have "push_bit 1 (word_of_nat i :: u16) + 1 = push_bit 1 (word_of_nat i) XOR 1"
      by (simp add: disjunctive_add_eq_xor)
    then show ?thesis using w by (simp add: add.commute mult.commute)
  qed
  then show "push_bit 8 (word_of_nat (2 * i + 1) :: u16) = push_bit 8 (word_of_nat (2 * i)) XOR 0x100"
    unfolding w by (simp add: push_bit_xor)
qed

lemma crctab_nth: "i < 256 \<Longrightarrow> crctab ! i = ras_byte (push_bit 8 (word_of_nat i))"
proof (induction i rule: less_induct)
  case (less i)
  show ?case
  proof (cases "i = 0")
    case True
    then show ?thesis by (simp add: crctab_def ras_byte_def ras_bit_def)
  next
    case False
    let ?h = "i div 2"
    have h: "?h < i" "?h < 128" "?h < 256" using False less.prems by simp_all
    have e: "crctab ! (2 * ?h) = ras_byte (push_bit 8 (word_of_nat (2 * ?h)))"
    proof -
      have "crctab ! (2 * ?h) = ras_bit (ras_byte (push_bit 8 (word_of_nat ?h)))"
        using crctab_step(1) [OF h(2)] less.IH [OF h(1,3)] by simp
      also have "\<dots> = ras_byte (ras_bit (push_bit 8 (word_of_nat ?h)))" by (simp only: ras_byte_def)
      finally show ?thesis unfolding push_double(1) [OF h(2)] .
    qed
    show ?thesis
    proof (cases "even i")
      case True
      then show ?thesis using e by simp
    next
      case False
      then have i: "i = 2 * ?h + 1" by simp
      have one: "ras_byte 0x100 = 0x1021" by (simp add: ras_byte_def ras_bit_def)
      have "crctab ! (2 * ?h + 1) = ras_byte (push_bit 8 (word_of_nat (2 * ?h))) XOR 0x1021"
        using crctab_step [OF h(2)] e by simp
      also have "\<dots> = ras_byte (push_bit 8 (word_of_nat (2 * ?h + 1)))"
        unfolding push_double(2) [OF h(2)] ras_byte_xor one ..
      finally show ?thesis using i by metis
    qed
  qed
qed

text \<open>A step of the checksum of the RAS protocol is the shift register of the polynomial run over the
  eight bits of the byte, highest first.\<close>

theorem ras_crc_is_bitwise: "rasCRC crc (b # bs) = rasCRC (ras_byte (crc XOR push_bit 8 (ucast b))) bs"
proof -
  let ?i = "drop_bit 8 crc XOR ucast b"
  have lt: "unat ?i < 256"
  proof -
    have "?i = take_bit 8 ?i"
    proof (rule bit_eqI)
      fix k :: nat
      show "bit ?i k = bit (take_bit 8 ?i) k"
        using bit_imp_le_length [of crc "8 + k"] bit_imp_le_length [of b k]
        unfolding bit_xor_iff bit_take_bit_iff bit_drop_bit_eq bit_ucast_iff o_apply by auto
    qed
    moreover have "take_bit 8 ?i = ?i AND 0xff" by (simp only: and_ff)
    ultimately show ?thesis using low_byte_less [of ?i] by metis
  qed
  have "crctab ! unat ?i = ras_byte (push_bit 8 ?i)" using crctab_nth [OF lt] by simp
  moreover have "crc XOR push_bit 8 (ucast b) = push_bit 8 ?i XOR take_bit 8 crc"
  proof (rule bit_eqI)
    fix k :: nat
    show "bit (crc XOR push_bit 8 (ucast b)) k = bit (push_bit 8 ?i XOR take_bit 8 crc) k"
      using bit_imp_le_length [of crc k] bit_imp_le_length [of b "k - 8"]
      unfolding bit_xor_iff bit_push_bit_iff bit_take_bit_iff bit_drop_bit_eq bit_ucast_iff o_apply
      by (cases "k < 8") auto
  qed
  moreover have "push_bit 8 crc = push_bit 8 (take_bit 8 crc)"
    by (rule bit_eqI) (auto simp: bit_push_bit_iff bit_take_bit_iff)
  ultimately show ?thesis by (simp only: rasCRC.simps ras_byte_xor ras_byte_low xor.commute)
qed

section \<open>Frames of the RAS protocol\<close>

definition rasAsyncFrame :: "byte list \<Rightarrow> bool" where
  "rasAsyncFrame f \<longleftrightarrow>
     10 \<le> length f \<and> f ! 0 = 0x16 \<and> (f ! 1 = 1 \<or> f ! 1 = 2) \<and> unat (f ! 2) * 256 + unat (f ! 3) = length f - 7 \<and>
     f ! 4 = 0xf0 \<and> (f ! 5 = 0xf0 \<or> f ! 5 = 0xf1) \<and> f ! (length f - 3) = 3"

definition rasSyncFrame :: "byte list \<Rightarrow> bool" where
  "rasSyncFrame f \<longleftrightarrow> 3 \<le> length f \<and> f ! 0 = 0xf0 \<and> (f ! 1 = 0xf0 \<or> f ! 1 = 0xf1)"

definition ras_async :: "byte list \<Rightarrow> byte list" where
  "ras_async d =
     (let h = [2, word_of_nat (length d div 256), word_of_nat (length d)] @ d @ [3]; crc = rasCRC 0 h
      in 0x16 # h @ [ucast crc, ucast (drop_bit 8 crc)])"

section \<open>The conversion\<close>

datatype framing = P_FRAME_NONE | P_FRAME_SYNC | P_FRAME_ASYNC | P_FRAME_RAS_SYNC | P_FRAME_RAS_ASYNC | P_FRAME_DET

record rna =
  Framing :: framing
  Patches :: byte
  Ppp :: ppp_config

definition PPP_PATCH_PASS_LCP :: byte where "PPP_PATCH_PASS_LCP = 0x80"
definition PPP_PATCH_KEEP_TX_ACCM :: byte where "PPP_PATCH_KEEP_TX_ACCM = 0x40"
definition PPP_PATCH_KEEP_RX_ACCM :: byte where "PPP_PATCH_KEEP_RX_ACCM = 0x20"
definition PPP_PATCH_NUL_TX_CFG :: byte where "PPP_PATCH_NUL_TX_CFG = 0x08"
definition PPP_PATCH_PASS_IPCP :: byte where "PPP_PATCH_PASS_IPCP = 0x04"

text \<open>A control protocol, with or without the HDLC header.\<close>

definition rna_control :: "byte list \<Rightarrow> bool" where
  "rna_control d \<longleftrightarrow>
     6 \<le> length d \<and> (if take 2 d = [0xff, 0x03] then d ! 2 else d ! 0) \<in> {0x80, 0xc0, 0xc2}"

text \<open>The tracking of a control frame.\<close>

definition rna_track :: "rna \<Rightarrow> byte list \<Rightarrow> direction \<Rightarrow> ppp_fault + byte list \<times> ppp_config" where
  "rna_track r d dir =
     (if \<not> rna_control d then Inr (d, Ppp r)
      else if take 4 d = [0xff, 0x03, 0xc0, 0x21] then
        if Patches r AND PPP_PATCH_PASS_LCP \<noteq> 0 then Inr (d, Ppp r) else pppTrackLcp (Ppp r) d dir
      else if Patches r AND PPP_PATCH_PASS_IPCP \<noteq> 0 then Inr (d, Ppp r)
      else if take 4 d = [0xff, 0x03, 0x80, 0x21] \<or> take 2 d = [0x80, 0x21] then pppTrackIpcp (Ppp r) d dir
      else Inr (d, Ppp r))"

definition rna_accm :: "rna \<Rightarrow> byte list \<Rightarrow> dword" where
  "rna_accm r d = (if rna_control d \<and> take 4 d = [0xff, 0x03, 0xc0, 0x21] then 0xffffffff else AckACCM (RxTrack (Ppp r)))"

definition rna_explode :: "dword \<Rightarrow> byte list \<Rightarrow> nat \<Rightarrow> byte list" where
  "rna_explode ACCM f sizeStream =
     (let S = pppExplode ACCM \<lparr>xState = EXP_START, xChecksum = [0, 0], xFrame = f, xStream = [], xSize = sizeStream\<rparr>
      in if xState S = EXP_START then xStream S else [])"

definition pppRecvSync :: "rna \<Rightarrow> byte list \<Rightarrow> nat \<Rightarrow> ppp_fault + byte list \<times> rna" where
  "pppRecvSync r d sizeStream =
     (case rna_track r d From_peer of
        Inl e \<Rightarrow> Inl e
      | Inr (f, ppp) \<Rightarrow> Inr (if f = [] \<and> d \<noteq> [] then [] else rna_explode (rna_accm r d) f sizeStream, r\<lparr>Ppp := ppp\<rparr>))"

definition rasRecvSync :: "rna \<Rightarrow> byte list \<Rightarrow> nat \<Rightarrow> ppp_fault + byte list \<times> rna" where
  "rasRecvSync r d sizeStream = Inr (if rasSyncFrame d \<and> length d + 7 \<le> sizeStream then ras_async d else d, r)"

definition rnaRecv :: "rna \<Rightarrow> byte list \<Rightarrow> nat \<Rightarrow> ppp_fault + byte list \<times> rna" where
  "rnaRecv r d sizeStream =
     (case Framing r of
        P_FRAME_DET \<Rightarrow>
          if pppSyncLcpFrame d then pppRecvSync (r\<lparr>Framing := P_FRAME_SYNC\<rparr>) d sizeStream
          else if rasSyncFrame d then rasRecvSync (r\<lparr>Framing := P_FRAME_RAS_SYNC\<rparr>) d sizeStream
          else if pppAsyncLcpFrame d \<noteq> 0 then Inr (d, r\<lparr>Framing := P_FRAME_ASYNC\<rparr>)
          else if rasAsyncFrame d then Inr (d, r\<lparr>Framing := P_FRAME_RAS_ASYNC\<rparr>)
          else Inr (d, r\<lparr>Framing := P_FRAME_NONE\<rparr>)
      | P_FRAME_SYNC \<Rightarrow> pppRecvSync r d sizeStream
      | P_FRAME_RAS_SYNC \<Rightarrow> rasRecvSync r d sizeStream
      | _ \<Rightarrow> Inr (d, r))"

definition pppWriteSync :: "rna \<Rightarrow> byte list \<Rightarrow> nat \<Rightarrow> ppp_fault + byte list \<times> rna" where
  "pppWriteSync r d sizeFrame =
     (case pppImplode 0 \<lparr>iState = IMP_START, iCheck = False, iFrame = [], iSizeFrame = sizeFrame, iStream = d, iSizeStream = length d\<rparr> of
        None \<Rightarrow> Inl Read_behind
      | Some S \<Rightarrow>
          if iFrame S = [] \<or> iState S \<noteq> IMP_START then Inr ([], r)
          else case rna_track r (iFrame S) To_peer of
                 Inl e \<Rightarrow> Inl e
               | Inr (f, ppp) \<Rightarrow> Inr (f, r\<lparr>Ppp := ppp\<rparr>))"

definition rasWriteSync :: "rna \<Rightarrow> byte list \<Rightarrow> ppp_fault + byte list \<times> rna" where
  "rasWriteSync r d = Inr (if rasAsyncFrame d then take (length d - 7) (drop 4 d) else d, r)"

definition rnaWrite :: "rna \<Rightarrow> byte list \<Rightarrow> nat \<Rightarrow> ppp_fault + byte list \<times> rna" where
  "rnaWrite r d sizeFrame =
     (case Framing r of
        P_FRAME_DET \<Rightarrow>
          if pppAsyncLcpFrame d \<noteq> 0 then pppWriteSync r d sizeFrame
          else if rasAsyncFrame d then rasWriteSync r d
          else Inr (d, r)
      | P_FRAME_SYNC \<Rightarrow> pppWriteSync r d sizeFrame
      | P_FRAME_RAS_SYNC \<Rightarrow> rasWriteSync r d
      | _ \<Rightarrow> Inr (d, r))"

definition rnaUp :: "rna \<Rightarrow> rna" where
  "rnaUp r =
     r\<lparr>Ppp := pppInit 0xffffffff (if Patches r AND PPP_PATCH_KEEP_RX_ACCM \<noteq> 0 then 0 else LCP_FLAG_ADD_ACCM)
        0 ((if Patches r AND PPP_PATCH_KEEP_TX_ACCM \<noteq> 0 then 0 else LCP_FLAG_DEL_ACCM) OR
           (if Patches r AND PPP_PATCH_NUL_TX_CFG \<noteq> 0 then IPCP_FLAG_NUL_CFG else 0)) (Ppp r)\<rparr>"

section \<open>Round trip\<close>

lemma ras_async_length: "length (ras_async d) = length d + 7"
  by (simp add: ras_async_def Let_def)

lemma ras_async_form:
  obtains c where "length c = 2" "ras_async d = [0x16, 2, word_of_nat (length d div 256), word_of_nat (length d)] @ d @ 3 # c"
proof (rule that)
  let ?crc = "rasCRC 0 ([2, word_of_nat (length d div 256), word_of_nat (length d)] @ d @ [3])"
  show "ras_async d = [0x16, 2, word_of_nat (length d div 256), word_of_nat (length d)] @ d @ 3 # [ucast ?crc, ucast (drop_bit 8 ?crc)]"
    by (simp only: ras_async_def Let_def append.simps append_assoc)
qed simp

lemma ras_async_frame:
  assumes "rasSyncFrame d" "length d < 65536"
  shows "rasAsyncFrame (ras_async d)"
proof -
  obtain c where c: "length c = 2" "ras_async d = [0x16, 2, word_of_nat (length d div 256), word_of_nat (length d)] @ d @ 3 # c"
    by (rule ras_async_form)
  obtain d0 d1 ds where d: "d = d0 # d1 # ds" using assms(1) by (cases d; cases "tl d") (auto simp: rasSyncFrame_def)
  have e: "length (ras_async d) - 3 = length ([0x16, 2, word_of_nat (length d div 256), word_of_nat (length d)] @ d)"
    by (simp add: ras_async_length)
  have "ras_async d = ([0x16, 2, word_of_nat (length d div 256), word_of_nat (length d)] @ d) @ 3 # c" unfolding c(2) by simp
  then have "ras_async d ! (length (ras_async d) - 3) = 3" unfolding e by (metis nth_append_length)
  moreover have "ras_async d ! 4 = d0" "ras_async d ! 5 = d1" "ras_async d ! 0 = 0x16" "ras_async d ! 1 = 2"
    "ras_async d ! 2 = word_of_nat (length d div 256)" "ras_async d ! 3 = word_of_nat (length d)"
    unfolding c(2) by (simp_all add: d)
  ultimately show ?thesis using assms be16 [of "length d"]
    by (simp add: rasAsyncFrame_def ras_async_length rasSyncFrame_def d)
qed

lemma ras_async_inside: "take (length (ras_async d) - 7) (drop 4 (ras_async d)) = d"
proof -
  obtain c where c: "length c = 2" "ras_async d = [0x16, 2, word_of_nat (length d div 256), word_of_nat (length d)] @ d @ 3 # c"
    by (rule ras_async_form)
  show ?thesis unfolding ras_async_length unfolding c(2) by simp
qed

lemma implode_stream:
  assumes "2 \<le> length f" "length f + 2 \<le> z"
  shows "\<exists>S. pppImplode 0 \<lparr>iState = IMP_START, iCheck = False, iFrame = [], iSizeFrame = z, iStream = ppp_stream A f, iSizeStream = length (ppp_stream A f)\<rparr> = Some S \<and>
    iFrame S = f \<and> iState S = IMP_START"
proof -
  let ?S = "\<lparr>iState = IMP_START, iCheck = False, iFrame = [], iSizeFrame = z, iStream = ppp_stream A f, iSizeStream = length (ppp_stream A f)\<rparr>"
  have ok: "imp_ok ?S" by (simp add: imp_ok_def)
  obtain a1 fo rest where u: "imp_run 0 ?S = (a1, fo, rest)" by (cases "imp_run 0 ?S") auto
  have "rx_ok (iState ?S, iFrame ?S)" by (simp add: rx_ok_def)
  note U = rx_until_all [OF this u [unfolded imp_run_def]]
  have all: "rx_all 0 False z (IMP_START, []) (ppp_stream A f) = ((IMP_START, []), [f])" by (rule rx_stream) (use assms in simp_all)
  show ?thesis
  proof (cases fo)
    case None
    then show ?thesis using U all by simp
  next
    case (Some g)
    then have "g = f" using U all by (auto split: prod.splits)
    then show ?thesis using implode_result [of ?S 0] ok u Some by (simp add: imp_result_more)
  qed
qed

text \<open>C33: what \<open>rnaWrite\<close> makes of a frame that \<open>rnaRecv\<close> has converted is the frame: for a PPP frame that is
  not a control frame, whenever the conversion succeeds, and for a frame of the RAS protocol.\<close>

theorem rna_write_inverts:
  assumes "rnaRecv r d z = Inr (s, r1)" "s \<noteq> []" "length d < 65536"
    and "Framing r = P_FRAME_SYNC \<and> \<not> rna_control d \<and> 2 \<le> length d \<and> length d + 2 \<le> y \<or>
      Framing r = P_FRAME_RAS_SYNC \<and> rasSyncFrame d \<and> length d + 7 \<le> z"
  shows "rnaWrite r1 s y = Inr (d, r1)"
  using assms(4)
proof (elim disjE conjE)
  assume a: "Framing r = P_FRAME_SYNC" "\<not> rna_control d" "2 \<le> length d" "length d + 2 \<le> y"
  have d: "d \<noteq> []" using a(3) by auto
  have x: "rna_explode (AckACCM (RxTrack (Ppp r))) d z = s" and "r1 = r"
    using assms(1) a(1,2) d by (auto simp: rnaRecv_def pppRecvSync_def rna_track_def rna_accm_def)
  then have s: "s = ppp_stream (AckACCM (RxTrack (Ppp r))) d"
    using x assms(2) explode_fits [of "AckACCM (RxTrack (Ppp r))" d z] by (auto simp: rna_explode_def exp_new_def Let_def split: if_splits)
  obtain S where "pppImplode 0 \<lparr>iState = IMP_START, iCheck = False, iFrame = [], iSizeFrame = y, iStream = s, iSizeStream = length s\<rparr> = Some S"
    "iFrame S = d" "iState S = IMP_START" using implode_stream [OF a(3,4)] unfolding s by blast
  then show ?thesis using a(1,2) d \<open>r1 = r\<close> by (simp add: rnaWrite_def pppWriteSync_def rna_track_def)
next
  assume a: "Framing r = P_FRAME_RAS_SYNC" "rasSyncFrame d" "length d + 7 \<le> z"
  then have s: "s = ras_async d" "r1 = r" using assms(1) by (simp_all add: rnaRecv_def rasRecvSync_def)
  have "take (length s - 7) (drop 4 s) = d" unfolding s(1) by (rule ras_async_inside)
  then show ?thesis using a s ras_async_frame [OF a(2) assms(3)] by (simp add: rnaWrite_def rasWriteSync_def)
qed

lemma rna_write_inverts_witness:
  "\<exists>s r1. rnaRecv \<lparr>Framing = P_FRAME_RAS_SYNC, Patches = 0, Ppp = new_config 0 0\<rparr> [0xf0, 0xf1, 7] 100 = Inr (s, r1) \<and>
     rnaWrite r1 s 100 = Inr ([0xf0, 0xf1, 7], r1)"
proof -
  let ?r = "\<lparr>Framing = P_FRAME_RAS_SYNC, Patches = 0, Ppp = new_config 0 0\<rparr>" and ?d = "[0xf0, 0xf1, 7] :: byte list"
  have "rnaRecv ?r ?d 100 = Inr (ras_async ?d, ?r)" by (simp add: rnaRecv_def rasRecvSync_def rasSyncFrame_def)
  moreover have "ras_async ?d \<noteq> []" using ras_async_length [of ?d] by auto
  ultimately show ?thesis using rna_write_inverts [of ?r ?d 100 "ras_async ?d" ?r 100] by (simp add: rasSyncFrame_def)
qed


end
