(* ===== verification/V110.thy ===== *)
theory V110
  imports CBase
begin

text \<open>
  The V.110 detector of the TTY driver (\<open>tty_module/v110.c\<close>): for each intermediate rate (8, 16,
  32 and 64 kbit/s) a state machine hunts the octets of V.110 frames in a window of 32 bits that
  is refilled with the used bits of each received octet; a frame names the user rate.

  The window has the oldest bit highest; \<open>deframe_len\<close> and \<open>detector_counter\<close> are C \<open>dword\<close>s, which wrap.
  The octets received are a list. The states of the deframer are a datatype (the code sets no
  others); of the phases only idle and the one that searches are reached. Trace output is left out.
\<close>

section \<open>Rates\<close>

record v110_irate_sequence =
  seq_speed :: nat
  seq_e_rate :: byte
  seq_idi_rate :: nat

text \<open>The sequences for 8K, 16K, 32K and 64K (\<open>diva_v110_detector_setup\<close>).\<close>

definition v110_irate_sequences :: "nat \<Rightarrow> v110_irate_sequence list" where
  "v110_irate_sequences cfg =
     [[\<lparr>seq_speed = 600, seq_e_rate = 0x40, seq_idi_rate = 1\<rparr>,
       \<lparr>seq_speed = 1200, seq_e_rate = 0x20, seq_idi_rate = 2\<rparr>,
       \<lparr>seq_speed = 4800, seq_e_rate = 0x30, seq_idi_rate = 4\<rparr>,
       \<lparr>seq_speed = 2400, seq_e_rate = 0xff, seq_idi_rate = 3\<rparr>],
      [\<lparr>seq_speed = 9600, seq_e_rate = 0xff, seq_idi_rate = 5\<rparr>],
      [\<lparr>seq_speed = 19200, seq_e_rate = 0xff, seq_idi_rate = 6\<rparr>],
      [\<lparr>seq_speed = 38400, seq_e_rate = 0xff, seq_idi_rate = 7\<rparr>]] ! cfg"

text \<open>The base rate of a detector (\<open>V110_RATE_2400\<close>, \<open>_9600\<close>, \<open>_19200\<close>, \<open>_38400\<close>).\<close>

definition v110_base_rate :: "nat \<Rightarrow> nat" where
  "v110_base_rate cfg = [3, 8, 9, 10] ! cfg"

text \<open>The intermediate rate of a rate is the number of bits used of an octet.\<close>

definition irate_of_rate :: "nat \<Rightarrow> nat option" where
  "irate_of_rate r =
     (if r \<in> {1, 2, 3, 7} then Some 1 else if r \<in> {4, 8} then Some 2
      else if r \<in> {11, 5, 9} then Some 4 else if r \<in> {12, 6, 10} then Some 8 else None)"

section \<open>State\<close>

datatype frm_state = Zero_octett | Sync_octett

datatype v110_phase = Phase_idle | Phase_sync

record v110 =
  cfg :: nat
  irate :: nat
  phase :: v110_phase
  detect_delay :: nat
  deframe_state :: frm_state
  rx_frame :: "nat \<Rightarrow> byte"
  frame_pos :: nat
  deframe_len :: nat
  deframe_wnd :: dword
  detector_counter :: nat

definition softv110_init :: "nat \<Rightarrow> v110" where
  "softv110_init i =
     \<lparr>cfg = i, irate = the (irate_of_rate (v110_base_rate i)), phase = Phase_idle, detect_delay = 10 * 1024,
      deframe_state = Zero_octett, rx_frame = (\<lambda>_. 0), frame_pos = 0, deframe_len = 0, deframe_wnd = 0, detector_counter = 0\<rparr>"

text \<open>The array of detectors, one for each intermediate rate.\<close>

definition diva_init_v110_detector :: "(nat \<Rightarrow> v110) \<Rightarrow> nat \<Rightarrow> v110" where
  "diva_init_v110_detector dets = (\<lambda>i. if i < 4 then softv110_init i else dets i)"

section \<open>Deframing\<close>

text \<open>The used bits of an octet in the order of transmission.\<close>

definition refill_bits :: "nat \<Rightarrow> byte \<Rightarrow> dword" where
  "refill_bits n b =
     (let x = ucast b AND mask n :: dword
      in if n = 2 then drop_bit 1 x OR (push_bit 1 x AND 0x02)
         else if n = 4 then
           drop_bit 4 ((push_bit 7 x AND 0x80) OR (push_bit 5 x AND 0x40) OR (push_bit 3 x AND 0x20) OR (push_bit 1 x AND 0x10))
         else if n = 8 then
           (push_bit 7 x AND 0x80) OR (push_bit 5 x AND 0x40) OR (push_bit 3 x AND 0x20) OR (push_bit 1 x AND 0x10) OR
           (drop_bit 7 x AND 0x01) OR (drop_bit 5 x AND 0x02) OR (drop_bit 3 x AND 0x04) OR (drop_bit 1 x AND 0x08)
         else x)"

text \<open>The octet goes behind the bits of the window. When it does not fit, the code shifts by a
  negative number, which is undefined: \<open>None\<close>.\<close>

definition add_octet :: "byte \<Rightarrow> v110 \<Rightarrow> v110 option" where
  "add_octet b st =
     (if deframe_len st + irate st \<le> 32 then
        Some (st\<lparr>deframe_wnd := deframe_wnd st OR push_bit (32 - deframe_len st - irate st) (refill_bits (irate st) b),
                 deframe_len := deframe_len st + irate st\<rparr>)
      else None)"

fun refill :: "byte list \<Rightarrow> v110 \<Rightarrow> (byte list \<times> v110) option" where
  "refill [] st = Some ([], st)"
| "refill (b # ds) st =
     (case add_octet b st of
        None \<Rightarrow> None
      | Some st1 \<Rightarrow> if deframe_len st1 < 32 \<and> ds \<noteq> [] then refill ds st1 else Some (ds, st1))"

definition discard :: "nat \<Rightarrow> v110 \<Rightarrow> v110" where
  "discard n st =
     st\<lparr>deframe_wnd := push_bit n (deframe_wnd st), deframe_len := (deframe_len st + (4294967296 - n)) mod 4294967296\<rparr>"

definition top_octet :: "v110 \<Rightarrow> byte" where
  "top_octet st = ucast (drop_bit 24 (deframe_wnd st AND 0xff000000))"

definition store_octet :: "byte \<Rightarrow> v110 \<Rightarrow> v110" where
  "store_octet b st = st\<lparr>rx_frame := (rx_frame st)(frame_pos st := b)\<rparr>"

text \<open>One step; the first component tells that a frame is complete.\<close>

definition frm_step :: "v110 \<Rightarrow> bool \<times> v110" where
  "frm_step st =
     (case deframe_state st of
        Zero_octett \<Rightarrow>
          if deframe_wnd st AND 0xff000000 = 0 \<and> deframe_wnd st AND 0x00800000 \<noteq> 0 then
            (False, discard 8 (st\<lparr>rx_frame := (rx_frame st)(0 := 0), frame_pos := frame_pos st + 1, deframe_state := Sync_octett\<rparr>))
          else (False, discard 1 st)
      | Sync_octett \<Rightarrow>
          if frame_pos st \<le> 8 then
            if deframe_wnd st AND 0x80800000 \<noteq> 0 then
              (False, discard 8 ((store_octet (top_octet st) st)\<lparr>frame_pos := frame_pos st + 1\<rparr>))
            else (False, (discard 1 st)\<lparr>frame_pos := 0, deframe_state := Zero_octett, detector_counter := 0\<rparr>)
          else if deframe_wnd st AND 0x80000000 \<noteq> 0 then
            (True, (discard 8 (store_octet (top_octet st) st))
               \<lparr>frame_pos := 0, deframe_state := Zero_octett,
                 detector_counter := (detector_counter st + 1) mod 4294967296\<rparr>)
          else (False, (discard 1 st)\<lparr>frame_pos := 0, deframe_state := Zero_octett\<rparr>))"

definition fill_window :: "byte list \<Rightarrow> v110 \<Rightarrow> (byte list \<times> v110) option" where
  "fill_window ds st = (if deframe_len st \<le> 32 - irate st then refill ds st else Some (ds, st))"

lemma refill_length: "ds \<noteq> [] \<Longrightarrow> refill ds st = Some (ds1, st1) \<Longrightarrow> length ds1 < length ds"
  by (induction ds st rule: refill.induct) (auto split: option.splits if_splits dest: less_trans)

lemma frm_step_len: "8 \<le> deframe_len st \<Longrightarrow> deframe_len st < 4294967296 \<Longrightarrow> deframe_len (snd (frm_step st)) < deframe_len st"
  by (simp add: frm_step_def discard_def store_octet_def mod_if split: frm_state.splits)

text \<open>The loop ends as each round takes octets or, with the window full, bits of the window. The
  guard on \<open>irate\<close> and \<open>deframe_len\<close> holds for every state of the program.\<close>

definition v110_wf :: "v110 \<Rightarrow> bool" where
  "v110_wf st \<longleftrightarrow> irate st \<in> {1, 2, 4, 8} \<and> deframe_len st < 4294967296"

function do_deframe :: "byte list \<Rightarrow> v110 \<Rightarrow> (bool \<times> byte list \<times> v110) option" where
  "do_deframe ds st =
     (if ds = [] \<or> \<not> v110_wf st then Some (False, ds, st)
      else case fill_window ds st of
             None \<Rightarrow> None
           | Some (ds1, st1) \<Rightarrow>
               (case frm_step st1 of
                  (found, st2) \<Rightarrow> if found then Some (True, ds1, st2) else do_deframe ds1 st2))"
  by pat_completeness auto
termination
proof (relation "measures [\<lambda>(ds, st). length ds, \<lambda>(ds, st). deframe_len st]", goal_cases)
  case 1
  show ?case by simp
next
  case (2 ds st x ds1 st1 found st2)
  then have f: "fill_window ds st = Some (ds1, st1)" "frm_step st1 = (found, st2)" "ds \<noteq> []" "v110_wf st" by auto
  show ?case
  proof (cases "deframe_len st \<le> 32 - irate st")
    case True
    then have "length ds1 < length ds" using f refill_length [of ds st] by (simp add: fill_window_def)
    then show ?thesis by simp
  next
    case False
    then have s: "ds1 = ds" "st1 = st" using f by (simp_all add: fill_window_def)
    have "8 \<le> deframe_len st" "deframe_len st < 4294967296" using False f(4) by (auto simp: v110_wf_def)
    then have "deframe_len st2 < deframe_len st" using frm_step_len [of st] f(2) s by simp
    then show ?thesis using s by simp
  qed
qed

declare do_deframe.simps [simp del]

section \<open>Decoding\<close>

text \<open>The sequence of the user rate a frame names in its E bits.\<close>

definition do_v110 :: "v110 \<Rightarrow> v110_irate_sequence option" where
  "do_v110 st = find (\<lambda>q. seq_e_rate q = 0xff \<or> seq_e_rate q = rx_frame st 5 AND 0x70) (v110_irate_sequences (cfg st))"

lemma frm_step_frame [simp]:
  "phase (snd (frm_step st)) = phase st" "cfg (snd (frm_step st)) = cfg st" "irate (snd (frm_step st)) = irate st"
  "detect_delay (snd (frm_step st)) = detect_delay st"
  by (simp_all add: frm_step_def discard_def store_octet_def split: frm_state.splits)

lemma refill_frame:
  assumes "refill ds st = Some (ds1, st1)"
  shows "phase st1 = phase st \<and> cfg st1 = cfg st \<and> irate st1 = irate st \<and> deframe_state st1 = deframe_state st \<and>
    frame_pos st1 = frame_pos st \<and> rx_frame st1 = rx_frame st \<and> detector_counter st1 = detector_counter st"
  using assms
  by (induction ds st rule: refill.induct) (auto simp: add_octet_def split: option.splits if_splits)

lemma fill_window_frame:
  assumes "fill_window ds st = Some (ds1, st1)"
  shows "phase st1 = phase st \<and> cfg st1 = cfg st \<and> irate st1 = irate st \<and> deframe_state st1 = deframe_state st \<and>
    frame_pos st1 = frame_pos st \<and> rx_frame st1 = rx_frame st \<and> detector_counter st1 = detector_counter st"
  using assms refill_frame by (auto simp: fill_window_def split: if_splits)

lemma do_deframe_stop: "ds = [] \<or> \<not> v110_wf st \<Longrightarrow> do_deframe ds st = Some (False, ds, st)"
  by (subst do_deframe.simps) simp

lemma do_deframe_round:
  assumes "ds \<noteq> []" "v110_wf st" "fill_window ds st = Some (dsa, sta)" "frm_step sta = (b, stb)"
  shows "do_deframe ds st = (if b then Some (True, dsa, stb) else do_deframe dsa stb)"
  using assms by (subst do_deframe.simps) simp

lemma do_deframe_smaller:
  assumes "do_deframe ds st = Some (found, ds1, st1)" "ds \<noteq> []" "v110_wf st"
  shows "phase st1 = phase st \<and> (length ds1 < length ds \<or> length ds1 = length ds \<and> deframe_len st1 < deframe_len st)"
  using assms
proof (induction ds st rule: do_deframe.induct)
  case (1 ds st)
  from 1(2-4) obtain dsa sta where f: "fill_window ds st = Some (dsa, sta)"
    by (subst (asm) do_deframe.simps) (auto split: option.splits)
  obtain b stb where s: "frm_step sta = (b, stb)" by (cases "frm_step sta")
  have p: "phase stb = phase st" "irate stb = irate st"
    using fill_window_frame [OF f] frm_step_frame [of sta] s by simp_all
  have less: "length dsa < length ds \<or> dsa = ds \<and> deframe_len stb < deframe_len st"
  proof (cases "deframe_len st \<le> 32 - irate st")
    case True
    then show ?thesis using f refill_length [OF 1(3)] by (simp add: fill_window_def)
  next
    case False
    then have e: "dsa = ds" "sta = st" using f by (simp_all add: fill_window_def)
    have "8 \<le> deframe_len st" "deframe_len st < 4294967296" using False 1(4) by (auto simp: v110_wf_def)
    then show ?thesis using frm_step_len [of st] s e by simp
  qed
  show ?case
  proof (cases "b \<or> dsa = [] \<or> \<not> v110_wf stb")
    case True
    then have "found = b \<and> ds1 = dsa \<and> st1 = stb"
      using 1(2) do_deframe_round [OF 1(3,4) f s] do_deframe_stop [of dsa stb] by (auto split: if_splits)
    then show ?thesis using less p by auto
  next
    case False
    then have "do_deframe dsa stb = Some (found, ds1, st1)"
      using 1(2) do_deframe_round [OF 1(3,4) f s] by simp
    from 1(1) [OF _ f refl s [symmetric] _ this] 1(3,4) False
    show ?thesis using less p by auto
  qed
qed

function softv110_decode_process ::
  "byte list \<Rightarrow> v110 \<Rightarrow> v110_irate_sequence option \<Rightarrow> (v110_irate_sequence option \<times> v110) option" where
  "softv110_decode_process ds st detected =
     (if ds = [] \<or> \<not> v110_wf st then Some (detected, st)
      else case phase st of
             Phase_idle \<Rightarrow>
               let removed = min (detect_delay st) (length ds)
               in softv110_decode_process (drop removed ds)
                    (st\<lparr>detect_delay := detect_delay st - removed,
                        phase := (if detect_delay st - removed = 0 then Phase_sync else Phase_idle)\<rparr>) detected
           | Phase_sync \<Rightarrow>
               (case do_deframe ds st of
                  None \<Rightarrow> None
                | Some (found, ds1, st1) \<Rightarrow> softv110_decode_process ds1 st1 (if found then do_v110 st1 else detected)))"
  by pat_completeness auto
termination
proof (relation "measures [\<lambda>(ds, st, d). if phase st = Phase_idle then 1 else 0, \<lambda>(ds, st, d). length ds,
    \<lambda>(ds, st, d). deframe_len st]", goal_cases)
  case 1
  show ?case by simp
next
  case (2 ds st d removed)
  then show ?case by auto
next
  case (3 ds st d x found y ds1 st1)
  then have "do_deframe ds st = Some (found, ds1, st1)" "ds \<noteq> []" "v110_wf st" "phase st = Phase_sync" by auto
  with do_deframe_smaller [of ds st found ds1 st1] show ?case by auto
qed

declare softv110_decode_process.simps [simp del]

section \<open>The detectors\<close>

text \<open>The detectors get the data one after the other until one of them finds a frame. A change of the
  rate found resets all counters; a rate is reported after ten frames. The result is the rate and
  its speed, 0 if none is reported.\<close>

definition DIVA_V110_NEED_FRAMES_TO_DETECT :: nat where "DIVA_V110_NEED_FRAMES_TO_DETECT = 10"

definition reset_counters :: "(nat \<Rightarrow> v110) \<Rightarrow> nat \<Rightarrow> v110" where
  "reset_counters dets = (\<lambda>j. if j < 4 then (dets j)\<lparr>detector_counter := 0\<rparr> else dets j)"

fun detectors_run ::
  "byte list \<Rightarrow> nat list \<Rightarrow> (nat \<Rightarrow> v110) \<Rightarrow> int \<Rightarrow> ((nat \<times> nat) \<times> (nat \<Rightarrow> v110) \<times> int) option" where
  "detectors_run ds [] dets last_detected = Some ((0, 0), dets, last_detected)"
| "detectors_run ds (i # js) dets last_detected =
     (case softv110_decode_process ds (dets i) None of
        None \<Rightarrow> None
      | Some (None, st) \<Rightarrow> detectors_run ds js (dets(i := st)) last_detected
      | Some (Some q, st) \<Rightarrow>
          let dets1 = dets(i := st);
              changed = (int (seq_idi_rate q) \<noteq> last_detected);
              dets2 = (if changed then reset_counters dets1 else dets1)
          in Some (if detector_counter (dets2 i) < DIVA_V110_NEED_FRAMES_TO_DETECT then (0, 0)
                   else (seq_idi_rate q, seq_speed q), dets2, int (seq_idi_rate q)))"

definition diva_v110_detector_process ::
  "byte list \<Rightarrow> (nat \<Rightarrow> v110) \<Rightarrow> int \<Rightarrow> ((nat \<times> nat) \<times> (nat \<Rightarrow> v110) \<times> int) option" where
  "diva_v110_detector_process ds dets last_detected = detectors_run ds [0..<4] dets last_detected"

section \<open>The window as a list of bits\<close>

text \<open>The bits of an octet, most significant first, and the bits used of a received octet.\<close>

definition byte_bits :: "byte \<Rightarrow> bool list" where
  "byte_bits b = map (\<lambda>i. bit b (7 - i)) [0..<8]"

definition bits_byte :: "bool list \<Rightarrow> byte" where
  "bits_byte bs = horner_sum of_bool 2 (rev (take 8 bs))"

definition used_bits :: "nat \<Rightarrow> byte \<Rightarrow> bool list" where
  "used_bits r b = map (bit b) [0..<r]"

definition stream_bits :: "nat \<Rightarrow> byte list \<Rightarrow> bool list" where
  "stream_bits r ds = concat (map (used_bits r) ds)"

lemma byte_bits_nth: "i < 8 \<Longrightarrow> byte_bits b ! i = bit b (7 - i)" "length (byte_bits b) = 8"
  by (simp_all add: byte_bits_def)

lemma bit_bits_byte:
  assumes "length bs \<ge> 8" "i < 8"
  shows "bit (bits_byte bs) i = bs ! (7 - i)"
  using assms by (simp add: bits_byte_def bit_horner_sum_bit_word_iff rev_nth)

lemma bits_byte_bits: "bits_byte (byte_bits b @ bs) = b"
proof (rule bit_word_eqI)
  fix i assume "i < LENGTH(8)"
  moreover have "7 - i < 8" by simp
  ultimately show "bit (bits_byte (byte_bits b @ bs)) i = bit b i"
    by (simp add: bit_bits_byte byte_bits_nth nth_append)
qed

lemma stream_bits_simps [simp]:
  "stream_bits r [] = []" "stream_bits r (d # ds) = used_bits r d @ stream_bits r ds"
  "stream_bits r (ds @ es) = stream_bits r ds @ stream_bits r es"
  by (simp_all add: stream_bits_def)

lemma used_bits_length [simp]: "length (used_bits r b) = r"
  by (simp add: used_bits_def)

lemma stream_bits_length [simp]: "length (stream_bits r ds) = r * length ds"
  by (induction ds) simp_all

definition wnd_rep :: "dword \<Rightarrow> bool list \<Rightarrow> bool" where
  "wnd_rep w bs \<longleftrightarrow> length bs \<le> 32 \<and> (\<forall>i<32. bit w (31 - i) \<longleftrightarrow> i < length bs \<and> bs ! i)"

lemma wnd_repD:
  assumes "wnd_rep w bs" "i < 32"
  shows "bit w (31 - i) \<longleftrightarrow> i < length bs \<and> bs ! i" "bit w i \<longleftrightarrow> 31 - i < length bs \<and> bs ! (31 - i)"
proof -
  show "bit w (31 - i) \<longleftrightarrow> i < length bs \<and> bs ! i" using assms by (simp add: wnd_rep_def)
  have e: "31 - (31 - i) = i" "31 - i < 32" using assms(2) by simp_all
  have "\<forall>i<32. bit w (31 - i) \<longleftrightarrow> i < length bs \<and> bs ! i" using assms(1) by (simp add: wnd_rep_def)
  from this [rule_format, OF e(2)] show "bit w i \<longleftrightarrow> 31 - i < length bs \<and> bs ! (31 - i)" unfolding e .
qed

lemma bit_masks:
  "bit (0x80 :: dword) i \<longleftrightarrow> i = 7" "bit (0x40 :: dword) i \<longleftrightarrow> i = 6" "bit (0x20 :: dword) i \<longleftrightarrow> i = 5"
  "bit (0x10 :: dword) i \<longleftrightarrow> i = 4" "bit (8 :: dword) i \<longleftrightarrow> i = 3" "bit (4 :: dword) i \<longleftrightarrow> i = 2"
  "bit (2 :: dword) i \<longleftrightarrow> i = 1"
  "bit (0x80000000 :: dword) i \<longleftrightarrow> i = 31" "bit (0x00800000 :: dword) i \<longleftrightarrow> i = 23"
proof -
  have "bit (2 ^ k :: dword) i \<longleftrightarrow> i = k" if "k < 32" for k using that by (auto simp: bit_exp_iff)
  from this [of 7] this [of 6] this [of 5] this [of 4] this [of 3] this [of 2] this [of 1] this [of 31] this [of 23]
  show "bit (0x80 :: dword) i \<longleftrightarrow> i = 7" "bit (0x40 :: dword) i \<longleftrightarrow> i = 6" "bit (0x20 :: dword) i \<longleftrightarrow> i = 5"
    "bit (0x10 :: dword) i \<longleftrightarrow> i = 4" "bit (8 :: dword) i \<longleftrightarrow> i = 3" "bit (4 :: dword) i \<longleftrightarrow> i = 2"
    "bit (2 :: dword) i \<longleftrightarrow> i = 1" "bit (0x80000000 :: dword) i \<longleftrightarrow> i = 31" "bit (0x00800000 :: dword) i \<longleftrightarrow> i = 23"
    by simp_all
qed

lemma bit_refill_bits:
  assumes "r \<in> {1, 2, 4, 8}"
  shows "bit (refill_bits r b) i \<longleftrightarrow> i < r \<and> bit b (r - 1 - i)"
proof -
  let ?x = "ucast b AND mask r :: dword"
  have x: "bit ?x j \<longleftrightarrow> j < r \<and> bit b j" for j using assms by (auto simp: bit_simps dest: bit_imp_le_length)
  define x where "x = ?x"
  have xb: "\<And>j. bit x j \<longleftrightarrow> j < r \<and> bit b j" using x by (simp add: x_def)
  have r: "refill_bits r b = (if r = 2 then drop_bit 1 x OR (push_bit 1 x AND 0x02)
       else if r = 4 then
         drop_bit 4 ((push_bit 7 x AND 0x80) OR (push_bit 5 x AND 0x40) OR (push_bit 3 x AND 0x20) OR (push_bit 1 x AND 0x10))
       else if r = 8 then
         (push_bit 7 x AND 0x80) OR (push_bit 5 x AND 0x40) OR (push_bit 3 x AND 0x20) OR (push_bit 1 x AND 0x10) OR
         (drop_bit 7 x AND 0x01) OR (drop_bit 5 x AND 0x02) OR (drop_bit 3 x AND 0x04) OR (drop_bit 1 x AND 0x08)
       else x)"
    by (simp add: refill_bits_def Let_def x_def)
  have one: "bit (1 :: dword) i \<longleftrightarrow> i = 0" by (simp add: bit_1_iff)
  note bits = bit_or_iff bit_and_iff bit_push_bit_iff bit_drop_bit_eq bit_masks one xb o_apply
  consider "r = 1" | "r = 2" | "r = 4" | "r = 8" using assms by blast
  then show ?thesis
  proof cases
    case 1
    then have "refill_bits r b = x" unfolding r by simp
    then show ?thesis using 1 xb [of i] by auto
  next
    case 2
    then have e: "refill_bits r b = drop_bit 1 x OR (push_bit 1 x AND 0x02)" unfolding r by simp
    show ?thesis unfolding e by (simp only: bits) (use 2 in \<open>auto simp: less_2_cases_iff\<close>)
  next
    case 3
    have i: "i < 4 \<longleftrightarrow> i = 0 \<or> i = 1 \<or> i = 2 \<or> i = 3" by auto
    have e: "refill_bits r b = drop_bit 4 ((push_bit 7 x AND 0x80) OR (push_bit 5 x AND 0x40) OR
        (push_bit 3 x AND 0x20) OR (push_bit 1 x AND 0x10))" unfolding r using 3 by simp
    have t: "bit (push_bit 7 x AND 0x80) (4 + i) \<longleftrightarrow> i = 3 \<and> bit b 0" "bit (push_bit 5 x AND 0x40) (4 + i) \<longleftrightarrow> i = 2 \<and> bit b 1"
      "bit (push_bit 3 x AND 0x20) (4 + i) \<longleftrightarrow> i = 1 \<and> bit b 2" "bit (push_bit 1 x AND 0x10) (4 + i) \<longleftrightarrow> i = 0 \<and> bit b 3"
      unfolding bits using 3 by (auto simp: numeral_2_eq_2)
    show ?thesis unfolding e bit_drop_bit_eq o_apply bit_or_iff t using 3 i by auto
  next
    case 4
    have i: "i < 8 \<longleftrightarrow> i = 0 \<or> i = 1 \<or> i = 2 \<or> i = 3 \<or> i = 4 \<or> i = 5 \<or> i = 6 \<or> i = 7" by auto
    have e: "refill_bits r b = (push_bit 7 x AND 0x80) OR (push_bit 5 x AND 0x40) OR (push_bit 3 x AND 0x20) OR
        (push_bit 1 x AND 0x10) OR (drop_bit 7 x AND 0x01) OR (drop_bit 5 x AND 0x02) OR (drop_bit 3 x AND 0x04) OR
        (drop_bit 1 x AND 0x08)" unfolding r using 4 by simp
    have t: "bit (push_bit 7 x AND 0x80) i \<longleftrightarrow> i = 7 \<and> bit b 0" "bit (push_bit 5 x AND 0x40) i \<longleftrightarrow> i = 6 \<and> bit b 1"
      "bit (push_bit 3 x AND 0x20) i \<longleftrightarrow> i = 5 \<and> bit b 2" "bit (push_bit 1 x AND 0x10) i \<longleftrightarrow> i = 4 \<and> bit b 3"
      "bit (drop_bit 7 x AND 0x01) i \<longleftrightarrow> i = 0 \<and> bit b 7" "bit (drop_bit 5 x AND 0x02) i \<longleftrightarrow> i = 1 \<and> bit b 6"
      "bit (drop_bit 3 x AND 0x04) i \<longleftrightarrow> i = 2 \<and> bit b 5" "bit (drop_bit 1 x AND 0x08) i \<longleftrightarrow> i = 3 \<and> bit b 4"
      unfolding bits using 4 by auto
    show ?thesis unfolding e bit_or_iff t unfolding 4
    proof (cases "i < 8")
      case True
      from True [unfolded i] show "(i = 7 \<and> bit b 0 \<or> i = 6 \<and> bit b 1 \<or> i = 5 \<and> bit b 2 \<or> i = 4 \<and> bit b 3 \<or> i = 0 \<and> bit b 7 \<or>
          i = 1 \<and> bit b 6 \<or> i = 2 \<and> bit b 5 \<or> i = 3 \<and> bit b 4) = (i < 8 \<and> bit b (8 - 1 - i))"
        by (elim disjE; simp)
    next
      case False
      then show "(i = 7 \<and> bit b 0 \<or> i = 6 \<and> bit b 1 \<or> i = 5 \<and> bit b 2 \<or> i = 4 \<and> bit b 3 \<or> i = 0 \<and> bit b 7 \<or>
          i = 1 \<and> bit b 6 \<or> i = 2 \<and> bit b 5 \<or> i = 3 \<and> bit b 4) = (i < 8 \<and> bit b (8 - 1 - i))" by auto
    qed
  qed
qed

lemma wnd_rep_add:
  assumes "wnd_rep w bs" "length bs + r \<le> 32" "r \<in> {1, 2, 4, 8}"
  shows "wnd_rep (w OR push_bit (32 - length bs - r) (refill_bits r b)) (bs @ used_bits r b)"
  unfolding wnd_rep_def
proof (intro conjI allI impI)
  show "length (bs @ used_bits r b) \<le> 32" using assms(2) by simp
next
  fix i :: nat
  assume i: "i < 32"
  let ?n = "length bs"
  have old: "bit w (31 - i) \<longleftrightarrow> i < ?n \<and> bs ! i" by (rule wnd_repD(1) [OF assms(1) i])
  have "bit (push_bit (32 - ?n - r) (refill_bits r b)) (31 - i) \<longleftrightarrow>
      32 - ?n - r \<le> 31 - i \<and> 31 - i - (32 - ?n - r) < r \<and> bit b (r - 1 - (31 - i - (32 - ?n - r)))"
    using i by (auto simp: bit_push_bit_iff bit_refill_bits [OF assms(3)])
  also have "\<dots> \<longleftrightarrow> ?n \<le> i \<and> i < ?n + r \<and> bit b (i - ?n)"
  proof (cases "?n \<le> i \<and> i < ?n + r")
    case True
    have e: "31 - i - (32 - ?n - r) = ?n + r - 1 - i" using True assms(2) by linarith
    have e2: "r - 1 - (?n + r - 1 - i) = i - ?n" using True by linarith
    show ?thesis unfolding e e2 using True assms(2) by auto
  next
    case False
    then show ?thesis using i assms(2) by auto
  qed
  finally have new: "bit (push_bit (32 - ?n - r) (refill_bits r b)) (31 - i) \<longleftrightarrow> ?n \<le> i \<and> i < ?n + r \<and> bit b (i - ?n)" .
  show "bit (w OR push_bit (32 - ?n - r) (refill_bits r b)) (31 - i) \<longleftrightarrow>
      i < length (bs @ used_bits r b) \<and> (bs @ used_bits r b) ! i"
    unfolding bit_or_iff old new by (auto simp: nth_append used_bits_def)
qed

lemma wnd_rep_drop:
  assumes "wnd_rep w bs"
  shows "wnd_rep (push_bit k w) (drop k bs)"
  unfolding wnd_rep_def
proof (intro conjI allI impI)
  have "length bs \<le> 32" using assms by (simp add: wnd_rep_def)
  then show "length (drop k bs) \<le> 32" by simp
next
  fix i :: nat
  assume i: "i < 32"
  show "bit (push_bit k w) (31 - i) \<longleftrightarrow> i < length (drop k bs) \<and> drop k bs ! i"
  proof (cases "k + i < 32")
    case True
    have e: "31 - i - k = 31 - (k + i)" "k \<le> 31 - i" "31 - i < 32" using True by simp_all
    have "bit (push_bit k w) (31 - i) \<longleftrightarrow> bit w (31 - (k + i))" unfolding bit_push_bit_iff e(1) using e(2,3) by simp
    also have "\<dots> \<longleftrightarrow> k + i < length bs \<and> bs ! (k + i)" by (rule wnd_repD(1) [OF assms True])
    finally show ?thesis by auto
  next
    case False
    then have "\<not> k \<le> 31 - i" using i by linarith
    moreover have "\<not> i < length (drop k bs)" using False assms by (auto simp: wnd_rep_def)
    ultimately show ?thesis by (simp add: bit_push_bit_iff)
  qed
qed

text \<open>The tests of the code on a window of at least 9 bits.\<close>

lemma bit_high_octet: "bit (0xff000000 :: dword) i \<longleftrightarrow> 24 \<le> i \<and> i < 32"
proof -
  have e: "(0xff000000 :: dword) = push_bit 24 (mask 8)" by (simp add: mask_eq_exp_minus_1)
  show ?thesis unfolding e by (auto simp: bit_push_bit_iff bit_mask_iff)
qed

lemma and_single:
  assumes "\<And>j. bit m j \<longleftrightarrow> j = (k :: nat)"
  shows "(w :: dword) AND m \<noteq> 0 \<longleftrightarrow> bit w k"
proof
  assume "w AND m \<noteq> 0"
  then obtain j where "bit (w AND m) j" by (metis bit_eqI bit_0_eq bot_apply bot_bool_def)
  then have "bit w j \<and> j = k" unfolding bit_and_iff assms .
  then show "bit w k" by blast
next
  assume "bit w k"
  then have "bit (w AND m) k" using assms by (simp add: bit_and_iff)
  then show "w AND m \<noteq> 0" by auto
qed

lemma wnd_tests:
  assumes "wnd_rep w bs" "9 \<le> length bs"
  shows "w AND 0xff000000 = 0 \<longleftrightarrow> (\<forall>i<8. \<not> bs ! i)" "w AND 0x00800000 \<noteq> 0 \<longleftrightarrow> bs ! 8"
    "w AND 0x80000000 \<noteq> 0 \<longleftrightarrow> bs ! 0" "w AND 0x80800000 \<noteq> 0 \<longleftrightarrow> bs ! 0 \<or> bs ! 8"
    "ucast (drop_bit 24 (w AND 0xff000000)) = bits_byte bs"
proof -
  have b: "bit w (31 - i) \<longleftrightarrow> bs ! i" if "i < 9" for i using wnd_repD(1) [OF assms(1), of i] that assms(2) by simp
  show "w AND 0xff000000 = 0 \<longleftrightarrow> (\<forall>i<8. \<not> bs ! i)"
  proof
    assume z: "w AND 0xff000000 = 0"
    show "\<forall>i<8. \<not> bs ! i"
    proof (intro allI impI)
      fix i :: nat
      assume i: "i < 8"
      have "\<not> bit (w AND 0xff000000) (31 - i)" unfolding z by simp
      then have "\<not> bit w (31 - i)" using i bit_high_octet [of "31 - i"] unfolding bit_and_iff by auto
      then show "\<not> bs ! i" using b [of i] i by simp
    qed
  next
    assume a: "\<forall>i<8. \<not> bs ! i"
    show "w AND 0xff000000 = 0"
    proof (rule bit_word_eqI)
      fix j assume "j < LENGTH(32)"
      then have j: "j < 32" by simp
      have "\<not> bit w j" if "24 \<le> j"
      proof -
        have l: "31 - j < 8" "31 - j < 9" "31 - (31 - j) = j" using that j by simp_all
        from b [OF l(2)] a [rule_format, OF l(1)] show ?thesis unfolding l by simp
      qed
      then show "bit (w AND 0xff000000) j = bit (0 :: dword) j" using bit_high_octet [of j] unfolding bit_and_iff by auto
    qed
  qed
  show t8: "w AND 0x00800000 \<noteq> 0 \<longleftrightarrow> bs ! 8" using and_single [OF bit_masks(9), of w] b [of 8] by simp
  show t0: "w AND 0x80000000 \<noteq> 0 \<longleftrightarrow> bs ! 0" using and_single [OF bit_masks(8), of w] b [of 0] by simp
  have "(0x80800000 :: dword) = 0x80000000 OR 0x00800000" by simp
  then have "w AND 0x80800000 = (w AND 0x80000000) OR (w AND 0x00800000)" by (metis bit.conj_disj_distrib)
  then show "w AND 0x80800000 \<noteq> 0 \<longleftrightarrow> bs ! 0 \<or> bs ! 8" using t0 t8 by (simp add: or_eq_0_iff)
  show "ucast (drop_bit 24 (w AND 0xff000000)) = bits_byte bs"
  proof (rule bit_word_eqI)
    fix i assume "i < LENGTH(8)"
    then have i: "i < 8" by simp
    have e: "31 - (7 - i) = 24 + i" using i by simp
    have "bit w (24 + i) \<longleftrightarrow> bs ! (7 - i)" using b [of "7 - i"] unfolding e by simp
    then show "bit (ucast (drop_bit 24 (w AND 0xff000000)) :: byte) i = bit (bits_byte bs) i"
      unfolding bit_ucast_iff bit_drop_bit_eq o_apply bit_and_iff bit_high_octet using i assms(2) by (simp add: bit_bits_byte)
  qed
qed

section \<open>The bit stream\<close>

text \<open>The specification: on the stream of the used bits, hunt eight zeros and a one; then take octets
  as long as the octet or the next one begins with a one, up to ten. The state is what has been taken
  of a frame, the number of frames counted and the last frame.\<close>

datatype hunt = Hunt | In_frame "byte list"

type_synonym bit_state = "(hunt \<times> nat \<times> byte list option) \<times> bool list"

definition takes_octet :: "bit_state \<Rightarrow> bool" where
  "takes_octet x = (case x of ((h, c, l), bs) \<Rightarrow>
     (case h of Hunt \<Rightarrow> (\<forall>i<8. \<not> bs ! i) \<and> bs ! 8
      | In_frame os \<Rightarrow> bs ! 0 \<or> length os \<le> 8 \<and> bs ! 8))"

definition bit_step :: "bit_state \<Rightarrow> bit_state" where
  "bit_step x = (case x of ((h, c, l), bs) \<Rightarrow>
     (if takes_octet x then
        (case h of
           Hunt \<Rightarrow> (In_frame [bits_byte bs], c, l)
         | In_frame os \<Rightarrow> if length os \<le> 8 then (In_frame (os @ [bits_byte bs]), c, l)
                         else (Hunt, c + 1, Some (os @ [bits_byte bs])), drop 8 bs)
      else
        (case h of
           Hunt \<Rightarrow> (Hunt, c, l)
         | In_frame os \<Rightarrow> (Hunt, if length os \<le> 8 then 0 else c, l), tl bs)))"

inductive bit_run :: "bit_state \<Rightarrow> bit_state \<Rightarrow> bool" where
  run_refl: "bit_run x x"
| run_step: "bit_run x y \<Longrightarrow> 9 \<le> length (snd y) \<Longrightarrow> bit_run x (bit_step y)"

lemma bit_run_trans: "bit_run y z \<Longrightarrow> bit_run x y \<Longrightarrow> bit_run x z"
  by (induction rule: bit_run.induct) (auto intro: bit_run.intros)

lemma bit_run_one: "9 \<le> length bs \<Longrightarrow> bit_run (a, bs) (bit_step (a, bs))"
  using run_step [OF run_refl, of "(a, bs)"] by simp

lemma bits_byte_append: "9 \<le> length bs \<Longrightarrow> bits_byte (bs @ xs) = bits_byte bs"
  by (simp add: bits_byte_def)

lemma bit_step_append:
  assumes "9 \<le> length bs"
  shows "takes_octet (a, bs @ xs) = takes_octet (a, bs)"
    "bit_step (a, bs @ xs) = (fst (bit_step (a, bs)), snd (bit_step (a, bs)) @ xs)"
proof -
  have n: "(bs @ xs) ! i = bs ! i" if "i < 9" for i using that assms by (simp add: nth_append)
  obtain h c l where a: "a = (h, c, l)" by (cases a) auto
  have "(\<forall>i<8. \<not> (bs @ xs) ! i) = (\<forall>i<8. \<not> bs ! i)" using n by auto
  then show t: "takes_octet (a, bs @ xs) = takes_octet (a, bs)"
    using n [of 0] n [of 8] by (simp add: takes_octet_def a split: hunt.splits)
  have "bs \<noteq> []" using assms by auto
  then show "bit_step (a, bs @ xs) = (fst (bit_step (a, bs)), snd (bit_step (a, bs)) @ xs)"
    using assms t unfolding a by (simp add: bit_step_def bits_byte_append split: hunt.splits)
qed

text \<open>The detector represents a state of the specification.\<close>

definition v110_rep :: "v110 \<Rightarrow> bit_state \<Rightarrow> bool" where
  "v110_rep st x = (case x of ((h, c, l), bs) \<Rightarrow>
     irate st \<in> {1, 2, 4, 8} \<and> wnd_rep (deframe_wnd st) bs \<and> deframe_len st = length bs \<and> detector_counter st = c mod 4294967296 \<and>
     (case h of
        Hunt \<Rightarrow> deframe_state st = Zero_octett \<and> frame_pos st = 0
      | In_frame os \<Rightarrow> deframe_state st = Sync_octett \<and> frame_pos st = length os \<and> os \<noteq> [] \<and> length os \<le> 9 \<and>
          (\<forall>j < length os. rx_frame st j = os ! j)))"

lemma v110_rep_wf: "v110_rep st (a, bs) \<Longrightarrow> v110_wf st"
  by (cases a) (auto simp: v110_rep_def v110_wf_def wnd_rep_def)

lemma discard_len: "n \<le> deframe_len st \<Longrightarrow> deframe_len st \<le> 32 \<Longrightarrow> n \<le> 32 \<Longrightarrow> deframe_len (discard n st) = deframe_len st - n"
  by (auto simp: discard_def mod_if)

lemma all_less_8_nth: "length bs \<ge> 8 \<Longrightarrow> \<forall>i<8. \<not> bs ! i \<Longrightarrow> bits_byte bs = 0"
proof (rule bit_word_eqI)
  fix i assume a: "8 \<le> length bs" "\<forall>i<8. \<not> bs ! i" and "i < LENGTH(8)"
  then have "i < 8" "7 - i < 8" by simp_all
  then show "bit (bits_byte bs) i = bit 0 i" using a by (simp add: bit_bits_byte)
qed

text \<open>A step of the detector is a step of the specification.\<close>

lemma frm_step_rep:
  assumes "v110_rep st ((h, c, l), bs)" "9 \<le> length bs" "frm_step st = (found, st1)"
  shows "v110_rep st1 (bit_step ((h, c, l), bs))"
    "found \<Longrightarrow> snd (snd (fst (bit_step ((h, c, l), bs)))) = Some (map (rx_frame st1) [0..<10])"
    "\<not> found \<Longrightarrow> snd (snd (fst (bit_step ((h, c, l), bs)))) = l"
proof -
  have w: "wnd_rep (deframe_wnd st) bs" "deframe_len st = length bs" "length bs \<le> 32" "irate st \<in> {1, 2, 4, 8}" "detector_counter st = c mod 4294967296"
    using assms(1) by (auto simp: v110_rep_def wnd_rep_def)
  note t = wnd_tests [OF w(1) assms(2)]
  have d8: "wnd_rep (push_bit 8 (deframe_wnd st)) (drop 8 bs)" and d1: "wnd_rep (push_bit 1 (deframe_wnd st)) (tl bs)"
    using wnd_rep_drop [OF w(1), of 8] wnd_rep_drop [OF w(1), of 1] by (simp_all add: drop_Suc)
  have l8: "(length bs + 4294967288) mod 4294967296 = length bs - 8" and l1: "(length bs + 4294967295) mod 4294967296 = length bs - 1"
    using assms(2) w(3) by (auto simp: mod_if)
  have bb: "top_octet st = bits_byte bs" unfolding top_octet_def by (rule t(5))
  have "v110_rep st1 (bit_step ((h, c, l), bs)) \<and>
    (found \<longrightarrow> snd (snd (fst (bit_step ((h, c, l), bs)))) = Some (map (rx_frame st1) [0..<10])) \<and>
    (\<not> found \<longrightarrow> snd (snd (fst (bit_step ((h, c, l), bs)))) = l)"
  proof (cases h)
    case Hunt
    have s: "deframe_state st = Zero_octett" "frame_pos st = 0" using assms(1) Hunt by (simp_all add: v110_rep_def)
    show ?thesis
    proof (cases "(\<forall>i<8. \<not> bs ! i) \<and> bs ! 8")
      case True
      then have "bits_byte bs = 0" using assms(2) by (intro all_less_8_nth) auto
      moreover have "found = False \<and> st1 = discard 8 (st\<lparr>rx_frame := (rx_frame st)(0 := 0), frame_pos := 1, deframe_state := Sync_octett\<rparr>)"
        using assms(3) True by (simp add: frm_step_def s t)
      ultimately show ?thesis
        using True w d8 l8 by (simp add: Hunt bit_step_def takes_octet_def v110_rep_def discard_def)
    next
      case False
      have "frm_step st = (False, discard 1 st)"
        unfolding frm_step_def s(1) frm_state.case t(1,2) if_not_P [OF False] by simp
      then have "found = False \<and> st1 = discard 1 st" using assms(3) by simp
      then show ?thesis
        using False w d1 l1 s by (auto simp: Hunt bit_step_def takes_octet_def v110_rep_def discard_def)
    qed
  next
    case (In_frame os)
    have s: "deframe_state st = Sync_octett" "frame_pos st = length os" "os \<noteq> []" "length os \<le> 9"
      "\<forall>j < length os. rx_frame st j = os ! j"
      using assms(1) In_frame by (simp_all add: v110_rep_def)
    show ?thesis
    proof (cases "length os \<le> 8")
      case le: True
      show ?thesis
      proof (cases "bs ! 0 \<or> bs ! 8")
        case True
        then have "found = False \<and> st1 = discard 8 ((store_octet (bits_byte bs) st)\<lparr>frame_pos := length os + 1\<rparr>)"
          using assms(3) le by (simp add: frm_step_def s t bb)
        then show ?thesis
          using True le w d8 l8 s
          by (simp add: In_frame bit_step_def takes_octet_def v110_rep_def discard_def store_octet_def nth_append less_Suc_eq)
      next
        case False
        then have "found = False \<and> st1 = (discard 1 st)\<lparr>frame_pos := 0, deframe_state := Zero_octett, detector_counter := 0\<rparr>"
          using assms(3) le by (simp add: frm_step_def s t)
        then show ?thesis
          using False le w d1 l1 by (simp add: In_frame bit_step_def takes_octet_def v110_rep_def discard_def)
      qed
    next
      case nle: False
      then have nine: "length os = 9" using s(4) by simp
      show ?thesis
      proof (cases "bs ! 0")
        case True
        then have st1: "found = True \<and> st1 = (discard 8 (store_octet (bits_byte bs) st))
            \<lparr>frame_pos := 0, deframe_state := Zero_octett, detector_counter := Suc c mod 4294967296\<rparr>"
          using assms(3) nle w(5) by (simp add: frm_step_def s t bb mod_Suc_eq)
        have "map (rx_frame st1) [0..<10] = os @ [bits_byte bs]"
          using st1 s(5) nine by (intro nth_equalityI) (auto simp: store_octet_def discard_def s(2) nth_append)
        then show ?thesis
          using st1 True nle w d8 l8 nine by (simp add: In_frame bit_step_def takes_octet_def v110_rep_def discard_def store_octet_def)
      next
        case False
        then have "found = False \<and> st1 = (discard 1 st)\<lparr>frame_pos := 0, deframe_state := Zero_octett\<rparr>"
          using assms(3) nle by (simp add: frm_step_def s t)
        then show ?thesis
          using False nle w d1 l1 by (simp add: In_frame bit_step_def takes_octet_def v110_rep_def discard_def)
      qed
    qed
  qed
  then show "v110_rep st1 (bit_step ((h, c, l), bs))"
    "found \<Longrightarrow> snd (snd (fst (bit_step ((h, c, l), bs)))) = Some (map (rx_frame st1) [0..<10])"
    "\<not> found \<Longrightarrow> snd (snd (fst (bit_step ((h, c, l), bs)))) = l" by blast+
qed

lemma add_octet_rep:
  assumes "v110_rep st (a, bs)" "irate st = r" "length bs + r \<le> 32"
  obtains st1 where "add_octet b st = Some st1" "v110_rep st1 (a, bs @ used_bits r b)" "irate st1 = r"
proof -
  obtain h c l where a: "a = (h, c, l)" by (cases a) auto
  have w: "wnd_rep (deframe_wnd st) bs" "deframe_len st = length bs" "r \<in> {1, 2, 4, 8}"
    using assms(1,2) by (auto simp: v110_rep_def a)
  let ?st = "st\<lparr>deframe_wnd := deframe_wnd st OR push_bit (32 - length bs - r) (refill_bits r b), deframe_len := length bs + r\<rparr>"
  show ?thesis
  proof (rule that [of ?st])
    show "add_octet b st = Some ?st" using assms(2,3) w(2) by (simp add: add_octet_def)
    show "v110_rep ?st (a, bs @ used_bits r b)"
      using assms(1,2) wnd_rep_add [OF w(1) assms(3) w(3), of b] by (simp add: v110_rep_def a split: hunt.splits)
    show "irate ?st = r" using assms(2) by simp
  qed
qed

lemma refill_rep:
  assumes "v110_rep st (a, bs)" "irate st = r" "ds \<noteq> []" "r dvd length bs" "length bs + r \<le> 32"
  shows "\<exists>used ds1 st1. refill ds st = Some (ds1, st1) \<and> ds = used @ ds1 \<and> v110_rep st1 (a, bs @ stream_bits r used) \<and>
    irate st1 = r \<and> (ds1 \<noteq> [] \<longrightarrow> length (bs @ stream_bits r used) = 32)"
  using assms
proof (induction ds arbitrary: st bs)
  case Nil
  then show ?case by simp
next
  case (Cons d ds)
  obtain st1 where st1: "add_octet d st = Some st1" "v110_rep st1 (a, bs @ used_bits r d)" "irate st1 = r"
    using add_octet_rep [OF Cons.prems(1,2,5)] by blast
  obtain h c l where a: "a = (h, c, l)" by (cases a) auto
  have len: "deframe_len st1 = length bs + r" using st1(2) by (simp add: v110_rep_def a)
  have r: "r dvd 32" "r \<in> {1, 2, 4, 8}" using Cons.prems(1,2) by (auto simp: v110_rep_def a)
  show ?case
  proof (cases "length bs + r < 32 \<and> ds \<noteq> []")
    case True
    have "r dvd 32 - (length bs + r)" using r(1) Cons.prems(4) by (simp add: dvd_diff_nat)
    then have "r \<le> 32 - (length bs + r)" using True by (intro dvd_imp_le) auto
    then have "length bs + r + r \<le> 32" using True by linarith
    then have "length (bs @ used_bits r d) + r \<le> 32" by simp
    moreover have "r dvd length (bs @ used_bits r d)" using Cons.prems(4) by simp
    ultimately obtain used ds1 st2 where u: "refill ds st1 = Some (ds1, st2)" "ds = used @ ds1"
      "v110_rep st2 (a, (bs @ used_bits r d) @ stream_bits r used)" "irate st2 = r"
      "ds1 \<noteq> [] \<longrightarrow> length ((bs @ used_bits r d) @ stream_bits r used) = 32"
      using Cons.IH [OF st1(2,3)] True by blast
    have "refill (d # ds) st = Some (ds1, st2)" using True st1(1) len u(1) by simp
    then show ?thesis using u by (intro exI [of _ "d # used"] exI [of _ ds1] exI [of _ st2]) simp
  next
    case False
    then have "refill (d # ds) st = Some (ds, st1)" using st1(1) len by auto
    then show ?thesis using st1 False Cons.prems(5) by (intro exI [of _ "[d]"] exI [of _ ds] exI [of _ st1]) auto
  qed
qed

lemma fill_window_rep:
  assumes "v110_rep st (a, bs)" "irate st = r" "ds \<noteq> []" "length bs \<le> 32 - r \<longrightarrow> r dvd length bs"
    "9 \<le> length bs + r * length ds"
  obtains used ds1 st1 where "fill_window ds st = Some (ds1, st1)" "ds = used @ ds1"
    "v110_rep st1 (a, bs @ stream_bits r used)" "irate st1 = r" "9 \<le> length (bs @ stream_bits r used)"
    "ds1 \<noteq> [] \<longrightarrow> 32 - r < length (bs @ stream_bits r used)"
proof -
  obtain h c l where a: "a = (h, c, l)" by (cases a) auto
  have r: "r \<in> {1, 2, 4, 8}" "deframe_len st = length bs" using assms(1,2) by (auto simp: v110_rep_def a)
  show ?thesis
  proof (cases "length bs \<le> 32 - r")
    case True
    then have "length bs + r \<le> 32" using r by auto
    then obtain used ds1 st1 where u: "refill ds st = Some (ds1, st1)" "ds = used @ ds1" "v110_rep st1 (a, bs @ stream_bits r used)"
      "irate st1 = r" "ds1 \<noteq> [] \<longrightarrow> length (bs @ stream_bits r used) = 32"
      using refill_rep [OF assms(1,2,3)] assms(4) True by blast
    have "9 \<le> length (bs @ stream_bits r used)"
    proof (cases "ds1 = []")
      case True
      then show ?thesis using u(2) assms(5) by simp
    qed (use u(5) in simp)
    moreover have "ds1 \<noteq> [] \<longrightarrow> 32 - r < length (bs @ stream_bits r used)" using u(5) r by auto
    ultimately show ?thesis using that [of ds1 st1 used] u True r by (simp add: fill_window_def assms(2))
  next
    case False
    then have "fill_window ds st = Some (ds, st)" using r assms(2) by (simp add: fill_window_def)
    moreover have "9 \<le> length bs" using False r by auto
    ultimately show ?thesis using that [of ds st "[]"] assms(1,2) False by simp
  qed
qed

text \<open>A refill behind bits that were consumed singly would not fit; the streams where this does not
  happen have every octet taken at a multiple of the rate.\<close>

definition aligned :: "nat \<Rightarrow> bit_state \<Rightarrow> bool" where
  "aligned r x \<longleftrightarrow> (\<forall>y. bit_run x y \<longrightarrow> 9 \<le> length (snd y) \<longrightarrow> takes_octet y \<longrightarrow> r dvd length (snd y))"

lemma aligned_run: "aligned r x \<Longrightarrow> bit_run x y \<Longrightarrow> aligned r y"
  unfolding aligned_def using bit_run_trans by blast

definition window_ok :: "nat \<Rightarrow> bool list \<Rightarrow> bool" where
  "window_ok r bs \<longleftrightarrow> 16 \<le> length bs \<and> (length bs \<le> 32 - r \<longrightarrow> r dvd length bs)"

lemma do_deframe_rep:
  assumes "v110_rep st (a, bs)" "irate st = r" "ds \<noteq> []" "length bs \<le> 32 - r \<longrightarrow> r dvd length bs"
    "9 \<le> length bs + r * length ds" "aligned r (a, bs @ stream_bits r ds)"
  shows "\<exists>found ds1 st1 b cs. do_deframe ds st = Some (found, ds1, st1) \<and> v110_rep st1 (b, cs) \<and> irate st1 = r \<and>
    bit_run (a, bs @ stream_bits r ds) (b, cs @ stream_bits r ds1) \<and> (\<not> found \<longrightarrow> ds1 = []) \<and>
    (ds1 \<noteq> [] \<longrightarrow> window_ok r cs) \<and> phase st1 = phase st \<and> cfg st1 = cfg st \<and>
    snd (snd b) = (if found then Some (map (rx_frame st1) [0..<10]) else snd (snd a))"
  using assms
proof (induction ds st arbitrary: a bs rule: do_deframe.induct)
  case (1 ds st)
  have wf: "v110_wf st" using 1(2) by (rule v110_rep_wf)
  obtain used ds1 st1 where f: "fill_window ds st = Some (ds1, st1)" "ds = used @ ds1"
    "v110_rep st1 (a, bs @ stream_bits r used)" "irate st1 = r" "9 \<le> length (bs @ stream_bits r used)"
    "ds1 \<noteq> [] \<longrightarrow> 32 - r < length (bs @ stream_bits r used)"
    using fill_window_rep [OF 1(2-6)] by blast
  let ?w = "bs @ stream_bits r used"
  have r: "r \<in> {1, 2, 4, 8}" using 1(2,3) by (cases a) (auto simp: v110_rep_def)
  obtain found st2 where s: "frm_step st1 = (found, st2)" by (cases "frm_step st1")
  obtain h c l where a: "a = (h, c, l)" by (cases a) auto
  obtain b cs where x: "bit_step (a, ?w) = (b, cs)" by (cases "bit_step (a, ?w)")
  note fr = frm_step_rep [OF f(3) [unfolded a] f(5) s, folded a, unfolded x]
  have frame: "phase st2 = phase st" "cfg st2 = cfg st" "irate st2 = r"
    using fill_window_frame [OF f(1)] frm_step_frame [of st1] s f(4) by simp_all
  have bits: "bs @ stream_bits r ds = ?w @ stream_bits r ds1" using f(2) by simp
  have run: "bit_run (a, bs @ stream_bits r ds) (b, cs @ stream_bits r ds1)"
    using bit_run_one [of "?w @ stream_bits r ds1" a] bit_step_append(2) [OF f(5), of a "stream_bits r ds1"] f(5) x
    unfolding bits by simp
  have w32: "length ?w \<le> 32" using f(3) by (simp add: v110_rep_def a wnd_rep_def)
  have ok: "window_ok r cs" if "ds1 \<noteq> []"
  proof (cases "takes_octet (a, ?w)")
    case True
    have "takes_octet (a, bs @ stream_bits r ds)" using bit_step_append(1) [OF f(5)] True unfolding bits by simp
    moreover have "9 \<le> length (bs @ stream_bits r ds)" using f(5) unfolding bits by simp
    ultimately have "r dvd length (bs @ stream_bits r ds)"
      using 1(7) run_refl unfolding aligned_def by (metis snd_conv)
    then have "r dvd length bs + r * length used + r * length ds1" unfolding bits by (simp add: add.assoc)
    then have "r dvd length bs + r * length used" by (simp add: dvd_add_left_iff)
    then have d: "r dvd length ?w" by simp
    have cs: "cs = drop 8 ?w" using x True by (auto simp: bit_step_def a split: hunt.splits if_splits)
    have "r dvd 8" using r by auto
    moreover have "length cs = length ?w - 8" by (simp only: cs length_drop)
    ultimately have "r dvd length cs" using d by (simp only: dvd_diff_nat)
    moreover have "16 \<le> length cs" using f(6) that r by (auto simp: cs)
    ultimately show ?thesis by (simp add: window_ok_def)
  next
    case False
    then have cs: "cs = tl ?w" using x by (auto simp: bit_step_def a split: hunt.splits if_splits)
    have "length cs \<le> 32 - r \<longrightarrow> length cs = 32 - r" using f(6) that r w32 by (auto simp: cs)
    moreover have "r dvd 32 - r" using r by auto
    moreover have "16 \<le> length cs" using f(6) that r by (auto simp: cs)
    ultimately show ?thesis by (auto simp: window_ok_def)
  qed
  have round: "do_deframe ds st = (if found then Some (True, ds1, st2) else do_deframe ds1 st2)"
    by (rule do_deframe_round [OF 1(4) wf f(1) s])
  show ?case
  proof (cases "found \<or> ds1 = []")
    case True
    then have "do_deframe ds st = Some (found, ds1, st2)" using round do_deframe_stop [of ds1 st2] by auto
    then show ?thesis using fr run frame ok True a by (intro exI [of _ found] exI [of _ ds1] exI [of _ st2] exI [of _ b] exI [of _ cs]) auto
  next
    case False
    then have nf: "\<not> found" "ds1 \<noteq> []" by simp_all
    note o = ok [OF nf(2), unfolded window_ok_def]
    have "\<exists>found' ds2 st3 b' cs'. do_deframe ds1 st2 = Some (found', ds2, st3) \<and> v110_rep st3 (b', cs') \<and> irate st3 = r \<and>
      bit_run (b, cs @ stream_bits r ds1) (b', cs' @ stream_bits r ds2) \<and> (\<not> found' \<longrightarrow> ds2 = []) \<and>
      (ds2 \<noteq> [] \<longrightarrow> window_ok r cs') \<and> phase st3 = phase st2 \<and> cfg st3 = cfg st2 \<and>
      snd (snd b') = (if found' then Some (map (rx_frame st3) [0..<10]) else snd (snd b))"
    proof (rule 1(1) [OF _ f(1) refl s [symmetric] nf(1) fr(1) frame(3) nf(2)])
      show "\<not> (ds = [] \<or> \<not> v110_wf st)" using 1(4) wf by simp
      show "length cs \<le> 32 - r \<longrightarrow> r dvd length cs" using o by simp
      show "9 \<le> length cs + r * length ds1" using o by simp
      show "aligned r (b, cs @ stream_bits r ds1)" by (rule aligned_run [OF 1(7) run])
    qed
    then obtain found' ds2 st3 b' cs' where IH: "do_deframe ds1 st2 = Some (found', ds2, st3)" "v110_rep st3 (b', cs')"
      "irate st3 = r" "bit_run (b, cs @ stream_bits r ds1) (b', cs' @ stream_bits r ds2)" "\<not> found' \<longrightarrow> ds2 = []"
      "ds2 \<noteq> [] \<longrightarrow> window_ok r cs'" "phase st3 = phase st2" "cfg st3 = cfg st2"
      "snd (snd b') = (if found' then Some (map (rx_frame st3) [0..<10]) else snd (snd b))" by blast
    have 2: "do_deframe ds st = Some (found', ds2, st3)" using round nf(1) IH(1) by simp
    have 3: "bit_run (a, bs @ stream_bits r ds) (b', cs' @ stream_bits r ds2)" by (rule bit_run_trans [OF IH(4) run])
    have 4: "phase st3 = phase st" "cfg st3 = cfg st" using IH(7,8) frame by simp_all
    have 5: "snd (snd b') = (if found' then Some (map (rx_frame st3) [0..<10]) else snd (snd a))"
      using IH(9) fr(3) [OF nf(1)] a by simp
    show ?thesis
      by (intro exI [of _ found'] exI [of _ ds2] exI [of _ st3] exI [of _ b'] exI [of _ cs'] conjI IH(2,3,5,6) 2 3 4 5)
  qed
qed

section \<open>Decoding a block\<close>

definition frame_sequence :: "nat \<Rightarrow> byte list \<Rightarrow> v110_irate_sequence option" where
  "frame_sequence i f = find (\<lambda>q. seq_e_rate q = 0xff \<or> seq_e_rate q = f ! 5 AND 0x70) (v110_irate_sequences i)"

lemma do_v110_frame: "do_v110 st = frame_sequence (cfg st) (map (rx_frame st) [0..<10])"
  by (simp add: do_v110_def frame_sequence_def)

lemma decode_rep:
  assumes "v110_rep st (a, bs)" "irate st = r" "phase st = Phase_sync"
    "ds \<noteq> [] \<longrightarrow> (length bs \<le> 32 - r \<longrightarrow> r dvd length bs) \<and> 9 \<le> length bs + r * length ds"
    "aligned r (a, bs @ stream_bits r ds)"
  shows "\<exists>d1 st1 b cs. softv110_decode_process ds st d = Some (d1, st1) \<and> v110_rep st1 (b, cs) \<and> irate st1 = r \<and>
    phase st1 = Phase_sync \<and> cfg st1 = cfg st \<and> bit_run (a, bs @ stream_bits r ds) (b, cs) \<and>
    (d1 = d \<and> snd (snd b) = snd (snd a) \<or> (\<exists>f. snd (snd b) = Some f \<and> d1 = frame_sequence (cfg st) f))"
  using assms
proof (induction ds st d arbitrary: a bs rule: softv110_decode_process.induct)
  case (1 ds st d)
  have wf: "v110_wf st" using 1(3) by (rule v110_rep_wf)
  show ?case
  proof (cases "ds = []")
    case True
    then have e: "softv110_decode_process ds st d = Some (d, st)" by (subst softv110_decode_process.simps) simp
    show ?thesis
      by (intro exI [of _ d] exI [of _ st] exI [of _ a] exI [of _ bs] conjI e 1(3-5) disjI1) (use True run_refl in simp_all)
  next
    case False
    obtain found ds1 st1 b cs where D: "do_deframe ds st = Some (found, ds1, st1)" "v110_rep st1 (b, cs)" "irate st1 = r"
      "bit_run (a, bs @ stream_bits r ds) (b, cs @ stream_bits r ds1)" "ds1 \<noteq> [] \<longrightarrow> window_ok r cs"
      "phase st1 = phase st" "cfg st1 = cfg st"
      "snd (snd b) = (if found then Some (map (rx_frame st1) [0..<10]) else snd (snd a))"
      using do_deframe_rep [OF 1(3,4) False _ _ 1(7)] 1(6) False by blast
    let ?d = "if found then do_v110 st1 else d"
    have simp: "softv110_decode_process ds st d = softv110_decode_process ds1 st1 ?d"
      using False wf 1(5) D(1) by (subst softv110_decode_process.simps) simp
    have "\<exists>d1 st2 b' cs'. softv110_decode_process ds1 st1 ?d = Some (d1, st2) \<and> v110_rep st2 (b', cs') \<and> irate st2 = r \<and>
      phase st2 = Phase_sync \<and> cfg st2 = cfg st1 \<and> bit_run (b, cs @ stream_bits r ds1) (b', cs') \<and>
      (d1 = ?d \<and> snd (snd b') = snd (snd b) \<or> (\<exists>f. snd (snd b') = Some f \<and> d1 = frame_sequence (cfg st1) f))"
    proof (rule 1(2) [OF _ 1(5) D(1) refl refl D(2,3)])
      show "\<not> (ds = [] \<or> \<not> v110_wf st)" using False wf by simp
      show "phase st1 = Phase_sync" using D(6) 1(5) by simp
      show "ds1 \<noteq> [] \<longrightarrow> (length cs \<le> 32 - r \<longrightarrow> r dvd length cs) \<and> 9 \<le> length cs + r * length ds1"
        using D(5) by (auto simp: window_ok_def)
      show "aligned r (b, cs @ stream_bits r ds1)" by (rule aligned_run [OF 1(7) D(4)])
    qed
    then obtain d1 st2 b' cs' where R: "softv110_decode_process ds1 st1 ?d = Some (d1, st2)" "v110_rep st2 (b', cs')" "irate st2 = r"
      "phase st2 = Phase_sync" "cfg st2 = cfg st1" "bit_run (b, cs @ stream_bits r ds1) (b', cs')"
      "d1 = ?d \<and> snd (snd b') = snd (snd b) \<or> (\<exists>f. snd (snd b') = Some f \<and> d1 = frame_sequence (cfg st1) f)" by blast
    have "d1 = d \<and> snd (snd b') = snd (snd a) \<or> (\<exists>f. snd (snd b') = Some f \<and> d1 = frame_sequence (cfg st) f)"
      using R(7) D(7,8) do_v110_frame [of st1] by (cases found) auto
    moreover have "bit_run (a, bs @ stream_bits r ds) (b', cs')" by (rule bit_run_trans [OF R(6) D(4)])
    ultimately show ?thesis
      using simp R(1-5) D(7) by (intro exI [of _ d1] exI [of _ st2] exI [of _ b'] exI [of _ cs']) simp
  qed
qed

text \<open>Several blocks; the last detection counts.\<close>

fun decode_blocks :: "byte list list \<Rightarrow> v110 \<Rightarrow> v110_irate_sequence option \<Rightarrow> (v110_irate_sequence option \<times> v110) option" where
  "decode_blocks [] st d = Some (d, st)"
| "decode_blocks (c # css) st d =
     (case softv110_decode_process c st None of
        None \<Rightarrow> None
      | Some (d1, st1) \<Rightarrow> decode_blocks css st1 (if d1 = None then d else d1))"

lemma frame_sequence_some: "i < 4 \<Longrightarrow> frame_sequence i f \<noteq> None"
proof -
  assume "i < 4"
  then have "i = 0 \<or> i = 1 \<or> i = 2 \<or> i = 3" by auto
  then have "\<exists>q \<in> set (v110_irate_sequences i). seq_e_rate q = 0xff"
    by (elim disjE) (simp_all add: v110_irate_sequences_def)
  then show ?thesis by (auto simp: frame_sequence_def find_None_iff)
qed

definition last_sequence :: "nat \<Rightarrow> byte list option \<Rightarrow> v110_irate_sequence option" where
  "last_sequence i l = (case l of None \<Rightarrow> None | Some f \<Rightarrow> frame_sequence i f)"

lemma decode_blocks_rep:
  assumes "v110_rep st (a, bs)" "irate st = r" "phase st = Phase_sync" "cfg st = i" "i < 4"
    "\<forall>c \<in> set css. 9 \<le> r * length c" "length css \<le> 1 \<and> r dvd length bs \<or> r = 1"
    "aligned r (a, bs @ stream_bits r (concat css))" "d = last_sequence i (snd (snd a))"
  shows "\<exists>st1 b cs. decode_blocks css st d = Some (last_sequence i (snd (snd b)), st1) \<and> v110_rep st1 (b, cs) \<and>
    bit_run (a, bs @ stream_bits r (concat css)) (b, cs)"
  using assms
proof (induction css arbitrary: st a bs d)
  case Nil
  show ?case
    by (intro exI [of _ st] exI [of _ a] exI [of _ bs] conjI Nil(1)) (use Nil(9) run_refl in simp_all)
next
  case (Cons c css)
  have al: "aligned r (a, bs @ stream_bits r c)"
    unfolding aligned_def
  proof (intro allI impI)
    fix y
    assume y: "bit_run (a, bs @ stream_bits r c) y" "9 \<le> length (snd y)" "takes_octet y"
    show "r dvd length (snd y)"
    proof (cases "r = 1")
      case False
      then have "css = []" using Cons.prems(7) by simp
      then have "aligned r (a, bs @ stream_bits r c)" using Cons.prems(8) by simp
      then show ?thesis using y unfolding aligned_def by blast
    qed simp
  qed
  have blk: "(length bs \<le> 32 - r \<longrightarrow> r dvd length bs) \<and> 9 \<le> length bs + r * length c"
    using Cons.prems(6,7) by auto
  obtain d1 st1 b cs where D: "softv110_decode_process c st None = Some (d1, st1)" "v110_rep st1 (b, cs)" "irate st1 = r"
    "phase st1 = Phase_sync" "cfg st1 = i" "bit_run (a, bs @ stream_bits r c) (b, cs)"
    "d1 = None \<and> snd (snd b) = snd (snd a) \<or> (\<exists>f. snd (snd b) = Some f \<and> d1 = frame_sequence i f)"
    using decode_rep [OF Cons.prems(1-3) _ al, of None] blk Cons.prems(4) by auto
  let ?d = "if d1 = None then d else d1"
  have d: "?d = last_sequence i (snd (snd b))"
    using D(7)
  proof (elim disjE exE conjE)
    fix f
    assume f: "snd (snd b) = Some f" "d1 = frame_sequence i f"
    obtain q where "frame_sequence i f = Some q" using frame_sequence_some [OF Cons.prems(5)] by blast
    then show ?thesis using f by (simp add: last_sequence_def)
  qed (simp add: Cons.prems(9))
  have ext: "bit_run (a, xs @ zs) (b, ys @ zs)" if "bit_run (a, xs) (b, ys)" for xs ys zs
  proof -
    have "bit_run x y \<Longrightarrow> bit_run (fst x, snd x @ zs) (fst y, snd y @ zs)" for x y
    proof (induction rule: bit_run.induct)
      case (run_refl x)
      show ?case by (rule bit_run.run_refl)
    next
      case (run_step x y)
      have "bit_run (fst x, snd x @ zs) (bit_step (fst y, snd y @ zs))"
        using run_step.IH run_step.hyps(2) by (intro bit_run.run_step) auto
      then show ?case using bit_step_append(2) [OF run_step.hyps(2), of "fst y" zs] by simp
    qed
    from this [OF that] show ?thesis by simp
  qed
  have run: "bit_run (a, bs @ stream_bits r (concat (c # css))) (b, cs @ stream_bits r (concat css))"
    using ext [OF D(6), of "stream_bits r (concat css)"] by simp
  have next_blk: "length css \<le> 1 \<and> r dvd length cs \<or> r = 1 \<or> css = []" using Cons.prems(7) by auto
  show ?case
  proof (cases "css = []")
    case True
    then have e: "decode_blocks (c # css) st d = Some (last_sequence i (snd (snd b)), st1)" using D(1) d by simp
    show ?thesis
      by (intro exI [of _ st1] exI [of _ b] exI [of _ cs] conjI e D(2)) (use run True in simp)
  next
    case False
    then have r1: "r = 1" using Cons.prems(7) by auto
    have c: "\<forall>c \<in> set css. 9 \<le> r * length c" using Cons.prems(6) by simp
    obtain st2 b' cs' where R: "decode_blocks css st1 ?d = Some (last_sequence i (snd (snd b')), st2)" "v110_rep st2 (b', cs')"
      "bit_run (b, cs @ stream_bits r (concat css)) (b', cs')"
      using Cons.IH [OF D(2,3,4,5) Cons.prems(5) c _ aligned_run [OF Cons.prems(8) run] d] r1 by blast
    have e: "decode_blocks (c # css) st d = Some (last_sequence i (snd (snd b')), st2)" using D(1) R(1) by simp
    show ?thesis
      by (intro exI [of _ st2] exI [of _ b'] exI [of _ cs'] conjI e R(2) bit_run_trans [OF R(3) run])
  qed
qed

section \<open>Streams of frames\<close>

text \<open>A frame: an octet of zeros and nine that begin with a one.\<close>

definition frame_ok :: "byte list \<Rightarrow> bool" where
  "frame_ok f \<longleftrightarrow> length f = 10 \<and> f ! 0 = 0 \<and> (\<forall>j. 1 \<le> j \<and> j < 10 \<longrightarrow> bit (f ! j) 7)"

definition frame_bits :: "byte list \<Rightarrow> bool list" where
  "frame_bits f = concat (map byte_bits f)"

text \<open>Runs that take octets only at multiples of the rate.\<close>

inductive run_at :: "nat \<Rightarrow> bit_state \<Rightarrow> bit_state \<Rightarrow> bool" for r where
  at_refl: "run_at r x x"
| at_step: "run_at r x y \<Longrightarrow> 9 \<le> length (snd y) \<Longrightarrow> (takes_octet y \<longrightarrow> r dvd length (snd y)) \<Longrightarrow> run_at r x (bit_step y)"

lemma run_at_trans: "run_at r y z \<Longrightarrow> run_at r x y \<Longrightarrow> run_at r x z"
  by (induction rule: run_at.induct) (auto intro: run_at.intros)

lemma run_at_one: "9 \<le> length (snd x) \<Longrightarrow> (takes_octet x \<longrightarrow> r dvd length (snd x)) \<Longrightarrow> run_at r x (bit_step x)"
  using at_step [OF at_refl] by simp

lemma bit_run_cases:
  assumes "bit_run x y"
  shows "y = x \<or> 9 \<le> length (snd x) \<and> bit_run (bit_step x) y"
  using assms by (induction rule: bit_run.induct) (auto intro: bit_run.intros)

text \<open>As the steps are a function, every run from the start passes along the given one.\<close>

lemma run_at_along:
  assumes "run_at r x z" "bit_run x y"
  shows "(9 \<le> length (snd y) \<longrightarrow> takes_octet y \<longrightarrow> r dvd length (snd y)) \<and> bit_run y z \<or> bit_run z y"
  using assms
proof (induction arbitrary: y rule: run_at.induct)
  case (at_refl x)
  then show ?case by simp
next
  case (at_step x z)
  from at_step.IH [OF at_step.prems] show ?case
  proof
    assume "(9 \<le> length (snd y) \<longrightarrow> takes_octet y \<longrightarrow> r dvd length (snd y)) \<and> bit_run y z"
    then show ?thesis using run_step [OF _ at_step.hyps(2)] by blast
  next
    assume "bit_run z y"
    from bit_run_cases [OF this] show ?thesis
    proof
      assume "y = z"
      then show ?thesis using at_step.hyps(2,3) run_step [OF run_refl] by blast
    qed blast
  qed
qed

lemma bit_step_shorter: "9 \<le> length (snd x) \<Longrightarrow> length (snd (bit_step x)) < length (snd x)"
  by (cases x) (auto simp: bit_step_def split: hunt.splits prod.splits)

lemma bit_run_shorter: "bit_run x y \<Longrightarrow> length (snd y) \<le> length (snd x)"
  by (induction rule: bit_run.induct) (auto dest: bit_step_shorter)

lemma step_one: "bit_step ((Hunt, c, l), True # bs) = ((Hunt, c, l), bs)" "\<not> takes_octet ((Hunt, c, l), True # bs)"
  by (auto simp: bit_step_def takes_octet_def intro: exI [of _ 0])

lemma run_ones: "9 \<le> length bs \<Longrightarrow> run_at r ((Hunt, c, l), replicate k True @ bs) ((Hunt, c, l), bs)"
proof (induction k)
  case 0
  show ?case by (simp add: at_refl)
next
  case (Suc k)
  have "run_at r ((Hunt, c, l), replicate (Suc k) True @ bs) (bit_step ((Hunt, c, l), replicate (Suc k) True @ bs))"
    using Suc.prems by (intro run_at_one) (simp_all add: step_one)
  then show ?case using Suc by (simp add: step_one run_at_trans)
qed

lemma ones_run:
  assumes "bit_run ((Hunt, c, l), replicate t True) y"
  shows "\<exists>j. y = ((Hunt, c, l), replicate j True)"
  using assms
proof (induction "((Hunt, c, l), replicate t True)" y rule: bit_run.induct)
  case run_refl
  show ?case by blast
next
  case (run_step y)
  then obtain j where j: "y = ((Hunt, c, l), replicate j True)" by blast
  with run_step.hyps(3) obtain j' where "j = Suc j'" by (cases j) auto
  then show ?case using j by (auto simp: step_one)
qed

lemma run_octets:
  assumes "os \<noteq> []" "gs \<noteq> []" "length os + length gs = 10" "\<forall>g \<in> set gs. bit g 7" "9 \<le> length bs" "r dvd 8" "r dvd length bs"
  shows "run_at r ((In_frame os, c, l), concat (map byte_bits gs) @ bs) ((Hunt, c + 1, Some (os @ gs)), bs)"
  using assms
proof (induction gs arbitrary: os)
  case Nil
  then show ?case by simp
next
  case (Cons g gs)
  let ?rest = "concat (map byte_bits gs) @ bs"
  let ?x = "((In_frame os, c, l), concat (map byte_bits (g # gs)) @ bs)"
  have top: "(byte_bits g @ ?rest) ! 0" using Cons.prems(4) by (simp add: nth_append byte_bits_nth)
  have len: "length (concat (map byte_bits hs)) = 8 * length hs" for hs by (induction hs) (simp_all add: byte_bits_nth)
  have "r dvd length (snd ?x)" using Cons.prems(6,7) by (simp add: len byte_bits_nth dvd_add)
  then have one: "run_at r ?x (bit_step ?x)" using Cons.prems(5) by (intro run_at_one) simp_all
  show ?case
  proof (cases "gs = []")
    case True
    then have "length os = 9" using Cons.prems(3) by simp
    then have "bit_step ?x = ((Hunt, c + 1, Some (os @ [g])), bs)"
      using top True by (simp add: bit_step_def takes_octet_def bits_byte_bits byte_bits_nth)
    then show ?thesis using one True by simp
  next
    case False
    then have "length os \<le> 8" using Cons.prems(3) by (cases gs) auto
    then have "bit_step ?x = ((In_frame (os @ [g]), c, l), ?rest)"
      using top by (simp add: bit_step_def takes_octet_def bits_byte_bits byte_bits_nth)
    moreover have "run_at r ((In_frame (os @ [g]), c, l), ?rest) ((Hunt, c + 1, Some ((os @ [g]) @ gs)), bs)"
      using Cons.prems False by (intro Cons.IH) simp_all
    ultimately show ?thesis using one run_at_trans by fastforce
  qed
qed

lemma run_frame:
  assumes "frame_ok f" "9 \<le> length bs" "r dvd 8" "r dvd length bs"
  shows "run_at r ((Hunt, c, l), frame_bits f @ bs) ((Hunt, c + 1, Some f), bs)"
proof -
  obtain g gs where f: "f = 0 # g # gs" "length gs = 8" "\<forall>h \<in> set (g # gs). bit h 7"
  proof -
    obtain z g gs where e: "f = z # g # gs" using assms(1) by (cases f; cases "tl f") (auto simp: frame_ok_def)
    have "\<forall>h \<in> set (g # gs). bit h 7"
    proof
      fix h
      assume "h \<in> set (g # gs)"
      then obtain j where "j < length (g # gs)" "h = (g # gs) ! j" by (metis in_set_conv_nth)
      then show "bit h 7" using assms(1) by (auto simp: frame_ok_def e dest!: spec [of _ "Suc j"])
    qed
    then show ?thesis using that [of g gs] assms(1) e by (auto simp: frame_ok_def)
  qed
  let ?rest = "concat (map byte_bits (g # gs)) @ bs"
  let ?x = "((Hunt, c, l), byte_bits 0 @ ?rest)"
  have zero: "\<forall>i<8. \<not> (byte_bits 0 @ ?rest) ! i" by (simp add: nth_append byte_bits_nth)
  have one: "(byte_bits 0 @ ?rest) ! 8" using f(3) by (simp add: nth_append byte_bits_nth)
  have "\<forall>i<8. \<not> (byte_bits 0 @ ?rest) ! i \<and> True" using zero by simp
  then have takes: "takes_octet ?x" using zero one by (simp add: takes_octet_def)
  have s: "bit_step ?x = ((In_frame [0], c, l), ?rest)"
    using takes bits_byte_bits [of 0 ?rest] by (simp add: bit_step_def byte_bits_nth)
  have len: "length (concat (map byte_bits hs)) = 8 * length hs" for hs by (induction hs) (simp_all add: byte_bits_nth)
  have "r dvd 80" using assms(3) dvd_trans [of r 8 80] by simp
  then have "r dvd length (snd ?x)" using assms(4) by (simp add: len byte_bits_nth dvd_add f(2))
  then have A: "run_at r ?x ((In_frame [0], c, l), ?rest)"
    using assms(2) run_at_one [of ?x r] unfolding s by simp
  have B: "run_at r ((In_frame [0], c, l), ?rest) ((Hunt, c + 1, Some ([0] @ g # gs)), bs)"
    using f assms(2-4) by (intro run_octets) simp_all
  have "byte_bits 0 @ ?rest = frame_bits f @ bs" "[0] @ g # gs = f" by (simp_all add: frame_bits_def f(1))
  with run_at_trans [OF B A] show ?thesis by (simp only:)
qed

lemma frame_bits_length: "length (frame_bits f) = 8 * length f"
  by (induction f) (simp_all add: frame_bits_def byte_bits_nth)

lemma run_frames:
  assumes "\<forall>f \<in> set fs. frame_ok f" "9 \<le> length bs" "r dvd 8" "r dvd length bs"
  shows "run_at r ((Hunt, c, l), concat (map frame_bits fs) @ bs)
    ((Hunt, c + length fs, if fs = [] then l else Some (last fs)), bs)"
  using assms(1)
proof (induction fs arbitrary: c l)
  case Nil
  show ?case by (simp add: at_refl)
next
  case (Cons f fs)
  let ?rest = "concat (map frame_bits fs) @ bs"
  have "length f = 10" "frame_ok f" using Cons.prems by (simp_all add: frame_ok_def)
  have "r dvd length (concat (map frame_bits gs))" for gs
    using assms(3) by (induction gs) (simp_all add: frame_bits_length dvd_add dvd_mult2)
  then have "run_at r ((Hunt, c, l), frame_bits f @ ?rest) ((Hunt, c + 1, Some f), ?rest)"
    using \<open>frame_ok f\<close> assms(2-4) by (intro run_frame) (simp_all add: dvd_add)
  moreover have "run_at r ((Hunt, c + 1, Some f), ?rest)
      ((Hunt, c + 1 + length fs, if fs = [] then Some f else Some (last fs)), bs)"
    using Cons.prems by (intro Cons.IH) simp
  ultimately have "run_at r ((Hunt, c, l), frame_bits f @ ?rest)
      ((Hunt, c + 1 + length fs, if fs = [] then Some f else Some (last fs)), bs)" using run_at_trans by blast
  then show ?case by (cases "fs = []") simp_all
qed

section \<open>Properties\<close>

lemma irate_init:
  assumes "i < 4"
  shows "irate (softv110_init i) = 2 ^ i"
proof -
  from assms have "i = 0 \<or> i = 1 \<or> i = 2 \<or> i = 3" by auto
  then show ?thesis by (elim disjE) (simp_all add: softv110_init_def irate_of_rate_def v110_base_rate_def)
qed

definition v110_ready :: "nat \<Rightarrow> v110" where
  "v110_ready i = (softv110_init i)\<lparr>phase := Phase_sync, detect_delay := 0\<rparr>"

lemmas v110_eval = v110_wf_def fill_window_def add_octet_def refill_bits_def discard_def store_octet_def top_octet_def frm_step_def
  irate_of_rate_def v110_base_rate_def mask_numeral

lemma delay_skipped:
  assumes "i < 4" "length junk = 10240"
  shows "softv110_decode_process junk (softv110_init i) None = Some (None, v110_ready i)"
proof -
  have r: "irate (softv110_init i) \<in> {1, 2, 4, 8}"
  proof -
    from assms(1) have "i = 0 \<or> i = 1 \<or> i = 2 \<or> i = 3" by auto
    then show ?thesis by (elim disjE) (simp_all add: irate_init)
  qed
  then have wf: "v110_wf (softv110_init i)" by (simp add: v110_wf_def) (simp add: softv110_init_def)
  have "junk \<noteq> []" "phase (softv110_init i) = Phase_idle" "detect_delay (softv110_init i) = 10240"
    using assms(2) by (auto simp: softv110_init_def)
  then show ?thesis
    using wf assms(2) by (subst softv110_decode_process.simps) (simp add: v110_ready_def softv110_decode_process.simps [of "[]"])
qed

lemma ready_rep:
  assumes "i < 4"
  shows "v110_rep (v110_ready i) ((Hunt, 0, None), [])"
proof -
  have "irate (v110_ready i) = 2 ^ i" using irate_init [OF assms] by (simp add: v110_ready_def)
  moreover from assms have "i = 0 \<or> i = 1 \<or> i = 2 \<or> i = 3" by auto
  ultimately show ?thesis
    by (elim disjE) (simp_all add: v110_rep_def v110_ready_def softv110_init_def wnd_rep_def)
qed

text \<open>C29: A detector that has let its delay pass finds every frame of a stream: when the used bits of the
  blocks it gets are an idle line, then frames one after the other, then the idle line again, it
  counts exactly these frames and reports the sequence the last one names. At 8 kbit/s the blocks may
  be cut anywhere (at least nine octets long) and the frames may begin at any bit; at the other rates
  this holds for frames that begin at a multiple of the rate and come in one block.\<close>

theorem v110_frames_detected:
  assumes "i < 4" and "length junk = 10240" and "r = 2 ^ i"
    and "stream_bits r (concat css) = replicate k True @ concat (map frame_bits fs) @ replicate t True"
    and "fs \<noteq> []" and "\<forall>f \<in> set fs. frame_ok f" and "33 \<le> t" and "r dvd k"
    and "length css \<le> 1 \<or> r = 1" and "\<forall>c \<in> set css. 9 \<le> r * length c"
  shows "\<exists>st. decode_blocks (junk # css) (softv110_init i) None = Some (frame_sequence i (last fs), st) \<and>
    detector_counter st = length fs mod 4294967296"
proof -
  have r: "r \<in> {1, 2, 4, 8}"
  proof -
    from assms(1) have "i = 0 \<or> i = 1 \<or> i = 2 \<or> i = 3" by auto
    then show ?thesis using assms(3) by auto
  qed
  let ?S = "stream_bits r (concat css)" and ?m = "length fs"
  let ?x = "((Hunt, 0, None), ?S)" and ?z = "((Hunt, ?m, Some (last fs)), replicate t True)"
  have d: "r dvd 8" "r dvd 80" using r by auto
  have "length (concat (map frame_bits gs)) = 80 * length gs" if "\<forall>f \<in> set gs. frame_ok f" for gs
    using that by (induction gs) (simp_all add: frame_bits_length frame_ok_def)
  from this [OF assms(6)] have "length ?S = k + 80 * ?m + t" using assms(4) by simp
  moreover have "r dvd length ?S" by simp
  ultimately have "r dvd (k + 80 * ?m) + t" by simp
  moreover have "r dvd k + 80 * ?m" using assms(8) d(2) by (simp add: dvd_add dvd_mult2)
  ultimately have t: "r dvd t" using dvd_add_right_iff by blast
  have "run_at r ?x ((Hunt, 0, None), concat (map frame_bits fs) @ replicate t True)"
    unfolding assms(4) by (rule run_ones) (use assms(7) in simp)
  moreover have "run_at r ((Hunt, 0, None), concat (map frame_bits fs) @ replicate t True) ?z"
    using run_frames [OF assms(6), of "replicate t True" r 0 None] assms(5,7) d(1) t by simp
  ultimately have at: "run_at r ?x ?z" using run_at_trans by blast
  have tail: "\<exists>j. y = ((Hunt, ?m, Some (last fs)), replicate j True)" if "bit_run ?z y" for y
    by (rule ones_run [OF that])
  have al: "aligned r ((Hunt, 0, None), [] @ ?S)"
    unfolding aligned_def
  proof (intro allI impI)
    fix y
    assume y: "bit_run ((Hunt, 0, None), [] @ ?S) y" "9 \<le> length (snd y)" "takes_octet y"
    then have "bit_run ?x y" by simp
    from run_at_along [OF at this] show "r dvd length (snd y)"
    proof
      assume "bit_run ?z y"
      from tail [OF this] obtain j where j: "y = ((Hunt, ?m, Some (last fs)), replicate j True)" by blast
      with y(2) obtain j' where "j = Suc j'" by (cases j) auto
      then show ?thesis using y(3) j by (simp add: step_one)
    qed (use y(2,3) in blast)
  qed
  have ready: "irate (v110_ready i) = r" "phase (v110_ready i) = Phase_sync" "cfg (v110_ready i) = i"
    using irate_init [OF assms(1)] assms(3) by (simp_all add: v110_ready_def) (simp add: softv110_init_def)
  have n: "(None :: v110_irate_sequence option) = last_sequence i (snd (snd (Hunt, 0 :: nat, None)))" by (simp add: last_sequence_def)
  obtain st b cs where D: "decode_blocks css (v110_ready i) None = Some (last_sequence i (snd (snd b)), st)"
    "v110_rep st (b, cs)" "bit_run ?x (b, cs)"
    using decode_blocks_rep [OF ready_rep [OF assms(1)] ready(1,2,3) assms(1,10) _ al n] assms(9) by auto
  have "length cs \<le> 32" using D(2) by (cases b) (auto simp: v110_rep_def wnd_rep_def)
  then have "\<not> bit_run (b, cs) ?z" using assms(7) by (auto dest: bit_run_shorter)
  then have "bit_run ?z (b, cs)" using run_at_along [OF at D(3)] by blast
  from tail [OF this] have b: "b = (Hunt, ?m, Some (last fs))" by blast
  have "decode_blocks (junk # css) (softv110_init i) None = Some (frame_sequence i (last fs), st)"
    using delay_skipped [OF assms(1,2)] D(1) by (simp add: b last_sequence_def)
  moreover have "detector_counter st = ?m mod 4294967296" using D(2) by (simp add: b v110_rep_def)
  ultimately show ?thesis by blast
qed

section \<open>Reports\<close>

text \<open>The number of frames a detector finds in a block.\<close>

function frames_in :: "byte list \<Rightarrow> v110 \<Rightarrow> nat" where
  "frames_in ds st =
     (if ds = [] \<or> \<not> v110_wf st then 0
      else case phase st of
             Phase_idle \<Rightarrow>
               let removed = min (detect_delay st) (length ds)
               in frames_in (drop removed ds)
                    (st\<lparr>detect_delay := detect_delay st - removed,
                        phase := (if detect_delay st - removed = 0 then Phase_sync else Phase_idle)\<rparr>)
           | Phase_sync \<Rightarrow>
               (case do_deframe ds st of
                  None \<Rightarrow> 0
                | Some (found, ds1, st1) \<Rightarrow> (if found then 1 else 0) + frames_in ds1 st1))"
  by pat_completeness auto
termination
proof (relation "measures [\<lambda>(ds, st). if phase st = Phase_idle then 1 else 0, \<lambda>(ds, st). length ds,
    \<lambda>(ds, st). deframe_len st]", goal_cases)
  case 1
  show ?case by simp
next
  case (2 ds st removed)
  then show ?case by auto
next
  case (3 ds st x found y ds1 st1)
  then have "do_deframe ds st = Some (found, ds1, st1)" "ds \<noteq> []" "v110_wf st" "phase st = Phase_sync" by auto
  with do_deframe_smaller [of ds st found ds1 st1] show ?case by auto
qed

declare frames_in.simps [simp del]

lemma frm_step_counter:
  "detector_counter (snd (frm_step st)) \<le> detector_counter st + (if fst (frm_step st) then 1 else 0)"
  using mod_less_eq_dividend [of "detector_counter st + 1" 4294967296]
  by (simp add: frm_step_def discard_def store_octet_def split: frm_state.splits)

lemma do_deframe_counter:
  assumes "do_deframe ds st = Some (found, ds1, st1)"
  shows "detector_counter st1 \<le> detector_counter st + (if found then 1 else 0) \<and> cfg st1 = cfg st"
  using assms
proof (induction ds st rule: do_deframe.induct)
  case (1 ds st)
  show ?case
  proof (cases "ds = [] \<or> \<not> v110_wf st")
    case True
    then show ?thesis using 1(2) do_deframe_stop [OF True] by auto
  next
    case False
    then have ne: "ds \<noteq> []" "v110_wf st" by simp_all
    from 1(2) ne obtain dsa sta where f: "fill_window ds st = Some (dsa, sta)"
      by (subst (asm) do_deframe.simps) (auto split: option.splits)
    obtain b stb where s: "frm_step sta = (b, stb)" by (cases "frm_step sta")
    have p: "cfg stb = cfg st" "detector_counter stb \<le> detector_counter st + (if b then 1 else 0)"
      using fill_window_frame [OF f] frm_step_frame [of sta] frm_step_counter [of sta] s by simp_all
    show ?thesis
    proof (cases b)
      case True
      then show ?thesis using 1(2) do_deframe_round [OF ne f s] p by simp
    next
      case nb: False
      then have "do_deframe dsa stb = Some (found, ds1, st1)" using 1(2) do_deframe_round [OF ne f s] by simp
      from 1(1) [OF False f refl s [symmetric] nb this] p nb show ?thesis by auto
    qed
  qed
qed

lemma do_v110_some: "cfg st < 4 \<Longrightarrow> do_v110 st \<noteq> None"
  unfolding do_v110_frame by (rule frame_sequence_some)

text \<open>The counter grows by at most the frames found, and without a frame nothing is detected anew.\<close>

lemma decode_counter:
  assumes "softv110_decode_process ds st d = Some (d1, st1)" "cfg st < 4"
  shows "detector_counter st1 \<le> detector_counter st + frames_in ds st \<and> cfg st1 = cfg st \<and>
    (if frames_in ds st = 0 then d1 = d else d1 \<noteq> None)"
  using assms
proof (induction ds st d rule: softv110_decode_process.induct)
  case (1 ds st d)
  show ?case
  proof (cases "ds = [] \<or> \<not> v110_wf st")
    case True
    then show ?thesis using 1(3) by (simp add: softv110_decode_process.simps [of ds] frames_in.simps [of ds])
  next
    case False
    show ?thesis
    proof (cases "phase st")
      case Phase_idle
      let ?n = "min (detect_delay st) (length ds)"
      let ?st = "st\<lparr>detect_delay := detect_delay st - ?n, phase := (if detect_delay st - ?n = 0 then Phase_sync else Phase_idle)\<rparr>"
      have "softv110_decode_process (drop ?n ds) ?st d = Some (d1, st1)"
        using 1(3) False Phase_idle by (subst (asm) softv110_decode_process.simps) (simp add: Let_def)
      from 1(1) [OF False Phase_idle refl this] 1(4) have
        "detector_counter st1 \<le> detector_counter st + frames_in (drop ?n ds) ?st \<and> cfg st1 = cfg st \<and>
         (if frames_in (drop ?n ds) ?st = 0 then d1 = d else d1 \<noteq> None)" by simp
      moreover have "frames_in ds st = frames_in (drop ?n ds) ?st"
        using False Phase_idle by (subst frames_in.simps) (simp add: Let_def)
      ultimately show ?thesis by simp
    next
      case Phase_sync
      obtain found ds2 st2 where D: "do_deframe ds st = Some (found, ds2, st2)"
        using 1(3) False Phase_sync by (subst (asm) softv110_decode_process.simps) (auto split: option.splits)
      let ?d = "if found then do_v110 st2 else d"
      have c: "detector_counter st2 \<le> detector_counter st + (if found then 1 else 0)" "cfg st2 = cfg st"
        using do_deframe_counter [OF D] by simp_all
      have "softv110_decode_process ds2 st2 ?d = Some (d1, st1)"
        using 1(3) False Phase_sync D by (subst (asm) softv110_decode_process.simps) simp
      from 1(2) [OF False Phase_sync D refl refl this] c(2) 1(4) have IH:
        "detector_counter st1 \<le> detector_counter st2 + frames_in ds2 st2 \<and> cfg st1 = cfg st2 \<and>
         (if frames_in ds2 st2 = 0 then d1 = ?d else d1 \<noteq> None)" by simp
      have f: "frames_in ds st = (if found then 1 else 0) + frames_in ds2 st2"
        using False Phase_sync D by (subst frames_in.simps) simp
      show ?thesis
        using IH c do_v110_some [of st2] 1(4) unfolding f by (cases found) (auto split: if_splits)
    qed
  qed
qed

text \<open>What a block shows: the detector that found frames in it, the rate its last frame names and the
  number of frames. The blocks since the start of the detection give a history of these.\<close>

record v110_detection =
  det_index :: nat
  det_rate :: nat
  det_frames :: nat

fun first_detection :: "byte list \<Rightarrow> nat list \<Rightarrow> (nat \<Rightarrow> v110) \<Rightarrow> v110_detection list" where
  "first_detection ds [] dets = []"
| "first_detection ds (i # js) dets =
     (case softv110_decode_process ds (dets i) None of
        Some (Some q, st) \<Rightarrow> [\<lparr>det_index = i, det_rate = seq_idi_rate q, det_frames = frames_in ds (dets i)\<rparr>]
      | _ \<Rightarrow> first_detection ds js dets)"

definition block_detection :: "byte list \<Rightarrow> (nat \<Rightarrow> v110) \<Rightarrow> v110_detection list" where
  "block_detection ds dets = first_detection ds [0..<4] dets"

inductive v110_history :: "(nat \<Rightarrow> v110) \<Rightarrow> int \<Rightarrow> v110_detection list \<Rightarrow> bool" where
  history_start: "v110_history (diva_init_v110_detector dets) (-1) []"
| history_block: "v110_history dets l h \<Longrightarrow> diva_v110_detector_process ds dets l = Some (res, dets', l') \<Longrightarrow>
    v110_history dets' l' (h @ block_detection ds dets)"

definition frames_of :: "nat \<Rightarrow> v110_detection list \<Rightarrow> nat" where
  "frames_of i h = sum_list (map det_frames (filter (\<lambda>x. det_index x = i) h))"

lemma frames_of_append [simp]: "frames_of i (h @ k) = frames_of i h + frames_of i k"
  by (simp add: frames_of_def)

text \<open>One block: nothing is found and no counter grows, or a detector finds frames.\<close>

lemma first_detection_cong:
  "\<forall>i \<in> set js. dets' i = dets i \<Longrightarrow> first_detection ds js dets' = first_detection ds js dets"
  by (induction js) (auto split: option.splits)

lemma detectors_run_detection:
  assumes "detectors_run ds js dets l = Some (res, dets', l')" "\<forall>i < 4. cfg (dets i) = i" "distinct js" "set js \<subseteq> {..<4}"
  shows "(\<forall>i < 4. cfg (dets' i) = i) \<and>
    (first_detection ds js dets = [] \<and> l' = l \<and> res = (0, 0) \<and> (\<forall>i < 4. detector_counter (dets' i) \<le> detector_counter (dets i)) \<or>
     (\<exists>x (q :: v110_irate_sequence). first_detection ds js dets = [x] \<and> det_index x < 4 \<and> 0 < det_frames x \<and> l' = int (det_rate x) \<and>
       det_rate x = seq_idi_rate q \<and>
       res = (if detector_counter (dets' (det_index x)) < DIVA_V110_NEED_FRAMES_TO_DETECT then (0, 0) else (seq_idi_rate q, seq_speed q)) \<and>
       (\<forall>i < 4. detector_counter (dets' i) \<le>
          (if l' \<noteq> l then 0 else detector_counter (dets i) + (if i = det_index x then det_frames x else 0)))))"
  using assms
proof (induction js arbitrary: dets)
  case Nil
  then show ?case by simp
next
  case (Cons j js)
  have j: "j < 4" using Cons.prems(4) by simp
  obtain d st where D: "softv110_decode_process ds (dets j) None = Some (d, st)"
    using Cons.prems(1) by (auto split: option.splits)
  have C: "detector_counter st \<le> detector_counter (dets j) + frames_in ds (dets j)" "cfg st = j"
    "if frames_in ds (dets j) = 0 then d = None else d \<noteq> None"
    using decode_counter [OF D] Cons.prems(2) j by simp_all
  show ?case
  proof (cases d)
    case None
    let ?dets = "dets(j := st)"
    have run: "detectors_run ds js ?dets l = Some (res, dets', l')" using Cons.prems(1) D None by simp
    have cf: "\<forall>i < 4. cfg (?dets i) = i" using C(2) Cons.prems(2) by simp
    have fd: "first_detection ds (j # js) dets = first_detection ds js ?dets"
      using D None Cons.prems(3) first_detection_cong [of js ?dets dets ds] by auto
    have c: "detector_counter (?dets i) \<le> detector_counter (dets i)" for i
      using C(1,3) None by (auto split: if_splits)
    have "distinct js" "set js \<subseteq> {..<4}" using Cons.prems(3,4) by simp_all
    from Cons.IH [OF run cf this] show ?thesis
    proof (elim conjE disjE exE, goal_cases)
      case 1
      then show ?thesis unfolding fd using c order_trans by blast
    next
      case (2 x q)
      have "detector_counter (dets' i) \<le> (if l' \<noteq> l then 0 else detector_counter (dets i) + (if i = det_index x then det_frames x else 0))"
        if "i < 4" for i
        using 2 c [of i] that order_trans add_right_mono by (smt (verit))
      then show ?thesis unfolding fd using 2 by blast
    qed
  next
    case (Some q)
    let ?x = "\<lparr>det_index = j, det_rate = seq_idi_rate q, det_frames = frames_in ds (dets j)\<rparr>"
    have f: "0 < frames_in ds (dets j)" using C(3) Some by (auto split: if_splits)
    have fd: "first_detection ds (j # js) dets = [?x]" using D Some by simp
    let ?dets1 = "dets(j := st)"
    have r: "dets' = (if int (seq_idi_rate q) \<noteq> l then reset_counters ?dets1 else ?dets1)" "l' = int (seq_idi_rate q)"
      "res = (if detector_counter (dets' j) < DIVA_V110_NEED_FRAMES_TO_DETECT then (0, 0) else (seq_idi_rate q, seq_speed q))"
      using Cons.prems(1) D Some by (auto simp: Let_def)
    have "\<forall>i < 4. cfg (dets' i) = i" using C(2) Cons.prems(2) unfolding r(1) by (simp add: reset_counters_def)
    moreover have "detector_counter (dets' i) \<le> (if l' \<noteq> l then 0 else detector_counter (dets i) + (if i = det_index ?x then det_frames ?x else 0))"
      if "i < 4" for i
      using that C(1) unfolding r(1,2) by (simp add: reset_counters_def)
    moreover have "det_index ?x < 4" "0 < det_frames ?x" "l' = int (det_rate ?x)" "det_rate ?x = seq_idi_rate q"
      "res = (if detector_counter (dets' (det_index ?x)) < DIVA_V110_NEED_FRAMES_TO_DETECT then (0, 0) else (seq_idi_rate q, seq_speed q))"
      using f j r(2,3) by simp_all
    ultimately show ?thesis unfolding fd by blast
  qed
qed

lemma diva_detection:
  assumes "diva_v110_detector_process ds dets l = Some (res, dets', l')" "\<forall>i < 4. cfg (dets i) = i"
  obtains (nothing) "\<forall>i < 4. cfg (dets' i) = i" "block_detection ds dets = []" "l' = l" "res = (0, 0)"
      "\<forall>i < 4. detector_counter (dets' i) \<le> detector_counter (dets i)"
  | (found) x and q :: v110_irate_sequence where "\<forall>i < 4. cfg (dets' i) = i" "block_detection ds dets = [x]" "det_index x < 4" "0 < det_frames x"
      "l' = int (det_rate x)" "det_rate x = seq_idi_rate q"
      "res = (if detector_counter (dets' (det_index x)) < DIVA_V110_NEED_FRAMES_TO_DETECT then (0, 0) else (seq_idi_rate q, seq_speed q))"
      "\<forall>i < 4. detector_counter (dets' i) \<le>
         (if l' \<noteq> l then 0 else detector_counter (dets i) + (if i = det_index x then det_frames x else 0))"
proof -
  have "distinct [0..<4 :: nat]" "set [0..<4 :: nat] \<subseteq> {..<4}" by auto
  note R = detectors_run_detection [OF assms(1) [unfolded diva_v110_detector_process_def] assms(2) this]
  from R [folded block_detection_def] show thesis by (elim conjE disjE exE) (rule that, assumption+)+
qed

text \<open>The detections since the last change of the rate bound the counters.\<close>

definition history_ok :: "(nat \<Rightarrow> v110) \<Rightarrow> int \<Rightarrow> v110_detection list \<Rightarrow> bool" where
  "history_ok dets l h \<longleftrightarrow>
     (\<forall>i < 4. cfg (dets i) = i) \<and>
     (h = [] \<and> l = -1 \<or>
      (\<exists>h1 y h2. h = h1 @ y # h2 \<and> (\<forall>x \<in> set (y # h2). int (det_rate x) = l) \<and>
        (\<forall>i < 4. detector_counter (dets i) \<le> frames_of i h2)))"

lemma history_ok_block:
  assumes "history_ok dets l h" "diva_v110_detector_process ds dets l = Some (res, dets', l')"
  shows "history_ok dets' l' (h @ block_detection ds dets)"
proof -
  have cf: "\<forall>i < 4. cfg (dets i) = i" using assms(1) by (simp add: history_ok_def)
  from assms(2) cf show ?thesis
  proof (cases rule: diva_detection)
    case b: nothing
    have "detector_counter (dets' i) \<le> frames_of i h2" if "\<forall>i < 4. detector_counter (dets i) \<le> frames_of i h2" "i < 4" for i h2
      using that b(5) order_trans by blast
    moreover have "h = [] \<and> l = -1 \<or> (\<exists>h1 y h2. h = h1 @ y # h2 \<and> (\<forall>x \<in> set (y # h2). int (det_rate x) = l) \<and>
        (\<forall>i < 4. detector_counter (dets i) \<le> frames_of i h2))" using assms(1) by (simp add: history_ok_def)
    ultimately have "h = [] \<and> l = -1 \<or> (\<exists>h1 y h2. h = h1 @ y # h2 \<and> (\<forall>x \<in> set (y # h2). int (det_rate x) = l) \<and>
        (\<forall>i < 4. detector_counter (dets' i) \<le> frames_of i h2))" by blast
    then show ?thesis using b unfolding history_ok_def by simp
  next
    case (found x q)
    show ?thesis
    proof (cases "l' = l")
      case False
      then show ?thesis using found unfolding history_ok_def
        by (intro conjI disjI2 exI [of _ h] exI [of _ x] exI [of _ "[]"]) auto
    next
      case True
      then have "h \<noteq> []" using assms(1) found(5) by (auto simp: history_ok_def)
      then obtain h1 y h2 where h: "h = h1 @ y # h2" "\<forall>x \<in> set (y # h2). int (det_rate x) = l"
        "\<forall>i < 4. detector_counter (dets i) \<le> frames_of i h2" using assms(1) by (auto simp: history_ok_def)
      have "detector_counter (dets' i) \<le> frames_of i (h2 @ [x])" if i: "i < 4" for i
      proof -
        have "detector_counter (dets' i) \<le> detector_counter (dets i) + (if i = det_index x then det_frames x else 0)"
          using found(8) i True by simp
        also have "\<dots> \<le> frames_of i h2 + (if i = det_index x then det_frames x else 0)" using h(3) i by simp
        also have "\<dots> \<le> frames_of i (h2 @ [x])" by (simp add: frames_of_def)
        finally show ?thesis .
      qed
      then show ?thesis using found h True unfolding history_ok_def
        by (intro conjI disjI2 exI [of _ h1] exI [of _ y] exI [of _ "h2 @ [x]"]) auto
    qed
  qed
qed

lemma history_ok_all: "v110_history dets l h \<Longrightarrow> history_ok dets l h"
proof (induction rule: v110_history.induct)
  case (history_start dets)
  show ?case by (simp add: history_ok_def diva_init_v110_detector_def softv110_init_def)
qed (rule history_ok_block)

text \<open>C38: From the start of the detection on, a rate is reported for a block only if a detector found frames
  in this block and the last one named the rate, if the detection before this block named the same rate, and if
  that detector found at least ten frames in this and the blocks before it, in none of which, nor in the
  one before these, another rate was named by any detector.\<close>

theorem v110_reports_after_ten:
  assumes "v110_history dets l h" and "diva_v110_detector_process ds dets l = Some ((rate, speed), dets', l')"
    and "rate \<noteq> 0"
  shows "\<exists>x h1 y h2. block_detection ds dets = [x] \<and> h = h1 @ y # h2 \<and>
    (\<forall>z \<in> set (y # h2 @ [x]). det_rate z = rate) \<and>
    DIVA_V110_NEED_FRAMES_TO_DETECT \<le> frames_of (det_index x) (h2 @ [x]) \<and> 0 < det_frames x"
proof -
  have H: "history_ok dets l h" by (rule history_ok_all [OF assms(1)])
  then have cf: "\<forall>i < 4. cfg (dets i) = i" by (simp add: history_ok_def)
  obtain x and q :: v110_irate_sequence where x: "block_detection ds dets = [x]" "det_index x < 4" "0 < det_frames x" "l' = int (det_rate x)"
    "det_rate x = seq_idi_rate q"
    "(rate, speed) = (if detector_counter (dets' (det_index x)) < DIVA_V110_NEED_FRAMES_TO_DETECT then (0, 0) else (seq_idi_rate q, seq_speed q))"
    "\<forall>i < 4. detector_counter (dets' i) \<le>
       (if l' \<noteq> l then 0 else detector_counter (dets i) + (if i = det_index x then det_frames x else 0))"
    using assms(2) cf
  proof (cases rule: diva_detection)
    case nothing
    then show ?thesis using assms(3) by simp
  qed
  have ten: "DIVA_V110_NEED_FRAMES_TO_DETECT \<le> detector_counter (dets' (det_index x))" and rate: "rate = det_rate x"
    using x(5,6) assms(3) by (auto split: if_splits)
  have l: "l' = l" "DIVA_V110_NEED_FRAMES_TO_DETECT \<le> detector_counter (dets (det_index x)) + det_frames x"
    using x(2,7) ten by (auto simp: DIVA_V110_NEED_FRAMES_TO_DETECT_def split: if_splits)
  then have "h \<noteq> []" using H x(4) by (auto simp: history_ok_def)
  then obtain h1 y h2 where h: "h = h1 @ y # h2" "\<forall>z \<in> set (y # h2). int (det_rate z) = l"
    "\<forall>i < 4. detector_counter (dets i) \<le> frames_of i h2" using H by (auto simp: history_ok_def)
  have "detector_counter (dets (det_index x)) \<le> frames_of (det_index x) h2" using h(3) x(2) by blast
  then have "DIVA_V110_NEED_FRAMES_TO_DETECT \<le> frames_of (det_index x) (h2 @ [x])"
    using l(2) by (simp add: frames_of_def)
  moreover have "\<forall>z \<in> set (y # h2 @ [x]). det_rate z = rate" using h(2) l(1) x(4) rate by auto
  ultimately show ?thesis using x(1,3) h(1) by blast
qed

section \<open>Limits of the code\<close>

lemma refill_fails:
  "deframe_len st < 32 \<Longrightarrow> 0 < irate st \<Longrightarrow> ds \<noteq> [] \<Longrightarrow>
   refill ds st = None \<longleftrightarrow> \<not> irate st dvd 32 - deframe_len st \<and> (32 - deframe_len st) div irate st < length ds"
proof (induction ds st rule: refill.induct)
  case (1 st)
  then show ?case by simp
next
  case (2 b ds st)
  let ?l = "deframe_len st" and ?r = "irate st"
  show ?case
  proof (cases "?l + ?r \<le> 32")
    case False
    then have n: "add_octet b st = None" and s: "32 - ?l < ?r" "0 < 32 - ?l" using 2(2) by (simp_all add: add_octet_def)
    have "\<not> ?r dvd 32 - ?l" using s dvd_imp_le by fastforce
    moreover have "(32 - ?l) div ?r = 0" using s(1) by simp
    ultimately show ?thesis using n by simp
  next
    case True
    then obtain st1 where a: "add_octet b st = Some st1" and l: "deframe_len st1 = ?l + ?r" "irate st1 = ?r"
      by (simp add: add_octet_def)
    have e: "32 - ?l = (32 - (?l + ?r)) + ?r" using True by simp
    have d: "?r dvd 32 - ?l \<longleftrightarrow> ?r dvd 32 - (?l + ?r)" "(32 - ?l) div ?r = (32 - (?l + ?r)) div ?r + 1"
      unfolding e using 2(3) div_add_self2 [of ?r] by auto
    show ?thesis
    proof (cases "deframe_len st1 < 32 \<and> ds \<noteq> []")
      case True
      then have "refill ds st1 = None \<longleftrightarrow> \<not> ?r dvd 32 - (?l + ?r) \<and> (32 - (?l + ?r)) div ?r < length ds"
        using 2(1) [OF a True] 2(3) unfolding l by simp
      then show ?thesis using a True unfolding d by simp
    next
      case False
      then have "refill (b # ds) st \<noteq> None" using a by simp
      moreover have "?r dvd 32 - ?l \<or> \<not> (32 - ?l) div ?r < length (b # ds)"
        unfolding d using False True l(1) by auto
      ultimately show ?thesis by blast
    qed
  qed
qed

lemma refill_window:
  assumes "refill ds st = Some (ds1, st1)" "wnd_rep (deframe_wnd st) bs" "deframe_len st = length bs" "irate st \<in> {1, 2, 4, 8}"
    "ds \<noteq> []"
  shows "\<exists>n > 0. wnd_rep (deframe_wnd st1) (bs @ stream_bits (irate st) (take n ds)) \<and>
    deframe_len st1 = length (bs @ stream_bits (irate st) (take n ds)) \<and> ds1 = drop n ds"
  using assms
proof (induction ds st arbitrary: bs rule: refill.induct)
  case (1 st)
  then show ?case by simp
next
  case (2 b ds st)
  obtain sta where a: "add_octet b st = Some sta" using 2(2) by (auto split: option.splits)
  have le: "length bs + irate st \<le> 32" using a 2(4) by (auto simp: add_octet_def split: if_splits)
  have i: "irate sta = irate st" and l: "deframe_len sta = length (bs @ used_bits (irate st) b)"
    and w: "wnd_rep (deframe_wnd sta) (bs @ used_bits (irate st) b)"
    using a le wnd_rep_add [OF 2(3) le 2(5)] 2(4) by (auto simp: add_octet_def)
  show ?case
  proof (cases "deframe_len sta < 32 \<and> ds \<noteq> []")
    case True
    then have "refill ds sta = Some (ds1, st1)" using 2(2) a by simp
    from 2(1) [OF a True this w l] obtain n where
      "wnd_rep (deframe_wnd st1) ((bs @ used_bits (irate st) b) @ stream_bits (irate st) (take n ds))"
      "deframe_len st1 = length ((bs @ used_bits (irate st) b) @ stream_bits (irate st) (take n ds))" "ds1 = drop n ds"
      using 2(5) True i by auto
    then show ?thesis by (intro exI [of _ "Suc n"]) simp
  next
    case False
    then have "ds1 = ds" "st1 = sta" using 2(2) a by (auto split: if_splits)
    then show ?thesis using w l by (intro exI [of _ 1]) simp
  qed
qed

lemma short_window:
  assumes "wnd_rep w bs" "length bs < 8" "bs \<noteq> []"
  shows "w AND 0x00800000 = 0" "w AND 0x80000000 \<noteq> 0 \<longleftrightarrow> bs ! 0" "w AND 0x80800000 \<noteq> 0 \<longleftrightarrow> bs ! 0"
proof -
  show z: "w AND 0x00800000 = 0"
    using and_single [OF bit_masks(9), of w] wnd_repD(2) [OF assms(1), of 23] assms(2) by auto
  show o: "w AND 0x80000000 \<noteq> 0 \<longleftrightarrow> bs ! 0"
    using and_single [OF bit_masks(8), of w] wnd_repD(2) [OF assms(1), of 31] assms(3) by simp
  have "(0x80800000 :: dword) = 0x80000000 OR 0x00800000" by simp
  then have "w AND 0x80800000 = (w AND 0x80000000) OR (w AND 0x00800000)" by (metis bit.conj_disj_distrib)
  then show "w AND 0x80800000 \<noteq> 0 \<longleftrightarrow> bs ! 0" using z o by simp
qed

text \<open>C30: The limits of the window of 32 bits. Let \<open>bs\<close> be its bits and \<open>ds\<close> what is left of the block. The refill of
  \<open>do_deframe\<close> shifts by a negative number of bits, which is undefined, exactly when there is room for an
  octet, the free bits are not a multiple of the bits an octet carries, and the block has more octets than fit.
  Otherwise the window holds \<open>bs\<close> and the bits of the octets taken, and the step that follows makes
  the number of bits wrap below zero exactly when less than eight bits are there, a frame has begun and
  the first bit is a one; then eight bits are taken.\<close>

theorem v110_window_limits:
  assumes "wnd_rep (deframe_wnd st) bs" and "deframe_len st = length bs" and "irate st \<in> {1, 2, 4, 8}" and "ds \<noteq> []"
  shows "(fill_window ds st = None \<longleftrightarrow> length bs + irate st \<le> 32 \<and> \<not> irate st dvd 32 - length bs \<and>
      (32 - length bs) div irate st < length ds) \<and>
    (\<forall>ds1 st1. fill_window ds st = Some (ds1, st1) \<longrightarrow>
      (\<exists>n. ds1 = drop n ds \<and>
        (let W = bs @ stream_bits (irate st) (take n ds); len = deframe_len (snd (frm_step st1))
         in wnd_rep (deframe_wnd st1) W \<and> deframe_len st1 = length W \<and>
           (if length W < 8 \<and> deframe_state st = Sync_octett \<and> W ! 0 then len = 4294967296 - (8 - length W)
            else len = length W - 8 \<or> len = length W - 1))))"
proof (intro conjI allI impI)
  have r: "0 < irate st" "irate st \<le> 8" using assms(3) by auto
  have le: "length bs \<le> 32" using assms(1) by (simp add: wnd_rep_def)
  show "fill_window ds st = None \<longleftrightarrow> length bs + irate st \<le> 32 \<and> \<not> irate st dvd 32 - length bs \<and>
      (32 - length bs) div irate st < length ds"
    using refill_fails [of st ds] r assms(2,4) by (auto simp: fill_window_def)
  fix ds1 st1
  assume f: "fill_window ds st = Some (ds1, st1)"
  obtain n where n: "ds1 = drop n ds" "wnd_rep (deframe_wnd st1) (bs @ stream_bits (irate st) (take n ds))"
    "deframe_len st1 = length (bs @ stream_bits (irate st) (take n ds))" "bs @ stream_bits (irate st) (take n ds) \<noteq> []"
  proof (cases "deframe_len st \<le> 32 - irate st")
    case True
    then have "refill ds st = Some (ds1, st1)" using f by (simp add: fill_window_def)
    from refill_window [OF this assms] obtain n where "n > 0" "ds1 = drop n ds"
      "wnd_rep (deframe_wnd st1) (bs @ stream_bits (irate st) (take n ds))"
      "deframe_len st1 = length (bs @ stream_bits (irate st) (take n ds))" by blast
    moreover have "length (stream_bits (irate st) (take n ds)) > 0" using \<open>n > 0\<close> r(1) assms(4) by simp
    ultimately show ?thesis using that by force
  next
    case False
    then have "ds1 = ds" "st1 = st" "bs \<noteq> []" using f r assms(2) by (auto simp: fill_window_def)
    then show ?thesis using that [of 0] assms(1,2) by simp
  qed
  define W where "W = bs @ stream_bits (irate st) (take n ds)"
  have w: "wnd_rep (deframe_wnd st1) W" "deframe_len st1 = length W" "W \<noteq> []" "length W \<le> 32"
    using n(2-4) by (simp_all add: W_def wnd_rep_def)
  have s: "deframe_state st1 = deframe_state st" using fill_window_frame [OF f] by simp
  have "0 < length W" using w(3) by simp
  then have one: "(length W + 4294967295) mod 4294967296 = length W - 1" using w(4) by (auto simp: mod_if)
  have eight: "(length W + 4294967288) mod 4294967296 = (if length W < 8 then 4294967296 - (8 - length W) else length W - 8)"
    using w(4) by (auto simp: mod_if)
  have "if length W < 8 \<and> deframe_state st = Sync_octett \<and> W ! 0 then deframe_len (snd (frm_step st1)) = 4294967296 - (8 - length W)
      else deframe_len (snd (frm_step st1)) = length W - 8 \<or> deframe_len (snd (frm_step st1)) = length W - 1"
  proof (cases "length W < 8")
    case True
    note z = short_window [OF w(1) True w(3)]
    show ?thesis
      using True one eight z w(2) s by (simp add: frm_step_def discard_def store_octet_def split: frm_state.splits)
  next
    case False
    then show ?thesis
      using one eight w(2) by (simp add: frm_step_def discard_def store_octet_def split: frm_state.splits)
  qed
  then show "\<exists>n. ds1 = drop n ds \<and>
      (let W = bs @ stream_bits (irate st) (take n ds); len = deframe_len (snd (frm_step st1))
       in wnd_rep (deframe_wnd st1) W \<and> deframe_len st1 = length W \<and>
         (if length W < 8 \<and> deframe_state st = Sync_octett \<and> W ! 0 then len = 4294967296 - (8 - length W)
          else len = length W - 8 \<or> len = length W - 1))"
    using n(1) w(1,2) unfolding Let_def W_def by blast
qed

text \<open>Both happen: at 16 kbit/s with a frame that begins at the second bit of an octet, and at 8 kbit/s with
  blocks of one octet.\<close>

lemma wnd_rep_zero: "wnd_rep 0 []" "wnd_rep 0x80000000 [True]"
proof -
  show "wnd_rep 0 []" by (simp add: wnd_rep_def)
  have "bit (0x80000000 :: dword) (31 - i) \<longleftrightarrow> i = 0" if "i < 32" for i
    unfolding bit_masks(8) using that by auto
  then show "wnd_rep 0x80000000 [True]" by (auto simp: wnd_rep_def)
qed

theorem v110_window_limits_witness:
  "fill_window (replicate 16 3) ((v110_ready 1)\<lparr>deframe_wnd := 0x80000000, deframe_len := 1\<rparr>) = None \<and>
   (\<exists>ds1 st1. fill_window [0] ((v110_ready 0)\<lparr>deframe_wnd := 0x80000000, deframe_len := 1, deframe_state := Sync_octett\<rparr>) =
        Some (ds1, st1) \<and> deframe_len (snd (frm_step st1)) = 4294967290)"
proof
  have c: "irate (v110_ready 1) = 2" "irate (v110_ready 0) = 1" using irate_init [of 1] irate_init [of 0] by (simp_all add: v110_ready_def)
  show "fill_window (replicate 16 3) ((v110_ready 1)\<lparr>deframe_wnd := 0x80000000, deframe_len := 1\<rparr>) = None"
    using v110_window_limits [of "(v110_ready 1)\<lparr>deframe_wnd := 0x80000000, deframe_len := 1\<rparr>" "[True]" "replicate 16 3"]
      wnd_rep_zero(2) c by simp
  let ?st = "(v110_ready 0)\<lparr>deframe_wnd := 0x80000000, deframe_len := 1, deframe_state := Sync_octett\<rparr>"
  have L: "wnd_rep (deframe_wnd ?st) [True]" "deframe_len ?st = length [True]" "irate ?st \<in> {1, 2, 4, 8}" "[0 :: byte] \<noteq> []"
    using wnd_rep_zero(2) c by simp_all
  obtain st1 where f: "fill_window [0] ?st = Some ([], st1)" "deframe_len st1 = 2"
    using c by (simp add: fill_window_def add_octet_def)
  from v110_window_limits [OF L] f obtain n where n: "[] = drop n [0 :: byte]"
    "length ([True] @ stream_bits 1 (take n [0])) = 2"
    "if length ([True] @ stream_bits 1 (take n [0])) < 8 \<and> deframe_state ?st = Sync_octett \<and> ([True] @ stream_bits 1 (take n [0])) ! 0
     then deframe_len (snd (frm_step st1)) = 4294967296 - (8 - length ([True] @ stream_bits 1 (take n [0])))
     else True"
    unfolding Let_def by (fastforce simp: c)
  then have "deframe_len (snd (frm_step st1)) = 4294967290" by simp
  then show "\<exists>ds1 st1. fill_window [0] ?st = Some (ds1, st1) \<and> deframe_len (snd (frm_step st1)) = 4294967290"
    using f(1) by blast
qed

text \<open>A lost synchronisation at the last octet, or between frames, does not reset the counter.\<close>

lemma counter_survives_loss:
  "deframe_state st = Zero_octett \<or> deframe_state st = Sync_octett \<and> 9 \<le> frame_pos st \<and> deframe_wnd st AND 0x80000000 = 0 \<Longrightarrow>
     detector_counter (snd (frm_step st)) = detector_counter st \<and>
     (deframe_state st = Sync_octett \<longrightarrow> deframe_state (snd (frm_step st)) = Zero_octett)"
  by (auto simp: frm_step_def discard_def)

section \<open>Examples\<close>

text \<open>At 8 kbit/s an octet carries one bit.\<close>

definition bit_octets :: "bool list \<Rightarrow> byte list" where
  "bit_octets bs = map (\<lambda>b. if b then 1 else 0) bs"

lemma stream_bit_octets: "stream_bits 1 (bit_octets bs) = bs"
  by (induction bs) (simp_all add: bit_octets_def used_bits_def)

text \<open>A frame for 1200 bit/s.\<close>

definition example_frame :: "byte list" where
  "example_frame = [0, 0x80, 0x80, 0x80, 0x80, 0xa0, 0x80, 0x80, 0x80, 0x80]"

lemma example_frame_ok: "frame_ok example_frame"
proof -
  have "\<forall>j\<in>{1..<10}. bit (example_frame ! j) 7"
    by (simp add: example_frame_def atLeastLessThan_nat_numeral atLeastLessThanSuc)
  then show ?thesis by (simp add: frame_ok_def example_frame_def)
qed

theorem v110_frames_detected_witness:
  "\<exists>st q. decode_blocks [replicate 10240 0, bit_octets (replicate 3 True @ concat (map frame_bits (replicate 12 example_frame)) @
       replicate 33 True)] (softv110_init 0) None = Some (Some q, st) \<and>
     seq_speed q = 1200 \<and> detector_counter st = 12"
proof -
  let ?bits = "replicate 3 True @ concat (map frame_bits (replicate 12 example_frame)) @ replicate 33 True"
  have "stream_bits 1 (concat [bit_octets ?bits]) = ?bits" by (simp add: stream_bit_octets del: One_nat_def)
  moreover have "length (bit_octets ?bits) \<ge> 9" by (simp add: bit_octets_def)
  moreover have "frame_sequence 0 example_frame = Some \<lparr>seq_speed = 1200, seq_e_rate = 0x20, seq_idi_rate = 2\<rparr>"
    by (simp add: frame_sequence_def v110_irate_sequences_def example_frame_def)
  moreover have "last (replicate 12 example_frame) = example_frame" by simp
  ultimately show ?thesis
    using v110_frames_detected [of 0 "replicate 10240 0" 1 "[bit_octets ?bits]" 3 "replicate 12 example_frame" 33]
      example_frame_ok by (auto simp del: One_nat_def)
qed

text \<open>A detector at 8 kbit/s in step with the line: a block of frames.\<close>

definition in_step :: "v110 \<Rightarrow> bool" where
  "in_step st \<longleftrightarrow> irate st = 1 \<and> phase st = Phase_sync \<and> cfg st = 0 \<and>
     (\<exists>c l k. v110_rep st ((Hunt, c, l), replicate k True))"

lemma block_of_frames:
  assumes "v110_rep st ((Hunt, c, l), replicate k True)" "irate st = 1" "phase st = Phase_sync" "cfg st = 0"
    "\<forall>f \<in> set fs. frame_ok f" "fs \<noteq> []"
  shows "\<exists>st1. softv110_decode_process (bit_octets (concat (map frame_bits fs) @ replicate 33 True)) st None =
      Some (frame_sequence 0 (last fs), st1) \<and> in_step st1 \<and> detector_counter st1 = (c + length fs) mod 4294967296"
proof -
  let ?bits = "concat (map frame_bits fs) @ replicate 33 True" and ?m = "c + length fs"
  let ?a = "(Hunt, c, None)" and ?z = "((Hunt, c + length fs, Some (last fs)), replicate 33 True)"
  have rep: "v110_rep st (?a, replicate k True)" using assms(1) by (simp add: v110_rep_def)
  have S: "stream_bits 1 (bit_octets ?bits) = ?bits" by (rule stream_bit_octets)
  have al: "aligned 1 x" for x by (simp add: aligned_def)
  have nine: "9 \<le> length (bit_octets ?bits)" by (simp add: bit_octets_def)
  obtain d1 st1 b cs where D: "softv110_decode_process (bit_octets ?bits) st None = Some (d1, st1)" "v110_rep st1 (b, cs)"
    "irate st1 = 1" "phase st1 = Phase_sync" "cfg st1 = 0" "bit_run (?a, replicate k True @ ?bits) (b, cs)"
    "d1 = None \<and> snd (snd b) = None \<or> (\<exists>f. snd (snd b) = Some f \<and> d1 = frame_sequence 0 f)"
    using decode_rep [OF rep assms(2,3) _ al, of "bit_octets ?bits" None] nine assms(4) unfolding S by auto
  have "run_at 1 (?a, replicate k True @ ?bits) (?a, ?bits)" by (rule run_ones) simp
  moreover have "run_at 1 (?a, ?bits) ?z"
    using run_frames [OF assms(5), of "replicate 33 True" 1 c None] assms(6) by simp
  ultimately have at: "run_at 1 (?a, replicate k True @ ?bits) ?z" using run_at_trans by blast
  have "length cs \<le> 32" using D(2) by (cases b) (auto simp: v110_rep_def wnd_rep_def)
  then have "\<not> bit_run (b, cs) ?z" by (auto dest: bit_run_shorter)
  then have "bit_run ?z (b, cs)" using run_at_along [OF at D(6)] by blast
  from ones_run [OF this] obtain j where b: "b = (Hunt, ?m, Some (last fs))" "cs = replicate j True" by auto
  have "detector_counter st1 = ?m mod 4294967296" using D(2) by (simp add: b v110_rep_def)
  moreover have "in_step st1" using D(2-5) unfolding in_step_def b by blast
  ultimately show ?thesis using D(1,7) b by auto
qed

lemma process_first:
  assumes "softv110_decode_process ds (dets 0) None = Some (Some q, st)"
  shows "diva_v110_detector_process ds dets l =
    (let dets1 = dets(0 := st); dets2 = (if int (seq_idi_rate q) \<noteq> l then reset_counters dets1 else dets1)
     in Some (if detector_counter (dets2 0) < DIVA_V110_NEED_FRAMES_TO_DETECT then (0, 0) else (seq_idi_rate q, seq_speed q),
              dets2, int (seq_idi_rate q)))"
  using assms by (simp add: diva_v110_detector_process_def upt_rec)

lemma example_sequence: "frame_sequence 0 example_frame = Some \<lparr>seq_speed = 1200, seq_e_rate = 0x20, seq_idi_rate = 2\<rparr>"
  by (simp add: frame_sequence_def v110_irate_sequences_def example_frame_def)

text \<open>The delay, a block with one frame and a block with twelve.\<close>

definition frames_block :: "nat \<Rightarrow> byte list" where
  "frames_block n = bit_octets (concat (map frame_bits (replicate n example_frame)) @ replicate 33 True)"

lemma example_history:
  "\<exists>dets h. v110_history dets 2 h \<and>
     (\<exists>dets'. diva_v110_detector_process (frames_block 12) dets 2 = Some ((2, 1200), dets', 2))"
proof -
  let ?junk = "replicate 10240 (0 :: byte)" and ?dets = "diva_init_v110_detector softv110_init"
  have init: "?dets = softv110_init" by (rule ext) (simp add: diva_init_v110_detector_def)
  obtain dets1 where d1: "diva_v110_detector_process ?junk ?dets (-1) = Some ((0, 0), dets1, -1)" "dets1 0 = v110_ready 0"
  proof
    let ?d = "softv110_init(0 := v110_ready 0, 1 := v110_ready 1, 2 := v110_ready 2, 3 := v110_ready 3)"
    have skip: "softv110_decode_process ?junk (softv110_init i) None = Some (None, v110_ready i)" if "i < 4" for i
      by (rule delay_skipped [OF that]) simp
    have r: "[0..<4] = [0, 1, 2, 3 :: nat]" by (simp add: upt_rec)
    show "diva_v110_detector_process ?junk ?dets (-1) = Some ((0, 0), ?d, -1)"
      unfolding diva_v110_detector_process_def r init using skip [of 0] skip [of 1] skip [of 2] skip [of 3] by simp
    show "?d 0 = v110_ready 0" by simp
  qed
  have H1: "v110_history dets1 (-1) ([] @ block_detection ?junk ?dets)" by (rule history_block [OF history_start d1(1)])
  have c: "irate (v110_ready 0) = 1" "phase (v110_ready 0) = Phase_sync" "cfg (v110_ready 0) = 0"
    using irate_init [of 0] by (simp_all add: v110_ready_def) (simp add: softv110_init_def)
  have rep: "v110_rep (v110_ready 0) ((Hunt, 0, None), replicate 0 True)" using ready_rep [of 0] by simp
  have ok: "\<forall>f \<in> set (replicate n example_frame). frame_ok f" for n using example_frame_ok by simp
  obtain st1 where s1: "softv110_decode_process (frames_block 1) (v110_ready 0) None =
      Some (frame_sequence 0 example_frame, st1)" "in_step st1"
    using block_of_frames [OF rep c ok [of 1]] by (auto simp: frames_block_def)
  let ?dets2 = "reset_counters (dets1(0 := st1))"
  have d2: "diva_v110_detector_process (frames_block 1) dets1 (-1) = Some ((0, 0), ?dets2, 2)"
    using process_first [of "frames_block 1" dets1 _ st1 "-1"] s1(1) d1(2)
    by (simp add: example_sequence reset_counters_def DIVA_V110_NEED_FRAMES_TO_DETECT_def Let_def)
  have H2: "v110_history ?dets2 2 (([] @ block_detection ?junk ?dets) @ block_detection (frames_block 1) dets1)"
    by (rule history_block [OF H1 d2])
  let ?st = "st1\<lparr>detector_counter := 0\<rparr>"
  obtain k c l where "v110_rep st1 ((Hunt, c, l), replicate k True)" using s1(2) by (auto simp: in_step_def)
  then have rep2: "v110_rep ?st ((Hunt, 0, l), replicate k True)" by (simp add: v110_rep_def)
  have c2: "irate ?st = 1" "phase ?st = Phase_sync" "cfg ?st = 0" using s1(2) by (simp_all add: in_step_def)
  obtain st2 where s2: "softv110_decode_process (frames_block 12) ?st None = Some (frame_sequence 0 example_frame, st2)"
    "detector_counter st2 = 12"
    using block_of_frames [OF rep2 c2 ok [of 12]] by (auto simp: frames_block_def)
  have "?dets2 0 = ?st" by (simp add: reset_counters_def)
  then have "diva_v110_detector_process (frames_block 12) ?dets2 2 = Some ((2, 1200), ?dets2(0 := st2), 2)"
    using process_first [of "frames_block 12" ?dets2 _ st2 2] s2
    by (simp add: example_sequence DIVA_V110_NEED_FRAMES_TO_DETECT_def Let_def)
  then show ?thesis using H2 by blast
qed

theorem v110_reports_after_ten_witness:
  "\<exists>dets dets' h x. v110_history dets 2 h \<and> diva_v110_detector_process (frames_block 12) dets 2 = Some ((2, 1200), dets', 2) \<and>
     block_detection (frames_block 12) dets = [x] \<and> det_rate x = 2"
proof -
  obtain dets h dets' where H: "v110_history dets 2 h"
    "diva_v110_detector_process (frames_block 12) dets 2 = Some ((2, 1200), dets', 2)" using example_history by blast
  have "(2 :: nat) \<noteq> 0" by simp
  from v110_reports_after_ten [OF H this] obtain x where "block_detection (frames_block 12) dets = [x]" "det_rate x = 2"
    by auto
  then show ?thesis using H by blast
qed

end
