(* ===== verification/Didd.thy ===== *)
theory Didd
  imports CBase
begin

text \<open>
  The adapter array of the driver database (\<open>kernel/dadapter.c\<close>): registering and removing
  IDI adapters, reading the array, notifying the clients of changes, and the synchronous
  requests of the \<open>DADAPTER\<close> entity. Function pointers are numbers: \<open>0\<close> is \<open>NULL\<close>, \<open>1\<close> is
  \<open>no_printf\<close> and \<open>2\<close> is \<open>diva_dadapter_request\<close> of this file. The calls of the notification
  functions are recorded in the order the code makes them. The interface of the configuration
  library and the clock data are parameters.
\<close>

abbreviation (input) NEW_MAX_DESCRIPTORS :: nat where "NEW_MAX_DESCRIPTORS \<equiv> 140"
abbreviation (input) DIVA_DIDD_MAX_NOTIFICATIONS :: nat where "DIVA_DIDD_MAX_NOTIFICATIONS \<equiv> 256"
abbreviation (input) IDI_DADAPTER :: nat where "IDI_DADAPTER \<equiv> 0xfd"
abbreviation (input) IDI_DIMAINT :: nat where "IDI_DIMAINT \<equiv> 0xff"
abbreviation (input) NO_PRINTF :: nat where "NO_PRINTF \<equiv> 1"
abbreviation (input) DADAPTER_REQUEST :: nat where "DADAPTER_REQUEST \<equiv> 2"
abbreviation (input) OUT_OF_RESOURCES :: nat where "OUT_OF_RESOURCES \<equiv> 7"

text \<open>\<open>sizeof (DESCRIPTOR)\<close> with 64 bit pointers.\<close>

abbreviation (input) SIZEOF_DESCRIPTOR :: nat where "SIZEOF_DESCRIPTOR \<equiv> 16"

record descriptor =
  d_type :: nat
  d_channels :: nat
  d_features :: nat
  d_request :: nat

record notification =
  n_callback :: nat
  n_context :: nat

type_synonym nfy_call = "nat \<times> nat \<times> descriptor \<times> bool"

record didd =
  HandleTable :: "descriptor list"
  Adapters :: nat
  NotificationTable :: "notification list"
  MAdapter :: descriptor
  didd_dprintf :: nat
  nfy_calls :: "nfy_call list"

definition no_descriptor :: descriptor where
  "no_descriptor = \<lparr>d_type = 0, d_channels = 0, d_features = 0, d_request = 0\<rparr>"

definition no_notification :: notification where
  "no_notification = \<lparr>n_callback = 0, n_context = 0\<rparr>"

definition DAdapter :: descriptor where
  "DAdapter = \<lparr>d_type = IDI_DADAPTER, d_channels = 0, d_features = 0, d_request = DADAPTER_REQUEST\<rparr>"

definition MAdapter_init :: descriptor where
  "MAdapter_init = \<lparr>d_type = IDI_DIMAINT, d_channels = 0, d_features = 0, d_request = NO_PRINTF\<rparr>"

text \<open>The number of adapters and the debug interface are set by their static initialisers.\<close>

definition diva_didd_load_time_init :: "didd \<Rightarrow> didd" where
  "diva_didd_load_time_init s =
     s\<lparr>HandleTable := replicate NEW_MAX_DESCRIPTORS no_descriptor,
       NotificationTable := replicate DIVA_DIDD_MAX_NOTIFICATIONS no_notification\<rparr>"

definition didd_statics :: didd where
  "didd_statics = \<lparr>HandleTable = replicate NEW_MAX_DESCRIPTORS no_descriptor, Adapters = 0,
     NotificationTable = replicate DIVA_DIDD_MAX_NOTIFICATIONS no_notification,
     MAdapter = MAdapter_init, didd_dprintf = NO_PRINTF, nfy_calls = []\<rparr>"

section \<open>Operations\<close>

definition diva_notify_adapter_change :: "descriptor \<Rightarrow> bool \<Rightarrow> didd \<Rightarrow> didd" where
  "diva_notify_adapter_change d removal s =
     s\<lparr>nfy_calls := nfy_calls s @
       map (\<lambda>n. (n_callback n, n_context n, d, removal)) (filter (\<lambda>n. n_callback n \<noteq> 0) (NotificationTable s))\<rparr>"

definition diva_didd_add_descriptor :: "descriptor \<Rightarrow> didd \<Rightarrow> int \<times> didd" where
  "diva_didd_add_descriptor d s =
     (if d_type d = IDI_DIMAINT then
        if d_request d \<noteq> 0 then
          let s1 = s\<lparr>MAdapter := (MAdapter s)\<lparr>d_request := d_request d\<rparr>, didd_dprintf := d_request d\<rparr>
          in (int NEW_MAX_DESCRIPTORS, diva_notify_adapter_change (MAdapter s1) False s1)
        else
          let s1 = diva_notify_adapter_change (MAdapter s) True s
          in (int NEW_MAX_DESCRIPTORS, s1\<lparr>MAdapter := (MAdapter s1)\<lparr>d_request := NO_PRINTF\<rparr>, didd_dprintf := NO_PRINTF\<rparr>)
      else
        let i = scan_up (\<lambda>i. d_type (HandleTable s ! i) = 0) NEW_MAX_DESCRIPTORS 0
        in if i < NEW_MAX_DESCRIPTORS then
             let s1 = s\<lparr>HandleTable := (HandleTable s)[i := d], Adapters := Adapters s + 1\<rparr>
             in (int i + 1, diva_notify_adapter_change d False s1)
           else (-1, s))"

definition diva_didd_remove_descriptor :: "nat \<Rightarrow> didd \<Rightarrow> int \<times> didd" where
  "diva_didd_remove_descriptor request s =
     (if request = d_request (MAdapter s) then
        let s1 = s\<lparr>didd_dprintf := NO_PRINTF\<rparr>;
            s2 = diva_notify_adapter_change (MAdapter s1) True s1
        in (0, s2\<lparr>MAdapter := (MAdapter s2)\<lparr>d_request := NO_PRINTF\<rparr>\<rparr>)
      else
        let hi = (if Adapters s = 0 then 0 else NEW_MAX_DESCRIPTORS);
            i = scan_up (\<lambda>i. d_request (HandleTable s ! i) = request) hi 0
        in if i < hi then
             let s1 = diva_notify_adapter_change (HandleTable s ! i) True s
             in (0, s1\<lparr>HandleTable := (HandleTable s1)[i := no_descriptor], Adapters := Adapters s1 - 1\<rparr>)
           else (-1, s))"

text \<open>The loop copies the used entries while there is space for them.\<close>

fun read_handles :: "nat \<Rightarrow> descriptor list \<Rightarrow> descriptor list" where
  "read_handles n [] = []"
| "read_handles n (d # ds) =
     (if n = 0 then [] else if d_type d \<noteq> 0 then d # read_handles (n - 1) ds else read_handles n ds)"

definition diva_didd_read_adapter_array :: "nat \<Rightarrow> didd \<Rightarrow> bool \<times> descriptor list" where
  "diva_didd_read_adapter_array len s =
     (let n = len div SIZEOF_DESCRIPTOR;
          b0 = (if Adapters s = 0 then [] else read_handles n (HandleTable s));
          b1 = (if length b0 < n then b0 @ [MAdapter s] else b0);
          b2 = (if length b1 < n then b1 @ [DAdapter] else b1)
      in (length b2 = n, b2 @ replicate (n - length b2) no_descriptor))"

definition diva_register_adapter_callback :: "nat \<Rightarrow> nat \<Rightarrow> didd \<Rightarrow> nat \<times> didd" where
  "diva_register_adapter_callback cb ctx s =
     (let i = scan_up (\<lambda>i. n_callback (NotificationTable s ! i) = 0) DIVA_DIDD_MAX_NOTIFICATIONS 0
      in if i < DIVA_DIDD_MAX_NOTIFICATIONS then
           (i + 1, s\<lparr>NotificationTable := (NotificationTable s)[i := \<lparr>n_callback = cb, n_context = ctx\<rparr>]\<rparr>)
         else (0, s))"

definition diva_remove_adapter_callback :: "nat \<Rightarrow> didd \<Rightarrow> didd" where
  "diva_remove_adapter_callback handle s =
     (if handle \<noteq> 0 \<and> handle - 1 < DIVA_DIDD_MAX_NOTIFICATIONS
      then s\<lparr>NotificationTable := (NotificationTable s)[handle - 1 := no_notification]\<rparr> else s)"

text \<open>The request structure: the entity and the members of the union the code reads or writes.\<close>

record sync_req =
  e_Req :: nat
  e_Rc :: nat
  sr_handle :: nat
  sr_callback :: nat
  sr_context :: nat
  sr_descriptor :: descriptor
  sr_p_request :: nat
  sr_buffer :: "descriptor list"
  sr_length :: nat
  sr_ifc :: nat
  sr_clock :: nat

text \<open>\<open>clock\<close> is \<open>diva_get_clock_data\<close>: zero and the data, or an error; \<open>unmap\<close> the result of
  \<open>diva_unmap_clock_data\<close>.\<close>

definition diva_dadapter_request ::
  "nat \<Rightarrow> (nat \<Rightarrow> int \<times> nat) \<Rightarrow> (nat \<Rightarrow> int) \<Rightarrow> sync_req \<Rightarrow> didd \<Rightarrow> sync_req \<times> didd" where
  "diva_dadapter_request cfg_ifc clock unmap e s =
     (if e_Req e \<noteq> 0 then (e\<lparr>e_Rc := OUT_OF_RESOURCES\<rparr>, s)
      else if e_Rc e = 0x01 then
        (case diva_register_adapter_callback (sr_callback e) (sr_context e) s of
           (h, s') \<Rightarrow> (e\<lparr>sr_handle := h, e_Rc := 0xff\<rparr>, s'))
      else if e_Rc e = 0x02 then (e\<lparr>e_Rc := 0xff\<rparr>, diva_remove_adapter_callback (sr_handle e) s)
      else if e_Rc e = 0x03 then
        (case diva_didd_add_descriptor (sr_descriptor e) s of
           (r, s') \<Rightarrow> (e\<lparr>e_Rc := (if r < 0 then OUT_OF_RESOURCES else 0xff)\<rparr>, s'))
      else if e_Rc e = 0x04 then
        (case diva_didd_remove_descriptor (sr_p_request e) s of
           (r, s') \<Rightarrow> (e\<lparr>e_Rc := (if r < 0 then OUT_OF_RESOURCES else 0xff)\<rparr>, s'))
      else if e_Rc e = 0x05 then
        (case diva_didd_read_adapter_array (sr_length e) s of
           (r, b) \<Rightarrow> (e\<lparr>sr_buffer := b, e_Rc := (if r then OUT_OF_RESOURCES else 0xff)\<rparr>, s))
      else if e_Rc e = 0x10 then
        (e\<lparr>sr_ifc := cfg_ifc, e_Rc := (if cfg_ifc \<noteq> 0 then 0xff else OUT_OF_RESOURCES)\<rparr>, s)
      else if e_Rc e = 0x91 then
        (case clock (sr_clock e) of
           (r, c) \<Rightarrow> (e\<lparr>sr_clock := c, e_Rc := (if r = 0 then 0xff else OUT_OF_RESOURCES)\<rparr>, s))
      else if e_Rc e = 0xAE then
        (e\<lparr>e_Rc := (if unmap (sr_clock e) = 0 then 0xff else OUT_OF_RESOURCES)\<rparr>, s)
      else (e\<lparr>e_Rc := OUT_OF_RESOURCES\<rparr>, s))"

section \<open>The invariant\<close>

abbreviation (input) used :: "descriptor \<Rightarrow> bool" where "used d \<equiv> d_type d \<noteq> 0"

definition didd_ok :: "didd \<Rightarrow> bool" where
  "didd_ok s \<longleftrightarrow> length (HandleTable s) = NEW_MAX_DESCRIPTORS \<and>
     length (NotificationTable s) = DIVA_DIDD_MAX_NOTIFICATIONS \<and>
     Adapters s = length (filter used (HandleTable s)) \<and>
     (\<forall>d \<in> set (HandleTable s). d_type d = 0 \<longrightarrow> d = no_descriptor)"

lemma no_descriptor_simps [simp]: "d_type no_descriptor = 0" "d_request no_descriptor = 0"
  by (simp_all add: no_descriptor_def)

lemma notify_simps [simp]:
  "HandleTable (diva_notify_adapter_change d r s) = HandleTable s"
  "Adapters (diva_notify_adapter_change d r s) = Adapters s"
  "NotificationTable (diva_notify_adapter_change d r s) = NotificationTable s"
  "MAdapter (diva_notify_adapter_change d r s) = MAdapter s"
  by (simp_all add: diva_notify_adapter_change_def)

lemma didd_ok_init: "didd_ok didd_statics"
  by (simp add: didd_ok_def didd_statics_def)

lemma didd_ok_cong:
  "HandleTable s' = HandleTable s \<Longrightarrow> Adapters s' = Adapters s \<Longrightarrow>
   length (NotificationTable s') = length (NotificationTable s) \<Longrightarrow> didd_ok s' = didd_ok s"
  by (simp add: didd_ok_def)

lemma filter_update:
  assumes "i < length xs"
  shows "length (filter P (xs[i := y])) + (if P (xs ! i) then 1 else 0) = length (filter P xs) + (if P y then 1 else 0)"
proof -
  have x: "xs = take i xs @ xs ! i # drop (Suc i) xs" using assms by (rule id_take_nth_drop)
  have "xs[i := y] = take i xs @ y # drop (Suc i) xs" using assms by (rule upd_conv_take_nth_drop)
  then show ?thesis by (subst (3) x) (simp only: filter_append filter.simps length_append list.size split: if_split, simp)
qed

lemma scan_first:
  assumes "scan_up stop hi 0 < hi"
  shows "stop (scan_up stop hi 0)" "\<And>j. j < scan_up stop hi 0 \<Longrightarrow> \<not> stop j"
  using scan_up_props(4) [OF assms] scan_up_props(3) [of 0 _ stop hi] by auto

lemma scan_none: "\<not> scan_up stop hi 0 < hi \<Longrightarrow> j < hi \<Longrightarrow> \<not> stop j"
  using scan_up_props(3) [of 0 j stop hi] by auto

text \<open>The free entry \<open>diva_didd_add_descriptor\<close> takes.\<close>

definition free_slot :: "didd \<Rightarrow> nat" where
  "free_slot s = scan_up (\<lambda>i. d_type (HandleTable s ! i) = 0) NEW_MAX_DESCRIPTORS 0"

lemma free_slot_less: "didd_ok s \<Longrightarrow> free_slot s < NEW_MAX_DESCRIPTORS \<longleftrightarrow> Adapters s < NEW_MAX_DESCRIPTORS"
proof
  assume ok: "didd_ok s" and "free_slot s < NEW_MAX_DESCRIPTORS"
  then have "\<not> used (HandleTable s ! free_slot s)" "free_slot s < length (HandleTable s)"
    using scan_first(1) [of "\<lambda>i. d_type (HandleTable s ! i) = 0" NEW_MAX_DESCRIPTORS]
    by (simp_all add: free_slot_def didd_ok_def)
  then have "length (filter used (HandleTable s)) < length (HandleTable s)"
    by (intro length_filter_less) (auto intro: nth_mem)
  then show "Adapters s < NEW_MAX_DESCRIPTORS" using ok by (simp add: didd_ok_def)
next
  assume ok: "didd_ok s" and less: "Adapters s < NEW_MAX_DESCRIPTORS"
  show "free_slot s < NEW_MAX_DESCRIPTORS"
  proof (rule ccontr)
    assume "\<not> free_slot s < NEW_MAX_DESCRIPTORS"
    then have "\<forall>j < NEW_MAX_DESCRIPTORS. used (HandleTable s ! j)"
      using scan_none unfolding free_slot_def by blast
    then have "\<forall>d \<in> set (HandleTable s). used d" using ok by (auto simp: didd_ok_def in_set_conv_nth)
    then have "filter used (HandleTable s) = HandleTable s" by simp
    then show False using ok less by (simp add: didd_ok_def)
  qed
qed

lemma free_slot_free: "free_slot s < NEW_MAX_DESCRIPTORS \<Longrightarrow> d_type (HandleTable s ! free_slot s) = 0"
  unfolding free_slot_def by (rule scan_first)

lemma add_descriptor_unfold:
  "d_type d \<noteq> IDI_DIMAINT \<Longrightarrow> diva_didd_add_descriptor d s =
     (if free_slot s < NEW_MAX_DESCRIPTORS
      then (int (free_slot s) + 1, diva_notify_adapter_change d False
        (s\<lparr>HandleTable := (HandleTable s)[free_slot s := d], Adapters := Adapters s + 1\<rparr>))
      else (-1, s))"
  by (simp add: diva_didd_add_descriptor_def free_slot_def Let_def)

lemma add_descriptor_ok:
  assumes ok: "didd_ok s" and d: "used d"
  shows "didd_ok (snd (diva_didd_add_descriptor d s))"
proof (cases "d_type d = IDI_DIMAINT")
  case True
  then show ?thesis using ok by (auto simp: diva_didd_add_descriptor_def Let_def intro: didd_ok_cong [THEN iffD2])
next
  case False
  show ?thesis
  proof (cases "free_slot s < NEW_MAX_DESCRIPTORS")
    case True
    then have "length (filter used ((HandleTable s)[free_slot s := d])) = Adapters s + 1"
      using filter_update [of "free_slot s" "HandleTable s" used d] free_slot_free [OF True] ok d
      by (simp add: didd_ok_def)
    then show ?thesis using ok d True False
      by (auto simp: add_descriptor_unfold didd_ok_def dest: set_update_subset_insert [THEN subsetD])
  next
    case False
    then show ?thesis using ok \<open>d_type d \<noteq> IDI_DIMAINT\<close> by (simp add: add_descriptor_unfold)
  qed
qed

text \<open>The entry \<open>diva_didd_remove_descriptor\<close> clears.\<close>

definition request_slot :: "nat \<Rightarrow> didd \<Rightarrow> nat" where
  "request_slot r s = scan_up (\<lambda>i. d_request (HandleTable s ! i) = r) (if Adapters s = 0 then 0 else NEW_MAX_DESCRIPTORS) 0"

lemma remove_descriptor_unfold:
  "r \<noteq> d_request (MAdapter s) \<Longrightarrow> diva_didd_remove_descriptor r s =
     (if Adapters s \<noteq> 0 \<and> request_slot r s < NEW_MAX_DESCRIPTORS
      then (0, (diva_notify_adapter_change (HandleTable s ! request_slot r s) True s)
        \<lparr>HandleTable := (HandleTable s)[request_slot r s := no_descriptor], Adapters := Adapters s - 1\<rparr>)
      else (-1, s))"
  by (simp add: diva_didd_remove_descriptor_def request_slot_def Let_def)

lemma request_slot_found:
  "Adapters s \<noteq> 0 \<Longrightarrow> request_slot r s < NEW_MAX_DESCRIPTORS \<Longrightarrow> d_request (HandleTable s ! request_slot r s) = r"
  using scan_first(1) [of "\<lambda>i. d_request (HandleTable s ! i) = r" NEW_MAX_DESCRIPTORS] by (simp add: request_slot_def)

lemma remove_descriptor_ok:
  assumes ok: "didd_ok s" and r: "r \<noteq> 0"
  shows "didd_ok (snd (diva_didd_remove_descriptor r s))"
proof (cases "r = d_request (MAdapter s)")
  case True
  then show ?thesis using ok
    by (auto simp: diva_didd_remove_descriptor_def Let_def intro: didd_ok_cong [THEN iffD2])
next
  case False
  show ?thesis
  proof (cases "Adapters s \<noteq> 0 \<and> request_slot r s < NEW_MAX_DESCRIPTORS")
    case True
    let ?i = "request_slot r s"
    have i: "?i < length (HandleTable s)" using True ok by (simp add: didd_ok_def)
    have "d_request (HandleTable s ! ?i) = r" using True by (intro request_slot_found) simp_all
    then have "used (HandleTable s ! ?i)"
      using ok r nth_mem [OF i] by (auto simp: didd_ok_def)
    then have "length (filter used ((HandleTable s)[?i := no_descriptor])) = Adapters s - 1"
      using filter_update [OF i, of used no_descriptor] ok True by (simp add: didd_ok_def)
    then show ?thesis using ok True False
      by (auto simp: remove_descriptor_unfold didd_ok_def dest: set_update_subset_insert [THEN subsetD])
  next
    case False
    then show ?thesis using ok \<open>r \<noteq> d_request (MAdapter s)\<close> by (auto simp: remove_descriptor_unfold)
  qed
qed

lemma register_callback_ok: "didd_ok s \<Longrightarrow> didd_ok (snd (diva_register_adapter_callback cb ctx s))"
  by (simp add: diva_register_adapter_callback_def Let_def didd_ok_def)

lemma remove_callback_ok: "didd_ok s \<Longrightarrow> didd_ok (diva_remove_adapter_callback h s)"
  by (simp add: diva_remove_adapter_callback_def didd_ok_def)

section \<open>Properties\<close>

text \<open>Every synchronous request keeps the adapter array and its counter in agreement: the
  counter is the number of used entries and the unused ones are cleared. Adapters are added
  with a type and removed by a request function.\<close>

theorem dadapter_request_keeps_ok:
  assumes "didd_ok s" "e_Rc e = 3 \<longrightarrow> used (sr_descriptor e)" "e_Rc e = 4 \<longrightarrow> sr_p_request e \<noteq> 0"
  shows "didd_ok (snd (diva_dadapter_request cfg clock unmap e s))"
proof -
  note a = register_callback_ok [OF assms(1), of "sr_callback e" "sr_context e"] remove_callback_ok [OF assms(1)]
    add_descriptor_ok [OF assms(1), of "sr_descriptor e"] remove_descriptor_ok [OF assms(1), of "sr_p_request e"]
  show ?thesis unfolding diva_dadapter_request_def using a assms by (auto split: prod.split)
qed

lemma dadapter_request_keeps_ok_witness:
  "didd_ok (snd (diva_dadapter_request 0 (\<lambda>c. (0, c)) (\<lambda>_. 0)
     \<lparr>e_Req = 0, e_Rc = 3, sr_handle = 0, sr_callback = 0, sr_context = 0,
      sr_descriptor = \<lparr>d_type = 3, d_channels = 2, d_features = 0, d_request = 77\<rparr>, sr_p_request = 0, sr_buffer = [],
      sr_length = 0, sr_ifc = 0, sr_clock = 0\<rparr> didd_statics))"
  by (rule dadapter_request_keeps_ok) (simp_all add: didd_ok_init)

lemma read_handles_take: "read_handles n ds = take n (filter used ds)"
  by (induction n ds rule: read_handles.induct) (auto simp: take_Cons')

lemma read_array_list:
  assumes "didd_ok s"
  shows "diva_didd_read_adapter_array len s =
    (let n = len div SIZEOF_DESCRIPTOR; all = filter used (HandleTable s) @ [MAdapter s, DAdapter]
     in (n \<le> length all, take n (all @ replicate n no_descriptor)))"
proof -
  let ?n = "len div SIZEOF_DESCRIPTOR" and ?u = "filter used (HandleTable s)"
  have "(if Adapters s = 0 then [] else read_handles ?n (HandleTable s)) = take ?n ?u"
    using assms by (auto simp: read_handles_take didd_ok_def filter_empty_conv)
  then have r: "diva_didd_read_adapter_array len s =
      (let b0 = take ?n ?u; b1 = (if length b0 < ?n then b0 @ [MAdapter s] else b0);
           b2 = (if length b1 < ?n then b1 @ [DAdapter] else b1)
       in (length b2 = ?n, b2 @ replicate (?n - length b2) no_descriptor))"
    by (simp only: diva_didd_read_adapter_array_def Let_def)
  consider "?n \<le> length ?u" | "?n = length ?u + 1" | "length ?u + 2 \<le> ?n" by linarith
  then show ?thesis
  proof cases
    case 1
    then show ?thesis unfolding r by (simp add: Let_def min_def)
  next
    case 2
    then show ?thesis unfolding r by (simp add: Let_def)
  next
    case 3
    then obtain k where k: "?n = length ?u + 2 + k" using le_Suc_ex by blast
    have "length ?u + 2 + k = Suc (Suc (length ?u + k))" by simp
    note k = k [unfolded this]
    show ?thesis unfolding r Let_def k by (simp add: min_def del: replicate_Suc)
  qed
qed

text \<open>Reading the array yields the used entries in order, then the debug interface and the
  \<open>DADAPTER\<close>, as far as there is space, and empty descriptors behind them. As the comment of
  \<open>DIVA_DIDD_Read\<close> promises, the last descriptor tells a client whether everything was written:
  it has the type of the \<open>DADAPTER\<close> or none exactly when there was space for all.\<close>

theorem didd_read_complete:
  assumes "didd_ok s" "\<forall>d \<in> set (HandleTable s). d_type d \<noteq> IDI_DADAPTER" "d_type (MAdapter s) = IDI_DIMAINT"
    "SIZEOF_DESCRIPTOR \<le> len"
  defines "buf \<equiv> snd (diva_didd_read_adapter_array len s)" and "n \<equiv> len div SIZEOF_DESCRIPTOR"
  shows "length buf = n \<and>
    (\<forall>i < n. buf ! i = (filter used (HandleTable s) @ [MAdapter s, DAdapter] @ replicate n no_descriptor) ! i) \<and>
    (d_type (last buf) \<in> {0, IDI_DADAPTER} \<longleftrightarrow> Adapters s + 2 \<le> n)"
proof -
  let ?u = "filter used (HandleTable s)"
  let ?all = "?u @ [MAdapter s, DAdapter] @ replicate n no_descriptor"
  have b: "buf = take n ?all" unfolding buf_def n_def read_array_list [OF assms(1)] by (simp only: Let_def snd_conv append_assoc)
  have n: "0 < n" using assms(4) unfolding n_def by (simp add: div_greater_zero_iff)
  then have l: "length buf = n" by (simp add: b)
  have last: "last buf = ?all ! (n - 1)"
  proof -
    have "last buf = buf ! (n - 1)" using l n by (metis last_conv_nth length_greater_0_conv)
    then show ?thesis unfolding b using n by (simp only: nth_take diff_less zero_less_one)
  qed
  have A: "Adapters s = length ?u" using assms(1) by (simp add: didd_ok_def)
  have "d_type (?all ! (n - 1)) \<in> {0, IDI_DADAPTER} \<longleftrightarrow> length ?u + 2 \<le> n"
  proof -
    consider "n \<le> length ?u" | "n = length ?u + 1" | "n = length ?u + 2" | "length ?u + 3 \<le> n" by linarith
    then show ?thesis
    proof cases
      case 1
      then have "n - 1 < length ?u" using n by linarith
      then have "?all ! (n - 1) \<in> set ?u" by (simp only: nth_append_left nth_mem)
      then show ?thesis using assms(2) 1 by auto
    next
      case 2
      then show ?thesis using assms(3) by (simp add: nth_append)
    next
      case 3
      then show ?thesis by (simp add: nth_append DAdapter_def)
    next
      case 4
      then obtain k where k: "n = length ?u + 3 + k" using le_Suc_ex by blast
      have "?all ! (n - 1) = no_descriptor"
        unfolding k by (simp add: nth_append)
      then show ?thesis using 4 by simp
    qed
  qed
  then have c: "d_type (last buf) \<in> {0, IDI_DADAPTER} \<longleftrightarrow> Adapters s + 2 \<le> n" by (simp only: A last)
  have "\<forall>i < n. buf ! i = ?all ! i" unfolding b by (intro allI impI nth_take)
  then show ?thesis using l c by blast
qed


lemma didd_read_complete_witness:
  "let buf = snd (diva_didd_read_adapter_array 48 didd_statics)
   in length buf = 3 \<and>
    (\<forall>i < 3. buf ! i = (filter used (HandleTable didd_statics) @ [MAdapter didd_statics, DAdapter] @ replicate 3 no_descriptor) ! i) \<and>
    (d_type (last buf) \<in> {0, IDI_DADAPTER} \<longleftrightarrow> Adapters didd_statics + 2 \<le> 3)"
proof -
  have 1: "\<forall>d \<in> set (HandleTable didd_statics). d_type d \<noteq> IDI_DADAPTER" by (simp add: didd_statics_def)
  have 2: "d_type (MAdapter didd_statics) = IDI_DIMAINT" by (simp add: didd_statics_def MAdapter_init_def)
  have "48 div SIZEOF_DESCRIPTOR = 3" by simp
  with didd_read_complete [OF didd_ok_init 1 2, of 48] show ?thesis by (simp only: Let_def) simp
qed

text \<open>The returned error flag is raised whenever not more than the needed space is there:
  also a buffer that takes exactly all descriptors is reported as too small, although
  everything was written to it.\<close>

theorem didd_read_exact_fit:
  assumes "didd_ok s"
  shows "fst (diva_didd_read_adapter_array len s) \<longleftrightarrow> len div SIZEOF_DESCRIPTOR \<le> Adapters s + 2"
  using assms unfolding read_array_list [OF assms] by (simp add: Let_def didd_ok_def)

lemma didd_read_exact_fit_witness:
  "fst (diva_didd_read_adapter_array 32 didd_statics) \<longleftrightarrow> 32 div SIZEOF_DESCRIPTOR \<le> Adapters didd_statics + 2"
  by (rule didd_read_exact_fit) (rule didd_ok_init)

text \<open>An added adapter takes the first free entry, its handle is the position of the entry from
  one on, every registered client is told once, in the order of the registrations, and
  removing it by its request function restores the array.\<close>

theorem didd_add_remove:
  assumes "didd_ok s" "used d" "d_type d \<noteq> IDI_DIMAINT" "Adapters s < NEW_MAX_DESCRIPTORS"
    "d_request d \<noteq> d_request (MAdapter s)" "d_request d \<notin> d_request ` set (HandleTable s)"
  shows "case diva_didd_add_descriptor d s of (h, s1) \<Rightarrow>
    0 < h \<and> HandleTable s1 = (HandleTable s)[nat h - 1 := d] \<and> d_type (HandleTable s ! (nat h - 1)) = 0 \<and>
    nfy_calls s1 = nfy_calls s @ [(n_callback n, n_context n, d, False). n \<leftarrow> NotificationTable s, n_callback n \<noteq> 0] \<and>
    (case diva_didd_remove_descriptor (d_request d) s1 of (r, s2) \<Rightarrow>
       r = 0 \<and> HandleTable s2 = HandleTable s \<and> Adapters s2 = Adapters s)"
proof -
  let ?i = "free_slot s"
  let ?s1 = "diva_notify_adapter_change d False
        (s\<lparr>HandleTable := (HandleTable s)[?i := d], Adapters := Adapters s + 1\<rparr>)"
  have i: "?i < NEW_MAX_DESCRIPTORS" using free_slot_less [OF assms(1)] assms(4) by blast
  have l: "length (HandleTable s) = NEW_MAX_DESCRIPTORS" using assms(1) by (simp add: didd_ok_def)
  have add: "diva_didd_add_descriptor d s = (int ?i + 1, ?s1)" by (simp add: add_descriptor_unfold assms(3) i)
  have nfy: "nfy_calls ?s1 = nfy_calls s @ [(n_callback n, n_context n, d, False). n \<leftarrow> NotificationTable s, n_callback n \<noteq> 0]"
  proof -
    have "map (\<lambda>n. (n_callback n, n_context n, d, False)) (filter (\<lambda>n. n_callback n \<noteq> 0) ns) =
        [(n_callback n, n_context n, d, False). n \<leftarrow> ns, n_callback n \<noteq> 0]" for ns
      by (induction ns) simp_all
    from this [of "NotificationTable s"] show ?thesis by (simp add: diva_notify_adapter_change_def)
  qed
  have j: "request_slot (d_request d) ?s1 = ?i"
  proof -
    have "request_slot (d_request d) ?s1 =
        scan_up (\<lambda>i. d_request ((HandleTable s)[?i := d] ! i) = d_request d) NEW_MAX_DESCRIPTORS 0" (is "_ = ?j")
      by (simp add: request_slot_def)
    moreover have le: "?j \<le> ?i" by (rule scan_up_found) (use i l in simp_all)
    moreover have "\<not> ?j < ?i"
    proof
      assume "?j < ?i"
      then have "d_request ((HandleTable s)[?i := d] ! ?j) = d_request d"
        using scan_first(1) [of "\<lambda>i. d_request ((HandleTable s)[?i := d] ! i) = d_request d" NEW_MAX_DESCRIPTORS] i by simp
      then have "d_request (HandleTable s ! ?j) = d_request d" using \<open>?j < ?i\<close> by simp
      moreover have "HandleTable s ! ?j \<in> set (HandleTable s)" using \<open>?j < ?i\<close> i l by simp
      ultimately show False using assms(6) by (metis imageI)
    qed
    ultimately show ?thesis by simp
  qed
  have free: "HandleTable s ! ?i = no_descriptor"
    using free_slot_free [OF i] assms(1) i l nth_mem [of ?i "HandleTable s"] unfolding didd_ok_def by simp
  have rem: "diva_didd_remove_descriptor (d_request d) ?s1 =
      (0, (diva_notify_adapter_change d True ?s1)\<lparr>HandleTable := HandleTable s, Adapters := Adapters s\<rparr>)"
  proof -
    have m: "d_request d \<noteq> d_request (MAdapter ?s1)" using assms(5) by simp
    have c: "Adapters ?s1 \<noteq> 0 \<and> ?i < NEW_MAX_DESCRIPTORS" using i by simp
    have e: "HandleTable ?s1 ! ?i = d" using i l by simp
    have h: "(HandleTable ?s1)[?i := no_descriptor] = HandleTable s" using free by (simp add: list_update_same_conv i l)
    have a: "Adapters ?s1 - 1 = Adapters s" by simp
    show ?thesis unfolding remove_descriptor_unfold [OF m] j if_P [OF c] e h a ..
  qed
  have h: "nat (int ?i + 1) - 1 = ?i" by simp
  show ?thesis unfolding add prod.case rem h using nfy free by simp
qed

lemma didd_add_remove_witness:
  "case diva_didd_add_descriptor \<lparr>d_type = 3, d_channels = 2, d_features = 0, d_request = 77\<rparr> didd_statics of (h, s1) \<Rightarrow>
    0 < h \<and> HandleTable s1 = (HandleTable didd_statics)[nat h - 1 := \<lparr>d_type = 3, d_channels = 2, d_features = 0, d_request = 77\<rparr>] \<and>
    d_type (HandleTable didd_statics ! (nat h - 1)) = 0 \<and>
    nfy_calls s1 = nfy_calls didd_statics @ [(n_callback n, n_context n, \<lparr>d_type = 3, d_channels = 2, d_features = 0, d_request = 77\<rparr>, False).
      n \<leftarrow> NotificationTable didd_statics, n_callback n \<noteq> 0] \<and>
    (case diva_didd_remove_descriptor 77 s1 of (r, s2) \<Rightarrow>
       r = 0 \<and> HandleTable s2 = HandleTable didd_statics \<and> Adapters s2 = Adapters didd_statics)"
  using didd_add_remove [of didd_statics "\<lparr>d_type = 3, d_channels = 2, d_features = 0, d_request = 77\<rparr>"] didd_ok_init
  by (simp add: didd_statics_def MAdapter_init_def)

text \<open>The search of \<open>diva_didd_remove_descriptor\<close> does not look at the type of an entry, so a
  request to remove the function \<open>NULL\<close> is answered with success by clearing an entry that is
  already free: the counter no longer matches the array.\<close>

theorem didd_remove_null:
  assumes "didd_ok s" "0 < Adapters s" "d_request (MAdapter s) \<noteq> 0"
    "\<forall>d \<in> set (HandleTable s). used d \<longrightarrow> d_request d \<noteq> 0" "Adapters s < NEW_MAX_DESCRIPTORS"
  shows "case diva_didd_remove_descriptor 0 s of (r, s') \<Rightarrow>
    r = 0 \<and> HandleTable s' = HandleTable s \<and> Adapters s' < length (filter used (HandleTable s'))"
proof -
  let ?i = "request_slot 0 s"
  have l: "length (HandleTable s) = NEW_MAX_DESCRIPTORS" using assms(1) by (simp add: didd_ok_def)
  have f: "free_slot s < NEW_MAX_DESCRIPTORS" using free_slot_less [OF assms(1)] assms(5) by blast
  then have "HandleTable s ! free_slot s = no_descriptor"
    using free_slot_free [OF f] assms(1) l nth_mem [of "free_slot s" "HandleTable s"] unfolding didd_ok_def by simp
  then have "?i \<le> free_slot s" unfolding request_slot_def using f assms(2) by (intro scan_up_found) simp_all
  then have i: "?i < NEW_MAX_DESCRIPTORS" using f by simp
  have "d_request (HandleTable s ! ?i) = 0" using assms(2) i by (intro request_slot_found) simp_all
  moreover have m: "HandleTable s ! ?i \<in> set (HandleTable s)" using i l by simp
  ultimately have "d_type (HandleTable s ! ?i) = 0" using assms(4) by blast
  then have e: "HandleTable s ! ?i = no_descriptor" using m assms(1) unfolding didd_ok_def by blast
  have "(HandleTable s)[?i := no_descriptor] = HandleTable s" using e by (metis list_update_id)
  then show ?thesis using assms(1,2,3) i e by (simp add: remove_descriptor_unfold didd_ok_def)
qed

end
