(* ===== verification/Xdi.thy ===== *)
theory Xdi
  imports Fifo DmaMap
begin

text \<open>
  The IDI adapter interface (\<open>kernel/di.c\<close>, \<open>kernel/io.c\<close>): entities send requests to a card
  through its shared memory and are called back with return codes and indications. This
  theory holds the state, the access to the memory of the card, the queue of the entities with
  a request, the list of pending \<open>ASSIGN\<close> requests and the function clients call to send a
  request.

  An entity is a structure of the client; \<open>ents\<close> maps its address to its contents and the
  entity table \<open>e_tbl_e\<close> holds the addresses (\<open>0\<close> is the null pointer). The callback of a client
  is a parameter; each call is recorded in \<open>xcalls\<close> with the entity as the client sees it. The
  memory of the card is changed by the card between the calls of the driver only. Locking,
  trace output and the scheduling of the soft interrupt are left out.
\<close>

abbreviation (input) XMOREC :: byte where "XMOREC \<equiv> 0x0f"
abbreviation (input) XMOREP :: byte where "XMOREP \<equiv> 0x10"
abbreviation (input) XMOREF :: byte where "XMOREF \<equiv> 0x20"
abbreviation (input) XBUSY :: byte where "XBUSY \<equiv> 0x40"
abbreviation (input) REMOVE_PENDING :: byte where "REMOVE_PENDING \<equiv> 1"
abbreviation (input) NO_RC_CANCELLING :: byte where "NO_RC_CANCELLING \<equiv> 2"
abbreviation (input) RX_DMA :: byte where "RX_DMA \<equiv> 4"
abbreviation (input) NL_ID :: nat where "NL_ID \<equiv> 0x20"
abbreviation (input) BLLC_ID :: nat where "BLLC_ID \<equiv> 0x60"
abbreviation (input) TASK_ID :: nat where "TASK_ID \<equiv> 0x80"
abbreviation (input) MAN_ID :: nat where "MAN_ID \<equiv> 0xe0"
abbreviation (input) N_MDATA :: nat where "N_MDATA \<equiv> 1"
abbreviation (input) N_DATA :: nat where "N_DATA \<equiv> 8"
abbreviation (input) LL_MDATA :: nat where "LL_MDATA \<equiv> 9"
abbreviation (input) REMOVE :: nat where "REMOVE \<equiv> 0xff"
abbreviation (input) UREMOVE :: nat where "UREMOVE \<equiv> 0xfe"

record buffers =
  PLength :: "16 word"
  bP :: nat

record entity =
  eReq :: nat
  eRc :: nat
  eInd :: nat
  eReqCh :: nat
  eRcCh :: nat
  eIndCh :: nat
  eId :: nat
  eXNum :: nat
  eRNum :: nat
  eX :: "nat \<Rightarrow> buffers"
  eR :: "nat \<Rightarrow> buffers"
  eRLength :: nat
  eRBuffer :: "byte list"
  eRNR :: nat
  eComplete :: nat
  eCallback :: bool
  eNo :: nat
  eMore :: byte
  eMInd :: nat
  eXCurrent :: nat
  eRCurrent :: nat
  eXOffset :: nat
  eROffset :: nat

record xdi =
  xIdTable :: "nat \<Rightarrow> nat"
  xIdTypeTable :: "nat \<Rightarrow> nat"
  xFlowControlIdTable :: "nat \<Rightarrow> nat"
  xFlowControlSkipTable :: "nat \<Rightarrow> bool"
  xReadyInt :: nat
  xRcExtensionSupported :: bool
  xmisc :: "nat \<Rightarrow> byte"
  xrx_stream :: "nat \<Rightarrow> nat"
  xtx_stream :: "nat \<Rightarrow> nat"
  xram_offset :: "nat option"
  xram :: mem
  xhost :: mem
  xdma :: dma_map
  e_tbl_e :: "nat \<Rightarrow> nat"
  e_next :: "nat \<Rightarrow> nat"
  e_ref :: "nat \<Rightarrow> nat"
  e_max :: nat
  e_count :: nat
  xassign :: nat
  xhead :: nat
  xtail :: nat
  xtrapped :: bool
  xtrapFnc :: bool
  ents :: "nat \<Rightarrow> entity"
  xcalls :: "(nat \<times> entity) list"

definition upd_ent :: "nat \<Rightarrow> (entity \<Rightarrow> entity) \<Rightarrow> xdi \<Rightarrow> xdi" where
  "upd_ent e f s = s\<lparr>ents := (ents s)(e := f (ents s e))\<rparr>"

section \<open>The memory of the card\<close>

definition ram_in :: "xdi \<Rightarrow> nat \<Rightarrow> nat" where
  "ram_in s p = unat (xram s p)"

definition ram_inw :: "xdi \<Rightarrow> nat \<Rightarrow> nat" where
  "ram_inw s p = rd16 (xram s) p"

definition ram_in_dw :: "xdi \<Rightarrow> nat \<Rightarrow> nat" where
  "ram_in_dw s p = rd32 (xram s) p"

definition ram_out :: "nat \<Rightarrow> nat \<Rightarrow> xdi \<Rightarrow> xdi" where
  "ram_out p v s = s\<lparr>xram := (xram s)(p := word_of_nat v)\<rparr>"

definition ram_outw :: "nat \<Rightarrow> nat \<Rightarrow> xdi \<Rightarrow> xdi" where
  "ram_outw p v s = s\<lparr>xram := wr16 (xram s) p v\<rparr>"

definition ram_out_dw :: "nat \<Rightarrow> nat \<Rightarrow> xdi \<Rightarrow> xdi" where
  "ram_out_dw p v s = s\<lparr>xram := wr32 (xram s) p v\<rparr>"

definition ram_out_buffer :: "nat \<Rightarrow> nat \<Rightarrow> nat \<Rightarrow> xdi \<Rightarrow> xdi" where
  "ram_out_buffer p q n s = s\<lparr>xram := wr_bytes (xram s) p (rd_bytes (xhost s) q n)\<rparr>"

definition ram_in_buffer :: "nat \<Rightarrow> nat \<Rightarrow> nat \<Rightarrow> xdi \<Rightarrow> xdi" where
  "ram_in_buffer p q n s = s\<lparr>xhost := wr_bytes (xhost s) q (rd_bytes (xram s) p n)\<rparr>"

definition ram_inc :: "nat \<Rightarrow> xdi \<Rightarrow> xdi" where
  "ram_inc p s = ram_out p (ram_in s p + 1) s"

definition ram_look_ahead :: "nat \<Rightarrow> nat \<Rightarrow> xdi \<Rightarrow> xdi" where
  "ram_look_ahead rb e s = upd_ent e (\<lambda>x. x\<lparr>eRBuffer := rd_bytes (xram s) (rb + 2) (ram_inw s rb)\<rparr>) s"

definition CALLBACK :: "(nat \<Rightarrow> xdi \<Rightarrow> xdi) \<Rightarrow> nat \<Rightarrow> xdi \<Rightarrow> xdi" where
  "CALLBACK cb e s =
     (if e \<noteq> 0 \<and> eCallback (ents s e) then cb e (s\<lparr>xcalls := xcalls s @ [(e, ents s e)]\<rparr>) else s)"

section \<open>The queues\<close>

definition entity_ptr :: "xdi \<Rightarrow> nat \<Rightarrow> nat" where
  "entity_ptr s e_no = e_tbl_e s e_no"

definition free_entity :: "nat \<Rightarrow> xdi \<Rightarrow> xdi" where
  "free_entity e_no s =
     s\<lparr>e_tbl_e := (e_tbl_e s)(e_no := 0), e_count := (e_count s + 65535) mod 65536\<rparr>"

definition assign_queue :: "nat \<Rightarrow> nat \<Rightarrow> xdi \<Rightarrow> xdi" where
  "assign_queue e_no ref s =
     s\<lparr>e_ref := (e_ref s)(e_no := ref), e_next := (e_next s)(e_no := xassign s), xassign := e_no\<rparr>"

partial_function (option) get_assign_from :: "xdi \<Rightarrow> nat \<Rightarrow> nat \<Rightarrow> nat option" where
  "get_assign_from s ref e_no =
     (if e_no \<noteq> 0 \<and> e_ref s e_no \<noteq> ref then get_assign_from s ref (e_next s e_no) else Some e_no)"

definition get_assign :: "xdi \<Rightarrow> nat \<Rightarrow> nat option" where
  "get_assign s ref = get_assign_from s ref (xassign s)"

definition req_queue :: "nat \<Rightarrow> xdi \<Rightarrow> xdi" where
  "req_queue e_no s =
     (let s1 = s\<lparr>e_next := (e_next s)(e_no := 0)\<rparr>
      in if xhead s1 \<noteq> 0 then s1\<lparr>e_next := (e_next s1)(xtail s1 := e_no), xtail := e_no\<rparr>
         else s1\<lparr>xhead := e_no, xtail := e_no\<rparr>)"

definition look_req :: "xdi \<Rightarrow> nat" where
  "look_req s = xhead s"

definition next_req :: "xdi \<Rightarrow> xdi" where
  "next_req s =
     (let s1 = s\<lparr>xhead := e_next s (xhead s)\<rparr> in if xhead s1 = 0 then s1\<lparr>xtail := 0\<rparr> else s1)"

text \<open>The search for a free entry does not look at the size of the table.\<close>

partial_function (option) free_e_from :: "xdi \<Rightarrow> nat \<Rightarrow> nat option" where
  "free_e_from s i = (if e_tbl_e s i \<noteq> 0 then free_e_from s (i + 1) else Some i)"

text \<open>The part of \<open>request\<close> behind the synchronous requests: \<open>trap\<close> stands for the functions
  called for a client that sends a request while another one is pending.\<close>

definition idi_request :: "(xdi \<Rightarrow> xdi) \<Rightarrow> nat \<Rightarrow> xdi \<Rightarrow> xdi option" where
  "idi_request trap e s =
     (if eId (ents s e) mod 32 = 0 \<and> e_count s \<ge> e_max s then Some s
      else map_option (\<lambda>(i, s1).
        if eMore (ents s1 e) AND XBUSY \<noteq> 0 then
          (if \<not> xtrapped s1 \<and> xtrapFnc s1 then trap s1 else s1)
        else req_queue i (upd_ent e (\<lambda>x. x\<lparr>eMore := (eMore x OR XBUSY) AND NOT XMOREF, eXCurrent := 0, eXOffset := 0\<rparr>) s1))
      (if eId (ents s e) mod 32 = 0 then
         map_option (\<lambda>i. (i, upd_ent e (\<lambda>x. x\<lparr>eNo := i mod 256, eMore := 0, eRCurrent := 0xff\<rparr>)
             (s\<lparr>e_tbl_e := (e_tbl_e s)(i := e), e_count := (e_count s + 1) mod 65536\<rparr>)))
           (free_e_from s 1)
       else Some (eNo (ents s e), s)))"

section \<open>The request queue\<close>

fun echain :: "(nat \<Rightarrow> nat) \<Rightarrow> nat \<Rightarrow> nat list \<Rightarrow> bool" where
  "echain nx p [] \<longleftrightarrow> p = 0"
| "echain nx p (x # xs) \<longleftrightarrow> p = x \<and> echain nx (nx x) xs"

lemma echain_cong: "(\<And>x. x \<in> set xs \<Longrightarrow> nx' x = nx x) \<Longrightarrow> echain nx' p xs = echain nx p xs"
  by (induction xs arbitrary: p) auto

lemma echain_snoc:
  "echain nx p xs \<Longrightarrow> distinct xs \<Longrightarrow> y \<notin> set xs \<Longrightarrow> xs \<noteq> [] \<Longrightarrow> echain (nx(y := 0, last xs := y)) p (xs @ [y])"
proof (induction xs arbitrary: p)
  case (Cons x xs)
  show ?case
  proof (cases "xs = []")
    case False
    then have "last xs \<noteq> x" using Cons.prems by (auto simp: last_in_set)
    then show ?thesis using Cons False by auto
  qed (use Cons.prems in auto)
qed simp

definition xreq_rep :: "xdi \<Rightarrow> nat list \<Rightarrow> bool" where
  "xreq_rep s xs \<longleftrightarrow> distinct xs \<and> 0 \<notin> set xs \<and> echain (e_next s) (xhead s) xs \<and>
     xtail s = (if xs = [] then 0 else last xs)"

lemma xreq_rep_head: "xreq_rep s xs \<Longrightarrow> look_req s = (if xs = [] then 0 else hd xs)"
  by (cases xs) (auto simp: xreq_rep_def look_req_def)

lemma xreq_rep_cong:
  "xhead s' = xhead s \<Longrightarrow> xtail s' = xtail s \<Longrightarrow> (\<And>x. x \<in> set xs \<Longrightarrow> e_next s' x = e_next s x) \<Longrightarrow>
   xreq_rep s' xs = xreq_rep s xs"
  using echain_cong [of xs "e_next s'" "e_next s" "xhead s"] by (auto simp: xreq_rep_def)

lemma req_queue_rep [rep_intros]:
  assumes "xreq_rep s xs" "y \<noteq> 0" "y \<notin> set xs"
  shows "xreq_rep (req_queue y s) (xs @ [y])"
proof (cases xs)
  case Nil
  then show ?thesis using assms by (auto simp: xreq_rep_def req_queue_def Let_def)
next
  case (Cons x xs')
  then have h: "xhead s \<noteq> 0" "xtail s = last xs" using assms by (auto simp: xreq_rep_def)
  have "echain ((e_next s)(y := 0, last xs := y)) (xhead s) (xs @ [y])"
    using assms Cons by (intro echain_snoc) (auto simp: xreq_rep_def)
  then show ?thesis using assms h by (auto simp: xreq_rep_def req_queue_def Let_def)
qed

lemma next_req_rep [rep_intros]: "xreq_rep s xs \<Longrightarrow> xs \<noteq> [] \<Longrightarrow> xreq_rep (next_req s) (tl xs)"
  by (cases xs; cases "tl xs") (auto simp: xreq_rep_def next_req_def Let_def)

text \<open>Entering an entity into the list of pending \<open>ASSIGN\<close> requests does not disturb the queue,
  because it has been taken from the queue before.\<close>

lemma assign_queue_rep [rep_intros]: "xreq_rep s xs \<Longrightarrow> y \<notin> set xs \<Longrightarrow> xreq_rep (assign_queue y ref s) xs"
  by (rule xreq_rep_cong [THEN iffD2, rotated 3]) (auto simp: assign_queue_def)

section \<open>Requests of clients\<close>

definition busy_no :: "xdi \<Rightarrow> nat \<Rightarrow> bool" where
  "busy_no s i \<longleftrightarrow> bit (eMore (ents s (e_tbl_e s i))) 6"

lemma and_busy: "m AND XBUSY \<noteq> 0 \<longleftrightarrow> bit m 6"
  using and_exp_eq_0_iff_not_bit [of m 6] by simp

lemma busy_set: "bit ((m OR XBUSY) AND NOT XMOREF) 6"
proof -
  have "(XBUSY :: byte) = 2 ^ 6" "(XMOREF :: byte) = 2 ^ 5" by simp_all
  then show ?thesis by (simp only:) (simp add: bit_simps del: power_numeral)
qed

text \<open>The entities in the table know their number.\<close>

definition tbl_ok :: "xdi \<Rightarrow> bool" where
  "tbl_ok s \<longleftrightarrow> (\<forall>i. e_tbl_e s i \<noteq> 0 \<longrightarrow> eNo (ents s (e_tbl_e s i)) = i)"

definition xq_rep :: "xdi \<Rightarrow> nat list \<Rightarrow> bool" where
  "xq_rep s xs \<longleftrightarrow> tbl_ok s \<and> xreq_rep s xs \<and> (\<forall>i \<in> set xs. busy_no s i)"

text \<open>A request of an entity with an \<open>Id\<close>: whether it is accepted.\<close>

definition xq_put :: "xdi \<Rightarrow> nat \<Rightarrow> bool \<times> xdi" where
  "xq_put s i =
     (let e = e_tbl_e s i
      in if e = 0 \<or> eId (ents s e) mod 32 = 0 then (False, s)
         else case idi_request (\<lambda>s. s) e s of
           None \<Rightarrow> (False, s)
         | Some s' \<Rightarrow> (\<not> busy_no s i, s'))"

definition xq_peek :: "xdi \<Rightarrow> nat option" where
  "xq_peek s = (if look_req s = 0 then None else Some (look_req s))"

lemma req_queue_frame [simp]:
  "ents (req_queue i s) = ents s" "e_tbl_e (req_queue i s) = e_tbl_e s"
  by (simp_all add: req_queue_def Let_def)

lemma next_req_frame [simp]:
  "ents (next_req s) = ents s" "e_tbl_e (next_req s) = e_tbl_e s"
  by (simp_all add: next_req_def Let_def)

lemma request_assigned:
  assumes "e \<noteq> 0" "eId (ents s e) mod 32 \<noteq> 0" "\<not> bit (eMore (ents s e)) 6"
  shows "idi_request trap e s = Some (req_queue (eNo (ents s e))
    (upd_ent e (\<lambda>x. x\<lparr>eMore := (eMore x OR XBUSY) AND NOT XMOREF, eXCurrent := 0, eXOffset := 0\<rparr>) s))"
  using assms and_busy [of "eMore (ents s e)"] by (simp add: idi_request_def)

lemma xq_put_rep:
  assumes r: "xq_rep s xs" and i: "i \<noteq> 0" and p: "xq_put s i = (ok, s')"
  shows "xq_rep s' (if ok then xs @ [i] else xs)"
proof -
  let ?e = "e_tbl_e s i"
  show ?thesis
  proof (cases "?e = 0 \<or> eId (ents s ?e) mod 32 = 0")
    case True
    then show ?thesis using p r by (auto simp: xq_put_def Let_def)
  next
    case False
    then have e: "?e \<noteq> 0" "eId (ents s ?e) mod 32 \<noteq> 0" by simp_all
    show ?thesis
    proof (cases "busy_no s i")
      case True
      then have "idi_request (\<lambda>s. s) ?e s = Some s"
        using e and_busy [of "eMore (ents s ?e)"] by (simp add: idi_request_def busy_no_def)
      then show ?thesis using p r e True by (simp add: xq_put_def Let_def)
    next
      case free: False
      let ?u = "upd_ent ?e (\<lambda>x. x\<lparr>eMore := (eMore x OR XBUSY) AND NOT XMOREF, eXCurrent := 0, eXOffset := 0\<rparr>) s"
      have no: "eNo (ents s ?e) = i" using r e by (simp add: xq_rep_def tbl_ok_def)
      have s': "ok" "s' = req_queue i ?u"
        using p request_assigned [OF e, of "\<lambda>s. s"] free e by (auto simp: xq_put_def Let_def no busy_no_def)
      have "i \<notin> set xs" using r free by (auto simp: xq_rep_def)
      moreover have "xreq_rep ?u xs" using r by (auto simp: xq_rep_def upd_ent_def cong: xreq_rep_cong)
      ultimately have "xreq_rep s' (xs @ [i])" unfolding s' using i by (intro req_queue_rep)
      moreover have "tbl_ok s'"
      proof -
        have "eNo (ents s (e_tbl_e s j)) = j" if "e_tbl_e s j \<noteq> 0" for j
          using r that by (simp add: xq_rep_def tbl_ok_def)
        then have "eNo (ents s' (e_tbl_e s' j)) = j" if "e_tbl_e s' j \<noteq> 0" for j
          using that no e(1) unfolding s' upd_ent_def by (simp split: if_split) metis
        then show ?thesis unfolding tbl_ok_def by blast
      qed
      moreover have "busy_no s' i" using busy_set by (simp add: busy_no_def s' upd_ent_def)
      moreover have "\<forall>j \<in> set xs. busy_no s' j"
        using r busy_set by (auto simp: xq_rep_def busy_no_def s' upd_ent_def)
      ultimately show ?thesis using s'(1) by (simp add: xq_rep_def)
    qed
  qed
qed

interpretation xq: fifo xq_rep xq_put xq_peek next_req "\<lambda>i. i \<noteq> 0"
proof unfold_locales
  show "xq_rep s xs \<Longrightarrow> i \<noteq> 0 \<Longrightarrow> xq_put s i = (ok, s') \<Longrightarrow> xq_rep s' (if ok then xs @ [i] else xs)" for s xs i ok s'
    by (rule xq_put_rep)
  show "xq_rep s xs \<Longrightarrow> xq_peek s = (if xs = [] then None else Some (hd xs))" for s xs
    using xreq_rep_head [of s xs] by (cases xs) (auto simp: xq_rep_def xq_peek_def xreq_rep_def)
  show "xq_rep s xs \<Longrightarrow> xs \<noteq> [] \<Longrightarrow> xq_rep (next_req s) (tl xs)" for s xs
    using next_req_rep [of s xs] by (auto simp: xq_rep_def tbl_ok_def busy_no_def dest: list.set_sel(2))
qed

text \<open>C20: from an empty queue, whatever requests clients send and however the adapter takes them:
  the entities are taken in the order in which their requests were accepted, each accepted
  request once.\<close>

theorem requests_in_order:
  assumes "xq_rep s []" "\<forall>i. Put i \<in> set ops \<longrightarrow> i \<noteq> 0"
  shows "\<exists>n acc t. fifo_run xq_put xq_peek next_req s (ops @ replicate n Get) = (acc, acc, t) \<and> xq_rep t [] \<and>
     acc = fst (fifo_run xq_put xq_peek next_req s ops)"
  using assms by (rule xq.all_delivered)

definition entity0 :: entity where
  "entity0 = \<lparr>eReq = N_DATA, eRc = 0, eInd = 0, eReqCh = 0, eRcCh = 0, eIndCh = 0, eId = 0x21, eXNum = 0, eRNum = 0,
     eX = (\<lambda>_. \<lparr>PLength = 0, bP = 0\<rparr>), eR = (\<lambda>_. \<lparr>PLength = 0, bP = 0\<rparr>), eRLength = 0, eRBuffer = [], eRNR = 0,
     eComplete = 0, eCallback = True, eNo = 1, eMore = 0, eMInd = 0, eXCurrent = 0, eRCurrent = 0xff,
     eXOffset = 0, eROffset = 0\<rparr>"

text \<open>An adapter with one entity.\<close>

definition xdi0 :: xdi where
  "xdi0 = \<lparr>xIdTable = (\<lambda>_. 0)(0x21 := 1), xIdTypeTable = (\<lambda>_. 0)(1 := NL_ID), xFlowControlIdTable = (\<lambda>_. 0),
     xFlowControlSkipTable = (\<lambda>_. False), xReadyInt = 0, xRcExtensionSupported = False, xmisc = (\<lambda>_. 0),
     xrx_stream = (\<lambda>_. 0), xtx_stream = (\<lambda>_. 0), xram_offset = None, xram = (\<lambda>_. 0), xhost = (\<lambda>_. 0),
     xdma = (\<lambda>_. \<lparr>busy = 0, phys_bus_addr = 0, phys_bus_addr_hi = 0, local_ram_addr = 0, addr_handle = 0\<rparr>),
     e_tbl_e = (\<lambda>_. 0)(1 := 100), e_next = (\<lambda>_. 0), e_ref = (\<lambda>_. 0), e_max = 3, e_count = 1, xassign = 0, xhead = 0,
     xtail = 0, xtrapped = False, xtrapFnc = False, ents = (\<lambda>_. entity0), xcalls = []\<rparr>"

lemma xdi0_rep: "xq_rep xdi0 []"
  by (simp add: xq_rep_def tbl_ok_def xreq_rep_def xdi0_def entity0_def)

lemma requests_in_order_witness:
  "\<exists>n acc t. fifo_run xq_put xq_peek next_req xdi0 ([Put 1, Put 1] @ replicate n Get) = (acc, acc, t) \<and> xq_rep t [] \<and>
     acc = fst (fifo_run xq_put xq_peek next_req xdi0 [Put 1, Put 1])"
  by (rule requests_in_order) (use xdi0_rep in auto)

section \<open>The entity table\<close>

lemma free_e_from_first:
  "i \<le> N \<Longrightarrow> (\<And>j. i \<le> j \<Longrightarrow> j < N \<Longrightarrow> e_tbl_e s j \<noteq> 0) \<Longrightarrow> e_tbl_e s N = 0 \<Longrightarrow> free_e_from s i = Some N"
proof (induction rule: inc_induct)
  case base
  then show ?case by (subst free_e_from.simps) simp
next
  case (step i)
  then show ?case by (subst free_e_from.simps) simp
qed

text \<open>The entries \<open>1\<close> to \<open>e_max - 1\<close> of the table are used, entry \<open>0\<close> never is, so \<open>e_max - 1\<close>
  entities fill it; but \<open>request\<close> accepts one more \<open>ASSIGN\<close>, and the entity is written to the entry
  with the number \<open>e_max\<close>, behind the end of the table.\<close>

theorem request_outside_table:
  assumes "\<forall>i. 1 \<le> i \<and> i < e_max s \<longrightarrow> e_tbl_e s i \<noteq> 0" "1 \<le> e_max s" "e_count s = e_max s - 1"
    "e_tbl_e s (e_max s) = 0" "eId (ents s e) mod 32 = 0"
  shows "\<exists>s'. idi_request trap e s = Some s' \<and> e_tbl_e s' (e_max s) = e"
proof -
  have "free_e_from s 1 = Some (e_max s)" using assms by (intro free_e_from_first) simp_all
  moreover have "\<not> e_max s \<le> e_count s" using assms by simp
  ultimately show ?thesis using assms(5) and_busy [of 0] by (simp add: idi_request_def upd_ent_def)
qed

lemma request_outside_table_witness:
  "\<exists>s'. idi_request (\<lambda>s. s) 200 (xdi0\<lparr>e_max := 2, ents := (\<lambda>_. entity0\<lparr>eId := NL_ID\<rparr>)\<rparr>) = Some s' \<and> e_tbl_e s' 2 = 200"
  using request_outside_table [of "xdi0\<lparr>e_max := 2, ents := (\<lambda>_. entity0\<lparr>eId := NL_ID\<rparr>)\<rparr>" 200 "\<lambda>s. s"]
  by (simp add: xdi0_def entity0_def)

section \<open>Pending ASSIGN requests\<close>

text \<open>The newest requests of the list: nothing is known of the list behind them.\<close>

fun pending :: "(nat \<Rightarrow> nat) \<Rightarrow> nat \<Rightarrow> nat list \<Rightarrow> bool" where
  "pending nx p [] \<longleftrightarrow> True"
| "pending nx p (x # xs) \<longleftrightarrow> p = x \<and> x \<noteq> 0 \<and> pending nx (nx x) xs"

lemma pending_cong: "(\<And>x. x \<in> set xs \<Longrightarrow> nx' x = nx x) \<Longrightarrow> pending nx' p xs = pending nx p xs"
  by (induction xs arbitrary: p) auto

lemma assign_queue_pending:
  "pending (e_next s) (xassign s) xs \<Longrightarrow> y \<noteq> 0 \<Longrightarrow> y \<notin> set xs \<Longrightarrow>
   pending (e_next (assign_queue y ref s)) (xassign (assign_queue y ref s)) (y # xs)"
  using pending_cong [of xs "(e_next s)(y := xassign s)" "e_next s" "xassign s", THEN iffD2]
  by (simp add: assign_queue_def) (metis fun_upd_other)

lemma get_assign_from_pending:
  "pending (e_next s) p xs \<Longrightarrow> x \<in> set xs \<Longrightarrow> e_ref s x = ref \<Longrightarrow> inj_on (e_ref s) (set xs) \<Longrightarrow>
   get_assign_from s ref p = Some x"
proof (induction xs arbitrary: p)
  case (Cons y ys)
  show ?case
  proof (cases "x = y")
    case True
    then show ?thesis using Cons.prems by (subst get_assign_from.simps) simp
  next
    case False
    then have "e_ref s y \<noteq> ref" using Cons.prems by (auto simp: inj_on_def)
    moreover have "get_assign_from s ref (e_next s y) = Some x"
      using Cons.prems False by (intro Cons.IH) (auto simp: inj_on_def)
    ultimately show ?thesis using Cons.prems by (subst get_assign_from.simps) simp
  qed
qed simp

text \<open>The return code of an \<open>ASSIGN\<close> finds its entity if all entities assigned after it are still
  waiting for theirs.\<close>

theorem get_assign_pending:
  assumes "pending (e_next s) (xassign s) xs" "x \<in> set xs" "inj_on (e_ref s) (set xs)"
  shows "get_assign s (e_ref s x) = Some x"
  unfolding get_assign_def by (rule get_assign_from_pending) (use assms in simp_all)

lemma get_assign_pending_witness:
  "get_assign (assign_queue 1 7 xdi0) (e_ref (assign_queue 1 7 xdi0) 1) = Some 1"
  by (rule get_assign_pending [of _ "[1]"]) (simp_all add: assign_queue_def xdi0_def)

text \<open>An entity is not taken from the list when its return code arrives, and the queue of
  requests uses the same link: when the later of two entities is answered first and sends its
  first request, the earlier one is no longer found.\<close>

theorem get_assign_lost:
  assumes "a \<noteq> b" "a \<noteq> 0" "b \<noteq> 0" "ra \<noteq> rb"
  shows "get_assign (assign_queue b rb (assign_queue a ra s)) ra = Some a \<and>
     (xhead s = 0 \<longrightarrow> get_assign (req_queue b (assign_queue b rb (assign_queue a ra s))) ra = Some 0)"
proof -
  let ?s = "assign_queue b rb (assign_queue a ra s)"
  have 1: "get_assign ?s ra = Some a"
    using assms unfolding get_assign_def
    by (subst get_assign_from.simps, subst get_assign_from.simps) (simp add: assign_queue_def)
  have 2: "xhead s = 0 \<Longrightarrow> get_assign (req_queue b ?s) ra = Some 0"
    using assms unfolding get_assign_def
    by (subst get_assign_from.simps, subst get_assign_from.simps) (simp add: assign_queue_def req_queue_def Let_def)
  show ?thesis using 1 2 by blast
qed

lemma get_assign_lost_witness:
  "get_assign (assign_queue 2 8 (assign_queue 1 7 xdi0)) 7 = Some 1 \<and>
   get_assign (req_queue 2 (assign_queue 2 8 (assign_queue 1 7 xdi0))) 7 = Some 0"
  using get_assign_lost [of 1 2 7 8 xdi0] by (simp add: xdi0_def)

end
