(* ===== verification/XdiRc.thy ===== *)
theory XdiRc
  imports Xdi
begin

text \<open>
  The return code handler \<open>isdn_rc\<close> of \<open>kernel/di.c\<close>: the answer of the card to a request ends
  the request, a flow control condition or the life of an \<open>Id\<close>, and the client is called back.
\<close>

abbreviation (input) OK :: nat where "OK \<equiv> 0xff"
abbreviation (input) OK_FC :: nat where "OK_FC \<equiv> 0xfc"
abbreviation (input) READY_INT :: nat where "READY_INT \<equiv> 0xfd"
abbreviation (input) ASSIGN_RC :: nat where "ASSIGN_RC \<equiv> 0xe0"
abbreviation (input) ASSIGN_OK :: nat where "ASSIGN_OK \<equiv> 0xef"
abbreviation (input) RC_TYPE_CMA_PTR :: nat where "RC_TYPE_CMA_PTR \<equiv> 0x0a"
abbreviation (input) RC_TYPE_REMOVE_COMPLETE :: nat where "RC_TYPE_REMOVE_COMPLETE \<equiv> 8"
abbreviation (input) RC_TYPE_RX_DMA :: nat where "RC_TYPE_RX_DMA \<equiv> 0x0c"
abbreviation (input) RC_TYPE_OK_FC :: nat where "RC_TYPE_OK_FC \<equiv> 0x0b"

section \<open>Operations\<close>

text \<open>The loop that ends the flow control of all channels of an \<open>Id\<close>.\<close>

definition clear_flow_control :: "nat \<Rightarrow> xdi \<Rightarrow> xdi" where
  "clear_flow_control ID s =
     s\<lparr>xFlowControlIdTable := (\<lambda>i. if i < 256 \<and> xFlowControlIdTable s i = ID then 0 else xFlowControlIdTable s i)\<rparr>"

definition dword_sub :: "nat \<Rightarrow> nat \<Rightarrow> nat" where
  "dword_sub a b = (a + (4294967296 - b mod 4294967296)) mod 4294967296"

text \<open>The return code of a \<open>REMOVE\<close>: the \<open>Id\<close> and the entry of the entity are released and the
  number of outstanding partial return codes is corrected.\<close>

definition remove_complete :: "nat \<Rightarrow> nat \<Rightarrow> nat \<Rightarrow> xdi \<Rightarrow> xdi" where
  "remove_complete e_no e ID s =
     (let s1 = s\<lparr>xmisc := (xmisc s)(e_no := (xmisc s e_no AND NOT REMOVE_PENDING) AND NOT NO_RC_CANCELLING)\<rparr>;
          s2 = clear_flow_control ID (free_entity e_no s1);
          s3 = s2\<lparr>xIdTable := (xIdTable s2)(ID := 0)\<rparr>
      in upd_ent e (\<lambda>x. x\<lparr>eId := 0,
           eMore := (if unat (eMore x AND XMOREC) > 1 then (eMore x AND NOT XMOREC) OR 1 else eMore x)\<rparr>) s3)"

definition set_rnr :: "nat \<Rightarrow> nat \<Rightarrow> xdi \<Rightarrow> xdi" where
  "set_rnr e r s = upd_ent e (\<lambda>x. x\<lparr>eRNR := r\<rparr>) s"

text \<open>What follows the handling of a \<open>REMOVE\<close>; \<open>rc\<close> tells whether it completed one.\<close>

definition rc_deliver ::
  "(nat \<Rightarrow> xdi \<Rightarrow> xdi) \<Rightarrow> nat \<Rightarrow> nat \<Rightarrow> nat \<Rightarrow> nat \<Rightarrow> nat \<Rightarrow> nat \<Rightarrow> nat \<Rightarrow> bool \<Rightarrow> xdi \<Rightarrow> xdi" where
  "rc_deliver cb Rc ID Ch xt e_no e RNR rm s =
     (if Rc = OK_FC then
        let s1 = s\<lparr>xFlowControlIdTable := (xFlowControlIdTable s)(Ch := ID),
                   xFlowControlSkipTable := (xFlowControlSkipTable s)(Ch := False)\<rparr>
        in set_rnr e RNR (CALLBACK cb e (upd_ent e
             (\<lambda>x. x\<lparr>eRc := Rc, eMore := eMore x AND NOT (XBUSY OR XMOREC), eComplete := 0xff\<rparr>) s1))
      else if xt = RC_TYPE_OK_FC then
        let s1 = s\<lparr>xmisc := (xmisc s)(e_no := xmisc s e_no OR NO_RC_CANCELLING)\<rparr>;
            s2 = CALLBACK cb e (upd_ent e (\<lambda>x. x\<lparr>eRNR := RC_TYPE_OK_FC, eRc := Rc, eComplete := 0xff\<rparr>) s1)
        in if rm then s2 else set_rnr e RNR s2
      else
        let cancel_rc = (xmisc s e_no AND NO_RC_CANCELLING = 0)
        in if cancel_rc \<and> xFlowControlIdTable s Ch = ID then
             let s1 = s\<lparr>xFlowControlIdTable := (xFlowControlIdTable s)(Ch := 0)\<rparr>;
                 s2 = (if Rc \<noteq> OK \<or> \<not> xFlowControlSkipTable s1 Ch then
                         CALLBACK cb e (upd_ent e (\<lambda>x.
                           if Ch = eReqCh x
                           then x\<lparr>eRc := Rc, eMore := eMore x AND NOT (XBUSY OR XMOREC), eComplete := 0xff\<rparr>
                           else x\<lparr>eRc := Rc\<rparr>) s1)
                       else s1)
             in if rm then s2 else set_rnr e RNR s2
           else
             let s1 = (if eMore (ents s e) AND XMOREC \<noteq> 0 then upd_ent e (\<lambda>x. x\<lparr>eMore := eMore x - 1\<rparr>) s else s);
                 m = eMore (ents s1 e);
                 s2 = (if (\<not> cancel_rc \<or> m AND XMOREF \<noteq> 0) \<and> m AND (XMOREC OR XMOREP) = 0 then
                         CALLBACK cb e (upd_ent e (\<lambda>x. x\<lparr>eRc := Rc, eMore := eMore x AND NOT XBUSY, eComplete := 0xff\<rparr>) s1)
                       else s1)
             in if rm then s2 else set_rnr e RNR s2)"

text \<open>The return code for a known \<open>Id\<close>.\<close>

definition rc_known ::
  "(nat \<Rightarrow> xdi \<Rightarrow> xdi) \<Rightarrow> nat \<Rightarrow> nat \<Rightarrow> nat \<Rightarrow> nat \<Rightarrow> nat \<Rightarrow> xdi \<Rightarrow> xdi" where
  "rc_known cb Rc ID Ch xt e_no s =
     (let e = entity_ptr s e_no; RNR = eRNR (ents s e);
          s1 = upd_ent e (\<lambda>x. x\<lparr>eRNR := 0, eRcCh := Ch\<rparr>) s
      in if xmisc s1 e_no AND REMOVE_PENDING \<noteq> 0 \<and> Rc = OK then
           if xIdTypeTable s1 e_no = NL_ID \<and> xRcExtensionSupported s1 \<and> xt \<noteq> RC_TYPE_REMOVE_COMPLETE
           then set_rnr e RNR s1
           else
             let s2 = (if xIdTypeTable s1 e_no = NL_ID \<and> xt = RC_TYPE_REMOVE_COMPLETE
                       then s1\<lparr>xRcExtensionSupported := True\<rparr> else s1)
             in rc_deliver cb Rc ID Ch xt e_no e RNR True (remove_complete e_no e ID s2)
         else rc_deliver cb Rc ID Ch xt e_no e RNR False s1)"

text \<open>The streams of a new \<open>Id\<close>.\<close>

definition assign_streams :: "nat \<Rightarrow> nat \<Rightarrow> nat \<Rightarrow> nat \<Rightarrow> nat \<Rightarrow> xdi \<Rightarrow> xdi" where
  "assign_streams Rc ID xt xi e s =
     (let no = eNo (ents s e); ty = xIdTypeTable s no
      in case (xram_offset s, Rc = ASSIGN_OK) of
           (Some off, True) \<Rightarrow>
             if ty = NL_ID \<and> (xt = RC_TYPE_RX_DMA \<or> xt = RC_TYPE_CMA_PTR) \<and> xi \<noteq> 0 then
               let p = dword_sub xi off; tx = ram_in_dw s p; rx = ram_in_dw s (p + 4)
               in if xt = RC_TYPE_RX_DMA
                  then s\<lparr>xtx_stream := (xtx_stream s)(ID := dword_sub tx off), xrx_stream := (xrx_stream s)(ID := rx),
                         xmisc := (xmisc s)(no := xmisc s no OR RX_DMA)\<rparr>
                  else s\<lparr>xtx_stream := (xtx_stream s)(ID := dword_sub tx off),
                         xrx_stream := (xrx_stream s)(ID := dword_sub rx off),
                         xmisc := (xmisc s)(no := xmisc s no AND NOT RX_DMA)\<rparr>
             else if ty = MAN_ID \<and> xt = RC_TYPE_RX_DMA then
               s\<lparr>xtx_stream := (xtx_stream s)(ID := 0), xrx_stream := (xrx_stream s)(ID := xi),
                 xmisc := (xmisc s)(no := xmisc s no OR RX_DMA)\<rparr>
             else s\<lparr>xtx_stream := (xtx_stream s)(ID := 0), xrx_stream := (xrx_stream s)(ID := 0),
                    xmisc := (xmisc s)(no := xmisc s no AND NOT RX_DMA)\<rparr>
         | _ \<Rightarrow> s\<lparr>xtx_stream := (xtx_stream s)(ID := 0), xrx_stream := (xrx_stream s)(ID := 0),
                  xmisc := (xmisc s)(no := xmisc s no AND NOT RX_DMA)\<rparr>)"

text \<open>The return code of an \<open>ASSIGN\<close>.\<close>

definition rc_assign ::
  "(nat \<Rightarrow> xdi \<Rightarrow> xdi) \<Rightarrow> nat \<Rightarrow> nat \<Rightarrow> nat \<Rightarrow> nat \<Rightarrow> nat \<Rightarrow> xdi \<Rightarrow> xdi" where
  "rc_assign cb Rc ID xt xi e_no s =
     (let e = entity_ptr s e_no;
          s1 = upd_ent e (\<lambda>x. x\<lparr>eId := ID, eRc := Rc, eMore := eMore x AND NOT XBUSY, eComplete := 0xff\<rparr>) s;
          s2 = CALLBACK cb e (assign_streams Rc ID xt xi e s1)
      in if Rc = ASSIGN_OK then s2\<lparr>xIdTable := (xIdTable s2)(ID := e_no)\<rparr>
         else let s3 = clear_flow_control ID (free_entity e_no s2)
              in s3\<lparr>xIdTable := (xIdTable s3)(ID := 0)\<rparr>)"

definition isdn_rc ::
  "(nat \<Rightarrow> xdi \<Rightarrow> xdi) \<Rightarrow> nat \<Rightarrow> nat \<Rightarrow> nat \<Rightarrow> nat \<Rightarrow> nat \<Rightarrow> nat \<Rightarrow> xdi \<Rightarrow> (nat \<times> xdi) option" where
  "isdn_rc cb Rc ID Ch Ref xt xi s =
     (if Rc = READY_INT then
        Some (if xReadyInt s \<noteq> 0 then (0, s\<lparr>xReadyInt := xReadyInt s - 1\<rparr>) else (2, s))
      else if xIdTable s ID \<noteq> 0 then Some (0, rc_known cb Rc ID Ch xt (xIdTable s ID) s)
      else if Rc div 16 * 16 = ASSIGN_RC then
        map_option (\<lambda>e_no. if e_no \<noteq> 0 then (1, rc_assign cb Rc ID xt xi e_no s) else (2, s)) (get_assign s Ref)
      else Some (2, s))"

section \<open>Ids and entities\<close>

text \<open>Every known \<open>Id\<close> leads to an entity that has this \<open>Id\<close>.\<close>

definition xid_ok :: "xdi \<Rightarrow> bool" where
  "xid_ok s \<longleftrightarrow> (\<forall>i. xIdTable s i \<noteq> 0 \<longrightarrow>
     e_tbl_e s (xIdTable s i) \<noteq> 0 \<and> eId (ents s (e_tbl_e s (xIdTable s i))) = i)"

lemma xid_okD:
  "xid_ok s \<Longrightarrow> xIdTable s i \<noteq> 0 \<Longrightarrow> e_tbl_e s (xIdTable s i) \<noteq> 0"
  "xid_ok s \<Longrightarrow> xIdTable s i \<noteq> 0 \<Longrightarrow> eId (ents s (e_tbl_e s (xIdTable s i))) = i"
  by (simp_all add: xid_ok_def)

lemma upd_ent_frame [simp]:
  "xIdTable (upd_ent e f s) = xIdTable s" "e_tbl_e (upd_ent e f s) = e_tbl_e s"
  "xIdTypeTable (upd_ent e f s) = xIdTypeTable s" "xmisc (upd_ent e f s) = xmisc s"
  "xFlowControlIdTable (upd_ent e f s) = xFlowControlIdTable s" "xcalls (upd_ent e f s) = xcalls s"
  "xFlowControlSkipTable (upd_ent e f s) = xFlowControlSkipTable s"
  "xRcExtensionSupported (upd_ent e f s) = xRcExtensionSupported s"
  by (simp_all add: upd_ent_def)

lemma ents_upd_ent: "ents (upd_ent e f s) x = (if x = e then f (ents s e) else ents s x)"
  by (simp add: upd_ent_def)

text \<open>Two states with the same tables and the same \<open>Id\<close> of every entity.\<close>

definition same_ids :: "xdi \<Rightarrow> xdi \<Rightarrow> bool" where
  "same_ids s s' \<longleftrightarrow> xIdTable s' = xIdTable s \<and> e_tbl_e s' = e_tbl_e s \<and> (\<forall>e. eId (ents s' e) = eId (ents s e))"

lemma same_ids_ok: "same_ids s s' \<Longrightarrow> xid_ok s' = xid_ok s"
  by (simp add: same_ids_def xid_ok_def)

lemma same_ids_upd: "(\<And>x. eId (f x) = eId x) \<Longrightarrow> same_ids s (upd_ent e f s)"
  by (simp add: same_ids_def ents_upd_ent)

lemma xid_ok_upd: "(\<And>x. eId (f x) = eId x) \<Longrightarrow> xid_ok (upd_ent e f s) = xid_ok s"
  by (rule same_ids_ok [OF same_ids_upd])

lemma xid_ok_set_rnr [simp]: "xid_ok (set_rnr e r s) = xid_ok s"
  unfolding set_rnr_def by (rule xid_ok_upd) simp

lemma xid_ok_tables [simp]:
  "xid_ok (s\<lparr>xFlowControlIdTable := f\<rparr>) = xid_ok s" "xid_ok (s\<lparr>xFlowControlSkipTable := g\<rparr>) = xid_ok s"
  "xid_ok (s\<lparr>xFlowControlIdTable := f, xFlowControlSkipTable := g\<rparr>) = xid_ok s"
  "xid_ok (s\<lparr>xmisc := h\<rparr>) = xid_ok s" "xid_ok (s\<lparr>xRcExtensionSupported := b\<rparr>) = xid_ok s"
  "xid_ok (s\<lparr>xReadyInt := n\<rparr>) = xid_ok s" "xid_ok (s\<lparr>xcalls := c\<rparr>) = xid_ok s"
  by (simp_all add: xid_ok_def)

lemma assign_streams_frame [simp]:
  "xIdTable (assign_streams Rc ID xt xi e s) = xIdTable s" "e_tbl_e (assign_streams Rc ID xt xi e s) = e_tbl_e s"
  "ents (assign_streams Rc ID xt xi e s) = ents s" "xcalls (assign_streams Rc ID xt xi e s) = xcalls s"
  by (simp_all add: assign_streams_def Let_def split: option.split bool.split)

lemma remove_complete_ids:
  assumes "xid_ok s" "xIdTable s ID = e_no" "e_no \<noteq> 0" "e = e_tbl_e s e_no"
  shows "xid_ok (remove_complete e_no e ID s)"
proof -
  let ?s = "remove_complete e_no e ID s"
  have I: "xIdTable ?s = (xIdTable s)(ID := 0)" "e_tbl_e ?s = (e_tbl_e s)(e_no := 0)"
    by (simp_all add: remove_complete_def clear_flow_control_def free_entity_def Let_def)
  have E: "x \<noteq> e \<Longrightarrow> ents ?s x = ents s x" for x
    by (simp add: remove_complete_def clear_flow_control_def free_entity_def Let_def ents_upd_ent)
  have "e_tbl_e ?s (xIdTable ?s i) \<noteq> 0 \<and> eId (ents ?s (e_tbl_e ?s (xIdTable ?s i))) = i" if "xIdTable ?s i \<noteq> 0" for i
  proof -
    have i: "i \<noteq> ID" "xIdTable s i \<noteq> 0" using that by (auto simp: I split: if_splits)
    note o = xid_okD [OF assms(1) i(2)]
    have ID: "eId (ents s e) = ID" using xid_okD(2) [OF assms(1), of ID] assms by simp
    then have ne: "e_tbl_e s (xIdTable s i) \<noteq> e" using o(2) i(1) by auto
    then have "xIdTable s i \<noteq> e_no" using assms(4) by auto
    then show ?thesis using o i ne by (simp add: I E)
  qed
  then show ?thesis by (simp only: xid_ok_def simp_thms) blast
qed

text \<open>What the driver relies on: a client may do in its callback whatever keeps the tables
  consistent and does not touch the entries and \<open>Id\<close>s of entities that are in the table.\<close>

locale xdi_client =
  fixes cb :: "nat \<Rightarrow> xdi \<Rightarrow> xdi"
  assumes client_ids: "xid_ok s \<Longrightarrow> xid_ok (cb e s)"
    and client_keeps: "e_tbl_e s i \<noteq> 0 \<Longrightarrow>
      e_tbl_e (cb e s) i = e_tbl_e s i \<and> eId (ents (cb e s) (e_tbl_e s i)) = eId (ents s (e_tbl_e s i))"
begin

lemma callback_ids: "xid_ok s \<Longrightarrow> xid_ok (CALLBACK cb e s)"
  by (simp add: CALLBACK_def client_ids)

lemma callback_keeps:
  "e_tbl_e s i \<noteq> 0 \<Longrightarrow> e_tbl_e (CALLBACK cb e s) i = e_tbl_e s i \<and>
     eId (ents (CALLBACK cb e s) (e_tbl_e s i)) = eId (ents s (e_tbl_e s i))"
  using client_keeps [of "s\<lparr>xcalls := xcalls s @ [(e, ents s e)]\<rparr>" i e] by (simp add: CALLBACK_def)

lemma deliver_ids: "xid_ok s \<Longrightarrow> xid_ok (rc_deliver cb Rc ID Ch xt e_no e RNR rm s)"
  by (simp add: rc_deliver_def Let_def callback_ids xid_ok_upd)

lemma known_ids:
  assumes "xid_ok s" "xIdTable s ID = e_no" "e_no \<noteq> 0"
  shows "xid_ok (rc_known cb Rc ID Ch xt e_no s)"
proof -
  let ?e = "entity_ptr s e_no"
  let ?s1 = "upd_ent ?e (\<lambda>x. x\<lparr>eRNR := 0, eRcCh := Ch\<rparr>) s"
  let ?s2 = "if xIdTypeTable ?s1 e_no = NL_ID \<and> xt = RC_TYPE_REMOVE_COMPLETE then ?s1\<lparr>xRcExtensionSupported := True\<rparr> else ?s1"
  have 1: "xid_ok ?s1" using assms by (simp add: xid_ok_upd)
  have "xid_ok ?s2" using 1 by simp
  then have "xid_ok (remove_complete e_no ?e ID ?s2)"
    by (rule remove_complete_ids) (use assms in \<open>simp_all add: entity_ptr_def\<close>)
  then show ?thesis using 1 unfolding rc_known_def Let_def by (simp only: deliver_ids xid_ok_set_rnr split: if_split) blast
qed

lemma assign_ids:
  assumes "xid_ok s" "e_no \<noteq> 0" "e_tbl_e s e_no \<noteq> 0"
    "\<forall>i. xIdTable s i \<noteq> 0 \<longrightarrow> e_tbl_e s (xIdTable s i) \<noteq> e_tbl_e s e_no"
  shows "xid_ok (rc_assign cb Rc ID xt xi e_no s)"
proof -
  let ?e = "entity_ptr s e_no"
  let ?s1 = "upd_ent ?e (\<lambda>x. x\<lparr>eId := ID, eRc := Rc, eMore := eMore x AND NOT XBUSY, eComplete := 0xff\<rparr>) s"
  let ?s2 = "assign_streams Rc ID xt xi ?e ?s1"
  let ?s3 = "CALLBACK cb ?e ?s2"
  have "xid_ok ?s2"
    using assms(1,4) by (simp add: xid_ok_def ents_upd_ent entity_ptr_def)
  then have ok: "xid_ok ?s3" by (rule callback_ids)
  have k: "e_tbl_e ?s3 e_no = ?e" "eId (ents ?s3 ?e) = ID" "?e \<noteq> 0"
    using callback_keeps [of ?s2 e_no ?e] assms(3) by (simp_all add: entity_ptr_def ents_upd_ent)
  have no: "xIdTable ?s3 i \<noteq> e_no" if "i \<noteq> ID" for i
    using xid_okD(2) [OF ok, of i] k that assms(2) by auto
  have A: "xid_ok (?s3\<lparr>xIdTable := (xIdTable ?s3)(ID := e_no)\<rparr>)"
    using ok k by (simp add: xid_ok_def)
  have B: "xid_ok ((clear_flow_control ID (free_entity e_no ?s3))\<lparr>xIdTable := (xIdTable ?s3)(ID := 0)\<rparr>)"
    using ok no by (simp add: xid_ok_def clear_flow_control_def free_entity_def)
  have C: "xIdTable (clear_flow_control ID (free_entity e_no ?s3)) = xIdTable ?s3"
    by (simp add: clear_flow_control_def free_entity_def)
  show ?thesis
  proof (cases "Rc = ASSIGN_OK")
    case True
    show ?thesis unfolding rc_assign_def Let_def if_P [OF True] by (rule A)
  next
    case False
    show ?thesis unfolding rc_assign_def Let_def if_not_P [OF False] C by (rule B)
  qed
qed

end

text \<open>A client that answers each callback with its next request.\<close>

definition next_request :: "nat \<Rightarrow> xdi \<Rightarrow> xdi" where
  "next_request e s = (case idi_request (\<lambda>s. s) e s of None \<Rightarrow> s | Some s' \<Rightarrow> s')"

lemma req_queue_tables [simp]: "xIdTable (req_queue i s) = xIdTable s"
  by (simp add: req_queue_def Let_def)

lemma free_e_from_free: "free_e_from s i = Some j \<Longrightarrow> e_tbl_e s j = 0"
  by (rule free_e_from.raw_induct [of "\<lambda>s i j. e_tbl_e s j = 0"]) (auto split: if_splits)

lemma request_ids:
  assumes "idi_request (\<lambda>s. s) e s = Some s'"
  shows "xIdTable s' = xIdTable s \<and> (\<forall>i. e_tbl_e s i \<noteq> 0 \<longrightarrow> e_tbl_e s' i = e_tbl_e s i) \<and>
    (\<forall>x. eId (ents s' x) = eId (ents s x))"
  using assms free_e_from_free [of s 1]
  by (auto simp: idi_request_def ents_upd_ent split: if_splits)

interpretation nr: xdi_client next_request
proof unfold_locales
  fix s e i
  show "xid_ok s \<Longrightarrow> xid_ok (next_request e s)"
  proof (cases "idi_request (\<lambda>s. s) e s")
    case (Some s')
    assume ok: "xid_ok s"
    have "xIdTable s' i \<noteq> 0 \<Longrightarrow> e_tbl_e s' (xIdTable s' i) \<noteq> 0 \<and> eId (ents s' (e_tbl_e s' (xIdTable s' i))) = i" for i
      using xid_okD [OF ok, of i] request_ids [OF Some] by simp
    then show ?thesis using Some by (simp add: next_request_def xid_ok_def)
  qed (simp add: next_request_def)
  show "e_tbl_e s i \<noteq> 0 \<Longrightarrow> e_tbl_e (next_request e s) i = e_tbl_e s i \<and>
      eId (ents (next_request e s) (e_tbl_e s i)) = eId (ents s (e_tbl_e s i))"
    by (cases "idi_request (\<lambda>s. s) e s") (simp_all add: next_request_def request_ids)
qed

text \<open>C13: the return code handler keeps the table of \<open>Id\<close>s in agreement with the entities, for every
  client that keeps the interface, if the pending \<open>ASSIGN\<close> it finds belongs to an entity that has
  no \<open>Id\<close> yet.\<close>

theorem isdn_rc_keeps_ids:
  assumes "xdi_client cb" "xid_ok s" "isdn_rc cb Rc ID Ch Ref xt xi s = Some (r, s')"
    "\<forall>a. get_assign s Ref = Some a \<and> a \<noteq> 0 \<longrightarrow>
       e_tbl_e s a \<noteq> 0 \<and> (\<forall>i. xIdTable s i \<noteq> 0 \<longrightarrow> e_tbl_e s (xIdTable s i) \<noteq> e_tbl_e s a)"
  shows "xid_ok s'"
proof -
  note k = xdi_client.known_ids [OF assms(1,2)] and a = xdi_client.assign_ids [OF assms(1,2)]
  consider "Rc = READY_INT" | "Rc \<noteq> READY_INT" "xIdTable s ID \<noteq> 0"
    | "Rc \<noteq> READY_INT" "xIdTable s ID = 0" by blast
  then show ?thesis
  proof cases
    case 1
    then show ?thesis using assms(2,3) by (auto simp: isdn_rc_def split: if_splits)
  next
    case 2
    then have "s' = rc_known cb Rc ID Ch xt (xIdTable s ID) s" using assms(3) by (simp add: isdn_rc_def)
    then show ?thesis using k [of ID "xIdTable s ID"] 2(2) by simp
  next
    case 3
    then have "s' = s \<or> (\<exists>n. get_assign s Ref = Some n \<and> n \<noteq> 0 \<and> s' = rc_assign cb Rc ID xt xi n s)"
      using assms(3) by (auto simp: isdn_rc_def split: if_splits)
    then show ?thesis using assms(2,4) a by blast
  qed
qed

lemma isdn_rc_keeps_ids_witness:
  "\<exists>r s'. isdn_rc next_request OK 0x21 0 0 0 0 xdi0 = Some (r, s') \<and> xid_ok s'"
proof -
  obtain r s' where r: "isdn_rc next_request OK 0x21 0 0 0 0 xdi0 = Some (r, s')"
    by (simp add: isdn_rc_def xdi0_def)
  have "xid_ok xdi0" by (simp add: xid_ok_def xdi0_def entity0_def)
  moreover have "get_assign xdi0 0 = Some 0"
    unfolding get_assign_def by (subst get_assign_from.simps) (simp add: xdi0_def)
  ultimately have "xid_ok s'" by (intro isdn_rc_keeps_ids [OF nr.xdi_client_axioms _ r]) auto
  then show ?thesis using r by blast
qed

section \<open>Answered requests\<close>

text \<open>The flags of an entity: the lower four bits count the outstanding return codes.\<close>

lemma xmorec_mod: "unat (m AND XMOREC :: byte) = unat m mod 16"
proof -
  have "m AND XMOREC = take_bit 4 m" by (simp add: take_bit_eq_mask mask_eq_exp_minus_1)
  moreover have "unat (take_bit 4 m) = take_bit 4 (unat m)" by (rule bit_eqI) (auto simp: bit_simps)
  ultimately show ?thesis by (simp add: take_bit_eq_mod)
qed

lemma byte_bit_high: "bit (m :: byte) (4 + k) \<longleftrightarrow> bit (unat m div 16) k"
proof -
  have "bit m (4 + k) \<longleftrightarrow> bit (drop_bit 4 (unat m)) k" by (auto simp: bit_simps dest: bit_imp_le_length)
  then show ?thesis by (simp add: drop_bit_eq_div)
qed

lemma xmorec_dec:
  assumes "m AND XMOREC \<noteq> (0 :: byte)"
  shows "unat ((m - 1) AND XMOREC) = unat (m AND XMOREC) - 1" "bit (m - 1) (4 + k) = bit m (4 + k)"
proof -
  have "unat (m AND XMOREC) \<noteq> 0" using assms by (simp add: unat_eq_0)
  then have c: "unat m mod 16 \<noteq> 0" by (simp add: xmorec_mod)
  then have "m \<noteq> 0" by auto
  then have u: "unat (m - 1) = unat m - 1" by (simp add: unat_minus_one)
  obtain q r where qr: "unat m = 16 * q + Suc r" "r < 15"
  proof
    show "unat m = 16 * (unat m div 16) + Suc (unat m mod 16 - 1)" using c by simp
    show "unat m mod 16 - 1 < 15" using mod_less_divisor [of 16 "unat m"] by linarith
  qed
  have "(unat m - 1) mod 16 = unat m mod 16 - 1" "(unat m - 1) div 16 = unat m div 16"
    unfolding qr(1) using qr(2) by simp_all
  then show "unat ((m - 1) AND XMOREC) = unat (m AND XMOREC) - 1" "bit (m - 1) (4 + k) = bit m (4 + k)"
    by (simp_all only: xmorec_mod byte_bit_high u)
qed

lemma xmorep_bit: "(m :: byte) AND XMOREP = 0 \<longleftrightarrow> \<not> bit m 4" "(m :: byte) AND XMOREF = 0 \<longleftrightarrow> \<not> bit m 5"
  using and_exp_eq_0_iff_not_bit [of m 4] and_exp_eq_0_iff_not_bit [of m 5] by simp_all

lemma xmorec_xmorep: "(m :: byte) AND (XMOREC OR XMOREP) = 0 \<longleftrightarrow> m AND XMOREC = 0 \<and> \<not> bit m 4"
proof -
  have "m AND (XMOREC OR XMOREP) = (m AND XMOREC) OR (m AND XMOREP)" by (rule bit.conj_disj_distrib)
  then show ?thesis using xmorep_bit(1) [of m] by (metis or_eq_0_iff)
qed

text \<open>An ordinary answer: not flow control, no \<open>REMOVE\<close>.\<close>

definition plain_answer :: "xdi \<Rightarrow> nat \<Rightarrow> nat \<Rightarrow> nat \<Rightarrow> nat \<Rightarrow> bool" where
  "plain_answer s Rc ID Ch xt \<longleftrightarrow> Rc \<noteq> READY_INT \<and> Rc \<noteq> OK_FC \<and> xt \<noteq> RC_TYPE_OK_FC \<and> xIdTable s ID \<noteq> 0 \<and>
     (xmisc s (xIdTable s ID) AND REMOVE_PENDING = 0 \<or> Rc \<noteq> OK) \<and>
     xmisc s (xIdTable s ID) AND NO_RC_CANCELLING = 0 \<and> xFlowControlIdTable s Ch \<noteq> ID"

text \<open>The entity after the return code was counted.\<close>

definition answered :: "entity \<Rightarrow> nat \<Rightarrow> entity" where
  "answered x Ch = x\<lparr>eRNR := 0, eRcCh := Ch, eMore := (if eMore x AND XMOREC \<noteq> 0 then eMore x - 1 else eMore x)\<rparr>"

lemma plain_answer_rc:
  assumes "plain_answer s Rc ID Ch xt"
  defines "e \<equiv> e_tbl_e s (xIdTable s ID)"
  shows "isdn_rc cb Rc ID Ch Ref xt xi s = Some (0, set_rnr e (eRNR (ents s e))
     (let s1 = upd_ent e (\<lambda>x. answered x Ch) s; m = eMore (answered (ents s e) Ch)
      in if m AND XMOREF \<noteq> 0 \<and> m AND (XMOREC OR XMOREP) = 0
         then CALLBACK cb e (upd_ent e (\<lambda>x. x\<lparr>eRc := Rc, eMore := eMore x AND NOT XBUSY, eComplete := 0xff\<rparr>) s1)
         else s1))"
proof -
  let ?n = "xIdTable s ID"
  let ?s0 = "upd_ent e (\<lambda>x. x\<lparr>eRNR := 0, eRcCh := Ch\<rparr>) s"
  have a: "(if eMore (ents ?s0 e) AND XMOREC \<noteq> 0 then upd_ent e (\<lambda>x. x\<lparr>eMore := eMore x - 1\<rparr>) ?s0 else ?s0) =
      upd_ent e (\<lambda>x. answered x Ch) s"
    by (simp add: upd_ent_def answered_def)
  have m: "eMore (ents (upd_ent e (\<lambda>x. answered x Ch) s) e) = eMore (answered (ents s e) Ch)" by (simp add: ents_upd_ent)
  have i: "isdn_rc cb Rc ID Ch Ref xt xi s = Some (0, rc_known cb Rc ID Ch xt ?n s)"
    using assms(1) by (simp add: plain_answer_def isdn_rc_def)
  have k: "rc_known cb Rc ID Ch xt ?n s = rc_deliver cb Rc ID Ch xt ?n e (eRNR (ents s e)) False ?s0"
    using assms(1) by (auto simp: plain_answer_def rc_known_def Let_def entity_ptr_def e_def)
  have d: "rc_deliver cb Rc ID Ch xt ?n e (eRNR (ents s e)) False ?s0 = set_rnr e (eRNR (ents s e))
     (let s1 = (if eMore (ents ?s0 e) AND XMOREC \<noteq> 0 then upd_ent e (\<lambda>x. x\<lparr>eMore := eMore x - 1\<rparr>) ?s0 else ?s0);
          m = eMore (ents s1 e)
      in if m AND XMOREF \<noteq> 0 \<and> m AND (XMOREC OR XMOREP) = 0
         then CALLBACK cb e (upd_ent e (\<lambda>x. x\<lparr>eRc := Rc, eMore := eMore x AND NOT XBUSY, eComplete := 0xff\<rparr>) s1)
         else s1)"
    using assms(1) by (simp add: plain_answer_def rc_deliver_def Let_def)
  show ?thesis unfolding i k d a Let_def m ..
qed

text \<open>C1: the last outstanding answer to a completely sent request calls the client back once, with
  the return code and the entity free for its next request; every earlier answer, and an answer
  while a part of the request still waits to be sent, only counts.\<close>

theorem answers_complete_request:
  assumes "plain_answer s Rc ID Ch xt" "e = e_tbl_e s (xIdTable s ID)" "e \<noteq> 0" "eCallback (ents s e)"
    "m = eMore (ents s e)" "bit m 5"
  shows "if unat (m AND XMOREC) \<le> 1 \<and> \<not> bit m 4
     then \<exists>s1 x. isdn_rc cb Rc ID Ch Ref xt xi s = Some (0, set_rnr e (eRNR (ents s e)) (cb e s1)) \<and>
       xcalls s1 = xcalls s @ [(e, x)] \<and> ents s1 e = x \<and> eRc x = Rc \<and> eRcCh x = Ch \<and> \<not> bit (eMore x) 6
     else \<exists>s'. isdn_rc cb Rc ID Ch Ref xt xi s = Some (0, s') \<and> xcalls s' = xcalls s \<and>
       unat (eMore (ents s' e) AND XMOREC) = unat (m AND XMOREC) - 1 \<and> bit (eMore (ents s' e)) 6 = bit m 6"
proof -
  let ?a = "answered (ents s e) Ch"
  have c: "unat (eMore ?a AND XMOREC) = unat (m AND XMOREC) - 1"
    using xmorec_dec(1) [of m] assms(5) by (simp add: answered_def)
  have b: "bit (eMore ?a) (4 + k) = bit m (4 + k)" for k
    using xmorec_dec(2) [of m k] assms(5) by (simp add: answered_def)
  have b4: "bit (eMore ?a) 4 = bit m 4" "bit (eMore ?a) 5 = bit m 5" "bit (eMore ?a) 6 = bit m 6"
    using b [of 0] b [of 1] b [of 2] by simp_all
  have f: "eMore ?a AND XMOREF \<noteq> 0" using xmorep_bit(2) [of "eMore ?a"] b4 assms(6) by blast
  have z: "eMore ?a AND XMOREC = 0 \<longleftrightarrow> unat (m AND XMOREC) \<le> 1" using c unat_eq_0 [of "eMore ?a AND XMOREC"] by linarith
  have g: "eMore ?a AND XMOREF \<noteq> 0 \<and> eMore ?a AND (XMOREC OR XMOREP) = 0 \<longleftrightarrow> unat (m AND XMOREC) \<le> 1 \<and> \<not> bit m 4"
    using f z b4 xmorec_xmorep [of "eMore ?a"] by blast
  note rc = plain_answer_rc [OF assms(1), folded assms(2), unfolded Let_def, of cb Ref xi, unfolded g]
  show ?thesis
  proof (cases "unat (m AND XMOREC) \<le> 1 \<and> \<not> bit m 4")
    case True
    let ?f = "\<lambda>x. x\<lparr>eRc := Rc, eMore := eMore x AND NOT XBUSY, eComplete := 0xff\<rparr>"
    let ?s2 = "upd_ent e ?f (upd_ent e (\<lambda>x. answered x Ch) s)"
    let ?s1 = "?s2\<lparr>xcalls := xcalls ?s2 @ [(e, ents ?s2 e)]\<rparr>"
    have n: "\<not> bit (eMore ?a AND NOT XBUSY) 6"
      using and_busy [of "NOT XBUSY"] by (simp add: bit_and_iff)
    have x: "ents ?s2 e = ?f ?a" by (simp add: ents_upd_ent)
    have "CALLBACK cb e ?s2 = cb e ?s1" using assms(3,4) by (simp add: CALLBACK_def ents_upd_ent answered_def)
    then have "isdn_rc cb Rc ID Ch Ref xt xi s = Some (0, set_rnr e (eRNR (ents s e)) (cb e ?s1))"
      unfolding rc if_P [OF True] by simp
    moreover have "xcalls ?s1 = xcalls s @ [(e, ents ?s2 e)]" "ents ?s1 e = ents ?s2 e" by simp_all
    moreover have "eRc (ents ?s2 e) = Rc" "eRcCh (ents ?s2 e) = Ch" "\<not> bit (eMore (ents ?s2 e)) 6"
      unfolding x using n by (simp_all add: answered_def)
    ultimately show ?thesis unfolding if_P [OF True] by blast
  next
    case False
    let ?s' = "set_rnr e (eRNR (ents s e)) (upd_ent e (\<lambda>x. answered x Ch) s)"
    have "isdn_rc cb Rc ID Ch Ref xt xi s = Some (0, ?s')" unfolding rc if_not_P [OF False] ..
    moreover have "xcalls ?s' = xcalls s" "eMore (ents ?s' e) = eMore ?a"
      by (simp_all add: set_rnr_def ents_upd_ent)
    ultimately show ?thesis unfolding if_not_P [OF False] using c b4(3) by auto
  qed
qed

lemma answers_complete_request_witness:
  "let s = xdi0\<lparr>ents := (\<lambda>_. entity0\<lparr>eMore := 0x61\<rparr>)\<rparr> in
   \<exists>s1 x. isdn_rc next_request OK 0x21 0 0 0 0 s = Some (0, set_rnr 100 (eRNR (ents s 100)) (next_request 100 s1)) \<and>
       xcalls s1 = xcalls s @ [(100, x)] \<and> ents s1 100 = x \<and> eRc x = OK \<and> eRcCh x = 0 \<and> \<not> bit (eMore x) 6"
proof -
  let ?s = "xdi0\<lparr>ents := (\<lambda>_. entity0\<lparr>eMore := 0x61\<rparr>)\<rparr>"
  have p: "plain_answer ?s OK 0x21 0 0" by (simp add: plain_answer_def xdi0_def)
  have "bit (0x61 :: byte) 5" "unat ((0x61 :: byte) AND XMOREC) \<le> 1 \<and> \<not> bit (0x61 :: byte) 4" by (simp_all add: bit_numeral_rec)
  with answers_complete_request [OF p, of 100 "0x61" next_request 0 0] show ?thesis
    by (simp add: Let_def xdi0_def entity0_def)
qed

text \<open>C22: the return code of a \<open>REMOVE\<close> releases the \<open>Id\<close>, the entry of the entity and the flow control
  of all its channels before the client is called, and the client is called even when more
  return codes were outstanding.\<close>

theorem remove_answer_releases:
  assumes "xIdTable s ID = n" "n \<noteq> 0" "e = e_tbl_e s n" "e \<noteq> 0" "eCallback (ents s e)" "ID \<noteq> 0" "Ch < 256"
    "xmisc s n AND REMOVE_PENDING \<noteq> 0" "xt \<noteq> RC_TYPE_OK_FC"
    "xIdTypeTable s n = NL_ID \<and> xRcExtensionSupported s \<longrightarrow> xt = RC_TYPE_REMOVE_COMPLETE"
    "bit (eMore (ents s e)) 5" "\<not> bit (eMore (ents s e)) 4"
  shows "\<exists>s1 x. isdn_rc cb OK ID Ch Ref xt xi s = Some (0, cb e s1) \<and> xcalls s1 = xcalls s @ [(e, x)] \<and>
    xIdTable s1 ID = 0 \<and> e_tbl_e s1 n = 0 \<and> (\<forall>i < 256. xFlowControlIdTable s1 i \<noteq> ID) \<and>
    eId x = 0 \<and> eRc x = OK \<and> \<not> bit (eMore x) 6 \<and> xmisc s1 n AND REMOVE_PENDING = 0"
proof -
  let ?s0 = "upd_ent e (\<lambda>x. x\<lparr>eRNR := 0, eRcCh := Ch\<rparr>) s"
  let ?s0' = "if xIdTypeTable ?s0 n = NL_ID \<and> xt = RC_TYPE_REMOVE_COMPLETE then ?s0\<lparr>xRcExtensionSupported := True\<rparr> else ?s0"
  let ?r = "remove_complete n e ID ?s0'"
  let ?m = "eMore (ents ?r e)"
  have k: "isdn_rc cb OK ID Ch Ref xt xi s = Some (0, rc_deliver cb OK ID Ch xt n e (eRNR (ents s e)) True ?r)"
    using assms(1-3,8,10) by (auto simp: isdn_rc_def rc_known_def Let_def entity_ptr_def)
  have E: "ents ?s0' = ents ?s0" "xFlowControlIdTable ?s0' = xFlowControlIdTable s" "xcalls ?s0' = xcalls s" by simp_all
  have r: "xIdTable ?r ID = 0" "e_tbl_e ?r n = 0" "eId (ents ?r e) = 0" "xcalls ?r = xcalls s"
    by (simp_all add: remove_complete_def clear_flow_control_def free_entity_def Let_def ents_upd_ent E)
  have rf: "\<forall>i < 256. xFlowControlIdTable ?r i \<noteq> ID"
    using assms(6) by (simp add: remove_complete_def clear_flow_control_def free_entity_def Let_def E)
  have cbk: "eCallback (ents ?r e)" using assms(5)
    by (simp add: remove_complete_def clear_flow_control_def free_entity_def Let_def ents_upd_ent E)
  have rm: "xmisc ?r n AND REMOVE_PENDING = 0" "xmisc ?r n AND NO_RC_CANCELLING = 0"
    by (simp_all add: remove_complete_def clear_flow_control_def free_entity_def Let_def and.assoc)
  have m: "?m = (let m = eMore (ents s e) in if unat (m AND XMOREC) > 1 then (m AND NOT XMOREC) OR 1 else m)"
    by (simp add: remove_complete_def clear_flow_control_def free_entity_def Let_def ents_upd_ent E)
  let ?q = "if ?m AND XMOREC \<noteq> 0 then ?m - 1 else ?m"
  have one: "((x AND NOT XMOREC) OR 1) AND XMOREC = (1 :: byte)" for x
    by (simp add: bit.conj_disj_distrib2 and.assoc)
  have hi: "bit ((x AND NOT XMOREC) OR 1 :: byte) 4 = bit x 4" "bit ((x AND NOT XMOREC) OR 1 :: byte) 5 = bit x 5" for x
  proof -
    have "bit (NOT XMOREC :: byte) 4" "bit (NOT XMOREC :: byte) 5" "\<not> bit (1 :: byte) 4" "\<not> bit (1 :: byte) 5" by (simp_all add: bit_numeral_rec bit_not_iff bit_1_iff)
    then show "bit ((x AND NOT XMOREC) OR 1 :: byte) 4 = bit x 4" "bit ((x AND NOT XMOREC) OR 1 :: byte) 5 = bit x 5"
      unfolding bit_or_iff bit_and_iff by blast+
  qed
  have c1: "unat (?m AND XMOREC) \<le> 1" unfolding m Let_def by (simp only: one split: if_split) simp
  have "unat (?q AND XMOREC) = 0" using c1 xmorec_dec(1) [of ?m] by auto
  then have q0: "?q AND XMOREC = 0" by (simp add: unat_eq_0)
  have mb: "bit ?m 4 = bit (eMore (ents s e)) 4" "bit ?m 5 = bit (eMore (ents s e)) 5" unfolding m Let_def by (simp_all only: hi if_cancel split: if_split) simp_all
  have qb: "bit ?q 4 = bit ?m 4" "bit ?q 5 = bit ?m 5"
    using xmorec_dec(2) [of ?m 0] xmorec_dec(2) [of ?m 1] by simp_all
  have go: "?q AND XMOREF \<noteq> 0 \<and> ?q AND (XMOREC OR XMOREP) = 0"
    using q0 qb mb assms(11,12) xmorec_xmorep [of ?q] xmorep_bit(2) [of ?q] by blast
  let ?f = "\<lambda>x. x\<lparr>eRc := OK, eMore := eMore x AND NOT XBUSY, eComplete := 0xff\<rparr>"
  let ?s1 = "if eMore (ents ?r e) AND XMOREC \<noteq> 0 then upd_ent e (\<lambda>x. x\<lparr>eMore := eMore x - 1\<rparr>) ?r else ?r"
  let ?s2 = "upd_ent e ?f ?s1"
  let ?s3 = "?s2\<lparr>xcalls := xcalls ?s2 @ [(e, ents ?s2 e)]\<rparr>"
  have q: "eMore (ents ?s1 e) = ?q" by (simp add: ents_upd_ent)
  have "xFlowControlIdTable ?r Ch \<noteq> ID" using rf assms(7) by blast
  then have "rc_deliver cb OK ID Ch xt n e (eRNR (ents s e)) True ?r = CALLBACK cb e ?s2"
    using assms(9) rm(2) go q unfolding rc_deliver_def Let_def by (simp only: if_True if_False simp_thms) simp
  moreover have "CALLBACK cb e ?s2 = cb e ?s3" using assms(4) cbk by (simp add: CALLBACK_def ents_upd_ent)
  moreover have "\<not> bit (eMore (ents ?s2 e)) 6"
    using and_busy [of "NOT XBUSY"] by (simp add: ents_upd_ent bit_and_iff)
  ultimately show ?thesis using k r rf rm(1)
    by (intro exI [of _ ?s3] exI [of _ "ents ?s2 e"]) (simp add: ents_upd_ent)
qed

lemma remove_answer_releases_witness:
  "let s = xdi0\<lparr>ents := (\<lambda>_. entity0\<lparr>eMore := 0x63\<rparr>), xmisc := (\<lambda>_. REMOVE_PENDING)\<rparr> in
   \<exists>s1 x. isdn_rc next_request OK 0x21 0 0 0 0 s = Some (0, next_request 100 s1) \<and> xcalls s1 = xcalls s @ [(100, x)] \<and>
    xIdTable s1 0x21 = 0 \<and> e_tbl_e s1 1 = 0 \<and> (\<forall>i < 256. xFlowControlIdTable s1 i \<noteq> 0x21) \<and>
    eId x = 0 \<and> eRc x = OK \<and> \<not> bit (eMore x) 6 \<and> xmisc s1 1 AND REMOVE_PENDING = 0"
proof -
  have b: "bit (0x63 :: byte) 5" "\<not> bit (0x63 :: byte) 4" by (simp_all add: bit_numeral_rec)
  show ?thesis unfolding Let_def
    by (rule remove_answer_releases) (use b in \<open>simp_all add: xdi0_def entity0_def\<close>)
qed

end
