(* ===== verification/XdiOut.thy ===== *)
theory XdiOut
  imports XdiRc
begin

text \<open>
  Sending requests to the card (\<open>pr_out\<close>, \<open>scom_out\<close> and \<open>pr_ready\<close>, \<open>scom_ready\<close> of
  \<open>kernel/di.c\<close>): the entities of the queue are taken, their data is copied into the shared memory
  in parts of at most 270 bytes, and an entity with more data is queued again. The offsets are
  those of the structures \<open>pr_ram\<close>, \<open>REQ\<close> and \<open>dual\<close>.
\<close>

abbreviation (input) PR_NextReq :: nat where "PR_NextReq \<equiv> 0"
abbreviation (input) PR_ReqInput :: nat where "PR_ReqInput \<equiv> 6"
abbreviation (input) PR_ReqOutput :: nat where "PR_ReqOutput \<equiv> 7"
abbreviation (input) PR_ReadyInt :: nat where "PR_ReadyInt \<equiv> 16"
abbreviation (input) PR_B :: nat where "PR_B \<equiv> 32"
abbreviation (input) REQ_Req :: nat where "REQ_Req \<equiv> 2"
abbreviation (input) REQ_ReqId :: nat where "REQ_ReqId \<equiv> 3"
abbreviation (input) REQ_ReqCh :: nat where "REQ_ReqCh \<equiv> 4"
abbreviation (input) REQ_Reference :: nat where "REQ_Reference \<equiv> 6"
abbreviation (input) REQ_length :: nat where "REQ_length \<equiv> 16"
abbreviation (input) REQ_P :: nat where "REQ_P \<equiv> 18"
abbreviation (input) DUAL_Req :: nat where "DUAL_Req \<equiv> 0"
abbreviation (input) DUAL_ReqId :: nat where "DUAL_ReqId \<equiv> 1"
abbreviation (input) DUAL_ReqCh :: nat where "DUAL_ReqCh \<equiv> 10"
abbreviation (input) DUAL_ReadyInt :: nat where "DUAL_ReadyInt \<equiv> 16"
abbreviation (input) DUAL_XLength :: nat where "DUAL_XLength \<equiv> 32"
abbreviation (input) DUAL_XP :: nat where "DUAL_XP \<equiv> 34"

section \<open>Copying the data\<close>

definition part_length :: "nat \<Rightarrow> nat \<Rightarrow> nat \<Rightarrow> nat" where
  "part_length len plen off = nat (min (270 - int len) (int plen - int off) mod 65536)"

lemma ents_ram_out [simp]:
  "ents (ram_out_buffer p q n s) = ents s" "ents (ram_out p v s) = ents s" "ents (ram_outw p w s) = ents s"
  "ents (ram_out_dw p w s) = ents s"
  by (simp_all add: ram_out_buffer_def ram_out_def ram_outw_def ram_out_dw_def)

lemma part_length_ends:
  assumes "len < 270" "plen < 65536" "(off + part_length len plen off) mod 65536 \<noteq> plen"
  shows "(len + part_length len plen off) mod 65536 = 270"
proof (cases "270 - int len \<le> int plen - int off")
  case True
  then have "part_length len plen off = 270 - len" using assms(1) by (simp add: part_length_def)
  then show ?thesis using assms(1) by simp
next
  case False
  then have p: "part_length len plen off = nat ((int plen - int off) mod 65536)" by (simp add: part_length_def min_def)
  have "int ((off + part_length len plen off) mod 65536) = (int off + (int plen - int off) mod 65536) mod 65536"
    by (simp add: p zmod_int)
  also have "\<dots> = int plen mod 65536" by (simp add: mod_add_right_eq)
  also have "\<dots> = int plen" using assms(2) by simp
  finally show ?thesis using assms(3) by simp
qed

function fill_part :: "nat \<Rightarrow> nat \<Rightarrow> nat \<Rightarrow> nat \<Rightarrow> xdi \<Rightarrow> nat \<times> nat \<times> xdi" where
  "fill_part p e i len s =
     (let x = ents s e; X = eX x i; clength = part_length len (unat (PLength X)) (eXOffset x);
          s1 = ram_out_buffer (p + len) (bP X + eXOffset x) clength s;
          len1 = (len + clength) mod 65536; off = (eXOffset x + clength) mod 65536
      in if i < eXNum x \<and> len < 270 then
           if off = unat (PLength X)
           then fill_part p e (i + 1) len1 (upd_ent e (\<lambda>x. x\<lparr>eXOffset := 0, eXCurrent := (i + 1) mod 256\<rparr>) s1)
           else fill_part p e i len1 (upd_ent e (\<lambda>x. x\<lparr>eXOffset := off\<rparr>) s1)
         else (i, len, s))"
  by pat_completeness auto

termination
proof (relation "measures [\<lambda>(p, e, i, len, s). eXNum (ents s e) - i, \<lambda>(p, e, i, len, s). if len < 270 then 1 else 0]", goal_cases)
  case 1
  show ?case by simp
next
  case (2 p e i len s)
  then have "eXNum (ents s e) - Suc i < eXNum (ents s e) - i" by (intro diff_less_mono2) auto
  with 2 show ?case by (simp add: ents_upd_ent)
next
  case (3 p e i len s)
  then have "(len + part_length len (unat (PLength (eX (ents s e) i))) (eXOffset (ents s e))) mod 65536 = 270"
    using unsigned_less [of "PLength (eX (ents s e) i)"] by (intro part_length_ends) simp_all
  with 3 show ?case by (simp add: ents_upd_ent)
qed

declare fill_part.simps [simp del]

lemma fill_part_stop: "\<not> (i < eXNum (ents s e) \<and> len < 270) \<Longrightarrow> fill_part p e i len s = (i, len, s)"
  by (subst fill_part.simps) (simp only: Let_def if_False)

lemma fill_part_go:
  assumes "i < eXNum (ents s e) \<and> len < 270"
    "c = part_length len (unat (PLength (eX (ents s e) i))) (eXOffset (ents s e))"
    "s1 = ram_out_buffer (p + len) (bP (eX (ents s e) i) + eXOffset (ents s e)) c s"
    "len1 = (len + c) mod 65536" "off = (eXOffset (ents s e) + c) mod 65536"
  shows "off = unat (PLength (eX (ents s e) i)) \<Longrightarrow> fill_part p e i len s =
      fill_part p e (i + 1) len1 (upd_ent e (\<lambda>x. x\<lparr>eXOffset := 0, eXCurrent := (i + 1) mod 256\<rparr>) s1)"
    "off \<noteq> unat (PLength (eX (ents s e) i)) \<Longrightarrow> fill_part p e i len s =
      fill_part p e i len1 (upd_ent e (\<lambda>x. x\<lparr>eXOffset := off\<rparr>) s1)"
  unfolding assms(2-5) fill_part.simps [of p e i len s] Let_def if_P [OF assms(1)] by (rule if_P if_not_P; assumption)+

text \<open>The transfer through a memory area of the card: all buffers at once.\<close>

function cma_fill :: "nat \<Rightarrow> nat \<Rightarrow> nat \<Rightarrow> nat \<Rightarrow> xdi \<Rightarrow> nat \<times> nat \<times> xdi" where
  "cma_fill p e i data_length s =
     (let x = ents s e; X = eX x i
      in if i < eXNum x then
           cma_fill p e (i + 1) (data_length + unat (PLength X))
             (upd_ent e (\<lambda>x. x\<lparr>eXCurrent := (i + 1) mod 256\<rparr>)
               (ram_out_buffer (p + 4 + data_length) (bP X) (unat (PLength X)) s))
         else (i, data_length, s))"
  by pat_completeness auto

termination
  by (relation "measure (\<lambda>(p, e, i, len, s). eXNum (ents s e) - i)") (auto simp: ents_upd_ent)

declare cma_fill.simps [simp del]

section \<open>One request\<close>

text \<open>The state of an entity whose request was written to the card, \<open>e_no\<close> its number in the queue, \<open>i\<close> the
  buffer reached; \<open>req\<close> is where the request code goes and \<open>ref\<close> the reference of an \<open>ASSIGN\<close>.\<close>

definition mdata_code :: "nat \<Rightarrow> nat" where
  "mdata_code ID = (if ID = NL_ID \<or> ID = TASK_ID \<or> ID = MAN_ID then N_MDATA else if ID = BLLC_ID then LL_MDATA else 0)"

definition send_specific :: "nat \<Rightarrow> nat \<Rightarrow> nat \<Rightarrow> nat \<Rightarrow> xdi \<Rightarrow> xdi" where
  "send_specific req e_no e i s =
     (let s1 = upd_ent e (\<lambda>x. x\<lparr>eMore := eMore x + 1\<rparr>) s; x = ents s1 e
      in if i < eXNum x \<and> eMInd x \<noteq> 0
         then req_queue (eNo x) (upd_ent e (\<lambda>x. x\<lparr>eMore := eMore x OR XMOREP\<rparr>) (ram_out req (eMInd x) s1))
         else
           let s2 = ram_out req (eReq x) (upd_ent e (\<lambda>x. x\<lparr>eMore := eMore x OR XMOREF\<rparr>) s1);
               s3 = (if xFlowControlIdTable s2 (eReqCh x) = eId x
                     then s2\<lparr>xFlowControlSkipTable := (xFlowControlSkipTable s2)(eReqCh x := True)\<rparr> else s2);
               s4 = (if eReq x = REMOVE then s3\<lparr>xmisc := (xmisc s3)(e_no := xmisc s3 e_no OR REMOVE_PENDING)\<rparr> else s3)
           in upd_ent e (\<lambda>x. x\<lparr>eMore := eMore x AND NOT XMOREP\<rparr>) s4)"

definition send_assign :: "bool \<Rightarrow> nat \<Rightarrow> nat \<Rightarrow> nat \<Rightarrow> xdi \<Rightarrow> xdi" where
  "send_assign pr req ref e s =
     (let s1 = upd_ent e (\<lambda>x. x\<lparr>eMInd := mdata_code (eId x)\<rparr>) s; x = ents s1 e;
          s2 = (if pr then s1\<lparr>xIdTypeTable := (xIdTypeTable s1)(eNo x := eId x)\<rparr> else s1);
          s3 = upd_ent e (\<lambda>x. x\<lparr>eMore := (eMore x OR XMOREF) AND NOT XMOREP\<rparr>) s2
      in assign_queue (eNo x) ref (ram_out req (eReq x) s3))"

definition pr_request :: "nat \<Rightarrow> xdi \<Rightarrow> xdi" where
  "pr_request e_no s =
     (let e = entity_ptr s e_no; x = ents s e; R = PR_B + ram_inw s PR_NextReq
      in case (if \<not> (xtx_stream s (eId x) \<noteq> 0 \<and> eReq x = N_DATA) then fill_part (R + REQ_P) e (eXCurrent x) 0 s
               else case cma_fill (xtx_stream s (eId x)) e (eXCurrent x) 0 s of
                 (i, data_length, s1) \<Rightarrow> (i, 0, ram_out_dw (xtx_stream s (eId x)) data_length s1))
         of (i, len, s1) \<Rightarrow>
           let s2 = ram_out (R + REQ_ReqCh) (eReqCh x) (ram_out (R + REQ_ReqId) (eId x) (ram_outw (R + REQ_length) len s1));
               s3 = (if eId x mod 32 \<noteq> 0 then send_specific (R + REQ_Req) e_no e i s2
                     else send_assign True (R + REQ_Req) (ram_inw s2 (R + REQ_Reference)) e s2)
           in ram_outw PR_NextReq (ram_inw s3 R) s3)"

text \<open>The loop of \<open>pr_out\<close>: the last entity handled (null if none or if its entry was empty) and
  the number of requests sent. An entity of the queue without entry is skipped.\<close>

fun pr_loop :: "nat \<Rightarrow> nat \<Rightarrow> nat \<Rightarrow> xdi \<Rightarrow> nat \<times> nat \<times> xdi" where
  "pr_loop 0 this count s = (this, count, s)"
| "pr_loop (Suc ready) this count s =
     (let e_no = look_req s
      in if e_no = 0 then (this, count, s)
         else let s1 = next_req s; this = entity_ptr s1 e_no
              in if this = 0 then pr_loop ready this count s1
                 else pr_loop ready this (count + 1) (pr_request e_no s1))"

text \<open>A \<open>UREMOVE\<close> has no return code: the \<open>Id\<close> is released when it was sent.\<close>

definition uremove :: "nat \<Rightarrow> xdi \<Rightarrow> xdi" where
  "uremove e s =
     (if e \<noteq> 0 \<and> eReq (ents s e) = UREMOVE \<and> eId (ents s e) \<noteq> 0 then
        let ID = eId (ents s e);
            s1 = clear_flow_control ID (free_entity (xIdTable s ID) s)
        in upd_ent e (\<lambda>x. x\<lparr>eId := 0\<rparr>) (s1\<lparr>xIdTable := (xIdTable s1)(ID := 0)\<rparr>)
      else s)"

definition pr_ready :: "xdi \<Rightarrow> nat \<times> xdi" where
  "pr_ready s =
     (let ready = (ram_in s PR_ReqOutput + 256 - ram_in s PR_ReqInput) mod 256
      in (ready, if ready = 0 \<and> xReadyInt s = 0 then (ram_inc PR_ReadyInt s)\<lparr>xReadyInt := 1\<rparr> else s))"

definition pr_out :: "xdi \<Rightarrow> xdi" where
  "pr_out s =
     (if look_req s = 0 then s
      else case pr_ready s of (ready, s1) \<Rightarrow>
        if ready = 0 then s1
        else case pr_loop ready 0 0 s1 of (this, count, s2) \<Rightarrow>
          uremove this (ram_out PR_ReqInput (ram_in s2 PR_ReqInput + count) s2))"

section \<open>Cards with a single request register\<close>

definition scom_ready :: "xdi \<Rightarrow> bool \<times> xdi" where
  "scom_ready s =
     (if ram_in s DUAL_Req \<noteq> 0 then
        (False, if xReadyInt s = 0 then (ram_inc DUAL_ReadyInt s)\<lparr>xReadyInt := 1\<rparr> else s)
      else (True, s))"

definition scom_out :: "xdi \<Rightarrow> xdi" where
  "scom_out s =
     (let e_no = look_req s
      in if e_no = 0 then s
         else case scom_ready s of (ready, s0) \<Rightarrow>
           if \<not> ready then s0
           else
             let e = entity_ptr s0 e_no; s1 = next_req s0; x = ents s1 e
             in case fill_part DUAL_XP e (eXCurrent x) 0 s1 of (i, len, s2) \<Rightarrow>
                  let s3 = ram_out DUAL_ReqCh (eReqCh x) (ram_out DUAL_ReqId (eId x) (ram_outw DUAL_XLength len s2));
                      s4 = (if eId x mod 32 \<noteq> 0 then send_specific DUAL_Req e_no e i s3
                            else send_assign False DUAL_Req 0 e s3)
                  in uremove e s4)"

section \<open>The data of a request\<close>

definition x_buffer :: "xdi \<Rightarrow> nat \<Rightarrow> nat \<Rightarrow> byte list" where
  "x_buffer s e j = rd_bytes (xhost s) (bP (eX (ents s e) j)) (unat (PLength (eX (ents s e) j)))"

text \<open>The data not yet copied, from buffer \<open>i\<close> on.\<close>

definition x_pending :: "xdi \<Rightarrow> nat \<Rightarrow> nat \<Rightarrow> byte list" where
  "x_pending s e i = drop (eXOffset (ents s e)) (concat (map (x_buffer s e) [i..<eXNum (ents s e)]))"

definition x_ok :: "xdi \<Rightarrow> nat \<Rightarrow> nat \<Rightarrow> bool" where
  "x_ok s e i \<longleftrightarrow> (if i < eXNum (ents s e) then eXOffset (ents s e) \<le> unat (PLength (eX (ents s e) i))
     else eXOffset (ents s e) = 0)"

lemma length_x_buffer [simp]: "length (x_buffer s e j) = unat (PLength (eX (ents s e) j))"
  by (simp add: x_buffer_def)

lemma x_pending_Cons:
  "i < eXNum (ents s e) \<Longrightarrow> eXOffset (ents s e) \<le> unat (PLength (eX (ents s e) i)) \<Longrightarrow>
   x_pending s e i = drop (eXOffset (ents s e)) (x_buffer s e i) @ concat (map (x_buffer s e) [i + 1..<eXNum (ents s e)])"
  by (simp add: x_pending_def upt_conv_Cons)

lemma rd_bytes_take_drop: "a + c \<le> n \<Longrightarrow> rd_bytes m (q + a) c = take c (drop a (rd_bytes m q n))"
  by (rule nth_equalityI) (auto simp: rd_bytes_def add.assoc)

lemma rd_wr_behind: "rd_bytes (wr_bytes m (p + n) xs) p (n + length xs) = rd_bytes m p n @ xs"
proof -
  have "rd_bytes (wr_bytes m (p + n) xs) p n = rd_bytes m p n" by (rule rd_bytes_cong) (simp add: wr_bytes_other)
  then show ?thesis by (simp add: rd_bytes_append mem_simps)
qed

lemma part_length_min:
  assumes "len \<le> 270" "off \<le> plen" "plen < 65536"
  shows "part_length len plen off = min (270 - len) (plen - off)"
proof -
  have "min (270 - int len) (int plen - int off) = int (min (270 - len) (plen - off))" using assms by linarith
  moreover have "min (270 - len) (plen - off) < 65536" by simp
  ultimately show ?thesis unfolding part_length_def by simp
qed

definition part_done :: "nat \<Rightarrow> nat \<Rightarrow> nat \<Rightarrow> nat \<Rightarrow> xdi \<Rightarrow> nat \<times> nat \<times> xdi \<Rightarrow> bool" where
  "part_done p e i len s r \<longleftrightarrow> (case r of (i', len', s') \<Rightarrow>
     len' = min 270 (len + length (x_pending s e i)) \<and>
     rd_bytes (xram s') p len' = rd_bytes (xram s) p len @ take (270 - len) (x_pending s e i) \<and>
     x_pending s' e i' = drop (270 - len) (x_pending s e i) \<and> x_ok s' e i' \<and> xhost s' = xhost s)"

lemma part_done_step:
  assumes "part_done p e j (len + length b) s2 r" "x_pending s e i = b @ x_pending s2 e j" "len + length b \<le> 270"
    "rd_bytes (xram s2) p (len + length b) = rd_bytes (xram s) p len @ b" "xhost s2 = xhost s"
  shows "part_done p e i len s r"
proof -
  obtain i' len' s' where r: "r = (i', len', s')" by (cases r)
  have "270 - len = length b + (270 - (len + length b))" using assms(3) by linarith
  then have t: "take (270 - len) (b @ x) = b @ take (270 - (len + length b)) x"
    "drop (270 - len) (b @ x) = drop (270 - (len + length b)) x" for x by simp_all
  show ?thesis using assms(1,4,5) unfolding part_done_def r prod.case assms(2) t by (elim conjE, intro conjI) (simp_all add: add.assoc)
qed

lemma fill_part_done: "x_ok s e i \<Longrightarrow> len \<le> 270 \<Longrightarrow> part_done p e i len s (fill_part p e i len s)"
proof (induction p e i len s rule: fill_part.induct)
  case (1 p e i len s)
  let ?x = "ents s e"
  let ?X = "eX ?x i"
  let ?c = "part_length len (unat (PLength ?X)) (eXOffset ?x)"
  let ?s1 = "ram_out_buffer (p + len) (bP ?X + eXOffset ?x) ?c s"
  let ?D = "x_pending s e i"
  show ?case
  proof (cases "i < eXNum ?x \<and> len < 270")
    case False
    have D: "i \<ge> eXNum ?x \<Longrightarrow> ?D = []" by (simp add: x_pending_def)
    note fill_part_stop [OF False, of p]
    with 1(3,4) False D show ?thesis by (cases "i < eXNum ?x") (auto simp: part_done_def)
  next
    case go: True
    have pl: "unat (PLength ?X) < 65536" using unsigned_less [of "PLength ?X"] by simp
    have off: "eXOffset ?x \<le> unat (PLength ?X)" using 1(3) go by (simp add: x_ok_def)
    have c: "?c = min (270 - len) (unat (PLength ?X) - eXOffset ?x)" by (rule part_length_min) (use 1(4) off pl in simp_all)
    let ?rest = "concat (map (x_buffer s e) [i + 1..<eXNum ?x])"
    let ?b = "drop (eXOffset ?x) (x_buffer s e i)"
    have D: "?D = ?b @ ?rest" using x_pending_Cons go off by blast
    have lb: "length ?b = unat (PLength ?X) - eXOffset ?x" by simp
    have wr: "xram ?s1 = wr_bytes (xram s) (p + len) (take ?c ?b)" "xhost ?s1 = xhost s"
      using rd_bytes_take_drop [of "eXOffset ?x" ?c "unat (PLength ?X)"] c off
      by (simp_all add: ram_out_buffer_def x_buffer_def)
    have rd: "rd_bytes (xram ?s1) p (len + ?c) = rd_bytes (xram s) p len @ take ?c ?b"
      using rd_wr_behind [of "xram s" p len "take ?c ?b"] c unfolding wr lb by (simp add: min_def split: if_splits)
    have len1: "len + ?c \<le> 270" using c go by linarith
    then have len1': "(len + ?c) mod 65536 = len + ?c" by simp
    have m270: "270 mod 65536 = (270 :: nat)" by simp
    note len1 = len1' len1
    have off1: "(eXOffset ?x + ?c) mod 65536 = eXOffset ?x + ?c" using c off pl by simp
    show ?thesis
    proof (cases "eXOffset ?x + ?c = unat (PLength ?X)")
      case True
      let ?s2 = "upd_ent e (\<lambda>x. x\<lparr>eXOffset := 0, eXCurrent := (i + 1) mod 256\<rparr>) ?s1"
      have xb: "x_buffer ?s2 e = x_buffer s e" using wr(2) by (auto simp: x_buffer_def ents_upd_ent upd_ent_def)
      have D2: "x_pending ?s2 e (i + 1) = ?rest" by (simp only: x_pending_def xb) (simp add: ents_upd_ent)
      have cb: "?c = length ?b" using True by simp
      have "part_done p e (i + 1) (len + ?c) ?s2 (fill_part p e (i + 1) (len + ?c) ?s2)"
        using 1(1) [of ?x ?X ?c ?s1 "len + ?c" "eXOffset ?x + ?c"] go True len1 off1 by (simp add: x_ok_def ents_upd_ent)
      moreover have "fill_part p e i len s = fill_part p e (i + 1) (len + ?c) ?s2"
        using fill_part_go(1) [OF go refl refl refl refl] True unfolding len1(1) off1 by blast
      moreover have "xram ?s2 = xram ?s1" "xhost ?s2 = xhost s" using wr by (simp_all add: upd_ent_def)
      ultimately show ?thesis
        using part_done_step [of p e "i + 1" len ?b ?s2 _ s i] D D2 rd len1(2) cb by simp
    next
      case False
      let ?s2 = "upd_ent e (\<lambda>x. x\<lparr>eXOffset := eXOffset x + ?c\<rparr>) ?s1"
      have e270: "len + ?c = 270" "?c < length ?b" using False c off go by (simp_all add: min_def split: if_splits)
      have xb: "x_buffer ?s2 e = x_buffer s e" using wr(2) by (auto simp: x_buffer_def ents_upd_ent upd_ent_def)
      have "fill_part p e i len s = fill_part p e i 270 (upd_ent e (\<lambda>x. x\<lparr>eXOffset := eXOffset ?x + ?c\<rparr>) ?s1)"
        using fill_part_go(2) [OF go refl refl refl refl] False unfolding len1(1) off1 e270(1) m270 by blast
      also have "upd_ent e (\<lambda>x. x\<lparr>eXOffset := eXOffset ?x + ?c\<rparr>) ?s1 = ?s2" by (simp add: upd_ent_def)
      also have "fill_part p e i 270 ?s2 = (i, 270, ?s2)" by (rule fill_part_stop) simp
      finally have f: "fill_part p e i len s = (i, 270, ?s2)" .
      have "x_pending ?s2 e i = drop ?c ?D"
        by (simp only: x_pending_def xb) (simp add: ents_upd_ent add.commute)
      moreover have "270 - len = ?c" using e270 go by simp
      moreover have "xram ?s2 = xram ?s1" "xhost ?s2 = xhost s" using wr by (simp_all add: upd_ent_def)
      moreover have "x_ok ?s2 e i" using go c off by (simp add: x_ok_def ents_upd_ent)
      ultimately show ?thesis using rd e270 by (simp add: part_done_def f D)
    qed
  qed
qed

text \<open>The entity is left with the buffer reached, where the next part begins.\<close>

definition current_kept :: "nat \<Rightarrow> nat \<Rightarrow> xdi \<Rightarrow> nat \<times> nat \<times> xdi \<Rightarrow> bool" where
  "current_kept e i s r \<longleftrightarrow> (case r of (i', len', s') \<Rightarrow>
     eXCurrent (ents s' e) = i' mod 256 \<and> eXNum (ents s' e) = eXNum (ents s e) \<and> i' \<le> max i (eXNum (ents s e)))"

lemma fill_part_current:
  "eXCurrent (ents s e) = i mod 256 \<Longrightarrow> current_kept e i s (fill_part p e i len s)"
proof (induction p e i len s rule: fill_part.induct)
  case (1 p e i len s)
  show ?case
  proof (cases "i < eXNum (ents s e) \<and> len < 270")
    case False
    then show ?thesis using 1(3) by (simp add: fill_part_stop current_kept_def)
  next
    case True
    let ?c = "part_length len (unat (PLength (eX (ents s e) i))) (eXOffset (ents s e))"
    let ?s1 = "ram_out_buffer (p + len) (bP (eX (ents s e) i) + eXOffset (ents s e)) ?c s"
    let ?o = "(eXOffset (ents s e) + ?c) mod 65536"
    have n: "ents ?s1 = ents s" by (simp add: ram_out_buffer_def)
    note go = fill_part_go [OF True refl refl refl refl, of p]
    show ?thesis
    proof (cases "?o = unat (PLength (eX (ents s e) i))")
      case o: True
      let ?s2 = "upd_ent e (\<lambda>x. x\<lparr>eXOffset := 0, eXCurrent := (i + 1) mod 256\<rparr>) ?s1"
      have "eXCurrent (ents ?s2 e) = (i + 1) mod 256" "eXNum (ents ?s2 e) = eXNum (ents s e)" by (simp_all add: ents_upd_ent n)
      with 1(1) [OF refl refl refl refl refl refl True o] True show ?thesis
        unfolding go(1) [OF o] by (auto simp: current_kept_def)
    next
      case o: False
      let ?s2 = "upd_ent e (\<lambda>x. x\<lparr>eXOffset := ?o\<rparr>) ?s1"
      have "eXCurrent (ents ?s2 e) = i mod 256" "eXNum (ents ?s2 e) = eXNum (ents s e)" using 1(3) by (simp_all add: ents_upd_ent n)
      with 1(2) [OF refl refl refl refl refl refl True o] show ?thesis
        unfolding go(2) [OF o] by (auto simp: current_kept_def)
    qed
  qed
qed

text \<open>Parts sent one after the other: what the request buffer holds for each.\<close>

fun card_parts :: "nat \<Rightarrow> nat \<Rightarrow> nat \<Rightarrow> xdi \<Rightarrow> byte list list" where
  "card_parts p e 0 s = []"
| "card_parts p e (Suc k) s =
     (case fill_part p e (eXCurrent (ents s e)) 0 s of (i, len, s1) \<Rightarrow> rd_bytes (xram s1) p len # card_parts p e k s1)"

definition part_ready :: "xdi \<Rightarrow> nat \<Rightarrow> bool" where
  "part_ready s e \<longleftrightarrow> x_ok s e (eXCurrent (ents s e)) \<and> eXCurrent (ents s e) < 256 \<and> eXNum (ents s e) < 256"

lemma fill_part_part:
  assumes "part_ready s e" "fill_part p e (eXCurrent (ents s e)) 0 s = (i', len', s')"
  defines "D \<equiv> x_pending s e (eXCurrent (ents s e))"
  shows "len' = min 270 (length D)" "rd_bytes (xram s') p len' = take 270 D" "eXCurrent (ents s' e) = i'"
    "x_pending s' e (eXCurrent (ents s' e)) = drop 270 D" "part_ready s' e"
proof -
  have o: "x_ok s e (eXCurrent (ents s e))" "eXCurrent (ents s e) = eXCurrent (ents s e) mod 256" "max (eXCurrent (ents s e)) (eXNum (ents s e)) < 256"
    using assms(1) by (simp_all add: part_ready_def)
  have d: "len' = min 270 (length D)" "rd_bytes (xram s') p len' = take 270 D" "x_pending s' e i' = drop 270 D" "x_ok s' e i'"
  proof -
    have z: "rd_bytes (xram s) p 0 = []" by (simp add: rd_bytes_def)
    show "len' = min 270 (length D)" "rd_bytes (xram s') p len' = take 270 D" "x_pending s' e i' = drop 270 D" "x_ok s' e i'"
      using fill_part_done [OF o(1), of 0 p] unfolding D_def part_done_def assms(2) z prod.case append_Nil add_0 diff_zero by blast+
  qed
  have c: "eXCurrent (ents s' e) = i' mod 256" "eXNum (ents s' e) = eXNum (ents s e)" "i' < 256"
    using fill_part_current [OF o(2), of p 0] assms(2) o(3) by (auto simp: current_kept_def)
  then have "eXCurrent (ents s' e) = i'" by simp
  then show "len' = min 270 (length D)" "rd_bytes (xram s') p len' = take 270 D" "eXCurrent (ents s' e) = i'"
    "x_pending s' e (eXCurrent (ents s' e)) = drop 270 D" "part_ready s' e"
    using d c o(3) by (simp_all add: part_ready_def)
qed

lemma card_parts_concat:
  "part_ready s e \<Longrightarrow> concat (card_parts p e k s) = take (270 * k) (x_pending s e (eXCurrent (ents s e)))"
proof (induction k arbitrary: s)
  case (Suc k)
  obtain i' len' s' where f: "fill_part p e (eXCurrent (ents s e)) 0 s = (i', len', s')" by (metis prod_cases3)
  note d = fill_part_part [OF Suc.prems f]
  have "take 270 D @ take (270 * k) (drop 270 D) = take (270 + 270 * k) D" for D :: "byte list" by (simp add: take_add)
  then show ?case using Suc.IH [OF d(5)] d(2,4) by (simp add: f)
qed simp

text \<open>C17: one part of a request: the request buffer of the card receives the next bytes of the
  data of the client, over all its buffers and at most 270; the entity is left at the buffer reached,
  and what is pending from there is exactly the rest. So parts sent one after the other carry
  the data in order, no byte twice and none lost.\<close>

theorem part_copies_data:
  assumes "part_ready s e"
  defines "D \<equiv> x_pending s e (eXCurrent (ents s e))"
  shows "(case fill_part p e (eXCurrent (ents s e)) 0 s of (i', len', s') \<Rightarrow>
       len' = min 270 (length D) \<and> rd_bytes (xram s') p len' = take 270 D \<and> eXCurrent (ents s' e) = i' \<and>
       x_pending s' e (eXCurrent (ents s' e)) = drop 270 D \<and> part_ready s' e) \<and>
     concat (card_parts p e k s) = take (270 * k) D"
proof -
  obtain i' len' s' where f: "fill_part p e (eXCurrent (ents s e)) 0 s = (i', len', s')" by (metis prod_cases3)
  show ?thesis using fill_part_part [OF assms(1) f] card_parts_concat [OF assms(1), of p k] unfolding f D_def by simp
qed

text \<open>An entity with two buffers, of 200 and of 100 bytes: its data is sent in two parts.\<close>

definition entity_300 :: entity where
  "entity_300 = entity0\<lparr>eXNum := 2, eX := (\<lambda>i. if i = 0 then \<lparr>PLength = 200, bP = 1000\<rparr> else \<lparr>PLength = 100, bP = 5000\<rparr>)\<rparr>"

definition xdi_300 :: xdi where
  "xdi_300 = xdi0\<lparr>ents := (\<lambda>_. entity_300), xhost := word_of_nat\<rparr>"

lemma xdi_300:
  "eXCurrent (ents xdi_300 100) = 0" "part_ready xdi_300 100" "length (x_pending xdi_300 100 0) = 300"
  by (simp_all add: xdi_300_def entity_300_def entity0_def part_ready_def x_ok_def x_pending_def upt_rec)

theorem part_copies_data_witness:
  "length (x_pending xdi_300 100 0) = 300 \<and> concat (card_parts 18 100 2 xdi_300) = x_pending xdi_300 100 0 \<and>
   (case fill_part 18 100 0 0 xdi_300 of (i', len', s') \<Rightarrow>
      len' = 270 \<and> rd_bytes (xram s') 18 270 = take 270 (x_pending xdi_300 100 0) \<and>
      length (x_pending s' 100 (eXCurrent (ents s' 100))) = 30)"
proof -
  obtain i' len' s' where f: "fill_part 18 100 0 0 xdi_300 = (i', len', s')" by (metis prod_cases3)
  from part_copies_data [OF xdi_300(2), of 18 2] show ?thesis unfolding xdi_300(1) f by (auto simp: xdi_300(3))
qed

section \<open>Requests without return code\<close>

text \<open>What sending leaves alone.\<close>

definition same_out :: "xdi \<Rightarrow> xdi \<Rightarrow> bool" where
  "same_out s s' \<longleftrightarrow> xIdTable s' = xIdTable s \<and> e_tbl_e s' = e_tbl_e s \<and> xhead s' = xhead s \<and> xtail s' = xtail s \<and>
     e_next s' = e_next s \<and> (\<forall>e. eReq (ents s' e) = eReq (ents s e) \<and> eId (ents s' e) = eId (ents s e) \<and>
     eMInd (ents s' e) = eMInd (ents s e) \<and> eNo (ents s' e) = eNo (ents s e))"

lemma same_out_refl [simp]: "same_out s s"
  by (simp add: same_out_def)

lemma same_out_trans: "same_out s t \<Longrightarrow> same_out t u \<Longrightarrow> same_out s u"
  by (simp add: same_out_def)

lemma same_out_ram [simp]:
  "same_out s (ram_out p v t) = same_out s t" "same_out s (ram_outw p v t) = same_out s t"
  "same_out s (ram_out_dw p v t) = same_out s t" "same_out s (ram_out_buffer p q n t) = same_out s t"
  by (simp_all add: same_out_def ram_out_def ram_outw_def ram_out_dw_def ram_out_buffer_def)

lemma same_out_upd:
  "(\<And>x. eReq (f x) = eReq x \<and> eId (f x) = eId x \<and> eMInd (f x) = eMInd x \<and> eNo (f x) = eNo x) \<Longrightarrow>
   same_out s (upd_ent e f t) = same_out s t"
  by (auto simp: same_out_def upd_ent_def)

lemma same_out_fill: "same_out s (snd (snd (fill_part p e i len s)))"
proof (induction p e i len s rule: fill_part.induct)
  case (1 p e i len s)
  show ?case
  proof (cases "i < eXNum (ents s e) \<and> len < 270")
    case True
    let ?c = "part_length len (unat (PLength (eX (ents s e) i))) (eXOffset (ents s e))"
    let ?s1 = "ram_out_buffer (p + len) (bP (eX (ents s e) i) + eXOffset (ents s e)) ?c s"
    let ?l = "(len + ?c) mod 65536" and ?o = "(eXOffset (ents s e) + ?c) mod 65536"
    note go = fill_part_go [OF True refl refl refl refl, of p]
    show ?thesis
    proof (cases "?o = unat (PLength (eX (ents s e) i))")
      case o: True
      have "same_out s (upd_ent e (\<lambda>x. x\<lparr>eXOffset := 0, eXCurrent := (i + 1) mod 256\<rparr>) ?s1)" by (simp add: same_out_upd)
      from same_out_trans [OF this 1(1) [OF refl refl refl refl refl refl True o]] show ?thesis unfolding go(1) [OF o] .
    next
      case o: False
      have "same_out s (upd_ent e (\<lambda>x. x\<lparr>eXOffset := ?o\<rparr>) ?s1)" by (simp add: same_out_upd)
      from same_out_trans [OF this 1(2) [OF refl refl refl refl refl refl True o]] show ?thesis unfolding go(2) [OF o] .
    qed
  qed (simp add: fill_part_stop)
qed

lemma same_out_cma: "same_out s (snd (snd (cma_fill p e i n s)))"
proof (induction p e i n s rule: cma_fill.induct)
  case (1 p e i n s)
  let ?X = "eX (ents s e) i"
  let ?s1 = "upd_ent e (\<lambda>x. x\<lparr>eXCurrent := (i + 1) mod 256\<rparr>) (ram_out_buffer (p + 4 + n) (bP ?X) (unat (PLength ?X)) s)"
  have "same_out s ?s1" by (simp add: same_out_upd)
  with 1 show ?case
    by (cases "i < eXNum (ents s e)")
      (simp_all add: cma_fill.simps [of p e i n s] Let_def, blast intro: same_out_trans)
qed

text \<open>The tables and request codes.\<close>

definition same_tab :: "xdi \<Rightarrow> xdi \<Rightarrow> bool" where
  "same_tab s s' \<longleftrightarrow> xIdTable s' = xIdTable s \<and> e_tbl_e s' = e_tbl_e s \<and>
     (\<forall>e. eReq (ents s' e) = eReq (ents s e) \<and> eId (ents s' e) = eId (ents s e))"

lemma same_out_tab: "same_out s t \<Longrightarrow> same_tab s t"
  by (simp add: same_out_def same_tab_def)

lemma same_tab_trans: "same_tab s t \<Longrightarrow> same_tab t u \<Longrightarrow> same_tab s u"
  by (simp add: same_tab_def)

lemma same_tab_specific: "same_tab s (send_specific req e_no e i s)"
  by (simp add: same_tab_def send_specific_def Let_def ents_upd_ent ram_out_def)

lemma same_tab_assign: "same_tab s (send_assign pr req ref e s)"
  by (simp add: same_tab_def send_assign_def assign_queue_def Let_def ents_upd_ent ram_out_def)

lemma same_out_specific: "eMInd (ents s e) = 0 \<Longrightarrow> same_out s (send_specific req e_no e i s)"
  by (simp add: same_out_def send_specific_def Let_def upd_ent_def ram_out_def)

lemma pr_request_split:
  obtains i s2 where "same_out s s2"
    "pr_request e_no s = (let e = entity_ptr s e_no; R = PR_B + ram_inw s PR_NextReq;
       s3 = (if eId (ents s e) mod 32 \<noteq> 0 then send_specific (R + REQ_Req) e_no e i s2
             else send_assign True (R + REQ_Req) (ram_inw s2 (R + REQ_Reference)) e s2)
     in ram_outw PR_NextReq (ram_inw s3 R) s3)"
proof -
  let ?e = "entity_ptr s e_no" and ?R = "PR_B + ram_inw s PR_NextReq"
  let ?x = "ents s ?e"
  obtain i len s1 where r: "(if \<not> (xtx_stream s (eId ?x) \<noteq> 0 \<and> eReq ?x = N_DATA) then fill_part (?R + REQ_P) ?e (eXCurrent ?x) 0 s
               else case cma_fill (xtx_stream s (eId ?x)) ?e (eXCurrent ?x) 0 s of
                 (i, data_length, s1) \<Rightarrow> (i, 0, ram_out_dw (xtx_stream s (eId ?x)) data_length s1)) = (i, len, s1)"
    by (metis prod_cases3)
  have "same_out s s1"
    using r same_out_fill [of s "?R + REQ_P" ?e "eXCurrent ?x" 0]
      same_out_cma [of s "xtx_stream s (eId ?x)" ?e "eXCurrent ?x" 0]
    by (auto split: if_splits prod.splits)
  then have "same_out s (ram_out (?R + REQ_ReqCh) (eReqCh ?x) (ram_out (?R + REQ_ReqId) (eId ?x) (ram_outw (?R + REQ_length) len s1)))"
    by simp
  then show thesis
    by (rule that) (simp only: pr_request_def Let_def r prod.case)
qed

lemma same_tab_request: "same_tab s (pr_request e_no s)"
proof -
  obtain i s2 where o: "same_out s s2"
    and r: "pr_request e_no s = (let e = entity_ptr s e_no; R = PR_B + ram_inw s PR_NextReq;
       s3 = (if eId (ents s e) mod 32 \<noteq> 0 then send_specific (R + REQ_Req) e_no e i s2
             else send_assign True (R + REQ_Req) (ram_inw s2 (R + REQ_Reference)) e s2)
     in ram_outw PR_NextReq (ram_inw s3 R) s3)" by (rule pr_request_split)
  have w: "same_tab s (ram_outw p v t) = same_tab s t" for p v t by (simp add: same_tab_def ram_outw_def)
  have a: "same_tab s (send_specific q n e i s2)" "same_tab s (send_assign b q f e s2)" for q n e b f
    using same_tab_trans [OF same_out_tab [OF o]] same_tab_specific same_tab_assign by blast+
  show ?thesis unfolding r Let_def w using a by (simp split: if_split)
qed

lemma same_out_request:
  assumes "eId (ents s (entity_ptr s e_no)) mod 32 \<noteq> 0" "eMInd (ents s (entity_ptr s e_no)) = 0"
  shows "same_out s (pr_request e_no s)"
proof -
  let ?e = "entity_ptr s e_no"
  obtain i s2 where o: "same_out s s2"
    and r: "pr_request e_no s = (let e = entity_ptr s e_no; R = PR_B + ram_inw s PR_NextReq;
       s3 = (if eId (ents s e) mod 32 \<noteq> 0 then send_specific (R + REQ_Req) e_no e i s2
             else send_assign True (R + REQ_Req) (ram_inw s2 (R + REQ_Reference)) e s2)
     in ram_outw PR_NextReq (ram_inw s3 R) s3)" by (rule pr_request_split)
  have "eMInd (ents s2 ?e) = 0" using o assms(2) by (simp add: same_out_def)
  then have "same_out s (send_specific q e_no ?e i s2)" for q
    using same_out_trans [OF o] same_out_specific by blast
  then show ?thesis unfolding r Let_def using assms(1) by simp
qed

lemma same_tab_ready: "same_tab s (snd (pr_ready s))" "xreq_rep (snd (pr_ready s)) xs = xreq_rep s xs"
  by (simp_all add: pr_ready_def Let_def same_tab_def ram_inc_def ram_out_def xreq_rep_def)

lemma pr_ready_frame [simp]: "ents (snd (pr_ready s)) = ents s" "e_tbl_e (snd (pr_ready s)) = e_tbl_e s"
  "look_req (snd (pr_ready s)) = look_req s"
  by (simp_all add: pr_ready_def Let_def ram_inc_def ram_out_def look_req_def)

text \<open>Only the last entity of a batch is checked for a request without return code. When the card
  takes two requests and the first is a \<open>UREMOVE\<close>, its \<open>Id\<close> and its entry in the table, which points
  to an entity its client has given up, stay in use.\<close>

theorem uremove_lost:
  assumes "xreq_rep s [a, b]" "fst (pr_ready s) = 2" "e_tbl_e s a \<noteq> 0" "e_tbl_e s b \<noteq> 0"
    "eReq (ents s (e_tbl_e s a)) = UREMOVE" "eId (ents s (e_tbl_e s a)) mod 32 \<noteq> 0" "eMInd (ents s (e_tbl_e s a)) = 0"
    "eReq (ents s (e_tbl_e s b)) \<noteq> UREMOVE"
  shows "xIdTable (pr_out s) = xIdTable s \<and> e_tbl_e (pr_out s) = e_tbl_e s"
proof -
  let ?s1 = "snd (pr_ready s)"
  let ?s2 = "pr_request a (next_req ?s1)"
  let ?s3 = "pr_request b (next_req ?s2)"
  have nr: "same_tab t (next_req t)" for t by (simp add: same_tab_def next_req_def Let_def)
  have r1: "xreq_rep ?s1 [a, b]" using assms(1) by (simp only: same_tab_ready)
  then have h1: "look_req ?s1 = a" "a \<noteq> 0" "b \<noteq> 0" using xreq_rep_head [OF r1] by (auto simp: xreq_rep_def)
  have r1': "xreq_rep (next_req ?s1) [b]" using next_req_rep [OF r1] by simp
  have "same_out (next_req ?s1) ?s2"
    by (rule same_out_request) (use assms(6,7) in \<open>simp_all add: entity_ptr_def\<close>)
  then have r2: "xreq_rep ?s2 [b]" "e_tbl_e ?s2 = e_tbl_e s"
    using r1' by (auto simp: same_out_def cong: xreq_rep_cong)
  then have h2: "look_req ?s2 = b" using xreq_rep_head [OF r2(1)] by simp
  have e: "entity_ptr (next_req ?s1) a = e_tbl_e s a" "entity_ptr (next_req ?s2) b = e_tbl_e s b"
    using r2(2) by (simp_all add: entity_ptr_def)
  have l: "pr_loop 2 0 0 ?s1 = (e_tbl_e s b, 2, ?s3)"
    using h1 h2 e assms(3,4) by (simp add: numeral_2_eq_2 Let_def)
  have "same_tab s ?s1" "same_tab ?s1 (next_req ?s1)" "same_tab (next_req ?s1) ?s2" "same_tab ?s2 (next_req ?s2)"
    "same_tab (next_req ?s2) ?s3"
    by (simp_all add: same_tab_ready nr same_tab_request)
  then have t: "same_tab s ?s3" using same_tab_trans by blast
  have "look_req s \<noteq> 0" using h1 by simp
  then have "pr_out s = uremove (e_tbl_e s b) (ram_out PR_ReqInput (ram_in ?s3 PR_ReqInput + 2) ?s3)"
  proof -
    have p: "pr_ready s = (2, ?s1)" using assms(2) by (metis prod.collapse)
    have n: "(2 :: nat) \<noteq> 0" by simp
    show ?thesis unfolding pr_out_def if_not_P [OF \<open>look_req s \<noteq> 0\<close>] by (subst p) (simp only: prod.case if_not_P [OF n] l)
  qed
  moreover have "eReq (ents ?s3 (e_tbl_e s b)) \<noteq> UREMOVE" using t assms(8) by (simp add: same_tab_def)
  ultimately show ?thesis using t by (simp add: uremove_def same_tab_def ram_out_def)
qed

lemma uremove_lost_witness:
  "let s = xdi0\<lparr>e_tbl_e := (\<lambda>_. 0)(1 := 100, 2 := 101), e_next := (\<lambda>_. 0)(1 := 2), xhead := 1, xtail := 2,
       ents := (\<lambda>_. entity0)(100 := entity0\<lparr>eReq := UREMOVE\<rparr>), xram := (\<lambda>_. 0)(7 := 2)\<rparr>
   in xIdTable (pr_out s) 0x21 = 1 \<and> e_tbl_e (pr_out s) 1 = 100"
proof -
  let ?s = "xdi0\<lparr>e_tbl_e := (\<lambda>_. 0)(1 := 100, 2 := 101), e_next := (\<lambda>_. 0)(1 := 2), xhead := 1, xtail := 2,
       ents := (\<lambda>_. entity0)(100 := entity0\<lparr>eReq := UREMOVE\<rparr>), xram := (\<lambda>_. 0)(7 := 2)\<rparr>"
  have "xreq_rep ?s [1, 2]" by (simp add: xreq_rep_def)
  moreover have "fst (pr_ready ?s) = 2" by (simp add: pr_ready_def ram_in_def Let_def)
  ultimately have "xIdTable (pr_out ?s) = xIdTable ?s \<and> e_tbl_e (pr_out ?s) = e_tbl_e ?s"
    by (rule uremove_lost) (simp_all add: xdi0_def entity0_def)
  then show ?thesis unfolding Let_def by (simp add: xdi0_def)
qed

end
