(* ===== verification/XdiInd.thy ===== *)
theory XdiInd
  imports XdiOut
begin

text \<open>
  The indication handler \<open>isdn_ind\<close> and the interrupt handlers \<open>pr_dpc\<close> and \<open>scom_dpc\<close> of
  \<open>kernel/di.c\<close>. An indication is first shown to the client (look ahead); the client refuses it,
  takes the data from the look ahead buffer, or provides receive buffers, which are then
  filled, over all indications of a chain of packets. The data lies in the shared memory, in
  another memory area of the card or in a DMA buffer of the host.
\<close>

datatype rx_src = Card_Buffer nat | Card_Area nat | Host_Area nat

fun src_bytes :: "rx_src \<Rightarrow> nat \<Rightarrow> nat \<Rightarrow> xdi \<Rightarrow> byte list" where
  "src_bytes (Card_Buffer rb) off n s = rd_bytes (xram s) (rb + 2 + off) n"
| "src_bytes (Card_Area p) off n s = rd_bytes (xram s) (p + off) n"
| "src_bytes (Host_Area d) off n s = rd_bytes (xhost s) (d + off) n"

section \<open>Indications\<close>

text \<open>One round of the copy loop ends with everything copied or the buffer full.\<close>

lemma min_ends:
  fixes a p :: nat
  assumes "a < 65536" "p < 65536" "c = nat (min (int a - int offset) (int p - int off) mod 65536)"
    "(offset + c) mod 65536 < a"
  shows "(off + c) mod 65536 = p"
proof -
  have c: "int c = min (int a - int offset) (int p - int off) mod 65536" using assms(3) by simp
  have u: "int ((x + c) mod 65536) = int y" if "int c = (int y - int x) mod 65536" "y < 65536" for x y
  proof -
    have "int ((x + c) mod 65536) = (int x + (int y - int x) mod 65536) mod 65536" using that(1) by (simp add: zmod_int)
    also have "\<dots> = int y mod 65536" by (simp add: mod_add_right_eq)
    finally show ?thesis using that(2) by simp
  qed
  show ?thesis
  proof (cases "int a - int offset \<le> int p - int off")
    case True
    then have "int c = (int a - int offset) mod 65536" using c by (simp add: min_def)
    from u [OF this assms(1)] assms(4) show ?thesis by simp
  next
    case False
    then have "int c = (int p - int off) mod 65536" using c by (simp add: min_def)
    from u [OF this assms(2)] show ?thesis by simp
  qed
qed

text \<open>The loop that copies \<open>avail\<close> bytes into the receive buffers.\<close>

function ind_copy :: "rx_src \<Rightarrow> 16 word \<Rightarrow> nat \<Rightarrow> nat \<Rightarrow> xdi \<Rightarrow> xdi" where
  "ind_copy src avail e offset s =
     (let x = ents s e;
          full = (eROffset x = unat (PLength (eR x (eRCurrent x))));
          cur = (if full then eRCurrent x + 1 else eRCurrent x);
          off = (if full then 0 else eROffset x);
          s1 = upd_ent e (\<lambda>x. x\<lparr>eRCurrent := cur, eROffset := off\<rparr>) s
      in if eRNum x \<le> cur then s1
         else
           let R = eR x cur;
               c = nat (min (int (unat avail) - int offset) (int (unat (PLength R)) - int off) mod 65536);
               s2 = (if bP R \<noteq> 0 then s1\<lparr>xhost := wr_bytes (xhost s1) (bP R + off) (src_bytes src offset c s1)\<rparr> else s1);
               s3 = upd_ent e (\<lambda>x. x\<lparr>eROffset := (off + c) mod 65536\<rparr>) s2;
               offset1 = (offset + c) mod 65536
           in if offset1 < unat avail then ind_copy src avail e offset1 s3 else s3)"
  by pat_completeness auto

termination
proof (relation "measure (\<lambda>(src, avail, e, offset, s). let x = ents s e in
    2 * (eRNum x - eRCurrent x) + (if eROffset x = unat (PLength (eR x (eRCurrent x))) then 0 else 1))", goal_cases)
  case 1
  show ?case by simp
next
  case (2 src avail e offset s x full cur off s1 R c s2 s3 offset1)
  have s2: "ents s2 = ents s1" unfolding 2(9) by simp
  have w: "unat avail < 65536" "unat (PLength R) < 65536"
    using unsigned_less [of avail] unsigned_less [of "PLength R"] by simp_all
  have oc: "(off + c) mod 65536 = unat (PLength R)"
    by (rule min_ends [OF w 2(8)]) (use 2(11,12) in simp)
  have e1: "ents s1 e = x\<lparr>eRCurrent := cur, eROffset := off\<rparr>" unfolding 2(5) 2(1) by (simp add: ents_upd_ent)
  have e: "ents s3 e = x\<lparr>eRCurrent := cur, eROffset := unat (PLength R)\<rparr>"
    unfolding 2(10) ents_upd_ent s2 e1 oc by simp
  have cur: "cur < eRNum x" using 2(6) by simp
  have m: "2 * (eRNum x - cur) <
      2 * (eRNum x - eRCurrent x) + (if eROffset x = unat (PLength (eR x (eRCurrent x))) then 0 else 1)"
    using 2(2,3) cur by (cases full) auto
  show ?case unfolding in_measure prod.case Let_def e using m 2(1,7) by simp
qed

declare ind_copy.simps [simp del]

text \<open>The look ahead: where the data lies, its length, and the entity prepared for the callback.\<close>

definition look_ahead :: "nat \<Rightarrow> nat \<Rightarrow> nat \<Rightarrow> nat \<Rightarrow> nat \<Rightarrow> xdi \<Rightarrow> rx_src \<times> nat \<times> xdi" where
  "look_ahead e Ind MInd MLength rb s =
     (let s1 = upd_ent e (\<lambda>x. x\<lparr>eComplete := (if Ind = eMInd x then 0 else 1), eInd := (if Ind = eMInd x then MInd else Ind),
                 eRLength := MLength\<rparr>) s;
          x = ents s1 e; st = xrx_stream s1 (eId x); dma = (xmisc s1 (eNo x) AND RX_DMA \<noteq> 0)
      in if st \<noteq> 0 \<or> dma then
           let src = (if dma then Host_Area (fst (diva_get_dma_map_entry (xdma s1) st) + 4) else Card_Area (st + 4));
               ml = (if dma then rd32 (xhost s1) (fst (diva_get_dma_map_entry (xdma s1) st)) else ram_in_dw s1 st) mod 65536;
               n = min ml 270
           in (src, ml, upd_ent e (\<lambda>x. x\<lparr>eRLength := ml, eComplete := (if n \<noteq> ml then 0 else 1),
                  eRBuffer := src_bytes src 0 n s1\<rparr>) s1)
         else (Card_Buffer rb, MLength, ram_look_ahead rb e s1))"

text \<open>The end of a packet: the length of the last buffer is set and the buffers used are counted.\<close>

definition finish_packet :: "nat \<Rightarrow> entity \<Rightarrow> entity" where
  "finish_packet Ind x =
     (let cur = (if eROffset x \<noteq> 0 then eRCurrent x + 1 else eRCurrent x)
      in x\<lparr>eR := (eR x)(eRCurrent x := (eR x (eRCurrent x))\<lparr>PLength := word_of_nat (eROffset x)\<rparr>),
           eRNum := cur mod 256, eRCurrent := 0xff, eInd := Ind, eComplete := 2\<rparr>)"

text \<open>The second part: copying into the buffers of the client; an \<open>Ind\<close> other than the code for more
  data ends the packet.\<close>

definition ind_deliver :: "(nat \<Rightarrow> xdi \<Rightarrow> xdi) \<Rightarrow> nat \<Rightarrow> rx_src \<Rightarrow> nat \<Rightarrow> nat \<Rightarrow> nat \<Rightarrow> xdi \<Rightarrow> nat \<times> xdi" where
  "ind_deliver cb Ind src ml rb e s =
     (if eRNR (ents s e) = 2 then
        (0, if Ind \<noteq> eMInd (ents s e) then upd_ent e (\<lambda>x. x\<lparr>eRCurrent := 0xff, eRNR := 0\<rparr>) s else s)
      else
        let avail = (case src of Card_Buffer rb \<Rightarrow> ram_inw s rb | _ \<Rightarrow> ml);
            s1 = ind_copy src (word_of_nat avail) e 0 s
        in (0, if Ind \<noteq> eMInd (ents s1 e) then
                 CALLBACK cb e (upd_ent e (finish_packet Ind) s1)
               else s1))"

definition isdn_ind ::
  "(nat \<Rightarrow> xdi \<Rightarrow> xdi) \<Rightarrow> nat \<Rightarrow> nat \<Rightarrow> nat \<Rightarrow> nat \<Rightarrow> nat \<Rightarrow> nat \<Rightarrow> xdi \<Rightarrow> nat \<times> xdi" where
  "isdn_ind cb Ind ID Ch rb MInd MLength s =
     (if xIdTable s ID = 0 then (2, s)
      else
        let e = entity_ptr s (xIdTable s ID); s1 = upd_ent e (\<lambda>x. x\<lparr>eIndCh := Ch\<rparr>) s
        in if eRCurrent (ents s1 e) = 0xff then
             case look_ahead e Ind MInd MLength rb s1 of (src, ml, s2) \<Rightarrow>
               let s3 = CALLBACK cb e (upd_ent e (\<lambda>x. x\<lparr>eRNum := 0\<rparr>) s2);
                   e = entity_ptr s3 (xIdTable s3 ID); x = ents s3 e
               in if eRNR x = 1 then (1, set_rnr e 0 s3)
                  else if eRNR x = 0 \<and> eRNum x = 0 then (0, s3)
                  else ind_deliver cb Ind src ml rb e (upd_ent e (\<lambda>x. x\<lparr>eRCurrent := 0, eROffset := 0\<rparr>) s3)
           else ind_deliver cb Ind (Card_Buffer rb) MLength rb e s1)"

section \<open>Interrupt handlers\<close>

abbreviation (input) PR_NextRc :: nat where "PR_NextRc \<equiv> 2"
abbreviation (input) PR_NextInd :: nat where "PR_NextInd \<equiv> 4"
abbreviation (input) PR_RcOutput :: nat where "PR_RcOutput \<equiv> 11"
abbreviation (input) PR_IndOutput :: nat where "PR_IndOutput \<equiv> 12"

text \<open>The return codes of the card; \<open>p\<close> is the address of the next \<open>RC\<close> buffer.\<close>

fun rc_loop :: "(nat \<Rightarrow> xdi \<Rightarrow> xdi) \<Rightarrow> nat \<Rightarrow> nat \<Rightarrow> xdi \<Rightarrow> xdi option" where
  "rc_loop cb 0 p s = Some s"
| "rc_loop cb (Suc n) p s =
     (let Rc = ram_in s (p + 2)
      in case (if Rc \<noteq> 0 then
                 map_option (\<lambda>(r, s1). ram_out (p + 2) 0 s1)
                   (isdn_rc cb Rc (ram_in s (p + 3)) (ram_in s (p + 4)) (ram_inw s (p + 6)) (ram_in_dw s (p + 8)) (ram_in_dw s (p + 12)) s)
               else Some s)
         of None \<Rightarrow> None | Some s1 \<Rightarrow> rc_loop cb n (PR_B + ram_inw s1 p) s1)"

text \<open>The indications: \<open>rnr\<close> is the \<open>Id\<close> whose client refused the last one.\<close>

fun ind_loop :: "(nat \<Rightarrow> xdi \<Rightarrow> xdi) \<Rightarrow> nat \<Rightarrow> nat \<Rightarrow> nat \<Rightarrow> xdi \<Rightarrow> xdi" where
  "ind_loop cb 0 rnr p s = s"
| "ind_loop cb (Suc n) rnr p s =
     (if rnr \<noteq> 0 \<and> rnr = ram_in s (p + 3) then
        let s1 = ram_out (p + 10) 1 (ram_out (p + 2) 0 s) in ind_loop cb n rnr (PR_B + ram_inw s1 p) s1
      else
        let Ind = ram_in s (p + 2)
        in if Ind \<noteq> 0 then
             case isdn_ind cb Ind (ram_in s (p + 3)) (ram_in s (p + 4)) (p + 16) (ram_in s (p + 5)) (ram_inw s (p + 6)) s of
               (c, s1) \<Rightarrow>
                 if c = 1 then
                   let s2 = ram_out (p + 2) 0 s1; r = ram_in s2 (p + 3); s3 = ram_out (p + 10) 1 s2
                   in ind_loop cb n r (PR_B + ram_inw s3 p) s3
                 else ind_loop cb n 0 (PR_B + ram_inw s1 p) s1
           else ind_loop cb n rnr (PR_B + ram_inw s p) s)"

definition pr_dpc :: "(nat \<Rightarrow> xdi \<Rightarrow> xdi) \<Rightarrow> xdi \<Rightarrow> (bool \<times> xdi) option" where
  "pr_dpc cb s =
     (let Count = ram_in s PR_RcOutput
      in case (if Count \<noteq> 0 then
                 map_option (\<lambda>s1. pr_out (ram_out PR_RcOutput 0 s1)) (rc_loop cb Count (PR_B + ram_inw s PR_NextRc) s)
               else Some s)
         of None \<Rightarrow> None
          | Some s1 \<Rightarrow>
              let Count = ram_in s1 PR_IndOutput
              in Some (False, if Count \<noteq> 0 then ram_out PR_IndOutput 0 (ind_loop cb Count 0 (PR_B + ram_inw s1 PR_NextInd) s1)
                              else s1))"

definition pr_test_int :: "xdi \<Rightarrow> nat" where
  "pr_test_int s = ram_in s 0x3ffc"

definition pr_clear_int :: "xdi \<Rightarrow> xdi" where
  "pr_clear_int s = ram_out 0x3ffc 0 s"

text \<open>The single register interface: a return code, or else an indication; true means that it is
  not for this driver.\<close>

definition scom_dpc :: "(nat \<Rightarrow> xdi \<Rightarrow> xdi) \<Rightarrow> xdi \<Rightarrow> (bool \<times> xdi) option" where
  "scom_dpc cb s =
     (if ram_in s 2 \<noteq> 0 then
        map_option (\<lambda>(c, s1).
          if c = 0 then (False, scom_out (ram_out 2 0 s1))
          else if c = 1 then (False, scom_out (ram_out 2 0 (ram_out 0 0 s1)))
          else if c = 2 then (True, s1)
          else (False, scom_out s1))
          (isdn_rc cb (ram_in s 2) (ram_in s 3) (ram_in s 11) 0 0 0 s)
      else if ram_in s 4 \<noteq> 0 then
        (case isdn_ind cb (ram_in s 4) (ram_in s 5) (ram_in s 12) 304 (ram_in s 13) (ram_inw s 14) s of
           (c, s1) \<Rightarrow> Some (if c = 0 then (False, ram_out 4 0 s1)
                            else if c = 1 then (False, ram_out 7 1 s1)
                            else if c = 2 then (True, s1) else (False, s1)))
      else Some (False, s))"

definition scom_test_int :: "xdi \<Rightarrow> nat" where
  "scom_test_int s = ram_in s 0x3fe"

definition scom_clear_int :: "xdi \<Rightarrow> xdi" where
  "scom_clear_int s = ram_out 0x3fe 0 s"

definition quadro_clear_int :: "xdi \<Rightarrow> xdi" where
  "quadro_clear_int s = ram_out 0x401 0 (ram_out 0x3fe 0 s)"

section \<open>The received data\<close>

abbreviation (input) plen :: "(nat \<Rightarrow> buffers) \<Rightarrow> nat \<Rightarrow> nat" where "plen R j \<equiv> unat (PLength (R j))"

text \<open>What the buffers before \<open>cur\<close> and the first \<open>off\<close> bytes of buffer \<open>cur\<close> hold, and the room left.\<close>

definition rx_stored :: "mem \<Rightarrow> (nat \<Rightarrow> buffers) \<Rightarrow> nat \<Rightarrow> nat \<Rightarrow> byte list" where
  "rx_stored h R cur off = concat (map (\<lambda>j. rd_bytes h (bP (R j)) (plen R j)) [0..<cur]) @ rd_bytes h (bP (R cur)) off"

definition rx_room :: "(nat \<Rightarrow> buffers) \<Rightarrow> nat \<Rightarrow> nat \<Rightarrow> nat \<Rightarrow> nat" where
  "rx_room R N cur off = sum_list (map (plen R) [cur..<N]) - off"

definition rx_disjoint :: "(nat \<Rightarrow> buffers) \<Rightarrow> nat \<Rightarrow> bool" where
  "rx_disjoint R N \<longleftrightarrow> (\<forall>i < N. bP (R i) \<noteq> 0 \<and> (\<forall>j < N. i \<noteq> j \<longrightarrow>
     bP (R i) + plen R i \<le> bP (R j) \<or> bP (R j) + plen R j \<le> bP (R i)))"

lemma rx_stored_advance: "rx_stored h R (Suc cur) 0 = rx_stored h R cur (plen R cur)"
  by (simp add: rx_stored_def rd_bytes_def)

lemma rx_room_advance: "cur < N \<Longrightarrow> rx_room R N (Suc cur) 0 = rx_room R N cur (plen R cur)"
  by (simp add: rx_room_def upt_conv_Cons)

lemma rx_room_part: "cur < N \<Longrightarrow> off \<le> plen R cur \<Longrightarrow> plen R cur - off \<le> rx_room R N cur off"
  by (simp add: rx_room_def upt_conv_Cons)

lemma rx_room_sub: "rx_room R N cur (off + c) = rx_room R N cur off - c"
  by (simp add: rx_room_def)

lemma rx_stored_write:
  assumes "rx_disjoint R N" "cur < N" "off + length xs \<le> plen R cur"
  shows "rx_stored (wr_bytes h (bP (R cur) + off) xs) R cur (off + length xs) = rx_stored h R cur off @ xs"
proof -
  let ?h = "wr_bytes h (bP (R cur) + off) xs"
  have "rd_bytes ?h (bP (R j)) (plen R j) = rd_bytes h (bP (R j)) (plen R j)" if "j < cur" for j
  proof (rule rd_bytes_cong)
    fix i assume i: "bP (R j) \<le> i" "i < bP (R j) + plen R j"
    have "bP (R j) + plen R j \<le> bP (R cur) \<or> bP (R cur) + plen R cur \<le> bP (R j)"
      using assms(1,2) that by (simp add: rx_disjoint_def)
    then show "?h i = h i" using i assms(3) by (intro wr_bytes_other) linarith
  qed
  then have "map (\<lambda>j. rd_bytes ?h (bP (R j)) (plen R j)) [0..<cur] = map (\<lambda>j. rd_bytes h (bP (R j)) (plen R j)) [0..<cur]"
    by simp
  note m = arg_cong [OF this, of concat]
  show ?thesis unfolding rx_stored_def m rd_wr_behind by simp
qed

lemma src_bytes_append: "src_bytes src off (a + b) s = src_bytes src off a s @ src_bytes src (off + a) b s"
  by (cases src) (simp_all add: rd_bytes_append add.assoc)

lemma length_src_bytes [simp]: "length (src_bytes src off n s) = n"
  by (cases src) simp_all

lemma src_bytes_none [simp]: "src_bytes src off 0 s = []"
  by (cases src) (simp_all add: rd_bytes_def)

fun src_card :: "rx_src \<Rightarrow> bool" where
  "src_card (Host_Area d) = False"
| "src_card _ = True"

lemma src_bytes_card: "src_card src \<Longrightarrow> xram s' = xram s \<Longrightarrow> src_bytes src off n s' = src_bytes src off n s"
  by (cases src) simp_all

text \<open>The effect of the copy loop.\<close>

definition ind_copied :: "rx_src \<Rightarrow> nat \<Rightarrow> nat \<Rightarrow> nat \<Rightarrow> xdi \<Rightarrow> xdi \<Rightarrow> bool" where
  "ind_copied src avail e offset s s' \<longleftrightarrow>
     (let x = ents s e; x' = ents s' e; room = rx_room (eR x) (eRNum x) (eRCurrent x) (eROffset x)
      in eR x' = eR x \<and> eRNum x' = eRNum x \<and> eMInd x' = eMInd x \<and> xram s' = xram s \<and>
         eCallback x' = eCallback x \<and> xcalls s' = xcalls s \<and> eRCurrent x' \<le> eRNum x \<and>
         eROffset x' \<le> plen (eR x) (eRCurrent x') \<and>
         rx_stored (xhost s') (eR x) (eRCurrent x') (eROffset x') =
           rx_stored (xhost s) (eR x) (eRCurrent x) (eROffset x) @ src_bytes src offset (min (avail - offset) room) s \<and>
         (room < avail - offset \<longrightarrow> eRCurrent x' = eRNum x \<and> eROffset x' = 0))"

lemma ind_copy_copied:
  "src_card src \<Longrightarrow> rx_disjoint (eR (ents s e)) (eRNum (ents s e)) \<Longrightarrow> eRCurrent (ents s e) < eRNum (ents s e) \<Longrightarrow>
    eROffset (ents s e) \<le> plen (eR (ents s e)) (eRCurrent (ents s e)) \<Longrightarrow> offset \<le> unat avail \<Longrightarrow>
    ind_copied src (unat avail) e offset s (ind_copy src avail e offset s)"
proof (induction src avail e offset s rule: ind_copy.induct)
  case (1 src avail e offset s)
  define x where "x = ents s e"
  define full where "full = (eROffset x = plen (eR x) (eRCurrent x))"
  define cur where "cur = (if full then eRCurrent x + 1 else eRCurrent x)"
  define off where "off = (if full then 0 else eROffset x)"
  define s1 where "s1 = upd_ent e (\<lambda>x. x\<lparr>eRCurrent := cur, eROffset := off\<rparr>) s"
  let ?R = "eR x" and ?N = "eRNum x"
  note P = 1(3-6) [folded x_def]
  have x1: "ents s1 e = x\<lparr>eRCurrent := cur, eROffset := off\<rparr>" by (simp add: s1_def x_def ents_upd_ent)
  have h1: "xhost s1 = xhost s" "xram s1 = xram s" "xcalls s1 = xcalls s" by (simp_all add: s1_def upd_ent_def)
  have st1: "rx_stored (xhost s) ?R cur off = rx_stored (xhost s) ?R (eRCurrent x) (eROffset x)"
    using rx_stored_advance [of "xhost s" ?R "eRCurrent x"] by (simp add: cur_def off_def full_def)
  have rm1: "rx_room ?R ?N cur off = rx_room ?R ?N (eRCurrent x) (eROffset x)"
    using rx_room_advance [OF P(2), of ?R] by (simp add: cur_def off_def full_def)
  have unf: "ind_copy src avail e offset s = (if ?N \<le> cur then s1 else
           let R = eR x cur;
               c = nat (min (int (unat avail) - int offset) (int (unat (PLength R)) - int off) mod 65536);
               s2 = (if bP R \<noteq> 0 then s1\<lparr>xhost := wr_bytes (xhost s1) (bP R + off) (src_bytes src offset c s1)\<rparr> else s1);
               s3 = upd_ent e (\<lambda>x. x\<lparr>eROffset := (off + c) mod 65536\<rparr>) s2;
               offset1 = (offset + c) mod 65536
           in if offset1 < unat avail then ind_copy src avail e offset1 s3 else s3)"
    by (simp only: ind_copy.simps [of src avail e offset s] Let_def x_def [symmetric] full_def [symmetric]
        cur_def [symmetric] off_def [symmetric] s1_def [symmetric])
  show ?case
  proof (cases "?N \<le> cur")
    case True
    then have c: "cur = ?N" "off = 0" using P(2) by (auto simp: cur_def off_def split: if_splits)
    then have "rx_room ?R ?N (eRCurrent x) (eROffset x) = 0" unfolding rm1 [symmetric] by (simp add: rx_room_def)
    moreover have "ind_copy src avail e offset s = s1" unfolding unf using True by simp
    ultimately show ?thesis using st1 c src_bytes_none [of src offset s]
      unfolding ind_copied_def Let_def x_def [symmetric] by (simp add: x1 h1)
  next
    case go: False
    define R where "R = eR x cur"
    define c where "c = nat (min (int (unat avail) - int offset) (int (unat (PLength R)) - int off) mod 65536)"
    define s2 where "s2 = (if bP R \<noteq> 0 then s1\<lparr>xhost := wr_bytes (xhost s1) (bP R + off) (src_bytes src offset c s1)\<rparr> else s1)"
    define s3 where "s3 = upd_ent e (\<lambda>x. x\<lparr>eROffset := (off + c) mod 65536\<rparr>) s2"
    have w: "unat avail < 65536" "unat (PLength R) < 65536"
      using unsigned_less [of avail] unsigned_less [of "PLength R"] by simp_all
    have lo: "off \<le> unat (PLength R)" using P(3) go by (auto simp: off_def cur_def full_def R_def split: if_splits)
    have c: "c = min (unat avail - offset) (unat (PLength R) - off)"
    proof -
      have "min (int (unat avail) - int offset) (int (unat (PLength R)) - int off) = int (min (unat avail - offset) (unat (PLength R) - off))"
        using P(4) lo by linarith
      moreover have "min (unat avail - offset) (unat (PLength R) - off) < 65536" using w by linarith
      ultimately show ?thesis unfolding c_def by simp
    qed
    have oc: "(off + c) mod 65536 = off + c" "(offset + c) mod 65536 = offset + c" using c w lo P(4) by simp_all
    have unf3: "ind_copy src avail e offset s = (if offset + c < unat avail then ind_copy src avail e (offset + c) s3 else s3)"
      unfolding unf if_not_P [OF go] Let_def R_def [symmetric] c_def [symmetric] s2_def [symmetric] s3_def [symmetric] oc(2) ..
    have b: "bP R \<noteq> 0" using P(1) go by (simp add: rx_disjoint_def R_def)
    have x3: "ents s3 e = x\<lparr>eRCurrent := cur, eROffset := off + c\<rparr>"
      using b x1 by (simp add: s3_def s2_def ents_upd_ent oc)
    have h3: "xhost s3 = wr_bytes (xhost s) (bP R + off) (src_bytes src offset c s)" "xram s3 = xram s"
      "xcalls s3 = xcalls s"
      using b h1 src_bytes_card [OF 1(2) h1(2)] by (simp_all add: s3_def s2_def upd_ent_def)
    have "off + c \<le> plen ?R cur" using c lo by (simp add: R_def)
    note oR = this
    then have st3: "rx_stored (xhost s3) ?R cur (off + c) = rx_stored (xhost s) ?R (eRCurrent x) (eROffset x) @ src_bytes src offset c s"
      using rx_stored_write [OF P(1), of cur off "src_bytes src offset c s" "xhost s"] go st1 by (simp add: h3 R_def)
    define room where "room = rx_room ?R ?N (eRCurrent x) (eROffset x)"
    have rm3: "rx_room ?R ?N cur (off + c) = room - c" unfolding room_def rm1 [symmetric] by (rule rx_room_sub)
    have cr: "c \<le> room" using rx_room_part [of cur ?N off ?R] go lo c unfolding room_def rm1 [symmetric] by (simp add: R_def)
    show ?thesis
    proof (cases "offset + c < unat avail")
      case True
      note IH = 1(1) [OF x_def full_def cur_def off_def s1_def go R_def c_def s2_def s3_def refl, unfolded oc(2), OF True 1(2)]
      have "ind_copied src (unat avail) e (offset + c) s3 (ind_copy src avail e (offset + c) s3)"
        by (rule IH) (use P(1) go True \<open>off + c \<le> plen ?R cur\<close> in \<open>simp_all add: x3\<close>)
      note I = this [unfolded ind_copied_def Let_def x3 room_def, simplified, unfolded rm3 st3]
      have a: "min (unat avail - offset) room = c + min (unat avail - (offset + c)) (room - c)" using cr True by linarith
      have s: "src_bytes src (offset + c) n s3 = src_bytes src (offset + c) n s" for n
        by (rule src_bytes_card [OF 1(2) h3(2)])
      have r: "room < unat avail - offset \<longleftrightarrow> room - c < unat avail - (offset + c)" using cr True by linarith
      show ?thesis unfolding unf3 if_P [OF True] ind_copied_def Let_def x_def [symmetric] room_def [symmetric] a src_bytes_append r
        using I by (simp add: s h3)
    next
      case False
      then have n: "min (unat avail - offset) room = c" using c cr P(4) by linarith
      then have "\<not> room < unat avail - offset" using cr c False P(4) by linarith
      then show ?thesis using st3 n unfolding unf3 if_not_P [OF False] ind_copied_def Let_def x_def [symmetric] room_def [symmetric]
        using go oR by (simp add: x3 h3)
    qed
  qed
qed

text \<open>The data a client finds in its buffers.\<close>

definition client_data :: "mem \<Rightarrow> entity \<Rightarrow> byte list" where
  "client_data h x = concat (map (\<lambda>j. rd_bytes h (bP (eR x j)) (plen (eR x) j)) [0..<eRNum x])"

lemma finish_packet_data:
  assumes "eRCurrent x < 255" "eROffset x < 65536"
  shows "client_data h (finish_packet Ind x) = rx_stored h (eR x) (eRCurrent x) (eROffset x)"
proof -
  let ?R = "(eR x)(eRCurrent x := (eR x (eRCurrent x))\<lparr>PLength := word_of_nat (eROffset x)\<rparr>)"
  have l: "plen ?R (eRCurrent x) = eROffset x" using assms(2) by (simp add: unat_of_nat)
  have m: "map (\<lambda>j. rd_bytes h (bP (?R j)) (plen ?R j)) [0..<eRCurrent x] =
      map (\<lambda>j. rd_bytes h (bP (eR x j)) (plen (eR x) j)) [0..<eRCurrent x]" by simp
  show ?thesis
  proof (cases "eROffset x = 0")
    case True
    then have f: "eR (finish_packet Ind x) = ?R" "eRNum (finish_packet Ind x) = eRCurrent x"
      using assms(1) by (simp_all add: finish_packet_def Let_def)
    have z: "rd_bytes h q (eROffset x) = []" for q using True by (simp add: rd_bytes_def)
    show ?thesis unfolding client_data_def rx_stored_def f m z by simp
  next
    case False
    then have f: "eR (finish_packet Ind x) = ?R" "eRNum (finish_packet Ind x) = Suc (eRCurrent x)"
      using assms(1) by (simp_all add: finish_packet_def Let_def)
    have b: "bP (?R (eRCurrent x)) = bP (eR x (eRCurrent x))" by simp
    show ?thesis unfolding client_data_def rx_stored_def f upt_Suc_append [OF le0] map_append m
      by (simp only: concat_append list.map concat.simps append_Nil2 l b)
  qed
qed

lemma ind_deliver_copied:
  assumes "eRNR (ents s e) \<noteq> 2" "rx_disjoint (eR (ents s e)) (eRNum (ents s e))" "eRCurrent (ents s e) < eRNum (ents s e)"
    "eROffset (ents s e) \<le> plen (eR (ents s e)) (eRCurrent (ents s e))"
  obtains s1 where "ind_copied (Card_Buffer rb) (ram_inw s rb) e 0 s s1"
    "ind_deliver cb Ind (Card_Buffer rb) ml q e s =
       (0, if Ind \<noteq> eMInd (ents s e) then CALLBACK cb e (upd_ent e (finish_packet Ind) s1) else s1)"
proof
  let ?s1 = "ind_copy (Card_Buffer rb) (word_of_nat (ram_inw s rb)) e 0 s"
  have "unat (word_of_nat (ram_inw s rb) :: 16 word) = ram_inw s rb"
    using rd16_bound [of "xram s" rb] by (simp add: ram_inw_def unat_of_nat)
  then show c: "ind_copied (Card_Buffer rb) (ram_inw s rb) e 0 s ?s1"
    using ind_copy_copied [of "Card_Buffer rb" s e 0 "word_of_nat (ram_inw s rb)"] assms(2-4) by simp
  then have "eMInd (ents ?s1 e) = eMInd (ents s e)" by (simp add: ind_copied_def Let_def)
  then show "ind_deliver cb Ind (Card_Buffer rb) ml q e s =
       (0, if Ind \<noteq> eMInd (ents s e) then CALLBACK cb e (upd_ent e (finish_packet Ind) ?s1) else ?s1)"
    using assms(1) by (simp add: ind_deliver_def Let_def)
qed

text \<open>C2: the last indication of a packet calls the client once, and what the client then finds in its
  receive buffers is what the earlier indications of the packet stored, followed by the data of
  this one, in order and without a gap, if the buffers are large enough.\<close>

theorem packet_received:
  assumes "eRNR (ents s e) \<noteq> 2" "rx_disjoint (eR (ents s e)) (eRNum (ents s e))" "eRCurrent (ents s e) < eRNum (ents s e)"
    "eROffset (ents s e) \<le> plen (eR (ents s e)) (eRCurrent (ents s e))" "eRNum (ents s e) < 255"
    "e \<noteq> 0" "eCallback (ents s e)" "Ind \<noteq> eMInd (ents s e)"
    "ram_inw s rb \<le> rx_room (eR (ents s e)) (eRNum (ents s e)) (eRCurrent (ents s e)) (eROffset (ents s e))"
  shows "\<exists>s2 y. ind_deliver cb Ind (Card_Buffer rb) ml q e s = (0, cb e s2) \<and> xcalls s2 = xcalls s @ [(e, y)] \<and>
    client_data (xhost s2) y =
      rx_stored (xhost s) (eR (ents s e)) (eRCurrent (ents s e)) (eROffset (ents s e)) @ rd_bytes (xram s) (rb + 2) (ram_inw s rb)"
proof -
  obtain s1 where c: "ind_copied (Card_Buffer rb) (ram_inw s rb) e 0 s s1"
    and d: "ind_deliver cb Ind (Card_Buffer rb) ml q e s =
       (0, if Ind \<noteq> eMInd (ents s e) then CALLBACK cb e (upd_ent e (finish_packet Ind) s1) else s1)"
    using ind_deliver_copied [OF assms(1-4)] by metis
  note C = c [unfolded ind_copied_def Let_def]
  let ?y = "finish_packet Ind (ents s1 e)"
  let ?s2 = "(upd_ent e (finish_packet Ind) s1)\<lparr>xcalls := xcalls s1 @ [(e, ?y)]\<rparr>"
  have cb: "eCallback ?y" using C assms(7) by (simp add: finish_packet_def Let_def)
  have "CALLBACK cb e (upd_ent e (finish_packet Ind) s1) = cb e ?s2"
    using assms(6) cb by (simp add: CALLBACK_def ents_upd_ent)
  then have "ind_deliver cb Ind (Card_Buffer rb) ml q e s = (0, cb e ?s2)" using d assms(8) by simp
  moreover have "xcalls ?s2 = xcalls s @ [(e, ?y)]" using C by simp
  moreover have "client_data (xhost ?s2) ?y =
      rx_stored (xhost s) (eR (ents s e)) (eRCurrent (ents s e)) (eROffset (ents s e)) @ rd_bytes (xram s) (rb + 2) (ram_inw s rb)"
  proof -
    have r: "eRCurrent (ents s1 e) < 255" using C assms(5) by linarith
    have "plen (eR (ents s e)) (eRCurrent (ents s1 e)) < 65536"
      using unsigned_less [of "PLength (eR (ents s e) (eRCurrent (ents s1 e)))"] by simp
    then have o: "eROffset (ents s1 e) < 65536" using C by linarith
    have "xhost ?s2 = xhost s1" by (simp add: upd_ent_def)
    then show ?thesis using finish_packet_data [OF r o, of "xhost s1" Ind] C assms(9) by (simp add: min_absorb1)
  qed
  ultimately show ?thesis by blast
qed

text \<open>When the last indication of a packet brings more data than the buffers take, the loop stops
  behind the last buffer, but the length of that entry is still set: the descriptor behind the
  array of the client is overwritten.\<close>

theorem packet_too_long:
  assumes "eRNR (ents s e) \<noteq> 2" "rx_disjoint (eR (ents s e)) (eRNum (ents s e))" "eRCurrent (ents s e) < eRNum (ents s e)"
    "eROffset (ents s e) \<le> plen (eR (ents s e)) (eRCurrent (ents s e))" "e \<noteq> 0" "eCallback (ents s e)"
    "Ind \<noteq> eMInd (ents s e)"
    "rx_room (eR (ents s e)) (eRNum (ents s e)) (eRCurrent (ents s e)) (eROffset (ents s e)) < ram_inw s rb"
  shows "\<exists>s2 y. ind_deliver cb Ind (Card_Buffer rb) ml q e s = (0, cb e s2) \<and> xcalls s2 = xcalls s @ [(e, y)] \<and>
    PLength (eR y (eRNum (ents s e))) = 0"
proof -
  obtain s1 where c: "ind_copied (Card_Buffer rb) (ram_inw s rb) e 0 s s1"
    and d: "ind_deliver cb Ind (Card_Buffer rb) ml q e s =
       (0, if Ind \<noteq> eMInd (ents s e) then CALLBACK cb e (upd_ent e (finish_packet Ind) s1) else s1)"
    using ind_deliver_copied [OF assms(1-4)] by metis
  note C = c [unfolded ind_copied_def Let_def]
  let ?y = "finish_packet Ind (ents s1 e)"
  let ?s2 = "(upd_ent e (finish_packet Ind) s1)\<lparr>xcalls := xcalls s1 @ [(e, ?y)]\<rparr>"
  have cb: "eCallback ?y" using C assms(6) by (simp add: finish_packet_def Let_def)
  have "CALLBACK cb e (upd_ent e (finish_packet Ind) s1) = cb e ?s2"
    using assms(5) cb by (simp add: CALLBACK_def ents_upd_ent)
  then have "ind_deliver cb Ind (Card_Buffer rb) ml q e s = (0, cb e ?s2)" using d assms(7) by simp
  moreover have "xcalls ?s2 = xcalls s @ [(e, ?y)]" using C by simp
  moreover have "eRCurrent (ents s1 e) = eRNum (ents s e)" "eROffset (ents s1 e) = 0" using C assms(8) by simp_all
  then have "PLength (eR ?y (eRNum (ents s e))) = 0" by (simp add: finish_packet_def Let_def)
  ultimately show ?thesis by blast
qed

text \<open>A client with two receive buffers of three bytes, and five bytes in the card.\<close>

definition xdi_rx :: xdi where
  "xdi_rx = xdi0\<lparr>ents := (\<lambda>_. entity0\<lparr>eR := (\<lambda>j. \<lparr>PLength = 3, bP = 1000 + 10 * j\<rparr>), eRNum := 2, eRCurrent := 0, eMInd := N_MDATA\<rparr>),
     xram := (\<lambda>_. 0)(16 := 5, 18 := 1, 19 := 2, 20 := 3, 21 := 4, 22 := 5)\<rparr>"

lemma xdi_rx_simps:
  "eRNR (ents xdi_rx 100) = 0" "eRCurrent (ents xdi_rx 100) = 0" "eRNum (ents xdi_rx 100) = 2" "eROffset (ents xdi_rx 100) = 0"
  "eCallback (ents xdi_rx 100)" "eMInd (ents xdi_rx 100) = N_MDATA" "PLength (eR (ents xdi_rx 100) j) = 3"
  "rx_disjoint (eR (ents xdi_rx 100)) (eRNum (ents xdi_rx 100))"
  "rx_room (eR (ents xdi_rx 100)) (eRNum (ents xdi_rx 100)) (eRCurrent (ents xdi_rx 100)) (eROffset (ents xdi_rx 100)) = 6"
  "ram_inw xdi_rx 16 = 5" "ram_inw (xdi_rx\<lparr>xram := (\<lambda>_. 7)\<rparr>) 16 = 1799"
proof -
  have "[0..<2] = [0, 1 :: nat]" by (simp add: upt_conv_Cons)
  then show "rx_room (eR (ents xdi_rx 100)) (eRNum (ents xdi_rx 100)) (eRCurrent (ents xdi_rx 100)) (eROffset (ents xdi_rx 100)) = 6"
    by (simp add: xdi_rx_def xdi0_def entity0_def rx_room_def)
qed (auto simp: xdi_rx_def xdi0_def entity0_def rx_disjoint_def ram_inw_def rd16_def)

lemma packet_received_witness:
  "\<exists>s2 y. ind_deliver next_request N_DATA (Card_Buffer 16) 0 16 100 xdi_rx = (0, next_request 100 s2) \<and>
    xcalls s2 = xcalls xdi_rx @ [(100, y)] \<and>
    client_data (xhost s2) y = rx_stored (xhost xdi_rx) (eR (ents xdi_rx 100)) 0 0 @ rd_bytes (xram xdi_rx) 18 5"
proof -
  note s = xdi_rx_simps
  have "\<exists>s2 y. ind_deliver next_request N_DATA (Card_Buffer 16) 0 16 100 xdi_rx = (0, next_request 100 s2) \<and>
    xcalls s2 = xcalls xdi_rx @ [(100, y)] \<and>
    client_data (xhost s2) y = rx_stored (xhost xdi_rx) (eR (ents xdi_rx 100)) (eRCurrent (ents xdi_rx 100)) (eROffset (ents xdi_rx 100)) @
      rd_bytes (xram xdi_rx) (16 + 2) (ram_inw xdi_rx 16)"
    by (rule packet_received) (use s in simp_all)
  then show ?thesis by (simp add: s)
qed

lemma packet_too_long_witness:
  "\<exists>s2 y. ind_deliver next_request N_DATA (Card_Buffer 16) 0 16 100 (xdi_rx\<lparr>xram := (\<lambda>_. 7)\<rparr>) = (0, next_request 100 s2) \<and>
    xcalls s2 = xcalls xdi_rx @ [(100, y)] \<and> PLength (eR y 2) = 0"
proof -
  note s = xdi_rx_simps
  let ?s = "xdi_rx\<lparr>xram := (\<lambda>_. 7)\<rparr>"
  have e: "ents ?s = ents xdi_rx" "xcalls ?s = xcalls xdi_rx" by simp_all
  have "\<exists>s2 y. ind_deliver next_request N_DATA (Card_Buffer 16) 0 16 100 ?s = (0, next_request 100 s2) \<and>
    xcalls s2 = xcalls ?s @ [(100, y)] \<and> PLength (eR y (eRNum (ents ?s 100))) = 0"
    by (rule packet_too_long) (use s in \<open>simp_all add: e\<close>)
  then show ?thesis by (simp only: e s)
qed

end
