(* ===== verification/UmProxy.thy ===== *)
theory UmProxy
  imports CBase
begin

text \<open>
  Adapters served by a user mode process (\<open>kernel/um_idi.c\<close>): the process reads the requests of the
  entities of the adapter and writes return codes and indications for them. A request is noted in
  \<open>pending_requests_q\<close>, taken over by the next read into a proxy entity and queued there, and
  handed to the process one by one.

  Entities of clients and proxy entities are addresses, \<open>0\<close> is the null pointer; the queues of
  proxy entities are the lists of their elements (what \<open>DList\<close> shows of the operations of
  \<open>kernel/dlist.c\<close>). \<open>heap\<close> holds the proxy entities that are allocated; the allocator \<open>malloc\<close>
  is a parameter. Callbacks of clients are recorded in \<open>ucalls\<close> with the entity as the client
  sees it; a client that sends a request from its callback calls \<open>diva_um_proxy_user_request\<close>
  later. Locks and the wake up of the process are left out.
\<close>

abbreviation (input) MAX_PENDING :: nat where "MAX_PENDING \<equiv> 256"
abbreviation (input) REQ_DATA_SIZE :: nat where "REQ_DATA_SIZE \<equiv> 2152"
abbreviation (input) REQ_HDR_SIZE :: nat where "REQ_HDR_SIZE \<equiv> 8"
abbreviation (input) LOOK_AHEAD_SIZE :: nat where "LOOK_AHEAD_SIZE \<equiv> 270"
abbreviation (input) UM_REMOVE :: nat where "UM_REMOVE \<equiv> 0xff"
abbreviation (input) UM_ASSIGN_RC :: nat where "UM_ASSIGN_RC \<equiv> 0xe0"
abbreviation (input) UM_ASSIGN_OK :: nat where "UM_ASSIGN_OK \<equiv> 0xef"
abbreviation (input) RC_WRONG_COMMAND :: nat where "RC_WRONG_COMMAND \<equiv> 2"
abbreviation (input) RC_WRONG_ID :: nat where "RC_WRONG_ID \<equiv> 3"
abbreviation (input) RC_OUT_OF_RESOURCES :: nat where "RC_OUT_OF_RESOURCES \<equiv> 7"

section \<open>State\<close>

text \<open>A buffer of a client for received data: its length, whether its pointer is null, and the
  bytes it holds. A send buffer is its bytes, \<open>None\<close> for a null pointer.\<close>

record rx_buffer =
  rb_PLength :: nat
  rb_null :: bool
  rb_bytes :: "byte list"

record um_entity =
  uReq :: nat
  uReqCh :: nat
  uId :: nat
  uX :: "byte list option list"
  uRc :: nat
  uRcCh :: nat
  uNo :: nat
  uInd :: nat
  uIndCh :: nat
  ucomplete :: nat
  uRLength :: nat
  uRBuffer :: "byte list"
  uRNR :: nat
  uRNum :: nat
  uR :: "rx_buffer list"

record proxy_entity =
  pu_e :: nat
  request_pending :: bool
  assign_pending :: bool
  remove_pending :: bool
  hdr_Id :: nat
  hdr_Req :: nat
  hdr_Ch :: nat
  hdr_data :: "byte list"

record proxy =
  registered :: bool
  max_entities :: nat
  nr_entities :: nat
  entity_map :: "nat \<Rightarrow> nat"
  pending_requests_q :: "nat list"
  entity_q :: "nat list"
  assign_q :: "nat list"
  req_q :: "nat list"
  pents :: "nat \<Rightarrow> proxy_entity"
  heap :: "nat list"
  uents :: "nat \<Rightarrow> um_entity"
  ucalls :: "(nat \<times> um_entity) list"

definition upd_uent :: "nat \<Rightarrow> (um_entity \<Rightarrow> um_entity) \<Rightarrow> proxy \<Rightarrow> proxy" where
  "upd_uent e f s = s\<lparr>uents := (uents s)(e := f (uents s e))\<rparr>"

definition upd_pent :: "nat \<Rightarrow> (proxy_entity \<Rightarrow> proxy_entity) \<Rightarrow> proxy \<Rightarrow> proxy" where
  "upd_pent p f s = s\<lparr>pents := (pents s)(p := f (pents s p))\<rparr>"

definition ucallback :: "nat \<Rightarrow> proxy \<Rightarrow> proxy" where
  "ucallback e s = s\<lparr>ucalls := ucalls s @ [(e, uents s e)]\<rparr>"

section \<open>Requests\<close>

text \<open>\<open>0xffff\<close>, the result for too much data, is \<open>None\<close>.\<close>

fun copy_xdescr :: "nat \<Rightarrow> byte list option list \<Rightarrow> byte list \<Rightarrow> byte list option" where
  "copy_xdescr max_length [] dst = Some dst"
| "copy_xdescr max_length (x # xs) dst =
     (case x of
        Some b \<Rightarrow>
          if b \<noteq> [] then
            if length dst + length b > max_length then None else copy_xdescr max_length xs (dst @ b)
          else copy_xdescr max_length xs dst
      | None \<Rightarrow> copy_xdescr max_length xs dst)"

definition diva_copy_xdescr :: "um_entity \<Rightarrow> nat \<Rightarrow> byte list option" where
  "diva_copy_xdescr e max_length = copy_xdescr max_length (uX e) []"

text \<open>A request of a client (\<open>Req = 0\<close> is a synchronous request and handled separately).\<close>

definition diva_um_proxy_user_request :: "nat \<Rightarrow> proxy \<Rightarrow> proxy" where
  "diva_um_proxy_user_request e s =
     (if length (pending_requests_q s) < MAX_PENDING
      then (upd_uent e (\<lambda>u. u\<lparr>uNo := 1\<rparr>) s)\<lparr>pending_requests_q := pending_requests_q s @ [e]\<rparr>
      else upd_uent e (\<lambda>u. u\<lparr>uNo := 0, uRc := UM_ASSIGN_RC OR RC_OUT_OF_RESOURCES\<rparr>) s)"

text \<open>Taking over an \<open>ASSIGN\<close>. The entity count is at least 1 where it is decremented.\<close>

definition assign_failed :: "nat \<Rightarrow> (um_entity \<Rightarrow> um_entity) \<Rightarrow> proxy \<Rightarrow> proxy" where
  "assign_failed e f s = ucallback e (upd_uent e f (s\<lparr>nr_entities := nr_entities s - 1\<rparr>))"

definition proxy_assign :: "(nat list \<Rightarrow> nat) \<Rightarrow> nat \<Rightarrow> proxy \<Rightarrow> proxy" where
  "proxy_assign malloc e s =
     (let u = uents s e;
          (p, s1) = (if nr_entities s + 1 \<le> max_entities s
                     then (malloc (heap s), s\<lparr>nr_entities := nr_entities s + 1\<rparr>) else (0, s))
      in if p \<noteq> 0 then
           (case diva_copy_xdescr u REQ_DATA_SIZE of
              None \<Rightarrow> assign_failed e (\<lambda>u. u\<lparr>ucomplete := 0xff, uRc := UM_ASSIGN_RC OR RC_WRONG_COMMAND, uRcCh := uReqCh u, uNo := 0\<rparr>) s1
            | Some d \<Rightarrow>
                s1\<lparr>heap := p # heap s1,
                   pents := (pents s1)(p := \<lparr>pu_e = e, request_pending = True, assign_pending = True, remove_pending = False,
                     hdr_Id = uId u, hdr_Req = uReq u, hdr_Ch = uReqCh u, hdr_data = d\<rparr>),
                   assign_q := assign_q s1 @ [p], req_q := req_q s1 @ [p]\<rparr>)
         else assign_failed e (\<lambda>u. u\<lparr>ucomplete := 0xff, uRc := UM_ASSIGN_RC OR RC_OUT_OF_RESOURCES, uRcCh := uReqCh u\<rparr>) s1)"

text \<open>Taking over a request of an entity that has an \<open>Id\<close>.\<close>

definition wrong_id :: "nat \<Rightarrow> proxy \<Rightarrow> proxy" where
  "wrong_id e s = ucallback e (upd_uent e (\<lambda>u. u\<lparr>ucomplete := 0xff, uRc := RC_WRONG_ID, uRcCh := 0\<rparr>) s)"

definition proxy_forward :: "nat \<Rightarrow> proxy \<Rightarrow> proxy" where
  "proxy_forward e s =
     (let u = uents s e; p = entity_map s (uId u)
      in if p = 0 \<or> pu_e (pents s p) \<noteq> e then wrong_id e s
         else if request_pending (pents s p) \<or> remove_pending (pents s p) then s
         else case diva_copy_xdescr u REQ_DATA_SIZE of
                None \<Rightarrow> wrong_id e (upd_pent p (\<lambda>P. P\<lparr>hdr_data := []\<rparr>) s)
              | Some d \<Rightarrow>
                  (upd_pent p (\<lambda>P. P\<lparr>hdr_Id := uId u, hdr_Req := uReq u, hdr_Ch := uReqCh u, hdr_data := d, request_pending := True\<rparr>) s)
                    \<lparr>req_q := req_q s @ [p]\<rparr>)"

definition proxy_take :: "(nat list \<Rightarrow> nat) \<Rightarrow> nat \<Rightarrow> proxy \<Rightarrow> proxy" where
  "proxy_take malloc e s = (if uId (uents s e) mod 32 = 0 then proxy_assign malloc e s else proxy_forward e s)"

section \<open>Reading\<close>

type_synonym idi_req = "nat \<times> nat \<times> nat \<times> byte list"

definition req_of :: "proxy_entity \<Rightarrow> idi_req" where
  "req_of P = (hdr_Id P, hdr_Req P, hdr_Ch P, hdr_data P)"

text \<open>Handing the oldest request to the process; \<open>cp n\<close> is the result of copying \<open>n\<close> bytes to it.\<close>

definition proxy_deliver :: "nat \<Rightarrow> (nat \<Rightarrow> int) \<Rightarrow> proxy \<Rightarrow> int \<times> idi_req option \<times> proxy" where
  "proxy_deliver max_length cp s =
     (if registered s then
        (case req_q s of
           [] \<Rightarrow> (0, None, s)
         | p # ps \<Rightarrow>
             let P = pents s p; n = REQ_HDR_SIZE + length (hdr_data P)
             in if max_length \<ge> n \<and> cp n \<ge> 0 then
                  (cp n, Some (req_of P),
                   (upd_pent p (\<lambda>P. P\<lparr>remove_pending := (if hdr_Req P = UM_REMOVE then True else remove_pending P), request_pending := False\<rparr>) s)
                     \<lparr>req_q := ps\<rparr>)
                else (-2, None, s))
      else (-1, None, s))"

text \<open>\<open>buf_ok\<close> tells whether the memory for the copy of the pending requests could be allocated.\<close>

definition diva_um_idi_proxy_read ::
    "(nat list \<Rightarrow> nat) \<Rightarrow> bool \<Rightarrow> nat \<Rightarrow> (nat \<Rightarrow> int) \<Rightarrow> proxy \<Rightarrow> int \<times> idi_req option \<times> proxy" where
  "diva_um_idi_proxy_read malloc buf_ok max_length cp s =
     proxy_deliver max_length cp
       (if pending_requests_q s \<noteq> [] \<and> buf_ok
        then fold (proxy_take malloc) (pending_requests_q s) (s\<lparr>pending_requests_q := []\<rparr>) else s)"

definition diva_um_idi_proxy_req_ready :: "proxy \<Rightarrow> bool" where
  "diva_um_idi_proxy_req_ready s \<longleftrightarrow> registered s \<and> (req_q s \<noteq> [] \<or> pending_requests_q s \<noteq> [])"

section \<open>Return codes and indications\<close>

text \<open>The end of a proxy entity.\<close>

definition proxy_remove :: "nat \<Rightarrow> nat \<Rightarrow> proxy \<Rightarrow> proxy" where
  "proxy_remove ID p s =
     s\<lparr>entity_map := (entity_map s)(ID := 0),
       assign_q := (if assign_pending (pents s p) then remove1 p (assign_q s) else assign_q s),
       entity_q := (if assign_pending (pents s p) then entity_q s else remove1 p (entity_q s)),
       req_q := (if request_pending (pents s p) then remove1 p (req_q s) else req_q s),
       nr_entities := (if nr_entities s \<noteq> 0 then nr_entities s - 1 else nr_entities s)\<rparr>"

definition proxy_free :: "nat \<Rightarrow> proxy \<Rightarrow> proxy" where
  "proxy_free p s = s\<lparr>heap := remove1 p (heap s)\<rparr>"

definition assign_answer :: "nat \<Rightarrow> nat \<Rightarrow> nat \<Rightarrow> proxy \<Rightarrow> proxy" where
  "assign_answer ID Rc p s =
     (let e = pu_e (pents s p);
          s1 = upd_pent p (\<lambda>P. P\<lparr>assign_pending := False\<rparr>) (s\<lparr>assign_q := tl (assign_q s)\<rparr>);
          s2 = upd_uent e (\<lambda>u. u\<lparr>ucomplete := 0xff, uId := ID, uRc := Rc, uRcCh := Rc\<rparr>) s1
      in if Rc = UM_ASSIGN_OK
         then ucallback e (s2\<lparr>entity_map := (entity_map s2)(ID := p), entity_q := entity_q s2 @ [p]\<rparr>)
         else proxy_free p (ucallback e (s2\<lparr>nr_entities := (if nr_entities s2 \<noteq> 0 then nr_entities s2 - 1 else nr_entities s2)\<rparr>)))"

definition diva_um_idi_proxy_rc :: "nat \<Rightarrow> nat \<Rightarrow> nat \<Rightarrow> nat \<Rightarrow> proxy \<Rightarrow> int \<times> proxy" where
  "diva_um_idi_proxy_rc h_Id h_Rc h_Ch data_length s =
     (let ID = h_Id mod 256; Rc = h_Rc mod 256; Ch = h_Ch mod 256; p = entity_map s ID; removed = bit data_length 0
      in if p \<noteq> 0 then
           let e = pu_e (pents s p);
               s1 = (if removed then proxy_remove ID p s else s);
               (ret, s2) =
                 (if e \<noteq> 0 then
                    (8, ucallback e (upd_uent e (\<lambda>u. if removed then u\<lparr>ucomplete := 0xff, uId := 0, uRc := 0xff, uRcCh := 0\<rparr>
                                                     else u\<lparr>ucomplete := 0xff, uRc := Rc, uRcCh := Ch\<rparr>) s1))
                  else (-1, s1))
           in (ret, if removed then proxy_free p s2 else s2)
         else if Rc AND 0xf0 = UM_ASSIGN_RC then
           (8, case assign_q s of
                 [] \<Rightarrow> s
               | q # qs \<Rightarrow>
                   if assign_pending (pents s q) \<and> \<not> request_pending (pents s q) \<and> pu_e (pents s q) \<noteq> 0
                   then assign_answer ID Rc q s else s)
         else (-1, s))"

text \<open>The buffers filled and their number.\<close>

fun copy_ind :: "rx_buffer list \<Rightarrow> byte list \<Rightarrow> nat \<times> rx_buffer list" where
  "copy_ind [] d = (0, [])"
| "copy_ind (b # bs) d =
     (if d = [] then (0, b # bs)
      else
        let n = min (rb_PLength b) (length d);
            b' = (if n \<noteq> 0 then b\<lparr>rb_bytes := (if rb_null b then rb_bytes b else take n d), rb_PLength := n\<rparr> else b);
            (i, bs') = copy_ind bs (drop n d)
        in (i + 1, b' # bs'))"

definition diva_um_idi_proxy_copy_ind_to_user :: "byte list \<Rightarrow> um_entity \<Rightarrow> um_entity" where
  "diva_um_idi_proxy_copy_ind_to_user d e =
     (let (i, bs) = copy_ind (take (uRNum e) (uR e)) d; R = bs @ drop (uRNum e) (uR e)
      in e\<lparr>uRNum := i mod 256,
           uR := (if i mod 256 = 0 then (case R of [] \<Rightarrow> [] | b # bs \<Rightarrow> b\<lparr>rb_PLength := 0\<rparr> # bs) else R)\<rparr>)"

text \<open>\<open>client\<close> is what the callback of the client makes of its entity when it is shown an
  indication.\<close>

definition diva_um_idi_proxy_ind :: "(um_entity \<Rightarrow> um_entity) \<Rightarrow> nat \<Rightarrow> nat \<Rightarrow> nat \<Rightarrow> nat \<Rightarrow> byte list \<Rightarrow> proxy \<Rightarrow> int \<times> proxy" where
  "diva_um_idi_proxy_ind client h_Id h_Ind h_Ch data_length data s =
     (let ID = h_Id mod 256; p = entity_map s ID; all = int (data_length + 8)
      in if length data \<noteq> data_length then (-1, s)
         else if p = 0 then (-1, s)
         else if remove_pending (pents s p) \<or> pu_e (pents s p) = 0 then (all, s)
         else
           let e = pu_e (pents s p);
               s1 = ucallback e (upd_uent e (\<lambda>u. u\<lparr>uInd := h_Ind mod 256, uIndCh := h_Ch mod 256,
                      ucomplete := (if data_length \<le> LOOK_AHEAD_SIZE then 1 else 0), uRLength := data_length, uRNum := 0, uRNR := 0,
                      uRBuffer := take LOOK_AHEAD_SIZE data\<rparr>) s);
               s2 = upd_uent e client s1; u = uents s2 e
           in if uRNR u = 1 then (0, s2)
              else if uRNum u = 0 \<or> uRNR u = 2 then (all, s2)
              else (all, ucallback e (upd_uent e (\<lambda>u. diva_um_idi_proxy_copy_ind_to_user data
                           (u\<lparr>uInd := h_Ind mod 256, ucomplete := 2\<rparr>)) s2)))"

text \<open>What the process writes, when the adapter is registered; \<open>cp\<close> is the result of copying it.\<close>

definition diva_um_idi_proxy_write :: "(um_entity \<Rightarrow> um_entity) \<Rightarrow> int \<Rightarrow> byte list \<Rightarrow> proxy \<Rightarrow> int \<times> proxy" where
  "diva_um_idi_proxy_write client cp src s =
     (if length src \<ge> 8 then
        if cp > 0 then
          let w = (\<lambda>k. rd16 (\<lambda>i. src ! i) k)
          in if bit (w 6) 15 then diva_um_idi_proxy_rc (w 0) (w 2) (w 4) (w 6) s
             else diva_um_idi_proxy_ind client (w 0) (w 2) (w 4) (w 6) (drop 8 src) s
        else (cp, s)
      else (-1, s))"

text \<open>Closing the adapter: all proxy entities are freed.\<close>

definition diva_um_idi_destroy_proxy :: "proxy \<Rightarrow> proxy" where
  "diva_um_idi_destroy_proxy s =
     (if registered s then
        s\<lparr>registered := False, heap := filter (\<lambda>p. p \<notin> set (entity_q s) \<union> set (assign_q s)) (heap s),
          entity_q := [], assign_q := [], req_q := [], entity_map := (\<lambda>_. 0)\<rparr>
      else s)"


section \<open>The tables agree\<close>

text \<open>The allocated proxy entities are those on the two queues of entities; the ones with a request
  to be read are those on the request queue; the entities that have an \<open>Id\<close> are those the table
  maps, each \<open>Id\<close> to its own.\<close>

definition proxy_ok :: "proxy \<Rightarrow> bool" where
  "proxy_ok s \<longleftrightarrow>
     distinct (entity_q s @ assign_q s) \<and> set (heap s) = set (entity_q s @ assign_q s) \<and> distinct (heap s) \<and> 0 \<notin> set (heap s) \<and>
     distinct (req_q s) \<and> (\<forall>p. p \<in> set (req_q s) \<longleftrightarrow> p \<in> set (heap s) \<and> request_pending (pents s p)) \<and>
     (\<forall>p \<in> set (heap s). assign_pending (pents s p) = (p \<in> set (assign_q s))) \<and>
     (\<forall>i. entity_map s i \<noteq> 0 \<longrightarrow> i < 256 \<and> entity_map s i \<in> set (entity_q s)) \<and>
     (\<forall>i j. entity_map s i = entity_map s j \<longrightarrow> entity_map s i \<noteq> 0 \<longrightarrow> i = j) \<and>
     (\<forall>p \<in> set (entity_q s). \<exists>i. entity_map s i = p) \<and>
     (\<forall>p \<in> set (heap s). pu_e (pents s p) \<noteq> 0) \<and> 0 \<notin> set (pending_requests_q s)"

definition malloc_ok :: "(nat list \<Rightarrow> nat) \<Rightarrow> bool" where
  "malloc_ok malloc \<longleftrightarrow> (\<forall>h. malloc h \<noteq> 0 \<longrightarrow> malloc h \<notin> set h)"

lemma proxy_okD:
  assumes "proxy_ok s"
  shows "distinct (entity_q s)" "distinct (assign_q s)" "set (entity_q s) \<inter> set (assign_q s) = {}"
    "set (heap s) = set (entity_q s) \<union> set (assign_q s)" "distinct (heap s)" "0 \<notin> set (heap s)" "distinct (req_q s)"
    "\<And>p. p \<in> set (req_q s) \<longleftrightarrow> p \<in> set (heap s) \<and> request_pending (pents s p)"
    "\<And>p. p \<in> set (heap s) \<Longrightarrow> assign_pending (pents s p) = (p \<in> set (assign_q s))"
    "\<And>i. entity_map s i \<noteq> 0 \<Longrightarrow> i < 256 \<and> entity_map s i \<in> set (entity_q s)"
    "\<And>i j. entity_map s i = entity_map s j \<Longrightarrow> entity_map s i \<noteq> 0 \<Longrightarrow> i = j"
    "\<And>p. p \<in> set (entity_q s) \<Longrightarrow> \<exists>i. entity_map s i = p"
    "\<And>p. p \<in> set (heap s) \<Longrightarrow> pu_e (pents s p) \<noteq> 0" "0 \<notin> set (pending_requests_q s)"
proof -
  have "distinct (entity_q s @ assign_q s)" "set (heap s) = set (entity_q s @ assign_q s)"
    using assms unfolding proxy_ok_def by blast+
  then show "distinct (entity_q s)" "distinct (assign_q s)" "set (entity_q s) \<inter> set (assign_q s) = {}"
    "set (heap s) = set (entity_q s) \<union> set (assign_q s)" by simp_all
qed (use assms in \<open>unfold proxy_ok_def, blast+\<close>)

lemma proxy_okI:
  assumes "distinct (entity_q s)" "distinct (assign_q s)" "set (entity_q s) \<inter> set (assign_q s) = {}"
    "set (heap s) = set (entity_q s) \<union> set (assign_q s)" "distinct (heap s)" "0 \<notin> set (heap s)" "distinct (req_q s)"
    "\<And>p. p \<in> set (req_q s) \<longleftrightarrow> p \<in> set (heap s) \<and> request_pending (pents s p)"
    "\<And>p. p \<in> set (heap s) \<Longrightarrow> assign_pending (pents s p) = (p \<in> set (assign_q s))"
    "\<And>i. entity_map s i \<noteq> 0 \<Longrightarrow> i < 256 \<and> entity_map s i \<in> set (entity_q s)"
    "\<And>i j. entity_map s i = entity_map s j \<Longrightarrow> entity_map s i \<noteq> 0 \<Longrightarrow> i = j"
    "\<And>p. p \<in> set (entity_q s) \<Longrightarrow> \<exists>i. entity_map s i = p"
    "\<And>p. p \<in> set (heap s) \<Longrightarrow> pu_e (pents s p) \<noteq> 0" "0 \<notin> set (pending_requests_q s)"
  shows "proxy_ok s"
  unfolding proxy_ok_def distinct_append set_append
  using assms by (intro conjI allI ballI impI) blast+

lemma upd_simps [simp]:
  "entity_q (upd_uent e f s) = entity_q s" "assign_q (upd_uent e f s) = assign_q s" "req_q (upd_uent e f s) = req_q s"
  "heap (upd_uent e f s) = heap s" "pents (upd_uent e f s) = pents s" "entity_map (upd_uent e f s) = entity_map s"
  "pending_requests_q (upd_uent e f s) = pending_requests_q s" "nr_entities (upd_uent e f s) = nr_entities s"
  "max_entities (upd_uent e f s) = max_entities s" "registered (upd_uent e f s) = registered s"
  "uents (upd_uent e f s) = (uents s)(e := f (uents s e))" "ucalls (upd_uent e f s) = ucalls s"
  "entity_q (upd_pent p g s) = entity_q s" "assign_q (upd_pent p g s) = assign_q s" "req_q (upd_pent p g s) = req_q s"
  "heap (upd_pent p g s) = heap s" "pents (upd_pent p g s) = (pents s)(p := g (pents s p))" "entity_map (upd_pent p g s) = entity_map s"
  "pending_requests_q (upd_pent p g s) = pending_requests_q s" "nr_entities (upd_pent p g s) = nr_entities s"
  "max_entities (upd_pent p g s) = max_entities s" "registered (upd_pent p g s) = registered s"
  "uents (upd_pent p g s) = uents s" "ucalls (upd_pent p g s) = ucalls s"
  "entity_q (ucallback e s) = entity_q s" "assign_q (ucallback e s) = assign_q s" "req_q (ucallback e s) = req_q s"
  "heap (ucallback e s) = heap s" "pents (ucallback e s) = pents s" "entity_map (ucallback e s) = entity_map s"
  "pending_requests_q (ucallback e s) = pending_requests_q s" "nr_entities (ucallback e s) = nr_entities s"
  "max_entities (ucallback e s) = max_entities s" "registered (ucallback e s) = registered s"
  "uents (ucallback e s) = uents s" "ucalls (ucallback e s) = ucalls s @ [(e, uents s e)]"
  by (simp_all add: upd_uent_def upd_pent_def ucallback_def)

text \<open>Entities of clients, calls and the counter play no part in it.\<close>

lemma proxy_ok_cong:
  assumes "entity_q t = entity_q s" "assign_q t = assign_q s" "req_q t = req_q s" "heap t = heap s" "pents t = pents s"
    "entity_map t = entity_map s" "pending_requests_q t = pending_requests_q s"
  shows "proxy_ok t = proxy_ok s"
  unfolding proxy_ok_def assms ..

lemma proxy_ok_upd [simp]: "proxy_ok (upd_uent e f s) = proxy_ok s" "proxy_ok (ucallback e s) = proxy_ok s"
  by (rule proxy_ok_cong; simp)+

lemma proxy_ok_count [simp]: "proxy_ok (s\<lparr>nr_entities := n\<rparr>) = proxy_ok s"
  by (rule proxy_ok_cong) simp_all

lemma assign_failed_ok [simp]: "proxy_ok (assign_failed e f s) = proxy_ok s"
  by (simp add: assign_failed_def)

lemma wrong_id_ok [simp]: "proxy_ok (wrong_id e s) = proxy_ok s"
  by (simp add: wrong_id_def)

lemma new_entity_ok:
  assumes ok: "proxy_ok s" and p: "p \<noteq> 0" "p \<notin> set (heap s)" and e: "e \<noteq> 0"
    and P: "pu_e P = e" "request_pending P" "assign_pending P"
  shows "proxy_ok (s\<lparr>heap := p # heap s, pents := (pents s)(p := P), assign_q := assign_q s @ [p], req_q := req_q s @ [p]\<rparr>)"
proof -
  note d = proxy_okD [OF ok]
  have "p \<notin> set (req_q s)" using d(8) p(2) by blast
  show ?thesis
    using d p e P \<open>p \<notin> set (req_q s)\<close> by (intro proxy_okI) (auto dest: d(10))
qed

lemma proxy_assign_ok:
  assumes "proxy_ok s" "malloc_ok malloc" "e \<noteq> 0"
  shows "proxy_ok (proxy_assign malloc e s)"
proof -
  have m: "malloc (heap s) \<noteq> 0 \<Longrightarrow> malloc (heap s) \<notin> set (heap s)" using assms(2) by (simp add: malloc_ok_def)
  let ?s = "s\<lparr>nr_entities := Suc (nr_entities s)\<rparr>"
  have "proxy_ok ?s" using assms(1) by simp
  from new_entity_ok [OF this, of "malloc (heap s)" e] m assms(1,3) show ?thesis
    by (auto simp: proxy_assign_def Let_def split: option.splits)
qed

lemma proxy_forward_ok:
  assumes ok: "proxy_ok s"
  shows "proxy_ok (proxy_forward e s)"
proof -
  note d = proxy_okD [OF ok]
  let ?u = "uents s e" and ?p = "entity_map s (uId (uents s e))"
  show ?thesis
  proof (cases "?p = 0 \<or> pu_e (pents s ?p) \<noteq> e \<or> request_pending (pents s ?p) \<or> remove_pending (pents s ?p)")
    case True
    then show ?thesis using ok by (auto simp: proxy_forward_def Let_def)
  next
    case False
    then have p: "?p \<noteq> 0" "pu_e (pents s ?p) = e" "\<not> request_pending (pents s ?p)" "\<not> remove_pending (pents s ?p)" by simp_all
    have h: "?p \<in> set (heap s)" using d(4,10) p(1) by blast
    show ?thesis
    proof (cases "diva_copy_xdescr ?u REQ_DATA_SIZE")
      case None
      have "proxy_ok (upd_pent ?p (\<lambda>P. P\<lparr>hdr_data := []\<rparr>) s)"
        by (rule proxy_okI) (use d in \<open>auto dest: d(10) split: if_splits\<close>)
      then show ?thesis using None p by (simp add: proxy_forward_def)
    next
      case (Some dat)
      have "?p \<notin> set (req_q s)" using d(8) p(3) by blast
      then have "proxy_ok ((upd_pent ?p (\<lambda>P. P\<lparr>hdr_Id := uId ?u, hdr_Req := uReq ?u, hdr_Ch := uReqCh ?u, hdr_data := dat, request_pending := True\<rparr>) s)
          \<lparr>req_q := req_q s @ [?p]\<rparr>)"
        by (intro proxy_okI) (use d h in \<open>auto dest: d(10)\<close>)
      then show ?thesis using Some p by (simp add: proxy_forward_def Let_def)
    qed
  qed
qed


lemma proxy_take_ok: "proxy_ok s \<Longrightarrow> malloc_ok malloc \<Longrightarrow> e \<noteq> 0 \<Longrightarrow> proxy_ok (proxy_take malloc e s)"
  by (simp add: proxy_take_def proxy_assign_ok proxy_forward_ok)

lemma proxy_takes_ok:
  "proxy_ok s \<Longrightarrow> malloc_ok malloc \<Longrightarrow> 0 \<notin> set es \<Longrightarrow> proxy_ok (fold (proxy_take malloc) es s)"
  by (induction es arbitrary: s) (simp_all add: proxy_take_ok)

lemma proxy_ok_pending:
  assumes "entity_q t = entity_q s" "assign_q t = assign_q s" "req_q t = req_q s" "heap t = heap s" "pents t = pents s"
    "entity_map t = entity_map s" "0 \<notin> set (pending_requests_q t)" "proxy_ok s"
  shows "proxy_ok t"
  using assms(7,8) unfolding proxy_ok_def assms(1-6) by blast

lemma proxy_ok_no_pending: "proxy_ok s \<Longrightarrow> proxy_ok (s\<lparr>pending_requests_q := []\<rparr>)"
  by (rule proxy_ok_pending [of _ s]) simp_all

text \<open>A step that changes the requests of the entities only.\<close>

lemma proxy_ok_req:
  assumes "entity_q t = entity_q s" "assign_q t = assign_q s" "heap t = heap s" "entity_map t = entity_map s"
    "pending_requests_q t = pending_requests_q s"
    and "distinct (req_q t)" "\<And>x. x \<in> set (req_q t) \<longleftrightarrow> x \<in> set (heap s) \<and> request_pending (pents t x)"
    and "\<And>x. assign_pending (pents t x) = assign_pending (pents s x)" "\<And>x. pu_e (pents t x) = pu_e (pents s x)" "proxy_ok s"
  shows "proxy_ok t"
  using assms(6,7,10) unfolding proxy_ok_def assms(1-5,8,9) by blast

lemma proxy_deliver_ok:
  assumes ok: "proxy_ok s" and run: "proxy_deliver max_length cp s = (ret, r, s')"
  shows "proxy_ok s'"
proof (cases "s' = s")
  case True
  then show ?thesis using ok by simp
next
  case False
  note d = proxy_okD [OF ok]
  from False run obtain p ps where q: "req_q s = p # ps" and
    s': "s' = (upd_pent p (\<lambda>P. P\<lparr>remove_pending := (if hdr_Req P = UM_REMOVE then True else remove_pending P), request_pending := False\<rparr>) s)
                     \<lparr>req_q := ps\<rparr>"
    by (auto simp: proxy_deliver_def Let_def split: list.splits if_splits)
  have "p \<notin> set ps" "distinct ps" using d(7) q by simp_all
  moreover have "\<And>x. x \<in> set ps \<longleftrightarrow> x \<noteq> p \<and> x \<in> set (heap s) \<and> request_pending (pents s x)"
    using d(8) q \<open>p \<notin> set ps\<close> by auto
  ultimately show ?thesis
    by (intro proxy_ok_req [OF _ _ _ _ _ _ _ _ _ ok]) (auto simp: s')
qed

lemma user_request_ok: "proxy_ok s \<Longrightarrow> e \<noteq> 0 \<Longrightarrow> proxy_ok (diva_um_proxy_user_request e s)"
  by (rule proxy_ok_pending [of _ s]) (simp_all add: diva_um_proxy_user_request_def proxy_okD(14))

lemma proxy_read_ok:
  assumes "proxy_ok s" "malloc_ok malloc" "diva_um_idi_proxy_read malloc buf_ok max_length cp s = (ret, r, s')"
  shows "proxy_ok s'"
proof -
  let ?s = "if pending_requests_q s \<noteq> [] \<and> buf_ok
        then fold (proxy_take malloc) (pending_requests_q s) (s\<lparr>pending_requests_q := []\<rparr>) else s"
  have "proxy_ok ?s"
    using assms(1) proxy_takes_ok [OF proxy_ok_no_pending [OF assms(1)] assms(2) proxy_okD(14) [OF assms(1)]] by simp
  moreover have "proxy_deliver max_length cp ?s = (ret, r, s')" using assms(3) by (simp add: diva_um_idi_proxy_read_def)
  ultimately show ?thesis by (rule proxy_deliver_ok)
qed

lemma removed_ok:
  assumes ok: "proxy_ok s" and p: "entity_map s ID = p" "p \<noteq> 0"
  shows "proxy_ok (proxy_free p (proxy_remove ID p s))"
proof -
  note d = proxy_okD [OF ok]
  have pe: "p \<in> set (entity_q s)" using d(10) [of ID] p by simp
  then have na: "p \<notin> set (assign_q s)" and ph: "p \<in> set (heap s)" using d(3,4) by auto
  have ap: "\<not> assign_pending (pents s p)" using d(9) [OF ph] na by simp
  have inj: "\<And>i. entity_map s i = p \<Longrightarrow> i = ID" using d(11) p by metis
  have rq: "p \<notin> set (req_q s) \<or> request_pending (pents s p)" using d(8) by blast
  define t where "t = proxy_free p (proxy_remove ID p s)"
  have t: "entity_q t = remove1 p (entity_q s)" "assign_q t = assign_q s" "heap t = remove1 p (heap s)"
    "pents t = pents s" "entity_map t = (entity_map s)(ID := 0)" "pending_requests_q t = pending_requests_q s"
    "req_q t = (if request_pending (pents s p) then remove1 p (req_q s) else req_q s)"
    using ap by (simp_all add: t_def proxy_free_def proxy_remove_def)
  have sets: "set (entity_q t) = set (entity_q s) - {p}" "set (heap t) = set (heap s) - {p}" "set (req_q t) = set (req_q s) - {p}"
    using d(1,5,7) rq by (auto simp: t)
  have "proxy_ok t"
  proof (rule proxy_okI)
    show "distinct (entity_q t)" "distinct (assign_q t)" "distinct (heap t)" "distinct (req_q t)"
      using d(1,2,5,7) by (simp_all add: t)
    show "set (entity_q t) \<inter> set (assign_q t) = {}" "set (heap t) = set (entity_q t) \<union> set (assign_q t)"
      using d(3,4) na by (auto simp: sets t(2))
    show "0 \<notin> set (heap t)" "0 \<notin> set (pending_requests_q t)" using d(6,14) by (simp_all add: sets t(6))
    show "x \<in> set (req_q t) \<longleftrightarrow> x \<in> set (heap t) \<and> request_pending (pents t x)" for x
      using d(8) by (auto simp: sets t(4))
    show "x \<in> set (heap t) \<Longrightarrow> assign_pending (pents t x) = (x \<in> set (assign_q t))" for x
      using d(9) by (simp add: sets t(2,4))
    show "entity_map t i \<noteq> 0 \<Longrightarrow> i < 256 \<and> entity_map t i \<in> set (entity_q t)" for i
    proof -
      assume i: "entity_map t i \<noteq> 0"
      then have "i \<noteq> ID" "entity_map t i = entity_map s i" by (auto simp: t(5) split: if_splits)
      moreover from this have "entity_map s i \<noteq> p" using inj by blast
      ultimately show ?thesis using i d(10) [of i] by (simp add: sets)
    qed
    show "entity_map t i = entity_map t j \<Longrightarrow> entity_map t i \<noteq> 0 \<Longrightarrow> i = j" for i j
      using d(11) [of i j] by (auto simp: t(5) split: if_splits)
    show "x \<in> set (entity_q t) \<Longrightarrow> \<exists>i. entity_map t i = x" for x
    proof -
      assume "x \<in> set (entity_q t)"
      then have "x \<in> set (entity_q s)" "x \<noteq> p" by (simp_all add: sets)
      then obtain i where "entity_map s i = x" "i \<noteq> ID" using d(12) p(1) by blast
      then show ?thesis by (auto simp: t(5))
    qed
    show "x \<in> set (heap t) \<Longrightarrow> pu_e (pents t x) \<noteq> 0" for x using d(13) by (simp add: sets t(4))
  qed
  then show ?thesis by (simp add: t_def)
qed

lemma assign_answer_ok:
  assumes ok: "proxy_ok s" and q: "assign_q s = p # ps" and ID: "ID < 256" "entity_map s ID = 0"
    and np: "\<not> request_pending (pents s p)"
  shows "proxy_ok (assign_answer ID Rc p s)"
proof -
  note d = proxy_okD [OF ok]
  have p: "p \<notin> set ps" "p \<in> set (heap s)" "p \<notin> set (entity_q s)" "distinct ps" "p \<noteq> 0" "p \<notin> set (req_q s)"
    using d(2,3,4,6) q np by (auto simp: d(8))
  have ne: "\<And>i. entity_map s i \<noteq> p" using d(10) p(3,5) by metis
  define t where "t = assign_answer ID Rc p s"
  show ?thesis
  proof (cases "Rc = UM_ASSIGN_OK")
    case True
    have t: "entity_q t = entity_q s @ [p]" "assign_q t = ps" "heap t = heap s" "pending_requests_q t = pending_requests_q s"
      "pents t = (pents s)(p := (pents s p)\<lparr>assign_pending := False\<rparr>)" "entity_map t = (entity_map s)(ID := p)" "req_q t = req_q s"
      using True q by (simp_all add: t_def assign_answer_def Let_def)
    have "proxy_ok t"
    proof (rule proxy_okI)
      show "distinct (entity_q t)" "distinct (assign_q t)" "distinct (heap t)" "distinct (req_q t)"
        using d(1,2,5,7) p by (simp_all add: t)
      show "set (entity_q t) \<inter> set (assign_q t) = {}" "set (heap t) = set (entity_q t) \<union> set (assign_q t)"
        using d(3,4) q p by (auto simp: t)
      show "0 \<notin> set (heap t)" "0 \<notin> set (pending_requests_q t)" using d(6,14) by (simp_all add: t)
      show "x \<in> set (req_q t) \<longleftrightarrow> x \<in> set (heap t) \<and> request_pending (pents t x)" for x
        using d(8) by (auto simp: t)
      show "x \<in> set (heap t) \<Longrightarrow> assign_pending (pents t x) = (x \<in> set (assign_q t))" for x
        using d(9) [of x] q p(1) by (auto simp: t)
      show "entity_map t i \<noteq> 0 \<Longrightarrow> i < 256 \<and> entity_map t i \<in> set (entity_q t)" for i
        using d(10) [of i] ID(1) by (auto simp: t split: if_splits)
      show "entity_map t i = entity_map t j \<Longrightarrow> entity_map t i \<noteq> 0 \<Longrightarrow> i = j" for i j
        using d(11) [of i j] ne [of i] ne [of j] by (auto simp: t split: if_splits)
      show "x \<in> set (entity_q t) \<Longrightarrow> \<exists>i. entity_map t i = x" for x
      proof -
        assume "x \<in> set (entity_q t)"
        then consider "x = p" | "x \<in> set (entity_q s)" by (auto simp: t)
        then show ?thesis
        proof cases
          case 1
          then show ?thesis by (intro exI [of _ ID]) (simp add: t)
        next
          case 2
          then obtain i where i: "entity_map s i = x" using d(12) by blast
          have "x \<noteq> 0" using 2 d(4,6) by auto
          then have "i \<noteq> ID" using i ID(2) by auto
          then show ?thesis using i by (intro exI [of _ i]) (simp add: t)
        qed
      qed
      show "x \<in> set (heap t) \<Longrightarrow> pu_e (pents t x) \<noteq> 0" for x using d(13) p(2) by (simp add: t)
    qed
    then show ?thesis by (simp add: t_def)
  next
    case False
    have t: "entity_q t = entity_q s" "assign_q t = ps" "heap t = remove1 p (heap s)" "pending_requests_q t = pending_requests_q s"
      "pents t = (pents s)(p := (pents s p)\<lparr>assign_pending := False\<rparr>)" "entity_map t = entity_map s" "req_q t = req_q s"
      using False q by (simp_all add: t_def assign_answer_def Let_def proxy_free_def)
    have h: "set (heap t) = set (heap s) - {p}" using d(5) by (simp add: t)
    have "proxy_ok t"
    proof (rule proxy_okI)
      show "distinct (entity_q t)" "distinct (assign_q t)" "distinct (heap t)" "distinct (req_q t)"
        using d(1,2,5,7) p by (simp_all add: t)
      show "set (entity_q t) \<inter> set (assign_q t) = {}" "set (heap t) = set (entity_q t) \<union> set (assign_q t)"
        using d(3,4) q p unfolding h by (auto simp: t)
      show "0 \<notin> set (heap t)" "0 \<notin> set (pending_requests_q t)" using d(6,14) unfolding h by (simp_all add: t)
      show "x \<in> set (req_q t) \<longleftrightarrow> x \<in> set (heap t) \<and> request_pending (pents t x)" for x
        using d(8) p(6) unfolding h by (auto simp: t)
      show "x \<in> set (heap t) \<Longrightarrow> assign_pending (pents t x) = (x \<in> set (assign_q t))" for x
        using d(9) [of x] q p(1) unfolding h by (auto simp: t)
      show "entity_map t i \<noteq> 0 \<Longrightarrow> i < 256 \<and> entity_map t i \<in> set (entity_q t)" for i
        using d(10) [of i] by (simp add: t)
      show "entity_map t i = entity_map t j \<Longrightarrow> entity_map t i \<noteq> 0 \<Longrightarrow> i = j" for i j
        unfolding t by (rule d(11))
      show "x \<in> set (entity_q t) \<Longrightarrow> \<exists>i. entity_map t i = x" for x using d(12) by (simp add: t)
      show "x \<in> set (heap t) \<Longrightarrow> pu_e (pents t x) \<noteq> 0" for x using d(13) unfolding h by (simp add: t)
    qed
    then show ?thesis by (simp add: t_def)
  qed
qed


lemma proxy_free_ok [simp]:
  "proxy_ok (proxy_free p (ucallback e s)) = proxy_ok (proxy_free p s)"
  "proxy_ok (proxy_free p (upd_uent e f s)) = proxy_ok (proxy_free p s)"
  by (rule proxy_ok_cong; simp add: proxy_free_def)+

lemma proxy_rc_ok:
  assumes ok: "proxy_ok s" and run: "diva_um_idi_proxy_rc h_Id h_Rc h_Ch len s = (ret, s')"
  shows "proxy_ok s'"
proof -
  let ?ID = "h_Id mod 256" and ?p = "entity_map s (h_Id mod 256)"
  show ?thesis
  proof (cases "?p = 0")
    case False
    have "proxy_ok (proxy_free ?p (proxy_remove ?ID ?p s))" by (rule removed_ok [OF ok refl False])
    then show ?thesis using run False ok by (auto simp: diva_um_idi_proxy_rc_def Let_def split: if_splits)
  next
    case True
    show ?thesis
    proof (cases "\<exists>q qs. assign_q s = q # qs \<and> assign_pending (pents s q) \<and> \<not> request_pending (pents s q) \<and>
        pu_e (pents s q) \<noteq> 0 \<and> h_Rc mod 256 AND 0xf0 = UM_ASSIGN_RC")
      case False
      then have "s' = s" using run True by (auto simp: diva_um_idi_proxy_rc_def Let_def split: if_splits list.splits)
      then show ?thesis using ok by simp
    next
      case inner: True
      then obtain q qs where q: "assign_q s = q # qs" "\<not> request_pending (pents s q)"
        and "s' = assign_answer ?ID (h_Rc mod 256) q s"
        using run True by (auto simp: diva_um_idi_proxy_rc_def Let_def split: if_splits)
      then show ?thesis using assign_answer_ok [OF ok q(1) _ True q(2)] by simp
    qed
  qed
qed

lemma proxy_ind_ok:
  "proxy_ok s \<Longrightarrow> diva_um_idi_proxy_ind client h_Id h_Ind h_Ch len dat s = (ret, s') \<Longrightarrow> proxy_ok s'"
  by (auto simp: diva_um_idi_proxy_ind_def Let_def split: if_splits)

lemma proxy_write_ok:
  assumes "proxy_ok s" "diva_um_idi_proxy_write client cp src s = (ret, s')"
  shows "proxy_ok s'"
proof -
  let ?w = "\<lambda>k. rd16 (\<lambda>i. src ! i) k"
  consider "s' = s" | "diva_um_idi_proxy_rc (?w 0) (?w 2) (?w 4) (?w 6) s = (ret, s')"
    | "diva_um_idi_proxy_ind client (?w 0) (?w 2) (?w 4) (?w 6) (drop 8 src) s = (ret, s')"
    using assms(2) unfolding diva_um_idi_proxy_write_def Let_def by (auto split: if_splits)
  then show ?thesis
    using assms(1) proxy_rc_ok proxy_ind_ok by cases blast+
qed

lemma proxy_destroy_ok: "proxy_ok s \<Longrightarrow> proxy_ok (diva_um_idi_destroy_proxy s)"
proof (cases "registered s")
  case True
  assume ok: "proxy_ok s"
  define t where "t = diva_um_idi_destroy_proxy s"
  have "heap t = []" "entity_q t = []" "assign_q t = []" "req_q t = []" "entity_map t = (\<lambda>_. 0)"
    "pending_requests_q t = pending_requests_q s"
    using True proxy_okD(4) [OF ok] by (auto simp: t_def diva_um_idi_destroy_proxy_def)
  then have "proxy_ok t" using proxy_okD(14) [OF ok] by (simp add: proxy_ok_def)
  then show ?thesis by (simp add: t_def)
qed (simp add: diva_um_idi_destroy_proxy_def)

text \<open>C14: Whatever clients request, the process reads and writes, well formed or not, the tables of
  the adapter stay in agreement: the allocated proxy entities are exactly those of the two queues,
  the request queue holds each entity with an unread request once, and every \<open>Id\<close> of the table
  belongs to one entity of its own; closing the adapter frees all of them.\<close>

theorem proxy_keeps_ok:
  assumes "proxy_ok s" "malloc_ok malloc"
  shows "(e \<noteq> 0 \<longrightarrow> proxy_ok (diva_um_proxy_user_request e s)) \<and>
    proxy_ok (snd (snd (diva_um_idi_proxy_read malloc buf_ok max_length cp s))) \<and>
    proxy_ok (snd (diva_um_idi_proxy_write client cpw src s)) \<and>
    proxy_ok (diva_um_idi_destroy_proxy s) \<and> (registered s \<longrightarrow> heap (diva_um_idi_destroy_proxy s) = [])"
proof (intro conjI impI)
  show "e \<noteq> 0 \<Longrightarrow> proxy_ok (diva_um_proxy_user_request e s)" by (rule user_request_ok [OF assms(1)])
  show "proxy_ok (snd (snd (diva_um_idi_proxy_read malloc buf_ok max_length cp s)))"
    by (cases "diva_um_idi_proxy_read malloc buf_ok max_length cp s") (use proxy_read_ok [OF assms] in auto)
  show "proxy_ok (snd (diva_um_idi_proxy_write client cpw src s))"
    by (rule proxy_write_ok [OF assms(1)]) (rule surjective_pairing)
  show "proxy_ok (diva_um_idi_destroy_proxy s)" by (rule proxy_destroy_ok [OF assms(1)])
  show "registered s \<Longrightarrow> heap (diva_um_idi_destroy_proxy s) = []"
    using proxy_okD(4) [OF assms(1)] by (simp add: diva_um_idi_destroy_proxy_def)
qed


end
