(* ===== verification/UmProxyRun.thy ===== *)
theory UmProxyRun
  imports UmProxy "HOL-Library.Sublist"
begin

text \<open>
  What the functions of \<open>UmProxy\<close> do to the requests and indications: the order in which requests
  reach the process, the limit on entities, the data of an indication and the life of an entity.
\<close>

section \<open>The order of the requests\<close>

text \<open>The requests the process has still to read, and what a request of a client becomes.\<close>

definition unread :: "proxy \<Rightarrow> idi_req list" where
  "unread s = map (\<lambda>p. req_of (pents s p)) (req_q s)"

definition req_desc :: "um_entity \<Rightarrow> idi_req" where
  "req_desc u = (uId u, uReq u, uReqCh u, the (diva_copy_xdescr u REQ_DATA_SIZE))"

definition same_request :: "um_entity \<Rightarrow> um_entity \<Rightarrow> bool" where
  "same_request u v \<longleftrightarrow> uId u = uId v \<and> uReq u = uReq v \<and> uReqCh u = uReqCh v \<and> uX u = uX v"

lemma req_desc_same: "same_request u v \<Longrightarrow> req_desc u = req_desc v"
  by (simp add: same_request_def req_desc_def diva_copy_xdescr_def)

lemma same_request_trans: "same_request u v \<Longrightarrow> same_request v w \<Longrightarrow> same_request u w"
  by (simp add: same_request_def)

text \<open>A request that is taken over is queued unchanged, or answered with an error, or dropped
  because its entity has an unread request or is being removed.\<close>

definition taken :: "nat \<Rightarrow> proxy \<Rightarrow> proxy \<Rightarrow> bool" where
  "taken e s t \<longleftrightarrow> unread t = unread s @ [req_desc (uents s e)] \<and> ucalls t = ucalls s"

definition answered :: "nat \<Rightarrow> proxy \<Rightarrow> proxy \<Rightarrow> bool" where
  "answered e s t \<longleftrightarrow> unread t = unread s \<and>
     (\<exists>u. ucalls t = ucalls s @ [(e, u)] \<and> ucomplete u = 0xff \<and>
        uRc u \<in> {UM_ASSIGN_RC OR RC_WRONG_COMMAND, UM_ASSIGN_RC OR RC_OUT_OF_RESOURCES, RC_WRONG_ID})"

definition dropped :: "nat \<Rightarrow> proxy \<Rightarrow> bool" where
  "dropped e s \<longleftrightarrow>
     (let p = entity_map s (uId (uents s e)) in p \<noteq> 0 \<and> pu_e (pents s p) = e \<and> (request_pending (pents s p) \<or> remove_pending (pents s p)))"

lemma unread_cong: "req_q t = req_q s \<Longrightarrow> (\<And>p. p \<in> set (req_q s) \<Longrightarrow> req_of (pents t p) = req_of (pents s p)) \<Longrightarrow> unread t = unread s"
  by (simp add: unread_def)

lemma assign_outcome:
  assumes ok: "proxy_ok s" and m: "malloc_ok malloc"
  shows "taken e s (proxy_assign malloc e s) \<or> answered e s (proxy_assign malloc e s)"
proof -
  note d = proxy_okD [OF ok]
  let ?p = "malloc (heap s)" and ?t = "proxy_assign malloc e s"
  show ?thesis
  proof (cases "nr_entities s + 1 \<le> max_entities s \<and> ?p \<noteq> 0")
    case False
    then have "answered e s ?t"
      by (auto simp: answered_def proxy_assign_def assign_failed_def unread_def Let_def)
    then show ?thesis ..
  next
    case True
    show ?thesis
    proof (cases "diva_copy_xdescr (uents s e) REQ_DATA_SIZE")
      case None
      then have "answered e s ?t" using True by (simp add: answered_def proxy_assign_def assign_failed_def unread_def)
      then show ?thesis ..
    next
      case (Some dat)
      have "?p \<notin> set (req_q s)" using d(8) m True by (auto simp: malloc_ok_def)
      then have "taken e s ?t"
        using True Some by (auto simp: taken_def proxy_assign_def unread_def req_of_def req_desc_def Let_def)
      then show ?thesis ..
    qed
  qed
qed

lemma forward_outcome:
  assumes ok: "proxy_ok s"
  shows "taken e s (proxy_forward e s) \<or> answered e s (proxy_forward e s) \<or> proxy_forward e s = s \<and> dropped e s"
proof -
  note d = proxy_okD [OF ok]
  let ?p = "entity_map s (uId (uents s e))"
  show ?thesis
  proof (cases "?p = 0 \<or> pu_e (pents s ?p) \<noteq> e")
    case True
    then show ?thesis by (auto simp: answered_def proxy_forward_def wrong_id_def unread_def Let_def)
  next
    case p: False
    show ?thesis
    proof (cases "request_pending (pents s ?p) \<or> remove_pending (pents s ?p)")
      case True
      then show ?thesis using p by (simp add: proxy_forward_def dropped_def)
    next
      case False
      then have np: "?p \<notin> set (req_q s)" using d(8) by blast
      show ?thesis
      proof (cases "diva_copy_xdescr (uents s e) REQ_DATA_SIZE")
        case None
        have "unread (proxy_forward e s) = unread s"
          using None p False np by (auto simp: proxy_forward_def wrong_id_def unread_def)
        then have "answered e s (proxy_forward e s)"
          using None p False by (simp add: answered_def proxy_forward_def wrong_id_def)
        then show ?thesis by blast
      next
        case (Some dat)
        then have "taken e s (proxy_forward e s)"
          using p False np by (auto simp: taken_def proxy_forward_def unread_def req_of_def req_desc_def Let_def)
        then show ?thesis by blast
      qed
    qed
  qed
qed

text \<open>Every request of a client that the adapter takes over is queued for the process with its
  Id, code, channel and data and nothing is reported yet, or answered at once by one callback with
  an error code and not queued, or, when the entity still has an unread request or is being removed,
  ignored.\<close>

theorem proxy_take_outcome:
  assumes "proxy_ok s" "malloc_ok malloc"
  shows "taken e s (proxy_take malloc e s) \<or> answered e s (proxy_take malloc e s) \<or>
    proxy_take malloc e s = s \<and> dropped e s"
  using assign_outcome [OF assms] forward_outcome [OF assms(1)] by (auto simp: proxy_take_def)

lemma take_same_request: "same_request (uents (proxy_take malloc e s) x) (uents s x)"
  by (auto simp: proxy_take_def proxy_assign_def proxy_forward_def assign_failed_def wrong_id_def same_request_def Let_def
      split: option.splits)

lemma takes_in_order:
  assumes "malloc_ok malloc" "proxy_ok s" "0 \<notin> set es" "\<And>x. same_request (uents s x) (u x)"
  shows "\<exists>new. subseq new (map (\<lambda>e. req_desc (u e)) es) \<and> unread (fold (proxy_take malloc) es s) = unread s @ new"
  using assms(2-)
proof (induction es arbitrary: s)
  case (Cons e es)
  let ?t = "proxy_take malloc e s"
  have "proxy_ok ?t" using Cons.prems assms(1) by (simp add: proxy_take_ok)
  moreover have "same_request (uents ?t x) (u x)" for x
    using take_same_request Cons.prems(3) by (rule same_request_trans)
  ultimately obtain new where new: "subseq new (map (\<lambda>e. req_desc (u e)) es)"
    "unread (fold (proxy_take malloc) es ?t) = unread ?t @ new"
    using Cons.IH [of ?t] Cons.prems(2) by auto
  have e: "req_desc (uents s e) = req_desc (u e)" using Cons.prems(3) by (rule req_desc_same)
  from proxy_take_outcome [OF Cons.prems(1) assms(1), of e] consider
    "unread ?t = unread s @ [req_desc (u e)]" | "unread ?t = unread s"
    unfolding taken_def answered_def e by auto
  then show ?case
  proof cases
    case 1
    then show ?thesis using new by (intro exI [of _ "req_desc (u e) # new"]) simp
  next
    case 2
    then show ?thesis using new by (intro exI [of _ new]) (simp add: list_emb_Cons)
  qed
qed simp


lemma deliver_oldest:
  assumes ok: "proxy_ok s" and run: "proxy_deliver max_length cp s = (ret, r, s')"
  shows "unread s = (case r of None \<Rightarrow> [] | Some x \<Rightarrow> [x]) @ unread s'" "r \<noteq> None \<Longrightarrow> ret \<ge> 0"
proof -
  have "unread s = (case r of None \<Rightarrow> [] | Some x \<Rightarrow> [x]) @ unread s' \<and> (r \<noteq> None \<longrightarrow> ret \<ge> 0)"
  proof (cases r)
    case None
    then have "s' = s" using run by (auto simp: proxy_deliver_def Let_def split: list.splits if_splits)
    then show ?thesis using None by simp
  next
    case (Some x)
    with run obtain p ps where q: "req_q s = p # ps" "x = req_of (pents s p)" "ret \<ge> 0" and
      s': "s' = (upd_pent p (\<lambda>P. P\<lparr>remove_pending := (if hdr_Req P = UM_REMOVE then True else remove_pending P), request_pending := False\<rparr>) s)
                     \<lparr>req_q := ps\<rparr>"
      by (auto simp: proxy_deliver_def Let_def split: list.splits if_splits)
    have "p \<notin> set ps" using proxy_okD(7) [OF ok] q(1) by simp
    then show ?thesis using Some q by (auto simp: unread_def s' req_of_def)
  qed
  then show "unread s = (case r of None \<Rightarrow> [] | Some x \<Rightarrow> [x]) @ unread s'" "r \<noteq> None \<Longrightarrow> ret \<ge> 0" by simp_all
qed

text \<open>C21: Requests reach the process in the order of the clients' calls: a read hands out the oldest
  unread request, or none when the buffer is too small or the copy fails, and appends the requests it
  takes over behind the others in the order in which the clients made them.\<close>

theorem proxy_requests_in_order:
  assumes "proxy_ok s" "malloc_ok malloc" "diva_um_idi_proxy_read malloc buf_ok max_length cp s = (ret, r, s')"
  shows "\<exists>new. subseq new (map (\<lambda>e. req_desc (uents s e)) (pending_requests_q s)) \<and>
    unread s @ new = (case r of None \<Rightarrow> [] | Some x \<Rightarrow> [x]) @ unread s'"
proof -
  let ?s = "if pending_requests_q s \<noteq> [] \<and> buf_ok
        then fold (proxy_take malloc) (pending_requests_q s) (s\<lparr>pending_requests_q := []\<rparr>) else s"
  note np = proxy_ok_no_pending [OF assms(1)] and p0 = proxy_okD(14) [OF assms(1)]
  have ok: "proxy_ok ?s" using assms(1) proxy_takes_ok [OF np assms(2) p0] by simp
  have run: "proxy_deliver max_length cp ?s = (ret, r, s')" using assms(3) by (simp add: diva_um_idi_proxy_read_def)
  have "same_request (uents (s\<lparr>pending_requests_q := []\<rparr>) x) (uents s x)" for x by (simp add: same_request_def)
  from takes_in_order [OF assms(2) np p0 this] obtain new where
    new: "subseq new (map (\<lambda>e. req_desc (uents s e)) (pending_requests_q s))"
    "unread (fold (proxy_take malloc) (pending_requests_q s) (s\<lparr>pending_requests_q := []\<rparr>)) = unread s @ new"
    by (auto simp: unread_def)
  have "unread ?s = unread s @ (if pending_requests_q s \<noteq> [] \<and> buf_ok then new else [])" using new(2) by simp
  with deliver_oldest(1) [OF ok run]
  have "unread s @ (if pending_requests_q s \<noteq> [] \<and> buf_ok then new else []) = (case r of None \<Rightarrow> [] | Some x \<Rightarrow> [x]) @ unread s'"
    by simp
  then show ?thesis using new(1)
    by (intro exI [of _ "if pending_requests_q s \<noteq> [] \<and> buf_ok then new else []"]) simp
qed

section \<open>The limit of the entities\<close>

text \<open>The limit on the number of entities does not hold: an \<open>ASSIGN\<close> that is refused because the
  limit is reached still decrements the count of the entities, so that the next one is accepted
  although the adapter has \<open>max_entities\<close> entities already.\<close>

theorem proxy_limit_exceeded:
  assumes "proxy_ok s" "nr_entities s = max_entities s" "length (heap s) = max_entities s" "0 < max_entities s"
    "malloc (heap s) \<noteq> 0" "e1 \<noteq> e2" "uId (uents s e1) = 0" "uId (uents s e2) = 0"
    "diva_copy_xdescr (uents s e2) REQ_DATA_SIZE = Some dat"
  shows "answered e1 s (proxy_take malloc e1 s) \<and>
    length (heap (proxy_take malloc e2 (proxy_take malloc e1 s))) = max_entities s + 1"
proof -
  let ?t = "proxy_take malloc e1 s"
  have t: "?t = assign_failed e1 (\<lambda>u. u\<lparr>ucomplete := 0xff, uRc := UM_ASSIGN_RC OR RC_OUT_OF_RESOURCES, uRcCh := uReqCh u\<rparr>) s"
    using assms(2,7) by (simp add: proxy_take_def proxy_assign_def)
  have "answered e1 s ?t" unfolding t by (simp add: answered_def assign_failed_def unread_def)
  moreover have "heap ?t = heap s" "nr_entities ?t + 1 \<le> max_entities ?t" "uents ?t e2 = uents s e2"
    using assms(2,4,6) by (simp_all add: t assign_failed_def)
  then have "heap (proxy_take malloc e2 ?t) = malloc (heap s) # heap s"
    using assms(5,8,9) by (simp add: proxy_take_def proxy_assign_def Let_def)
  ultimately show ?thesis using assms(3) by simp
qed

section \<open>Received data\<close>

text \<open>The data in the first \<open>n\<close> buffers.\<close>

definition rx_data :: "nat \<Rightarrow> rx_buffer list \<Rightarrow> byte list" where
  "rx_data n bs = concat (map (\<lambda>b. take (rb_PLength b) (rb_bytes b)) (take n bs))"

lemma copy_ind_data:
  "(\<And>b. b \<in> set bs \<Longrightarrow> \<not> rb_null b) \<Longrightarrow> copy_ind bs d = (i, bs') \<Longrightarrow>
   rx_data i bs' = take (sum_list (map rb_PLength bs)) d \<and> i \<le> length bs \<and> length bs' = length bs \<and> (i = 0 \<longleftrightarrow> d = [] \<or> bs = [])"
proof (induction bs d arbitrary: i bs' rule: copy_ind.induct)
  case (1 d)
  then show ?case by (simp add: rx_data_def)
next
  case (2 b bs d)
  show ?case
  proof (cases "d = []")
    case True
    then show ?thesis using 2(3) by (simp add: rx_data_def)
  next
    case False
    let ?n = "min (rb_PLength b) (length d)"
    obtain k cs where c: "copy_ind bs (drop ?n d) = (k, cs)" by fastforce
    have IH: "rx_data k cs = take (sum_list (map rb_PLength bs)) (drop ?n d)" "k \<le> length bs" "length cs = length bs"
      using 2(1) [OF False refl refl _ c] 2(2) by auto
    have n: "\<not> rb_null b" using 2(2) by simp
    have i: "i = k + 1" "bs' = (if ?n \<noteq> 0 then b\<lparr>rb_bytes := take ?n d, rb_PLength := ?n\<rparr> else b) # cs"
      using 2(3) False c n by (auto simp: Let_def)
    have "take (rb_PLength b) d @ take m (drop ?n d) = take (rb_PLength b + m) d" for m
    proof (cases "rb_PLength b \<le> length d")
      case True
      then show ?thesis by (simp add: min_def take_add)
    next
      case False
      then show ?thesis by (simp add: min_def)
    qed
    moreover have "rx_data i bs' = take (rb_PLength b) d @ rx_data k cs"
      using False by (auto simp: i rx_data_def min_def)
    ultimately show ?thesis using IH i False by simp
  qed
qed


definition rx_room :: "um_entity \<Rightarrow> nat" where
  "rx_room u = sum_list (map rb_PLength (take (uRNum u) (uR u)))"

definition rx_buffers_ok :: "um_entity \<Rightarrow> bool" where
  "rx_buffers_ok u \<longleftrightarrow> uRNum u \<le> length (uR u) \<and> uRNum u < 256 \<and> (\<forall>b \<in> set (take (uRNum u) (uR u)). \<not> rb_null b)"

lemma copy_ind_to_user_data:
  assumes "rx_buffers_ok u" "length d \<le> rx_room u"
  shows "rx_data (uRNum (diva_um_idi_proxy_copy_ind_to_user d u)) (uR (diva_um_idi_proxy_copy_ind_to_user d u)) = d"
    "ucomplete (diva_um_idi_proxy_copy_ind_to_user d u) = ucomplete u" "uInd (diva_um_idi_proxy_copy_ind_to_user d u) = uInd u"
    "uIndCh (diva_um_idi_proxy_copy_ind_to_user d u) = uIndCh u"
proof -
  let ?bs = "take (uRNum u) (uR u)"
  obtain i bs' where c: "copy_ind ?bs d = (i, bs')" by fastforce
  have "\<And>b. b \<in> set ?bs \<Longrightarrow> \<not> rb_null b" using assms(1) by (simp add: rx_buffers_ok_def)
  from copy_ind_data [OF this c] have i: "rx_data i bs' = d" "i \<le> length bs'" "i < 256"
    using assms by (simp_all add: rx_room_def rx_buffers_ok_def)
  have "rx_data i (bs' @ drop (uRNum u) (uR u)) = d" using i by (simp add: rx_data_def)
  then show "rx_data (uRNum (diva_um_idi_proxy_copy_ind_to_user d u)) (uR (diva_um_idi_proxy_copy_ind_to_user d u)) = d"
    using c i(3) by (cases "i = 0") (simp_all add: diva_um_idi_proxy_copy_ind_to_user_def rx_data_def)
  show "ucomplete (diva_um_idi_proxy_copy_ind_to_user d u) = ucomplete u" "uInd (diva_um_idi_proxy_copy_ind_to_user d u) = uInd u"
    "uIndCh (diva_um_idi_proxy_copy_ind_to_user d u) = uIndCh u"
    using c by (simp_all add: diva_um_idi_proxy_copy_ind_to_user_def Let_def)
qed

text \<open>The entity as an indication shows it to the client.\<close>

definition shown :: "nat \<Rightarrow> nat \<Rightarrow> byte list \<Rightarrow> um_entity \<Rightarrow> um_entity" where
  "shown Ind Ch d u = u\<lparr>uInd := Ind mod 256, uIndCh := Ch mod 256, ucomplete := (if length d \<le> LOOK_AHEAD_SIZE then 1 else 0),
     uRLength := length d, uRNum := 0, uRNR := 0, uRBuffer := take LOOK_AHEAD_SIZE d\<rparr>"

text \<open>C26: An indication the process writes for an entity is shown to its client with the total
  length and the first 270 bytes; if the client answers with buffers that are large enough, it is
  called a second time and finds exactly the data of the indication in them; the process is told
  that all of it was taken.\<close>

theorem proxy_ind_delivered:
  assumes "entity_map s (h_Id mod 256) = p" "p \<noteq> 0" "pu_e (pents s p) = e" "e \<noteq> 0" "\<not> remove_pending (pents s p)"
    and u: "u = client (shown h_Ind h_Ch d (uents s e))" "uRNR u = 0" "uRNum u \<noteq> 0" "rx_buffers_ok u" "length d \<le> rx_room u"
  shows "\<exists>s' v. diva_um_idi_proxy_ind client h_Id h_Ind h_Ch (length d) d s = (int (length d + 8), s') \<and>
    ucalls s' = ucalls s @ [(e, shown h_Ind h_Ch d (uents s e)), (e, v)] \<and>
    ucomplete v = 2 \<and> uInd v = h_Ind mod 256 \<and> rx_data (uRNum v) (uR v) = d"
proof -
  let ?v = "diva_um_idi_proxy_copy_ind_to_user d (u\<lparr>uInd := h_Ind mod 256, ucomplete := 2\<rparr>)"
  let ?s1 = "ucallback e (upd_uent e (shown h_Ind h_Ch d) s)"
  have "rx_buffers_ok (u\<lparr>uInd := h_Ind mod 256, ucomplete := 2\<rparr>)" "length d \<le> rx_room (u\<lparr>uInd := h_Ind mod 256, ucomplete := 2\<rparr>)"
    using u(4,5) by (simp_all add: rx_buffers_ok_def rx_room_def)
  note v = copy_ind_to_user_data [OF this]
  have sh: "(\<lambda>u. u\<lparr>uInd := h_Ind mod 256, uIndCh := h_Ch mod 256,
                      ucomplete := (if length d \<le> LOOK_AHEAD_SIZE then 1 else 0), uRLength := length d, uRNum := 0, uRNR := 0,
                      uRBuffer := take LOOK_AHEAD_SIZE d\<rparr>) = shown h_Ind h_Ch d"
    by (simp add: shown_def fun_eq_iff)
  have "diva_um_idi_proxy_ind client h_Id h_Ind h_Ch (length d) d s =
      (int (length d + 8), ucallback e (upd_uent e (\<lambda>u. diva_um_idi_proxy_copy_ind_to_user d (u\<lparr>uInd := h_Ind mod 256, ucomplete := 2\<rparr>))
         (upd_uent e client ?s1)))"
    using assms(1-5) u(1-3) unfolding diva_um_idi_proxy_ind_def sh by (simp add: Let_def)
  then show ?thesis using v u(1) by (intro exI [of _ "ucallback e (upd_uent e (\<lambda>u. diva_um_idi_proxy_copy_ind_to_user d (u\<lparr>uInd := h_Ind mod 256, ucomplete := 2\<rparr>))
         (upd_uent e client ?s1))"] exI [of _ ?v]) simp
qed

section \<open>The life of an entity\<close>

text \<open>C27: The life of an entity: its \<open>ASSIGN\<close> is handed to the process; the process answers with an
  \<open>Id\<close>, which from then on denotes the entity and is reported to its client; when the process reports
  that a REMOVE is complete, the client is told and has no \<open>Id\<close> any more, the table entry is free and
  so is the memory: the adapter is as before.\<close>

theorem proxy_life_of_entity:
  assumes "registered s" "pending_requests_q s = []" "req_q s = []" "assign_q s = []" "entity_map s ID = 0"
    and "nr_entities s < max_entities s" "malloc (heap s) = p" "p \<noteq> 0" "p \<notin> set (entity_q s)"
    and e: "e \<noteq> 0" "uId (uents s e) = 0" "diva_copy_xdescr (uents s e) REQ_DATA_SIZE = Some d" "ID < 256"
    and cp: "cp (8 + length d) \<ge> 0" "8 + length d \<le> max_length"
  shows "\<exists>s1 s2 s3.
    diva_um_idi_proxy_read malloc True max_length cp (diva_um_proxy_user_request e s) =
      (cp (8 + length d), Some (0, uReq (uents s e), uReqCh (uents s e), d), s1) \<and> ucalls s1 = ucalls s \<and>
    diva_um_idi_proxy_rc ID UM_ASSIGN_OK 0 0x8000 s1 = (8, s2) \<and> entity_map s2 ID = p \<and> pu_e (pents s2 p) = e \<and>
    (\<exists>u. ucalls s2 = ucalls s @ [(e, u)] \<and> uId u = ID \<and> uRc u = UM_ASSIGN_OK) \<and>
    diva_um_idi_proxy_rc ID 0xff 0 0x8001 s2 = (8, s3) \<and>
    (\<exists>u v. ucalls s3 = ucalls s @ [(e, u), (e, v)] \<and> uId v = 0 \<and> uRc v = 0xff) \<and>
    entity_map s3 = entity_map s \<and> entity_q s3 = entity_q s \<and> assign_q s3 = [] \<and> req_q s3 = [] \<and>
    heap s3 = heap s \<and> nr_entities s3 = nr_entities s"
proof -
  let ?r = "diva_um_proxy_user_request e s"
  have r: "pending_requests_q ?r = [e]" "uents ?r e = (uents s e)\<lparr>uNo := 1\<rparr>" "req_q ?r = []" "assign_q ?r = []"
    "heap ?r = heap s" "nr_entities ?r = nr_entities s" "max_entities ?r = max_entities s" "registered ?r"
    "entity_map ?r = entity_map s" "entity_q ?r = entity_q s" "ucalls ?r = ucalls s"
    using assms(1-4) by (simp_all add: diva_um_proxy_user_request_def)
  have copy: "diva_copy_xdescr ((uents s e)\<lparr>uNo := 1\<rparr>) REQ_DATA_SIZE = Some d" using e(3) by (simp add: diva_copy_xdescr_def)
  let ?t = "proxy_take malloc e (?r\<lparr>pending_requests_q := []\<rparr>)"
  let ?P = "\<lparr>pu_e = e, request_pending = True, assign_pending = True, remove_pending = False,
      hdr_Id = 0, hdr_Req = uReq (uents s e), hdr_Ch = uReqCh (uents s e), hdr_data = d\<rparr>"
  have t: "pents ?t p = ?P" "req_q ?t = [p]" "assign_q ?t = [p]" "entity_q ?t = entity_q s" "heap ?t = p # heap s"
    "registered ?t" "entity_map ?t = entity_map s" "ucalls ?t = ucalls s" "nr_entities ?t = nr_entities s + 1"
    using r copy assms(6-8) e(2) by (simp_all add: proxy_take_def proxy_assign_def Let_def)
  define s1 where "s1 = (upd_pent p (\<lambda>P. P\<lparr>remove_pending := (if hdr_Req P = UM_REMOVE then True else remove_pending P),
      request_pending := False\<rparr>) ?t)\<lparr>req_q := []\<rparr>"
  have read: "diva_um_idi_proxy_read malloc True max_length cp ?r =
      (cp (8 + length d), Some (0, uReq (uents s e), uReqCh (uents s e), d), s1)"
    using cp r(1) t by (simp add: diva_um_idi_proxy_read_def proxy_deliver_def req_of_def s1_def)
  have s1: "assign_q s1 = [p]" "assign_pending (pents s1 p)" "\<not> request_pending (pents s1 p)" "pu_e (pents s1 p) = e"
    "entity_map s1 = entity_map s" "entity_q s1 = entity_q s" "req_q s1 = []" "heap s1 = p # heap s" "ucalls s1 = ucalls s"
    "nr_entities s1 = nr_entities s + 1"
    using t by (simp_all add: s1_def)
  define s2 where "s2 = assign_answer ID UM_ASSIGN_OK p s1"
  have ID: "ID mod 256 = ID" using e(4) by simp
  have rc1: "diva_um_idi_proxy_rc ID UM_ASSIGN_OK 0 0x8000 s1 = (8, s2)"
    using s1 assms(5,8) e(1) by (simp add: diva_um_idi_proxy_rc_def ID s2_def Let_def)
  have s2: "assign_q s2 = []" "\<not> assign_pending (pents s2 p)" "\<not> request_pending (pents s2 p)" "pu_e (pents s2 p) = e"
    "entity_map s2 = (entity_map s)(ID := p)" "entity_q s2 = entity_q s @ [p]" "req_q s2 = []" "heap s2 = p # heap s"
    "nr_entities s2 = nr_entities s + 1"
    using s1 by (simp_all add: s2_def assign_answer_def Let_def)
  obtain u where u: "ucalls s2 = ucalls s @ [(e, u)]" "uId u = ID" "uRc u = UM_ASSIGN_OK"
    using s1 by (simp add: s2_def assign_answer_def Let_def)
  let ?f = "\<lambda>u. u\<lparr>ucomplete := 0xff, uId := 0, uRc := 0xff, uRcCh := 0\<rparr>"
  define s3 where "s3 = proxy_free p (ucallback e (upd_uent e ?f (proxy_remove ID p s2)))"
  have rc2: "diva_um_idi_proxy_rc ID 0xff 0 0x8001 s2 = (8, s3)"
    using s2 assms(8) e(1) by (simp add: diva_um_idi_proxy_rc_def ID s3_def Let_def)
  have s3: "assign_q s3 = []" "entity_map s3 = entity_map s" "entity_q s3 = entity_q s" "req_q s3 = []" "heap s3 = heap s"
    "nr_entities s3 = nr_entities s" "\<exists>v. ucalls s3 = ucalls s2 @ [(e, v)] \<and> uId v = 0 \<and> uRc v = 0xff"
    using s2 assms(5,9) by (auto simp: s3_def proxy_free_def proxy_remove_def remove1_append)
  show ?thesis
    using read s1(9) rc1 s2(4,5) u rc2 s3 by (intro exI [of _ s1] exI [of _ s2] exI [of _ s3]) auto
qed


section \<open>Examples\<close>

definition client0 :: um_entity where
  "client0 = \<lparr>uReq = 1, uReqCh = 0, uId = 0, uX = [Some [1, 2], None, Some [3]], uRc = 0, uRcCh = 0, uNo = 0, uInd = 0, uIndCh = 0,
     ucomplete = 0, uRLength = 0, uRBuffer = [], uRNR = 0, uRNum = 0, uR = []\<rparr>"

definition pent0 :: proxy_entity where
  "pent0 = \<lparr>pu_e = 9, request_pending = False, assign_pending = False, remove_pending = False, hdr_Id = 0, hdr_Req = 1, hdr_Ch = 0,
     hdr_data = []\<rparr>"

text \<open>An adapter for one entity without any, and with one that has the \<open>Id\<close> 1.\<close>

definition proxy0 :: proxy where
  "proxy0 = \<lparr>registered = True, max_entities = 1, nr_entities = 0, entity_map = (\<lambda>_. 0), pending_requests_q = [], entity_q = [],
     assign_q = [], req_q = [], pents = (\<lambda>_. pent0), heap = [], uents = (\<lambda>_. client0), ucalls = []\<rparr>"

definition proxy1 :: proxy where
  "proxy1 = proxy0\<lparr>nr_entities := 1, entity_map := (\<lambda>_. 0)(1 := 5), entity_q := [5], heap := [5]\<rparr>"

definition malloc0 :: "nat list \<Rightarrow> nat" where
  "malloc0 h = Suc (sum_list h)"

lemma malloc0_ok: "malloc_ok malloc0"
proof -
  have "x \<in> set h \<Longrightarrow> x \<le> sum_list h" for x :: nat and h by (induction h) auto
  then show ?thesis by (fastforce simp: malloc_ok_def malloc0_def)
qed

lemma proxy0_ok: "proxy_ok proxy0"
  by (simp add: proxy_ok_def proxy0_def)

lemma proxy1_ok: "proxy_ok proxy1"
  by (rule proxy_okI) (auto simp: proxy1_def proxy0_def pent0_def split: if_splits)

lemma client0_data: "diva_copy_xdescr client0 REQ_DATA_SIZE = Some [1, 2, 3]"
  by (simp add: diva_copy_xdescr_def client0_def)

theorem proxy_keeps_ok_witness:
  "proxy_ok (snd (snd (diva_um_idi_proxy_read malloc0 True 100 int proxy1))) \<and> proxy_ok (snd (diva_um_idi_proxy_write id 8 [1, 0, 0xff, 0, 0, 0, 1, 0x80] proxy1))"
  using proxy_keeps_ok [OF proxy1_ok malloc0_ok, of 3 True 100 int id 8 "[1, 0, 0xff, 0, 0, 0, 1, 0x80]"] by blast

theorem proxy_take_outcome_witness:
  "taken 9 proxy0 (proxy_take malloc0 9 proxy0) \<or> answered 9 proxy0 (proxy_take malloc0 9 proxy0) \<or>
    proxy_take malloc0 9 proxy0 = proxy0 \<and> dropped 9 proxy0"
  by (rule proxy_take_outcome [OF proxy0_ok malloc0_ok])

theorem proxy_requests_in_order_witness:
  "\<exists>ret r s' new. diva_um_idi_proxy_read malloc0 True 100 int (diva_um_proxy_user_request 9 proxy0) = (ret, r, s') \<and>
     subseq new [(0, 1, 0, [1, 2, 3])] \<and> new = (case r of None \<Rightarrow> [] | Some x \<Rightarrow> [x]) @ unread s'"
proof -
  let ?s = "diva_um_proxy_user_request 9 proxy0"
  obtain ret r s' where run: "diva_um_idi_proxy_read malloc0 True 100 int ?s = (ret, r, s')" by (metis prod_cases3)
  have ok: "proxy_ok ?s" by (rule user_request_ok [OF proxy0_ok]) simp
  have s: "pending_requests_q ?s = [9]" "uents ?s 9 = client0\<lparr>uNo := 1\<rparr>" "unread ?s = []"
    by (simp_all add: diva_um_proxy_user_request_def proxy0_def unread_def)
  have "req_desc (client0\<lparr>uNo := 1\<rparr>) = (0, 1, 0, [1, 2, 3])"
    by (simp add: req_desc_def diva_copy_xdescr_def client0_def)
  with proxy_requests_in_order [OF ok malloc0_ok run] show ?thesis
    using run s by (intro exI [of _ ret] exI [of _ r] exI [of _ s']) auto
qed

theorem proxy_limit_exceeded_witness:
  "length (heap proxy1) = 1 \<and> max_entities proxy1 = 1 \<and> length (heap (proxy_take malloc0 11 (proxy_take malloc0 10 proxy1))) = 2"
  using proxy_limit_exceeded [OF proxy1_ok, of malloc0 10 11 "[1, 2, 3]"] client0_data
  by (simp add: proxy1_def proxy0_def malloc0_def) (simp add: client0_def)

definition accept_client :: "um_entity \<Rightarrow> um_entity" where
  "accept_client u = u\<lparr>uRNum := 2, uR := [\<lparr>rb_PLength = 2, rb_null = False, rb_bytes = [0, 0]\<rparr>, \<lparr>rb_PLength = 10, rb_null = False, rb_bytes = replicate 10 0\<rparr>]\<rparr>"

theorem proxy_ind_delivered_witness:
  "\<exists>s' v. diva_um_idi_proxy_ind accept_client 1 8 0 3 [7, 8, 9] proxy1 = (11, s') \<and> last (ucalls s') = (9, v) \<and>
     rx_data (uRNum v) (uR v) = [7, 8, 9]"
proof -
  let ?u = "accept_client (shown 8 0 [7, 8, 9] (uents proxy1 9))"
  have "uRNR ?u = 0" "uRNum ?u \<noteq> 0" "rx_buffers_ok ?u" "length [7, 8, 9 :: byte] \<le> rx_room ?u"
    by (simp_all add: accept_client_def shown_def rx_buffers_ok_def rx_room_def)
  moreover have "entity_map proxy1 (1 mod 256) = 5" "pu_e (pents proxy1 5) = 9" "\<not> remove_pending (pents proxy1 5)"
    by (simp_all add: proxy1_def proxy0_def pent0_def)
  ultimately obtain s' v where r: "diva_um_idi_proxy_ind accept_client 1 8 0 (length [7, 8, 9 :: byte]) [7, 8, 9] proxy1 =
      (int (length [7, 8, 9 :: byte] + 8), s')" "ucalls s' = ucalls proxy1 @ [(9, shown 8 0 [7, 8, 9] (uents proxy1 9)), (9, v)]"
    "rx_data (uRNum v) (uR v) = [7, 8, 9]"
    using proxy_ind_delivered [of proxy1 1 5 9 ?u accept_client 8 0 "[7, 8, 9]"] by auto
  then show ?thesis by (intro exI [of _ s'] exI [of _ v]) (simp add: numeral_3_eq_3)
qed

theorem proxy_life_of_entity_witness:
  "\<exists>s1 s2. diva_um_idi_proxy_read malloc0 True 100 int (diva_um_proxy_user_request 9 proxy0) = (11, Some (0, 1, 0, [1, 2, 3]), s1) \<and>
     diva_um_idi_proxy_rc 7 UM_ASSIGN_OK 0 0x8000 s1 = (8, s2) \<and> entity_map s2 7 = 1"
proof -
  have u: "uents proxy0 9 = client0" "uId client0 = 0" "uReq client0 = 1" "uReqCh client0 = 0"
    by (simp_all add: proxy0_def client0_def)
  from proxy_life_of_entity [of proxy0 7 malloc0 1 9 "[1, 2, 3]" int 100] client0_data u show ?thesis
    by (auto simp: proxy0_def malloc0_def)
qed

end
